(* ===== verification/Vpn_Prelude.thy ===== *)
theory Vpn_Prelude
  imports Main "HOL-Library.Word" "HOL-Library.Multiset"
begin

text \<open>
  Shared vocabulary of the development: the types every component uses (bytes, IPv4 addresses,
  instants, I/O errors and results), the parts of the Rust standard library that several components
  call (\<open>Result\<close> chaining, saturating counters, \<open>Vec::swap_remove\<close>, \<open>Vec::retain\<close>, the poll of a
  predicate over a list), and the generic lemmas on lists and multisets the component proofs rest
  on. Collections of simplification rules are declared here and filled by the components.

  Time: an \<open>Instant\<close> and a \<open>Duration\<close> are natural numbers of nanoseconds on one monotonic clock;
  \<open>saturating_duration_since\<close> and \<open>elapsed\<close> are then the truncated difference.
\<close>

unbundle bit_operations_syntax

named_theorems result_simps \<open>equations that run code returning a result\<close>
named_theorems inv_intros \<open>preservation of invariants by single operations\<close>

section \<open>Types\<close>

type_synonym byte = "8 word"
type_synonym ipv4 = "32 word"
type_synonym instant = nat
type_synonym duration = nat

text \<open>\<open>Duration::from_secs\<close> and \<open>Duration::from_millis\<close>.\<close>

definition seconds :: "nat \<Rightarrow> duration" where
  "seconds n = n * 1000000000"

definition millis :: "nat \<Rightarrow> duration" where
  "millis n = n * 1000000"

text \<open>\<open>std::io::ErrorKind\<close>, as far as the program distinguishes it.\<close>

datatype error_kind =
    InvalidInput | InvalidData | WriteZero | PermissionDenied | WouldBlock | Interrupted
  | TimedOut | BrokenPipe | NotFound | AddrInUse | ConnectionRefused | UnexpectedEof | OtherKind

record io_error =
  kind :: error_kind
  raw_os_error :: "int option"
  message :: string

type_synonym 'a io_result = "io_error + 'a"

text \<open>\<open>io::Error::new(kind, message)\<close>, \<open>io::Error::other(message)\<close>, \<open>io::Error::from(kind)\<close>.\<close>

definition error_new :: "error_kind \<Rightarrow> string \<Rightarrow> io_error" where
  "error_new k m = \<lparr>kind = k, raw_os_error = None, message = m\<rparr>"

definition error_other :: "string \<Rightarrow> io_error" where
  "error_other m = error_new OtherKind m"

definition error_from_kind :: "error_kind \<Rightarrow> io_error" where
  "error_from_kind k = error_new k ''''"

lemma error_kind_simps [simp]:
  "kind (error_new k m) = k"
  "kind (error_other m) = OtherKind"
  "kind (error_from_kind k) = k"
  "raw_os_error (error_new k m) = None"
  "raw_os_error (error_other m) = None"
  "raw_os_error (error_from_kind k) = None"
  "message (error_new k m) = m"
  "message (error_other m) = m"
  by (simp_all add: error_new_def error_other_def error_from_kind_def)

section \<open>Results\<close>

text \<open>The question mark operator and \<open>Result::and_then\<close>: stop at the first error.\<close>

definition and_then :: "'e + 'a \<Rightarrow> ('a \<Rightarrow> 'e + 'b) \<Rightarrow> 'e + 'b" where
  "and_then r f = (case r of Inl e \<Rightarrow> Inl e | Inr x \<Rightarrow> f x)"

text \<open>\<open>Option::ok_or\<close>.\<close>

definition ok_or :: "'e \<Rightarrow> 'a option \<Rightarrow> 'e + 'a" where
  "ok_or e v = (case v of None \<Rightarrow> Inl e | Some x \<Rightarrow> Inr x)"

definition is_ok :: "'e + 'a \<Rightarrow> bool" where
  "is_ok r = (case r of Inl _ \<Rightarrow> False | Inr _ \<Rightarrow> True)"

lemma and_then_simps [simp, result_simps]:
  "and_then (Inl e) f = Inl e"
  "and_then (Inr x) f = f x"
  by (simp_all add: and_then_def)

lemma and_then_eq_Inr: "and_then r f = Inr y \<longleftrightarrow> (\<exists>x. r = Inr x \<and> f x = Inr y)"
  by (auto simp: and_then_def split: sum.splits)

lemma and_then_eq_Inl: "and_then r f = Inl e \<longleftrightarrow> r = Inl e \<or> (\<exists>x. r = Inr x \<and> f x = Inl e)"
  by (auto simp: and_then_def split: sum.splits)

lemma ok_or_simps [simp, result_simps]:
  "ok_or e None = Inl e"
  "ok_or e (Some x) = Inr x"
  by (simp_all add: ok_or_def)

lemma ok_or_eq_Inr: "ok_or e v = Inr x \<longleftrightarrow> v = Some x"
  by (auto simp: ok_or_def split: option.splits)

lemma is_ok_simps [simp, result_simps]:
  "is_ok (Inl e) = False"
  "is_ok (Inr x) = True"
  by (simp_all add: is_ok_def)

lemma is_ok_iff: "is_ok r \<longleftrightarrow> (\<exists>x. r = Inr x)"
  by (auto simp: is_ok_def split: sum.splits)

lemma is_ok_and_then: "is_ok (and_then r f) \<longleftrightarrow> (\<exists>x. r = Inr x \<and> is_ok (f x))"
  by (auto simp: and_then_def split: sum.splits)

section \<open>Unsigned 64-bit counters\<close>

text \<open>\<open>u64::saturating_add\<close>, on the natural numbers below \<open>2 ^ 64\<close>.\<close>

definition u64_max :: nat where
  "u64_max = 2 ^ 64 - 1"

definition saturating_add :: "nat \<Rightarrow> nat \<Rightarrow> nat" where
  "saturating_add a b = min (a + b) u64_max"

lemma saturating_add_le: "saturating_add a b \<le> u64_max"
  by (simp add: saturating_add_def)

lemma saturating_add_mono: "a \<le> u64_max \<Longrightarrow> a \<le> saturating_add a b"
  by (simp add: saturating_add_def)

lemma saturating_add_exact: "a + b \<le> u64_max \<Longrightarrow> saturating_add a b = a + b"
  by (simp add: saturating_add_def)

section \<open>Vectors\<close>

text \<open>
  \<open>Vec::swap_remove(i)\<close> replaces element \<open>i\<close> by the last one and shortens the vector. Out of
  range the Rust method panics; every caller passes an index it found in the vector, and the model
  leaves the list alone there.
\<close>

definition swap_remove :: "nat \<Rightarrow> 'a list \<Rightarrow> 'a list" where
  "swap_remove i xs = (if i < length xs then butlast (xs[i := last xs]) else xs)"

lemma mset_swap_remove:
  assumes "i < length xs"
  shows "mset xs = add_mset (xs ! i) (mset (swap_remove i xs))"
proof -
  have ne: "xs \<noteq> []" using assms by auto
  have ne': "xs[i := last xs] \<noteq> []" using ne by simp
  have last: "last (xs[i := last xs]) = last xs"
    using ne assms by (simp add: last_list_update)
  have "mset (xs[i := last xs]) = add_mset (last xs) (mset (swap_remove i xs))"
    using append_butlast_last_id [OF ne'] assms last
    by (metis mset.simps(2) mset_append add_mset_add_single swap_remove_def union_commute
        mset_single_iff_right append_Nil mset.simps(1))
  moreover have "mset (xs[i := last xs]) = add_mset (last xs) (mset xs - {#xs ! i#})"
    using assms by (simp add: mset_update)
  ultimately have "mset (swap_remove i xs) = mset xs - {#xs ! i#}" by simp
  then show ?thesis using assms by (simp add: insert_DiffM)
qed

lemma length_swap_remove: "i < length xs \<Longrightarrow> length (swap_remove i xs) = length xs - 1"
  by (simp add: swap_remove_def)

lemma mset_swap_remove_subset: "mset (swap_remove i xs) \<subseteq># mset xs"
proof (cases "i < length xs")
  case True
  then show ?thesis using mset_swap_remove [OF True] by simp
next
  case False
  then show ?thesis by (simp add: swap_remove_def)
qed

lemma set_swap_remove_subset: "set (swap_remove i xs) \<subseteq> set xs"
  using set_mset_mono [OF mset_swap_remove_subset [of i xs]] by simp

lemma nth_swap_remove_less:
  assumes "i < j" "j < length xs"
  shows "swap_remove j xs ! i = xs ! i"
  using assms by (simp add: swap_remove_def nth_butlast)

lemma take_swap_remove: "i < length xs \<Longrightarrow> take i (swap_remove i xs) = take i xs"
  by (simp add: swap_remove_def take_butlast take_update_cancel)

text \<open>A list of removals in descending order of index.\<close>

fun swap_remove_all :: "nat list \<Rightarrow> 'a list \<Rightarrow> 'a list" where
  "swap_remove_all [] xs = xs"
| "swap_remove_all (i # is) xs = swap_remove_all is (swap_remove i xs)"

section \<open>Positions\<close>

text \<open>\<open>Iterator::position\<close>: the first index that satisfies a predicate.\<close>

fun position :: "('a \<Rightarrow> bool) \<Rightarrow> 'a list \<Rightarrow> nat option" where
  "position P [] = None"
| "position P (x # xs) = (if P x then Some 0 else map_option Suc (position P xs))"

lemma position_Some: "position P xs = Some i \<Longrightarrow> i < length xs \<and> P (xs ! i)"
proof (induction xs arbitrary: i)
  case Nil
  then show ?case by simp
next
  case (Cons x xs)
  then show ?case by (auto split: if_splits)
qed

lemma position_None: "position P xs = None \<longleftrightarrow> (\<forall>x \<in> set xs. \<not> P x)"
  by (induction xs) auto

lemma position_first: "position P xs = Some i \<Longrightarrow> j < i \<Longrightarrow> \<not> P (xs ! j)"
proof (induction xs arbitrary: i j)
  case Nil
  then show ?case by simp
next
  case (Cons x xs)
  then show ?case by (cases j) (auto split: if_splits)
qed

section \<open>Counting\<close>

definition count_where :: "('a \<Rightarrow> bool) \<Rightarrow> 'a list \<Rightarrow> nat" where
  "count_where P xs = length (filter P xs)"

lemma count_where_simps [simp]:
  "count_where P [] = 0"
  "count_where P (x # xs) = (if P x then Suc (count_where P xs) else count_where P xs)"
  "count_where P (xs @ ys) = count_where P xs + count_where P ys"
  by (simp_all add: count_where_def)

lemma count_where_mset: "count_where P xs = size (filter_mset P (mset xs))"
  by (simp add: count_where_def flip: mset_filter)

lemma count_where_mono:
  "mset xs \<subseteq># mset ys \<Longrightarrow> count_where P xs \<le> count_where P ys"
  by (simp add: count_where_mset multiset_filter_mono size_mset_mono)

lemma count_where_le_length: "count_where P xs \<le> length xs"
  by (simp add: count_where_def)

lemma count_where_split: "count_where P xs + count_where (\<lambda>x. \<not> P x) xs = length xs"
  by (simp add: count_where_def sum_length_filter_compl)

lemma count_where_swap_remove:
  "i < length xs \<Longrightarrow>
   count_where P (swap_remove i xs) = count_where P xs - (if P (xs ! i) then 1 else 0)"
  using mset_swap_remove [of i xs] by (simp add: count_where_mset)

lemma count_where_pos: "i < length xs \<Longrightarrow> P (xs ! i) \<Longrightarrow> 0 < count_where P xs"
  by (auto simp: count_where_def filter_empty_conv)

lemma count_where_update:
  "i < length xs \<Longrightarrow>
   count_where P (xs[i := y]) + (if P (xs ! i) then 1 else 0) =
   count_where P xs + (if P y then 1 else 0)"
proof (induction xs arbitrary: i)
  case Nil
  then show ?case by simp
next
  case (Cons x xs)
  then show ?case by (cases i) (auto split: if_splits)
qed

section \<open>Extreme elements\<close>

text \<open>
  \<open>max_by_key\<close> and \<open>min_by_key\<close> over the enumerated elements that satisfy a condition: the index of
  the last greatest and of the first least one. The fold carries the best index and key so far.
\<close>

fun pick_best :: "('k \<Rightarrow> 'k \<Rightarrow> bool) \<Rightarrow> ('a \<Rightarrow> bool) \<Rightarrow> ('a \<Rightarrow> 'k) \<Rightarrow> nat \<Rightarrow> (nat \<times> 'k) option \<Rightarrow>
    'a list \<Rightarrow> (nat \<times> 'k) option" where
  "pick_best better P key i best [] = best"
| "pick_best better P key i best (x # xs) =
     pick_best better P key (Suc i)
       (if P x \<and> (case best of None \<Rightarrow> True | Some (_, k) \<Rightarrow> better (key x) k) then Some (i, key x) else best) xs"

definition max_index :: "('a \<Rightarrow> bool) \<Rightarrow> ('a \<Rightarrow> 'k :: linorder) \<Rightarrow> 'a list \<Rightarrow> nat option" where
  "max_index P key xs = map_option fst (pick_best (\<lambda>a b. b \<le> a) P key 0 None xs)"

definition min_index :: "('a \<Rightarrow> bool) \<Rightarrow> ('a \<Rightarrow> 'k :: linorder) \<Rightarrow> 'a list \<Rightarrow> nat option" where
  "min_index P key xs = map_option fst (pick_best (<) P key 0 None xs)"

text \<open>A best element is an element that no other one beats; a total order decides both variants.\<close>

definition best_of :: "('k \<Rightarrow> 'k \<Rightarrow> bool) \<Rightarrow> ('a \<Rightarrow> bool) \<Rightarrow> ('a \<Rightarrow> 'k) \<Rightarrow> 'a list \<Rightarrow> (nat \<times> 'k) option \<Rightarrow> bool" where
  "best_of le P key xs best \<longleftrightarrow>
     (case best of None \<Rightarrow> (\<forall>x \<in> set xs. \<not> P x)
      | Some (i, k) \<Rightarrow> i < length xs \<and> P (xs ! i) \<and> k = key (xs ! i)
          \<and> (\<forall>x \<in> set xs. P x \<longrightarrow> le (key x) (key (xs ! i))))"

lemma pick_best_spec:
  assumes total: "\<And>a b. \<not> better a b \<Longrightarrow> le a b" and strict: "\<And>a b. better a b \<Longrightarrow> le b a"
    and refl: "\<And>a. le a a" and trans: "\<And>a b c. le a b \<Longrightarrow> le b c \<Longrightarrow> le a c"
    and pre: "best_of le P key ps best"
  shows "best_of le P key (ps @ xs) (pick_best better P key (length ps) best xs)"
  using pre
proof (induction xs arbitrary: ps best)
  case Nil
  then show ?case by simp
next
  case (Cons x xs)
  let ?new = "if P x \<and> (case best of None \<Rightarrow> True | Some (_, k) \<Rightarrow> better (key x) k)
    then Some (length ps, key x) else best"
  have "best_of le P key (ps @ [x]) ?new"
    using Cons.prems refl total
    by (auto simp: best_of_def nth_append split: option.splits if_splits dest: strict intro: trans)
  then show ?case using Cons.IH [of "ps @ [x]" ?new] by simp
qed

lemma best_of_start: "best_of le P key [] None"
  by (simp add: best_of_def)

lemma max_best: "best_of (\<le>) P key xs (pick_best (\<lambda>a b. b \<le> (a :: 'k :: linorder)) P key 0 None xs)"
proof -
  have "best_of (\<le>) P key ([] @ xs) (pick_best (\<lambda>a b. b \<le> a) P key (length ([] :: 'a list)) None xs)"
    by (rule pick_best_spec) (simp_all add: best_of_start order.trans)
  then show ?thesis by simp
qed

lemma min_best: "best_of (\<lambda>a b. b \<le> a) P key xs (pick_best ((<) :: 'k :: linorder \<Rightarrow> 'k \<Rightarrow> bool) P key 0 None xs)"
proof -
  have "best_of (\<lambda>a b. b \<le> a) P key ([] @ xs) (pick_best (<) P key (length ([] :: 'a list)) None xs)"
    by (rule pick_best_spec) (auto simp: best_of_start not_less intro: order.trans)
  then show ?thesis by simp
qed

lemma max_index_Some:
  assumes "max_index P key xs = Some i"
  shows "i < length xs \<and> P (xs ! i) \<and> (\<forall>x \<in> set xs. P x \<longrightarrow> key x \<le> key (xs ! i))"
proof -
  show ?thesis using max_best [of P key xs] assms by (auto simp: max_index_def best_of_def)
qed

lemma max_index_None: "max_index P key xs = None \<longleftrightarrow> (\<forall>x \<in> set xs. \<not> P x)"
proof -
  show ?thesis using max_best [of P key xs] by (auto simp: max_index_def best_of_def split: option.splits)
qed

lemma min_index_Some:
  assumes "min_index P key xs = Some i"
  shows "i < length xs \<and> P (xs ! i) \<and> (\<forall>x \<in> set xs. P x \<longrightarrow> key (xs ! i) \<le> key x)"
proof -
  show ?thesis using min_best [of P key xs] assms by (auto simp: min_index_def best_of_def)
qed

lemma min_index_None: "min_index P key xs = None \<longleftrightarrow> (\<forall>x \<in> set xs. \<not> P x)"
proof -
  show ?thesis using min_best [of P key xs] by (auto simp: min_index_def best_of_def split: option.splits)
qed

section \<open>Transition systems\<close>

text \<open>
  A step relation and a property every step keeps: the property holds in every state reached from a
  state where it holds. Each component's step relation is an instance.
\<close>

locale step_invariant =
  fixes step :: "'s \<Rightarrow> 's \<Rightarrow> bool"
    and inv_of :: "'s \<Rightarrow> bool"
  assumes step_preserves: "step s t \<Longrightarrow> inv_of s \<Longrightarrow> inv_of t"
begin

lemma steps_preserve: "step\<^sup>*\<^sup>* s t \<Longrightarrow> inv_of s \<Longrightarrow> inv_of t"
  by (induction rule: rtranclp_induct) (auto intro: step_preserves)

end

text \<open>
  A phase that every step keeps while it lowers a rank: from there on at most as many steps follow as
  the rank says, whatever order they come in.
\<close>

locale ending_phase =
  fixes step :: "'s \<Rightarrow> 's \<Rightarrow> bool"
    and in_phase :: "'s \<Rightarrow> bool"
    and rank :: "'s \<Rightarrow> nat"
  assumes phase_step: "step s t \<Longrightarrow> in_phase s \<Longrightarrow> in_phase t \<and> rank t < rank s"
begin

lemma phase_steps: "(step ^^ n) s t \<Longrightarrow> in_phase s \<Longrightarrow> in_phase t \<and> rank t + n \<le> rank s"
proof (induction n arbitrary: t)
  case (Suc n)
  then obtain u where "(step ^^ n) s u" "step u t" by auto
  then show ?case using Suc phase_step [of u t] by fastforce
qed simp

lemma phase_bound: "(step ^^ n) s t \<Longrightarrow> in_phase s \<Longrightarrow> n \<le> rank s"
  using phase_steps by fastforce

lemma phase_stays: "step\<^sup>*\<^sup>* s t \<Longrightarrow> in_phase s \<Longrightarrow> in_phase t"
  using phase_steps by (metis rtranclp_imp_relpowp)

end

section \<open>Starting in order\<close>

text \<open>Threads that are started one after the other with \<open>?\<close>: the error that ended it, and those that run.\<close>

fun start_threads :: "('t \<Rightarrow> unit io_result) \<Rightarrow> 't list \<Rightarrow> io_error option \<times> 't list" where
  "start_threads start [] = (None, [])"
| "start_threads start (th # ths) =
     (case start th of
        Inl e \<Rightarrow> (Some e, [])
      | Inr _ \<Rightarrow> (case start_threads start ths of (r, started) \<Rightarrow> (r, th # started)))"

lemma start_threads_result:
  "start_threads start ths =
     (case find (\<lambda>th. \<not> is_ok (start th)) ths of
        None \<Rightarrow> (None, ths)
      | Some th \<Rightarrow> (Some (projl (start th)), takeWhile (\<lambda>th. is_ok (start th)) ths))"
  by (induction ths) (auto split: sum.splits option.splits)

end
