(* ===== verification/Vpn_Queue.thy ===== *)
theory Vpn_Queue
  imports Vpn_Prelude "HOL-Library.Sublist"
begin

text \<open>
  The bounded queue of \<open>src/src/base/queue.rs\<close>. The mutex-protected state is one record; every
  public method is one definition that runs under the lock, so an execution with several threads is a
  sequence of these operations. A blocking method returns \<open>None\<close> where the thread keeps waiting on
  the condition variable. A reservation (\<open>QueueFront\<close>) is the removed item itself: committing it
  changes nothing in the queue, dropping it runs \<open>front_drop\<close>.

  The lemmas show the representation invariant for every operation, the contract of the two removal
  operations (locale \<open>front_removal\<close>), and, over every interleaving of producers with one
  consumer, the order and conservation of the items (\<open>queue_step\<close>).
\<close>

section \<open>State and operations\<close>

record 'a queue =
  capacity :: nat
  items :: "'a list"
  closed :: bool
  generation :: "64 word"

datatype try_pop_error = Empty | Closed

text \<open>\<open>VecDeque::pop_front\<close>.\<close>

definition pop_front :: "'a list \<Rightarrow> 'a option \<times> 'a list" where
  "pop_front xs = (case xs of [] \<Rightarrow> (None, []) | x # ys \<Rightarrow> (Some x, ys))"

text \<open>\<open>Queue::new\<close>; the error is \<open>InvalidCapacity\<close>.\<close>

definition queue_new :: "nat \<Rightarrow> unit + 'a queue" where
  "queue_new n =
     (if n = 0 then Inl ()
      else Inr \<lparr>capacity = n, items = [], closed = False, generation = 0\<rparr>)"

definition queue_len :: "'a queue \<Rightarrow> nat" where
  "queue_len q = length (items q)"

definition queue_is_empty :: "'a queue \<Rightarrow> bool" where
  "queue_is_empty q = (queue_len q = 0)"

definition notify_change :: "'a queue \<Rightarrow> 'a queue" where
  "notify_change q = q\<lparr>generation := generation q + 1\<rparr>"

text \<open>\<open>wait_for_change\<close>: \<open>None\<close> while the thread waits, otherwise whether the queue is still open.\<close>

definition wait_for_change :: "64 word \<Rightarrow> 'a queue \<Rightarrow> bool option" where
  "wait_for_change observed q =
     (if generation q = observed \<and> \<not> closed q then None else Some (\<not> closed q))"

text \<open>\<open>push\<close>: the error gives the item back, success gives the item dropped from a full queue.\<close>

definition push :: "'a \<Rightarrow> 'a queue \<Rightarrow> ('a + 'a option) \<times> 'a queue" where
  "push item q =
     (if closed q then (Inl item, q)
      else let (dropped, rest) =
             (if length (items q) = capacity q then pop_front (items q) else (None, items q))
        in (Inr dropped, q\<lparr>items := rest @ [item], generation := generation q + 1\<rparr>))"

definition pop :: "'a queue \<Rightarrow> ('a option \<times> 'a queue) option" where
  "pop q =
     (if items q = [] \<and> \<not> closed q then None
      else if closed q then Some (None, q)
      else let (item, rest) = pop_front (items q) in Some (item, q\<lparr>items := rest\<rparr>))"

definition peek :: "'a queue \<Rightarrow> ('a option \<times> 'a queue) option" where
  "peek q =
     (if items q = [] \<and> \<not> closed q then None
      else if closed q then Some (None, q)
      else let (item, rest) = pop_front (items q) in Some (item, q\<lparr>items := rest\<rparr>))"

definition try_peek :: "'a queue \<Rightarrow> (try_pop_error + 'a) \<times> 'a queue" where
  "try_peek q =
     (case pop_front (items q) of
        (Some item, rest) \<Rightarrow> (Inr item, q\<lparr>items := rest\<rparr>)
      | (None, rest) \<Rightarrow> (Inl (if closed q then Closed else Empty), q))"

text \<open>\<open>pop_timeout\<close> after its single wait: the state the thread sees when it holds the lock again.\<close>

definition pop_timeout :: "'a queue \<Rightarrow> 'a option \<times> 'a queue" where
  "pop_timeout q =
     (if closed q then (None, q)
      else let (item, rest) = pop_front (items q) in (item, q\<lparr>items := rest\<rparr>))"

definition try_pop :: "'a queue \<Rightarrow> (try_pop_error + 'a) \<times> 'a queue" where
  "try_pop q =
     (case pop_front (items q) of
        (Some item, rest) \<Rightarrow> (Inr item, q\<lparr>items := rest\<rparr>)
      | (None, rest) \<Rightarrow> (Inl (if closed q then Closed else Empty), q))"

definition close :: "'a queue \<Rightarrow> 'a queue" where
  "close q =
     (if closed q then q
      else q\<lparr>closed := True, items := [], generation := generation q + 1\<rparr>)"

text \<open>Dropping a reservation that was not committed.\<close>

definition front_drop :: "'a \<Rightarrow> 'a queue \<Rightarrow> 'a queue" where
  "front_drop item q =
     (if closed q then q
      else q\<lparr>items :=
             item # (if length (items q) = capacity q then butlast (items q) else items q)\<rparr>)"

section \<open>The representation invariant\<close>

definition queue_inv :: "'a queue \<Rightarrow> bool" where
  "queue_inv q \<longleftrightarrow> 0 < capacity q \<and> length (items q) \<le> capacity q \<and> (closed q \<longrightarrow> items q = [])"

lemma pop_front_simps [simp]:
  "pop_front [] = (None, [])"
  "pop_front (x # xs) = (Some x, xs)"
  by (simp_all add: pop_front_def)

lemma pop_front_cases:
  obtains "xs = []" "pop_front xs = (None, [])"
  | x ys where "xs = x # ys" "pop_front xs = (Some x, ys)"
  by (cases xs) auto

lemma queue_new_inv: "queue_new n = Inr q \<Longrightarrow> queue_inv q"
  by (auto simp: queue_new_def queue_inv_def split: if_splits)

lemma push_inv [inv_intros]: "queue_inv q \<Longrightarrow> queue_inv (snd (push x q))"
  by (cases "items q") (auto simp: push_def queue_inv_def split: prod.splits)

lemma try_pop_inv [inv_intros]: "queue_inv q \<Longrightarrow> queue_inv (snd (try_pop q))"
  by (cases "items q") (auto simp: try_pop_def queue_inv_def)

lemma try_peek_inv [inv_intros]: "queue_inv q \<Longrightarrow> queue_inv (snd (try_peek q))"
  by (cases "items q") (auto simp: try_peek_def queue_inv_def)

lemma pop_inv [inv_intros]: "queue_inv q \<Longrightarrow> pop q = Some (r, q') \<Longrightarrow> queue_inv q'"
  by (cases "items q") (auto simp: pop_def queue_inv_def split: if_splits)

lemma peek_eq_pop: "peek q = pop q"
  by (simp add: peek_def pop_def)

lemma pop_timeout_inv [inv_intros]: "queue_inv q \<Longrightarrow> queue_inv (snd (pop_timeout q))"
  by (cases "items q") (auto simp: pop_timeout_def queue_inv_def)

lemma close_inv [inv_intros]: "queue_inv q \<Longrightarrow> queue_inv (close q)"
  by (simp add: close_def queue_inv_def)

lemma notify_change_inv [inv_intros]: "queue_inv q \<Longrightarrow> queue_inv (notify_change q)"
  by (simp add: notify_change_def queue_inv_def)

lemma front_drop_inv [inv_intros]: "queue_inv q \<Longrightarrow> queue_inv (front_drop x q)"
  by (auto simp: front_drop_def queue_inv_def)

lemma push_capacity [simp]: "capacity (snd (push x q)) = capacity q"
  by (simp add: push_def split: prod.splits)

lemma try_peek_capacity [simp]: "capacity (snd (try_peek q)) = capacity q"
  by (simp add: try_peek_def split: prod.splits option.splits)

lemma try_pop_capacity [simp]: "capacity (snd (try_pop q)) = capacity q"
  by (simp add: try_pop_def split: prod.splits option.splits)

lemma front_drop_capacity [simp]: "capacity (front_drop x q) = capacity q"
  by (simp add: front_drop_def)

lemma close_capacity [simp]: "capacity (close q) = capacity q"
  by (simp add: close_def)

lemma close_items: "queue_inv q \<Longrightarrow> items (close q) = []"
  by (simp add: close_def queue_inv_def)

section \<open>Removal from the front\<close>

text \<open>
  What every non-blocking removal promises: it fails exactly on an empty queue, without effect, and
  otherwise yields the oldest item and leaves the rest.
\<close>

locale front_removal =
  fixes contents :: "'q \<Rightarrow> 'a list"
    and take_front :: "'q \<Rightarrow> ('e + 'a) \<times> 'q"
  assumes take_empty: "contents q = [] \<Longrightarrow> (\<exists>e. take_front q = (Inl e, q))"
    and take_cons: "contents q = x # xs \<Longrightarrow>
      (\<exists>q'. take_front q = (Inr x, q') \<and> contents q' = xs)"

text \<open>Repeated removal, as the \<open>while let Ok(..)\<close> loops of the workers do it, at most \<open>n\<close> times.\<close>

fun take_many :: "('q \<Rightarrow> ('e + 'a) \<times> 'q) \<Rightarrow> nat \<Rightarrow> 'q \<Rightarrow> 'a list \<times> 'q" where
  "take_many f 0 q = ([], q)"
| "take_many f (Suc n) q =
     (case f q of
        (Inl e, q') \<Rightarrow> ([], q')
      | (Inr x, q') \<Rightarrow> (let (xs, q'') = take_many f n q' in (x # xs, q'')))"

context front_removal
begin

lemma fails_iff_empty: "(\<exists>e. fst (take_front q) = Inl e) \<longleftrightarrow> contents q = []"
proof (cases "contents q")
  case Nil
  then show ?thesis using take_empty [OF Nil] by auto
next
  case (Cons x xs)
  then show ?thesis using take_cons [OF Cons] by auto
qed

lemma take_many_contents:
  "fst (take_many take_front n q) = take n (contents q)
   \<and> contents (snd (take_many take_front n q)) = drop n (contents q)"
proof (induction n arbitrary: q)
  case 0
  then show ?case by simp
next
  case (Suc n)
  show ?case
  proof (cases "contents q")
    case Nil
    then show ?thesis using take_empty [OF Nil] by auto
  next
    case (Cons x xs)
    then obtain q' where "take_front q = (Inr x, q')" "contents q' = xs" using take_cons by blast
    then show ?thesis using Suc.IH [of q'] Cons by (cases "take_many take_front n q'") simp
  qed
qed

end

interpretation try_pop: front_removal items try_pop
  by unfold_locales (auto simp: try_pop_def)

interpretation try_peek: front_removal items try_peek
  by unfold_locales (auto simp: try_peek_def)

section \<open>Interleavings of producers with one consumer\<close>

text \<open>
  The queue together with the consumer's reservation and the history of the execution: the items
  accepted by \<open>push\<close>, the items delivered to the consumer, and the items lost (dropped from a full
  queue, pushed out by a restored reservation, or discarded at close).
\<close>

record 'a queue_sys =
  buffer :: "'a queue"
  reserved :: "'a option"
  accepted :: "'a list"
  delivered :: "'a list"
  lost :: "'a list"

definition opt_list :: "'a option \<Rightarrow> 'a list" where
  "opt_list v = (case v of None \<Rightarrow> [] | Some x \<Rightarrow> [x])"

lemma opt_list_simps [simp]: "opt_list None = []" "opt_list (Some x) = [x]"
  by (simp_all add: opt_list_def)

inductive queue_step :: "'a queue_sys \<Rightarrow> 'a queue_sys \<Rightarrow> bool" where
  step_push: "push x (buffer s) = (Inr dropped, q') \<Longrightarrow>
     queue_step s (s\<lparr>buffer := q', accepted := accepted s @ [x], lost := lost s @ opt_list dropped\<rparr>)"
| step_refused: "push x (buffer s) = (Inl x, q') \<Longrightarrow> queue_step s (s\<lparr>buffer := q'\<rparr>)"
| step_try_pop: "reserved s = None \<Longrightarrow> try_pop (buffer s) = (Inr x, q') \<Longrightarrow>
     queue_step s (s\<lparr>buffer := q', delivered := delivered s @ [x]\<rparr>)"
| step_pop: "reserved s = None \<Longrightarrow> pop (buffer s) = Some (Some x, q') \<Longrightarrow>
     queue_step s (s\<lparr>buffer := q', delivered := delivered s @ [x]\<rparr>)"
| step_pop_timeout: "reserved s = None \<Longrightarrow> pop_timeout (buffer s) = (Some x, q') \<Longrightarrow>
     queue_step s (s\<lparr>buffer := q', delivered := delivered s @ [x]\<rparr>)"
| step_wait_peek: "reserved s = None \<Longrightarrow> peek (buffer s) = Some (Some x, q') \<Longrightarrow>
     queue_step s (s\<lparr>buffer := q', reserved := Some x\<rparr>)"
| step_peek: "reserved s = None \<Longrightarrow> try_peek (buffer s) = (Inr x, q') \<Longrightarrow>
     queue_step s (s\<lparr>buffer := q', reserved := Some x\<rparr>)"
| step_commit: "reserved s = Some x \<Longrightarrow>
     queue_step s (s\<lparr>reserved := None, delivered := delivered s @ [x]\<rparr>)"
| step_restore: "reserved s = Some x \<Longrightarrow>
     queue_step s (s\<lparr>buffer := front_drop x (buffer s), reserved := None,
        lost := lost s @ (if closed (buffer s) then [x]
                          else if length (items (buffer s)) = capacity (buffer s) then [last (items (buffer s))]
                          else [])\<rparr>)"
| step_notify: "queue_step s (s\<lparr>buffer := notify_change (buffer s)\<rparr>)"
| step_close: "queue_step s (s\<lparr>buffer := close (buffer s), lost := lost s @ items (buffer s)\<rparr>)"

definition queue_start :: "'a queue \<Rightarrow> 'a queue_sys" where
  "queue_start b = \<lparr>buffer = b, reserved = None, accepted = [], delivered = [], lost = []\<rparr>"

definition in_flight :: "'a queue_sys \<Rightarrow> 'a list" where
  "in_flight s = delivered s @ opt_list (reserved s) @ items (buffer s)"

definition queue_sys_inv :: "'a queue_sys \<Rightarrow> bool" where
  "queue_sys_inv s \<longleftrightarrow>
     queue_inv (buffer s) \<and> subseq (in_flight s) (accepted s)
     \<and> mset (accepted s) = mset (in_flight s) + mset (lost s)"

lemma queue_start_inv: "queue_new n = Inr b \<Longrightarrow> queue_sys_inv (queue_start b)"
  by (auto simp: queue_new_def queue_sys_inv_def queue_start_def queue_inv_def in_flight_def
      split: if_splits)

lemma subseq_drop_middle: "subseq (xs @ y # ys) zs \<Longrightarrow> subseq (xs @ ys) zs"
  by (meson list_emb_append_mono subseq_order.order_refl subseq_order.trans subseq_Cons' )

lemma subseq_snoc: "subseq xs ys \<Longrightarrow> subseq (xs @ [z]) (ys @ [z])"
  by simp

lemma subseq_take_left: "subseq (xs @ ys) zs \<Longrightarrow> subseq xs zs"
  by (meson prefixI prefix_imp_subseq subseq_order.trans)

lemma push_accepted:
  assumes "push x b = (Inr dropped, b')"
  shows "\<not> closed b \<and> closed b' = closed b \<and> items b = opt_list dropped @ butlast (items b')
         \<and> items b' = butlast (items b') @ [x]"
  using assms by (cases "items b") (auto simp: push_def split: if_splits)

lemma push_refused: "push x b = (Inl y, b') \<Longrightarrow> b' = b \<and> y = x \<and> closed b"
  by (auto simp: push_def split: if_splits prod.splits)

lemma pop_delivered: "pop b = Some (Some x, b') \<Longrightarrow> items b = x # items b' \<and> try_pop b = (Inr x, b')"
  by (cases "items b") (auto simp: pop_def try_pop_def split: if_splits)

lemma pop_timeout_delivered: "pop_timeout b = (Some x, b') \<Longrightarrow> items b = x # items b' \<and> try_pop b = (Inr x, b')"
  by (cases "items b") (auto simp: pop_timeout_def try_pop_def split: if_splits)

lemma try_pop_delivered: "try_pop b = (Inr x, b') \<Longrightarrow> items b = x # items b'"
  by (cases "items b") (auto simp: try_pop_def split: if_splits)

lemma try_peek_reserved: "try_peek b = (Inr x, b') \<Longrightarrow> items b = x # items b'"
  by (cases "items b") (auto simp: try_peek_def split: if_splits)

lemma queue_sys_inv_intro:
  assumes "queue_inv (buffer t)" "subseq (in_flight t) (accepted t)"
    "mset (accepted t) = mset (in_flight t) + mset (lost t)"
  shows "queue_sys_inv t"
  using assms by (simp add: queue_sys_inv_def)

lemma push_keeps_sys_inv:
  assumes inv: "queue_sys_inv s" and p: "push x (buffer s) = (Inr dropped, b')"
  shows "queue_sys_inv (s\<lparr>buffer := b', accepted := accepted s @ [x], lost := lost s @ opt_list dropped\<rparr>)"
    (is "queue_sys_inv ?t")
proof (rule queue_sys_inv_intro)
  obtain ys where b: "items (buffer s) = opt_list dropped @ ys" and b': "items b' = ys @ [x]"
    using push_accepted [OF p] by blast
  let ?pre = "delivered s @ opt_list (reserved s)"
  show "queue_inv (buffer ?t)"
    using push_inv [of "buffer s" x] inv p by (simp add: queue_sys_inv_def)
  have sub: "subseq (?pre @ opt_list dropped @ ys) (accepted s)"
    using inv by (simp add: queue_sys_inv_def in_flight_def b)
  have "subseq (?pre @ ys) (accepted s)"
    using sub subseq_drop_middle [of ?pre _ ys] by (cases dropped) auto
  then show "subseq (in_flight ?t) (accepted ?t)"
    using subseq_snoc [of "?pre @ ys"] by (simp add: in_flight_def b')
  show "mset (accepted ?t) = mset (in_flight ?t) + mset (lost ?t)"
    using inv by (simp add: queue_sys_inv_def in_flight_def b b' ac_simps)
qed

lemma restore_keeps_sys_inv:
  assumes inv: "queue_sys_inv s" and r: "reserved s = Some x"
  shows "queue_sys_inv (s\<lparr>buffer := front_drop x (buffer s), reserved := None,
        lost := lost s @ (if closed (buffer s) then [x]
                          else if length (items (buffer s)) = capacity (buffer s)
                          then [last (items (buffer s))] else [])\<rparr>)"
    (is "queue_sys_inv ?t")
proof (rule queue_sys_inv_intro)
  let ?xs = "items (buffer s)"
  have qi: "queue_inv (buffer s)" using inv by (simp add: queue_sys_inv_def)
  show "queue_inv (buffer ?t)" using front_drop_inv [OF qi] by simp
  have sub: "subseq (delivered s @ x # ?xs) (accepted s)"
    and cons: "mset (accepted s) = mset (delivered s @ x # ?xs) + mset (lost s)"
    using inv r by (simp_all add: queue_sys_inv_def in_flight_def)
  show "subseq (in_flight ?t) (accepted ?t)"
  proof (cases "closed (buffer s)")
    case True
    then show ?thesis using sub qi subseq_drop_middle [of "delivered s" x "[]"]
      by (simp add: in_flight_def front_drop_def queue_inv_def)
  next
    case False
    show ?thesis
    proof (cases "length ?xs = capacity (buffer s)")
      case True
      then have "?xs \<noteq> []" using qi by (auto simp: queue_inv_def)
      then have "delivered s @ x # ?xs = (delivered s @ x # butlast ?xs) @ last ?xs # []" by simp
      then have "subseq (delivered s @ x # butlast ?xs) (accepted s)"
        using sub subseq_drop_middle [of "delivered s @ x # butlast ?xs" "last ?xs" "[]"]
        by (metis append_Nil2)
      then show ?thesis using True \<open>\<not> closed (buffer s)\<close> by (simp add: in_flight_def front_drop_def)
    next
      case ne: False
      then show ?thesis using sub False by (simp add: in_flight_def front_drop_def)
    qed
  qed
  have "mset ?xs = add_mset (last ?xs) (mset (butlast ?xs))"
    if "\<not> closed (buffer s)" "length ?xs = capacity (buffer s)"
  proof -
    have "?xs \<noteq> []" using that qi by (auto simp: queue_inv_def)
    then show ?thesis
      by (metis append_butlast_last_id mset.simps(2) mset_append mset.simps(1) add_mset_add_single)
  qed
  then show "mset (accepted ?t) = mset (in_flight ?t) + mset (lost ?t)"
    using cons qi by (simp add: in_flight_def front_drop_def queue_inv_def)
qed

lemma queue_step_keeps_inv: "queue_step s t \<Longrightarrow> queue_sys_inv s \<Longrightarrow> queue_sys_inv t"
proof (induction rule: queue_step.induct)
  case (step_push x s dropped q')
  then show ?case by (rule push_keeps_sys_inv [rotated])
next
  case (step_refused x s q')
  then show ?case using push_refused by fastforce
next
  case (step_try_pop s x q')
  then show ?case
    using try_pop_inv [of "buffer s"] try_pop_delivered [of "buffer s"]
    by (simp add: queue_sys_inv_def in_flight_def)
next
  case (step_pop s x q')
  then show ?case
    using pop_inv [of "buffer s"] pop_delivered [of "buffer s"]
    by (simp add: queue_sys_inv_def in_flight_def)
next
  case (step_pop_timeout s x q')
  then show ?case
    using pop_timeout_inv [of "buffer s"] pop_timeout_delivered [of "buffer s"]
    by (simp add: queue_sys_inv_def in_flight_def)
next
  case (step_wait_peek s x q')
  then show ?case
    using pop_inv [of "buffer s"] pop_delivered [of "buffer s"]
    by (simp add: queue_sys_inv_def in_flight_def peek_eq_pop)
next
  case (step_peek s x q')
  then show ?case
    using try_peek_inv [of "buffer s"] try_peek_reserved [of "buffer s"]
    by (simp add: queue_sys_inv_def in_flight_def)
next
  case (step_commit s x)
  then show ?case by (simp add: queue_sys_inv_def in_flight_def)
next
  case (step_restore s x)
  then show ?case by (intro restore_keeps_sys_inv)
next
  case (step_notify s)
  then show ?case by (simp add: queue_sys_inv_def in_flight_def notify_change_def queue_inv_def)
next
  case (step_close s)
  have "subseq (delivered s @ opt_list (reserved s)) (accepted s)"
    using step_close subseq_take_left [of "delivered s @ opt_list (reserved s)" "items (buffer s)"]
    by (simp add: queue_sys_inv_def in_flight_def)
  then show ?case
    using step_close close_inv [of "buffer s"] close_items [of "buffer s"]
    by (simp add: queue_sys_inv_def in_flight_def ac_simps)
qed

interpretation queue_run: step_invariant queue_step queue_sys_inv
  by unfold_locales (rule queue_step_keeps_inv)

lemma queue_step_capacity: "queue_step s t \<Longrightarrow> capacity (buffer t) = capacity (buffer s)"
proof (induction rule: queue_step.induct)
  case (step_push x s dropped q')
  then show ?case using push_capacity [of x "buffer s"] by simp
next
  case (step_refused x s q')
  then show ?case using push_capacity [of x "buffer s"] by simp
next
  case (step_try_pop s x q')
  then show ?case using try_pop_capacity [of "buffer s"] by simp
next
  case (step_pop s x q')
  then show ?case using pop_delivered [of "buffer s"] try_pop_capacity [of "buffer s"] by simp
next
  case (step_pop_timeout s x q')
  then show ?case using pop_timeout_delivered [of "buffer s"] try_pop_capacity [of "buffer s"] by simp
next
  case (step_wait_peek s x q')
  then show ?case
    using pop_delivered [of "buffer s"] try_pop_capacity [of "buffer s"] by (simp add: peek_eq_pop)
next
  case (step_peek s x q')
  then show ?case using try_peek_capacity [of "buffer s"] by simp
qed (simp_all add: notify_change_def)

interpretation queue_size: step_invariant queue_step "\<lambda>s. capacity (buffer s) = n" for n
  by unfold_locales (simp add: queue_step_capacity)

section \<open>Properties\<close>

text \<open>
  C8: In every execution of a new queue with any number of producers and one consumer (pushes,
  blocking and non-blocking pops, reservations that are committed or restored, closing): the queue
  never holds more than its capacity and is empty once closed; the delivered items followed by the
  reserved and the waiting ones are a subsequence of the accepted ones, so nothing is reordered or
  duplicated; and every accepted item was delivered, is reserved or waiting, or is counted as lost.
\<close>

theorem queue_fifo_and_conservation:
  assumes "queue_new n = Inr b" "queue_step\<^sup>*\<^sup>* (queue_start b) s"
  shows "queue_len (buffer s) \<le> n
    \<and> (closed (buffer s) \<longrightarrow> queue_is_empty (buffer s))
    \<and> subseq (delivered s @ opt_list (reserved s) @ items (buffer s)) (accepted s)
    \<and> mset (accepted s) =
        mset (delivered s @ opt_list (reserved s) @ items (buffer s)) + mset (lost s)"
proof -
  have "queue_sys_inv s" using queue_run.steps_preserve [OF assms(2) queue_start_inv [OF assms(1)]] .
  moreover have "capacity (buffer s) = n"
    using queue_size.steps_preserve [OF assms(2)] assms(1)
    by (auto simp: queue_new_def queue_start_def split: if_splits)
  ultimately show ?thesis
    by (simp add: queue_sys_inv_def queue_inv_def queue_len_def queue_is_empty_def in_flight_def)
qed

text \<open>A queue of capacity 1 in which the second push drops the first item.\<close>

definition example_queue :: "nat queue" where
  "example_queue = \<lparr>capacity = 1, items = [], closed = False, generation = 0\<rparr>"

definition example_end :: "nat queue_sys" where
  "example_end = \<lparr>buffer = \<lparr>capacity = 1, items = [], closed = False, generation = 2\<rparr>,
     reserved = None, accepted = [10, 20], delivered = [20], lost = [10]\<rparr>"

lemma example_queue_run: "queue_step\<^sup>*\<^sup>* (queue_start example_queue) example_end"
proof -
  let ?s1 = "(queue_start example_queue)\<lparr>buffer := example_queue\<lparr>items := [10], generation := 1\<rparr>,
    accepted := [10]\<rparr>"
  let ?s2 = "?s1\<lparr>buffer := example_queue\<lparr>items := [20], generation := 2\<rparr>,
    accepted := [10, 20], lost := [10]\<rparr>"
  have "queue_step (queue_start example_queue) ?s1"
    using step_push [of 10 "queue_start example_queue" None]
    by (simp add: push_def example_queue_def queue_start_def)
  moreover have "queue_step ?s1 ?s2"
    using step_push [of 20 ?s1 "Some 10"] by (simp add: push_def example_queue_def queue_start_def)
  moreover have "queue_step ?s2 example_end"
    using step_try_pop [of ?s2 20]
    by (simp add: try_pop_def example_queue_def queue_start_def example_end_def)
  ultimately show ?thesis by (meson converse_rtranclp_into_rtranclp rtranclp.rtrancl_refl)
qed

theorem queue_fifo_and_conservation_witness:
  "queue_len (buffer example_end) \<le> 1
    \<and> subseq (delivered example_end @ opt_list (reserved example_end) @ items (buffer example_end))
        (accepted example_end)
    \<and> mset (accepted example_end) =
        mset (delivered example_end @ opt_list (reserved example_end) @ items (buffer example_end))
        + mset (lost example_end)"
proof -
  have "queue_new 1 = Inr example_queue" by (simp add: queue_new_def example_queue_def)
  from queue_fifo_and_conservation [OF this example_queue_run] show ?thesis by blast
qed

end
