(* ===== verification/Vpn_Worker.thy ===== *)
theory Vpn_Worker
  imports Vpn_Queue
begin

text \<open>
  The worker threads of \<open>src/src/base/worker.rs\<close>. Each of the three loops is a step function over
  a program counter, one step per access to the shared state (the stop bit, the queue, the retry
  signal), so that any other thread may run between two steps; \<open>None\<close> is a thread that waits. The
  shared queue is the one of \<open>Vpn_Queue\<close> with its history, and the lemmas show that every step of a
  worker is a step of the queue system or leaves it alone. \<open>request_stop\<close> is the three writes of
  the method in their order.
\<close>

section \<open>The retry signal\<close>

type_synonym worker_signal = "64 word"

definition signal_new :: worker_signal where
  "signal_new = 0"

definition signal_notify :: "worker_signal \<Rightarrow> worker_signal" where
  "signal_notify g = g + 1"

text \<open>\<open>wait\<close>: \<open>None\<close> while the thread waits.\<close>

definition signal_wait :: "64 word \<Rightarrow> worker_signal \<Rightarrow> unit option" where
  "signal_wait observed g = (if g = observed then None else Some ())"

text \<open>
  \<open>wait_for_change\<close>: the value of the signal when the thread looks at it and whether the timeout
  has elapsed by then; \<open>None\<close> while the thread waits.
\<close>

definition signal_wait_for_change :: "64 word \<Rightarrow> bool \<Rightarrow> worker_signal \<Rightarrow> bool option" where
  "signal_wait_for_change observed timed_out g =
     (if g \<noteq> observed then Some True
      else if timed_out then Some (\<not> timed_out \<or> g \<noteq> observed)
      else None)"

lemma signal_notify_ne [simp]: "signal_notify g \<noteq> g"
  by (simp add: signal_notify_def)

section \<open>The loops\<close>

datatype 'a worker_pc =
    Start | Taking | Taken "'a option" | Run 'a "64 word" | Waiting "64 word" instant | Finished

record 'a worker =
  wsys :: "'a queue_sys"
  wstop :: bool
  wsignal :: worker_signal
  wpc :: "'a worker_pc"
  retry_started :: "instant option"
  process_calls :: "'a list"

text \<open>Removal with \<open>Queue::pop\<close> and reservation with \<open>Queue::peek\<close>, with the history they leave.\<close>

definition take_pop :: "'a queue_sys \<Rightarrow> ('a option \<times> 'a queue_sys) option" where
  "take_pop s =
     (case pop (buffer s) of
        None \<Rightarrow> None
      | Some (item, q') \<Rightarrow>
          Some (item, s\<lparr>buffer := q', delivered := delivered s @ opt_list item\<rparr>))"

definition take_peek :: "'a queue_sys \<Rightarrow> ('a option \<times> 'a queue_sys) option" where
  "take_peek s =
     (case peek (buffer s) of
        None \<Rightarrow> None
      | Some (item, q') \<Rightarrow> Some (item, s\<lparr>buffer := q', reserved := item\<rparr>))"

text \<open>\<open>QueueFront::pop\<close> and the drop of a reservation.\<close>

definition commit_front :: "'a \<Rightarrow> 'a queue_sys \<Rightarrow> 'a queue_sys" where
  "commit_front x s = s\<lparr>reserved := None, delivered := delivered s @ [x]\<rparr>"

definition restore_front :: "'a \<Rightarrow> 'a queue_sys \<Rightarrow> 'a queue_sys" where
  "restore_front x s =
     s\<lparr>buffer := front_drop x (buffer s), reserved := None,
       lost := lost s @ (if closed (buffer s) then [x]
                         else if length (items (buffer s)) = capacity (buffer s)
                         then [last (items (buffer s))] else [])\<rparr>"

text \<open>\<open>QueueWorker::spawn\<close>.\<close>

fun spawn_step :: "'a worker \<Rightarrow> 'a worker option" where
  "spawn_step w =
     (case wpc w of
        Start \<Rightarrow> Some (w\<lparr>wpc := if wstop w then Finished else Taking\<rparr>)
      | Taking \<Rightarrow>
          (case take_pop (wsys w) of
             None \<Rightarrow> None
           | Some (item, s') \<Rightarrow> Some (w\<lparr>wsys := s', wpc := Taken item\<rparr>))
      | Taken item \<Rightarrow>
          (if wstop w then Some (w\<lparr>wpc := Finished\<rparr>)
           else case item of
             None \<Rightarrow> Some (w\<lparr>wpc := Finished\<rparr>)
           | Some x \<Rightarrow> Some (w\<lparr>wpc := Run x (wsignal w)\<rparr>))
      | Run x observed \<Rightarrow> Some (w\<lparr>process_calls := process_calls w @ [x], wpc := Start\<rparr>)
      | Waiting observed deadline \<Rightarrow> None
      | Finished \<Rightarrow> None)"

text \<open>
  \<open>QueueWorker::spawn_peek\<close>; the step takes the clock and the result of \<open>process\<close>, which matter
  in the \<open>Run\<close> and \<open>Waiting\<close> states.
\<close>

fun spawn_peek_step :: "duration \<Rightarrow> instant \<Rightarrow> bool \<Rightarrow> 'a worker \<Rightarrow> 'a worker option" where
  "spawn_peek_step retry_timeout now ok w =
     (case wpc w of
        Start \<Rightarrow> Some (w\<lparr>wpc := if wstop w then Finished else Taking\<rparr>)
      | Taking \<Rightarrow>
          (case take_peek (wsys w) of
             None \<Rightarrow> None
           | Some (item, s') \<Rightarrow> Some (w\<lparr>wsys := s', wpc := Taken item\<rparr>))
      | Taken None \<Rightarrow> Some (w\<lparr>wpc := Finished\<rparr>)
      | Taken (Some x) \<Rightarrow>
          (if wstop w then Some (w\<lparr>wsys := restore_front x (wsys w), wpc := Finished\<rparr>)
           else Some (w\<lparr>wpc := Run x (wsignal w)\<rparr>))
      | Run x observed \<Rightarrow>
          (let w' = w\<lparr>process_calls := process_calls w @ [x]\<rparr> in
           if ok
           then Some (w'\<lparr>wsys := commit_front x (wsys w), retry_started := None, wpc := Start\<rparr>)
           else
             let started = (case retry_started w of None \<Rightarrow> now | Some t \<Rightarrow> t);
                 elapsed = now - started
             in if retry_timeout \<le> elapsed
                then Some (w'\<lparr>wsys := commit_front x (wsys w), retry_started := None, wpc := Start\<rparr>)
                else Some (w'\<lparr>wsys := restore_front x (wsys w), retry_started := Some started,
                              wpc := Waiting observed (now + (retry_timeout - elapsed))\<rparr>))
      | Waiting observed deadline \<Rightarrow>
          (case signal_wait_for_change observed (deadline \<le> now) (wsignal w) of
             None \<Rightarrow> None
           | Some changed \<Rightarrow> Some (w\<lparr>wpc := Start\<rparr>))
      | Finished \<Rightarrow> None)"

text \<open>\<open>QueueWorker::spawn_scan_peek\<close>: an unconsumed item is revisited at once.\<close>

fun spawn_scan_peek_step :: "bool \<Rightarrow> 'a worker \<Rightarrow> 'a worker option" where
  "spawn_scan_peek_step ok w =
     (case wpc w of
        Start \<Rightarrow> Some (w\<lparr>wpc := if wstop w then Finished else Taking\<rparr>)
      | Taking \<Rightarrow>
          (case take_peek (wsys w) of
             None \<Rightarrow> None
           | Some (item, s') \<Rightarrow> Some (w\<lparr>wsys := s', wpc := Taken item\<rparr>))
      | Taken None \<Rightarrow> Some (w\<lparr>wpc := Finished\<rparr>)
      | Taken (Some x) \<Rightarrow>
          (if wstop w then Some (w\<lparr>wsys := restore_front x (wsys w), wpc := Finished\<rparr>)
           else Some (w\<lparr>wpc := Run x (wsignal w)\<rparr>))
      | Run x observed \<Rightarrow>
          Some (w\<lparr>process_calls := process_calls w @ [x], wpc := Start,
                  wsys := if ok then commit_front x (wsys w) else restore_front x (wsys w)\<rparr>)
      | Waiting observed deadline \<Rightarrow> None
      | Finished \<Rightarrow> None)"

text \<open>\<open>request_stop\<close>: the stop bit, then the queue, then the signal.\<close>

definition sys_close :: "'a queue_sys \<Rightarrow> 'a queue_sys" where
  "sys_close s = s\<lparr>buffer := close (buffer s), lost := lost s @ items (buffer s)\<rparr>"

definition request_stop :: "'a worker \<Rightarrow> 'a worker" where
  "request_stop w =
     w\<lparr>wstop := True, wsys := sys_close (wsys w), wsignal := signal_notify (wsignal w)\<rparr>"

definition worker_new :: "'a queue \<Rightarrow> 'a worker" where
  "worker_new q =
     \<lparr>wsys = queue_start q, wstop = False, wsignal = signal_new, wpc = Start,
      retry_started = None, process_calls = []\<rparr>"

section \<open>A worker step is a step of the queue\<close>

definition holds :: "'a worker \<Rightarrow> 'a option" where
  "holds w = (case wpc w of Taken item \<Rightarrow> item | Run x _ \<Rightarrow> Some x | _ \<Rightarrow> None)"

text \<open>What the thread holds is what the queue has reserved for it.\<close>

definition reservation_inv :: "'a worker \<Rightarrow> bool" where
  "reservation_inv w \<longleftrightarrow> reserved (wsys w) = holds w"

lemma pop_nothing: "pop b = Some (None, b') \<Longrightarrow> b' = b"
  by (cases "items b") (auto simp: pop_def split: if_splits)

lemma take_pop_step:
  assumes "take_pop s = Some (item, s')" "reserved s = None"
  shows "queue_step\<^sup>*\<^sup>* s s' \<and> reserved s' = None"
proof -
  obtain q' where p: "pop (buffer s) = Some (item, q')"
    and s': "s' = s\<lparr>buffer := q', delivered := delivered s @ opt_list item\<rparr>"
    using assms(1) by (auto simp: take_pop_def split: option.splits)
  show ?thesis
  proof (cases item)
    case None
    then show ?thesis using p pop_nothing s' assms(2) by fastforce
  next
    case (Some x)
    then have "queue_step s s'" using step_pop [OF assms(2)] p by (simp add: s')
    then show ?thesis using assms(2) s' by simp
  qed
qed

lemma take_peek_step:
  assumes "take_peek s = Some (item, s')" "reserved s = None"
  shows "queue_step\<^sup>*\<^sup>* s s' \<and> reserved s' = item"
proof -
  obtain q' where p: "peek (buffer s) = Some (item, q')"
    and s': "s' = s\<lparr>buffer := q', reserved := item\<rparr>"
    using assms(1) by (auto simp: take_peek_def split: option.splits)
  show ?thesis
  proof (cases item)
    case None
    then have "s' = s" using p pop_nothing [of "buffer s"] s' assms(2) by (simp add: peek_eq_pop)
    then show ?thesis using None assms(2) by simp
  next
    case (Some x)
    then have "queue_step s s'" using step_wait_peek [OF assms(2)] p by (simp add: s')
    then show ?thesis by (simp add: s')
  qed
qed

lemma commit_front_step: "reserved s = Some x \<Longrightarrow> queue_step\<^sup>*\<^sup>* s (commit_front x s)"
  unfolding commit_front_def by (rule r_into_rtranclp) (rule step_commit)

lemma restore_front_step: "reserved s = Some x \<Longrightarrow> queue_step\<^sup>*\<^sup>* s (restore_front x s)"
  unfolding restore_front_def by (rule r_into_rtranclp) (rule step_restore)

lemma reserved_front [simp]:
  "reserved (commit_front x s) = None" "reserved (restore_front x s) = None"
  by (simp_all add: commit_front_def restore_front_def)

lemmas front_steps = commit_front_step restore_front_step

section \<open>Executions of a worker among other threads\<close>

inductive worker_move :: "(instant \<Rightarrow> bool \<Rightarrow> 'a worker \<Rightarrow> 'a worker option) \<Rightarrow> 'a worker \<Rightarrow> 'a worker \<Rightarrow> bool"
  for loop where
  move_thread: "loop now ok w = Some w' \<Longrightarrow> worker_move loop w w'"
| move_push: "push x (buffer (wsys w)) = (Inr dropped, q') \<Longrightarrow>
    worker_move loop w (w\<lparr>wsys := (wsys w)\<lparr>buffer := q', accepted := accepted (wsys w) @ [x],
      lost := lost (wsys w) @ opt_list dropped\<rparr>\<rparr>)"
| move_stop: "worker_move loop w (w\<lparr>wstop := True\<rparr>)"
| move_close: "worker_move loop w (w\<lparr>wsys := sys_close (wsys w)\<rparr>)"
| move_notify: "worker_move loop w (w\<lparr>wsignal := signal_notify (wsignal w)\<rparr>)"

lemma request_stop_moves: "(worker_move loop)\<^sup>*\<^sup>* w (request_stop w)"
proof -
  have "worker_move loop w (w\<lparr>wstop := True\<rparr>)" by (rule move_stop)
  moreover have "worker_move loop (w\<lparr>wstop := True\<rparr>) (w\<lparr>wstop := True, wsys := sys_close (wsys w)\<rparr>)"
    using move_close [of loop "w\<lparr>wstop := True\<rparr>"] by simp
  moreover have "worker_move loop (w\<lparr>wstop := True, wsys := sys_close (wsys w)\<rparr>) (request_stop w)"
    using move_notify [of loop "w\<lparr>wstop := True, wsys := sys_close (wsys w)\<rparr>"]
    by (simp add: request_stop_def)
  ultimately show ?thesis by (meson converse_rtranclp_into_rtranclp rtranclp.rtrancl_refl)
qed

text \<open>
  The contract of a worker loop: a step of the thread is an execution of the queue, and the loop
  keeps what it knows of its reservation, which other threads cannot change.
\<close>

locale worker_loop =
  fixes loop :: "instant \<Rightarrow> bool \<Rightarrow> 'a worker \<Rightarrow> 'a worker option"
    and thread_inv :: "'a worker \<Rightarrow> bool"
  assumes loop_refines: "loop now ok w = Some w' \<Longrightarrow> thread_inv w \<Longrightarrow>
      queue_step\<^sup>*\<^sup>* (wsys w) (wsys w') \<and> thread_inv w'"
    and inv_local: "thread_inv w \<Longrightarrow> wpc w' = wpc w \<Longrightarrow> process_calls w' = process_calls w \<Longrightarrow>
      reserved (wsys w') = reserved (wsys w) \<Longrightarrow> delivered (wsys w') = delivered (wsys w) \<Longrightarrow>
      thread_inv w'"
    and inv_new: "thread_inv (worker_new b)"
begin

lemma move_refines:
  "worker_move loop w w' \<Longrightarrow> thread_inv w \<Longrightarrow> queue_step\<^sup>*\<^sup>* (wsys w) (wsys w') \<and> thread_inv w'"
proof (induction rule: worker_move.induct)
  case (move_thread now ok w w')
  then show ?case by (rule loop_refines)
next
  case (move_push x w dropped q')
  then show ?case using inv_local [of w] step_push [of x "wsys w"] by auto
next
  case (move_close w)
  then show ?case using inv_local [of w] step_close [of "wsys w"] by (auto simp: sys_close_def)
qed (auto intro: inv_local)

lemma run_refines:
  "(worker_move loop)\<^sup>*\<^sup>* (worker_new b) w \<Longrightarrow> queue_step\<^sup>*\<^sup>* (queue_start b) (wsys w) \<and> thread_inv w"
proof (induction rule: rtranclp_induct)
  case base
  then show ?case using inv_new by (simp add: worker_new_def)
next
  case (step v w)
  then show ?case using move_refines by (meson rtranclp_trans)
qed

end

definition spawn_inv :: "'a worker \<Rightarrow> bool" where
  "spawn_inv w \<longleftrightarrow> reserved (wsys w) = None \<and>
     (if wpc w = Finished then prefix (process_calls w) (delivered (wsys w))
      else delivered (wsys w) = process_calls w @ opt_list (holds w))"

lemma spawn_refines:
  assumes "spawn_step w = Some w'" "spawn_inv w"
  shows "queue_step\<^sup>*\<^sup>* (wsys w) (wsys w') \<and> spawn_inv w'"
proof (cases "wpc w")
  case Taking
  then obtain item s' where t: "take_pop (wsys w) = Some (item, s')"
    and w': "w' = w\<lparr>wsys := s', wpc := Taken item\<rparr>"
    using assms(1) by (auto split: option.splits)
  have "delivered s' = delivered (wsys w) @ opt_list item"
    using t by (auto simp: take_pop_def split: option.splits)
  then show ?thesis using take_pop_step [OF t] assms(2) Taking w' by (simp add: spawn_inv_def holds_def)
next
  case (Taken item)
  then show ?thesis using assms by (cases item) (auto simp: spawn_inv_def holds_def split: if_splits)
qed (use assms in \<open>auto simp: spawn_inv_def holds_def\<close>)

lemma spawn_peek_refines:
  assumes "spawn_peek_step d now ok w = Some w'" "reservation_inv w"
  shows "queue_step\<^sup>*\<^sup>* (wsys w) (wsys w') \<and> reservation_inv w'"
proof (cases "wpc w")
  case Taking
  then obtain item s' where t: "take_peek (wsys w) = Some (item, s')"
    and w': "w' = w\<lparr>wsys := s', wpc := Taken item\<rparr>"
    using assms(1) by (auto split: option.splits)
  then show ?thesis
    using take_peek_step [OF t] assms(2) Taking w' by (simp add: reservation_inv_def holds_def)
next
  case (Taken item)
  then show ?thesis using assms front_steps by (cases item) (auto simp: reservation_inv_def holds_def split: if_splits)
next
  case (Run x observed)
  then have "reserved (wsys w) = Some x" using assms(2) by (simp add: reservation_inv_def holds_def)
  then show ?thesis
    using Run assms front_steps [of "wsys w" x]
    by (auto simp: reservation_inv_def holds_def Let_def split: if_splits)
qed (use assms in \<open>auto simp: reservation_inv_def holds_def split: option.splits\<close>)

lemma spawn_scan_peek_refines:
  assumes "spawn_scan_peek_step ok w = Some w'" "reservation_inv w"
  shows "queue_step\<^sup>*\<^sup>* (wsys w) (wsys w') \<and> reservation_inv w'"
proof (cases "wpc w")
  case Taking
  then obtain item s' where t: "take_peek (wsys w) = Some (item, s')"
    and w': "w' = w\<lparr>wsys := s', wpc := Taken item\<rparr>"
    using assms(1) by (auto split: option.splits)
  then show ?thesis
    using take_peek_step [OF t] assms(2) Taking w' by (simp add: reservation_inv_def holds_def)
next
  case (Taken item)
  then show ?thesis using assms front_steps by (cases item) (auto simp: reservation_inv_def holds_def split: if_splits)
next
  case (Run x observed)
  then have "reserved (wsys w) = Some x" using assms(2) by (simp add: reservation_inv_def holds_def)
  then show ?thesis
    using Run assms front_steps [of "wsys w" x] by (auto simp: reservation_inv_def holds_def)
qed (use assms in \<open>auto simp: reservation_inv_def holds_def\<close>)

interpretation plain_worker: worker_loop "\<lambda>now ok. spawn_step" spawn_inv
  by unfold_locales
    (auto dest: spawn_refines simp: spawn_inv_def holds_def worker_new_def queue_start_def
      simp del: spawn_step.simps)

interpretation peek_worker: worker_loop "spawn_peek_step d" reservation_inv for d
  by unfold_locales
    (auto dest: spawn_peek_refines simp: reservation_inv_def holds_def worker_new_def queue_start_def
      simp del: spawn_peek_step.simps)

interpretation scan_worker: worker_loop "\<lambda>now. spawn_scan_peek_step" reservation_inv
  by unfold_locales
    (auto dest: spawn_scan_peek_refines simp: reservation_inv_def holds_def worker_new_def queue_start_def
      simp del: spawn_scan_peek_step.simps)

section \<open>Stopping\<close>

text \<open>The thread takes \<open>length inputs\<close> turns; a waiting thread keeps its state.\<close>

fun thread_turns :: "(instant \<Rightarrow> bool \<Rightarrow> 'a worker \<Rightarrow> 'a worker option) \<Rightarrow> (instant \<times> bool) list \<Rightarrow>
    'a worker \<Rightarrow> 'a worker" where
  "thread_turns loop [] w = w"
| "thread_turns loop ((now, ok) # inputs) w =
     thread_turns loop inputs (case loop now ok w of None \<Rightarrow> w | Some w' \<Rightarrow> w')"

text \<open>The generation the thread compares the signal with.\<close>

definition observed_generation :: "'a worker \<Rightarrow> 64 word option" where
  "observed_generation w =
     (case wpc w of Run x g \<Rightarrow> Some g | Waiting g deadline \<Rightarrow> Some g | _ \<Rightarrow> None)"

text \<open>How many more turns a stopping thread needs.\<close>

fun turns_left :: "'a worker_pc \<Rightarrow> nat" where
  "turns_left Finished = 0"
| "turns_left Start = 1"
| "turns_left (Taken item) = 1"
| "turns_left Taking = 2"
| "turns_left (Waiting g deadline) = 2"
| "turns_left (Run x g) = 3"

fun calls_left :: "'a worker_pc \<Rightarrow> nat" where
  "calls_left (Run x g) = 1"
| "calls_left pc = 0"

definition stopping :: "'a worker \<Rightarrow> bool" where
  "stopping w \<longleftrightarrow> wstop w \<and> closed (buffer (wsys w)) \<and> observed_generation w \<noteq> Some (wsignal w)"

text \<open>The progress every loop makes once it is stopping.\<close>

locale stopping_loop =
  fixes loop :: "instant \<Rightarrow> bool \<Rightarrow> 'a worker \<Rightarrow> 'a worker option"
    and live :: "'a worker \<Rightarrow> bool"
  assumes progress: "stopping w \<Longrightarrow> live w \<Longrightarrow> wpc w \<noteq> Finished \<Longrightarrow>
      \<exists>w'. loop now ok w = Some w' \<and> stopping w' \<and> live w' \<and> turns_left (wpc w') < turns_left (wpc w)
        \<and> length (process_calls w') + calls_left (wpc w') = length (process_calls w) + calls_left (wpc w)"
    and finished_stays: "wpc w = Finished \<Longrightarrow> loop now ok w = None"
begin

lemma stops:
  "stopping w \<Longrightarrow> live w \<Longrightarrow> turns_left (wpc w) \<le> length inputs \<Longrightarrow>
   wpc (thread_turns loop inputs w) = Finished
   \<and> length (process_calls (thread_turns loop inputs w)) = length (process_calls w) + calls_left (wpc w)"
proof (induction inputs arbitrary: w)
  case Nil
  then show ?case by (cases "wpc w") simp_all
next
  case (Cons i inputs)
  obtain now ok where i: "i = (now, ok)" by (cases i)
  show ?case
  proof (cases "wpc w = Finished")
    case True
    then show ?thesis using Cons.IH [of w] Cons.prems finished_stays [OF True] by (simp add: i)
  next
    case False
    then obtain w' where "loop now ok w = Some w'" "stopping w'" "live w'"
      "turns_left (wpc w') < turns_left (wpc w)"
      "length (process_calls w') + calls_left (wpc w') = length (process_calls w) + calls_left (wpc w)"
      using progress [OF Cons.prems(1,2)] by blast
    then show ?thesis using Cons.IH [of w'] Cons.prems(3) by (simp add: i)
  qed
qed

lemma turns_left_le: "turns_left (wpc w) \<le> 3 \<and> calls_left (wpc w) \<le> 1"
  by (cases "wpc w") simp_all

lemma request_stop_stops:
  assumes "observed_generation w \<noteq> Some (wsignal w + 1)" "live (request_stop w)" "3 \<le> length inputs"
  shows "wpc (thread_turns loop inputs (request_stop w)) = Finished
    \<and> length (process_calls (thread_turns loop inputs (request_stop w))) \<le> length (process_calls w) + 1"
proof -
  have "stopping (request_stop w)"
    using assms(1)
    by (simp add: stopping_def request_stop_def sys_close_def close_def signal_notify_def observed_generation_def)
  then show ?thesis
    using stops [of "request_stop w" inputs] assms(2,3) turns_left_le [of "request_stop w"]
    by (simp add: request_stop_def)
qed

end

text \<open>The plain and the scanning loop never wait for the signal.\<close>

definition never_waits :: "'a worker \<Rightarrow> bool" where
  "never_waits w \<longleftrightarrow> (\<forall>g deadline. wpc w \<noteq> Waiting g deadline)"

lemma take_closed:
  "closed (buffer s) \<Longrightarrow> \<exists>s'. take_pop s = Some (None, s') \<and> closed (buffer s')"
  "closed (buffer s) \<Longrightarrow> \<exists>s'. take_peek s = Some (None, s') \<and> closed (buffer s')"
  by (simp_all add: take_pop_def pop_def take_peek_def peek_def)

lemma closed_front [simp]:
  "closed (buffer (commit_front x s)) = closed (buffer s)"
  "closed (buffer (restore_front x s)) = closed (buffer s)"
  by (simp_all add: commit_front_def restore_front_def front_drop_def)

lemma spawn_progress:
  assumes "stopping w" "never_waits w" "wpc w \<noteq> Finished"
  shows "\<exists>w'. spawn_step w = Some w' \<and> stopping w' \<and> never_waits w' \<and> turns_left (wpc w') < turns_left (wpc w)
        \<and> length (process_calls w') + calls_left (wpc w') = length (process_calls w) + calls_left (wpc w)"
  using assms take_closed(1) [of "wsys w"]
  by (cases "wpc w") (auto simp: stopping_def never_waits_def observed_generation_def)

lemma spawn_peek_progress:
  assumes "stopping w" "wpc w \<noteq> Finished"
  shows "\<exists>w'. spawn_peek_step d now ok w = Some w' \<and> stopping w' \<and> turns_left (wpc w') < turns_left (wpc w)
        \<and> length (process_calls w') + calls_left (wpc w') = length (process_calls w) + calls_left (wpc w)"
proof (cases "wpc w")
  case (Taken item)
  then show ?thesis using assms by (cases item) (auto simp: stopping_def observed_generation_def)
next
  case (Waiting g deadline)
  then show ?thesis
    using assms by (auto simp: stopping_def observed_generation_def signal_wait_for_change_def)
next
  case (Run x g)
  then show ?thesis using assms by (auto simp: stopping_def observed_generation_def Let_def)
qed (use assms take_closed(2) [of "wsys w"] in \<open>auto simp: stopping_def observed_generation_def\<close>)

lemma spawn_scan_peek_progress:
  assumes "stopping w" "never_waits w" "wpc w \<noteq> Finished"
  shows "\<exists>w'. spawn_scan_peek_step ok w = Some w' \<and> stopping w' \<and> never_waits w' \<and> turns_left (wpc w') < turns_left (wpc w)
        \<and> length (process_calls w') + calls_left (wpc w') = length (process_calls w) + calls_left (wpc w)"
proof (cases "wpc w")
  case (Taken item)
  then show ?thesis
    using assms by (cases item) (auto simp: stopping_def observed_generation_def never_waits_def)
qed (use assms take_closed(2) [of "wsys w"] in
     \<open>auto simp: stopping_def observed_generation_def never_waits_def\<close>)

interpretation plain_stop: stopping_loop "\<lambda>now ok. spawn_step" never_waits
  by unfold_locales (blast intro: spawn_progress, simp)

interpretation peek_stop: stopping_loop "spawn_peek_step d" "\<lambda>_. True" for d
  by (unfold_locales, use spawn_peek_progress in fast, simp)

interpretation scan_stop: stopping_loop "\<lambda>now. spawn_scan_peek_step" never_waits
  by unfold_locales (blast intro: spawn_scan_peek_progress, simp)

section \<open>Properties\<close>

text \<open>
  In every execution of a plain worker thread among producers and a stopping thread, the calls of
  its closure are, in order and each exactly once, a prefix of the items delivered by the queue, and
  hence a subsequence of the items the queue accepted; the thread stops with at most one delivered
  item not processed.
\<close>

lemma plain_worker_processes_in_order:
  assumes "queue_new n = Inr b" "(worker_move (\<lambda>now ok. spawn_step))\<^sup>*\<^sup>* (worker_new b) w"
  shows "prefix (process_calls w) (delivered (wsys w)) \<and> subseq (process_calls w) (accepted (wsys w))
    \<and> queue_len (buffer (wsys w)) \<le> n"
proof -
  have run: "queue_step\<^sup>*\<^sup>* (queue_start b) (wsys w)" and inv: "spawn_inv w"
    using plain_worker.run_refines [OF assms(2)] by auto
  have "queue_sys_inv (wsys w)" "capacity (buffer (wsys w)) = n"
    using queue_run.steps_preserve [OF run queue_start_inv [OF assms(1)]] queue_size.steps_preserve [OF run]
      assms(1) by (auto simp: queue_new_def queue_start_def split: if_splits)
  moreover have p: "prefix (process_calls w) (delivered (wsys w))"
    using inv by (auto simp: spawn_inv_def split: if_splits)
  ultimately show ?thesis
    using subseq_take_left [of "delivered (wsys w)"] prefix_imp_subseq [OF p]
    by (auto simp: queue_sys_inv_def queue_inv_def queue_len_def in_flight_def
        intro: subseq_order.order_trans)
qed

definition example_worker :: "nat worker" where
  "example_worker =
     \<lparr>wsys = \<lparr>buffer = \<lparr>capacity = 1, items = [], closed = False, generation = 1\<rparr>, reserved = None,
        accepted = [10], delivered = [10], lost = []\<rparr>,
      wstop = False, wsignal = 0, wpc = Start, retry_started = None, process_calls = [10]\<rparr>"

lemma example_worker_run:
  "(worker_move (\<lambda>now ok. spawn_step))\<^sup>*\<^sup>* (worker_new example_queue) example_worker"
proof -
  let ?move = "worker_move (\<lambda>now ok. spawn_step)"
  let ?w1 = "(worker_new example_queue)\<lparr>wsys := (queue_start example_queue)
     \<lparr>buffer := example_queue\<lparr>items := [10], generation := 1\<rparr>, accepted := [10]\<rparr>\<rparr>"
  let ?w2 = "?w1\<lparr>wpc := Taking\<rparr>"
  let ?w3 = "?w1\<lparr>wsys := wsys example_worker, wpc := Taken (Some 10)\<rparr>"
  let ?w4 = "?w3\<lparr>wpc := Run 10 0\<rparr>"
  have "?move (worker_new example_queue) ?w1"
    using move_push [of 10 "worker_new example_queue" None]
    by (simp add: push_def example_queue_def worker_new_def queue_start_def)
  moreover have "?move ?w1 ?w2"
    by (rule move_thread [of _ 0 True]) (simp add: worker_new_def)
  moreover have "?move ?w2 ?w3"
    by (rule move_thread [of _ 0 True])
      (simp add: worker_new_def take_pop_def pop_def example_queue_def queue_start_def example_worker_def)
  moreover have "?move ?w3 ?w4"
    by (rule move_thread [of _ 0 True]) (simp add: worker_new_def signal_new_def)
  moreover have "?move ?w4 example_worker"
    by (rule move_thread [of _ 0 True]) (simp add: worker_new_def signal_new_def example_worker_def)
  ultimately show ?thesis by (meson converse_rtranclp_into_rtranclp rtranclp.rtrancl_refl)
qed

lemma plain_worker_processes_in_order_witness:
  "prefix (process_calls example_worker) (delivered (wsys example_worker))
   \<and> subseq (process_calls example_worker) (accepted (wsys example_worker))
   \<and> queue_len (buffer (wsys example_worker)) \<le> 1"
  by (rule plain_worker_processes_in_order [OF _ example_worker_run])
    (simp add: queue_new_def example_queue_def)

text \<open>
  C28: Stopping terminates: after \<open>request_stop\<close>, wherever the retrying worker was (waiting for the
  queue, for the retry signal, holding an item or inside its closure), three more turns of the
  thread end it, whatever its closure answers and whatever the clock shows, and the closure runs at
  most once more. The hypothesis excludes only that the 64-bit signal wrapped onto the generation the
  thread has in hand.
\<close>

theorem retrying_worker_stops:
  assumes "observed_generation w \<noteq> Some (wsignal w + 1)" "3 \<le> length inputs"
  shows "wpc (thread_turns (spawn_peek_step retry_timeout) inputs (request_stop w)) = Finished
    \<and> length (process_calls (thread_turns (spawn_peek_step retry_timeout) inputs (request_stop w)))
        \<le> length (process_calls w) + 1"
  using peek_stop.request_stop_stops [OF assms(1) _ assms(2)] by simp

theorem retrying_worker_stops_witness:
  "wpc (thread_turns (spawn_peek_step 5) [(0, False), (0, False), (0, True)]
      (request_stop (example_worker\<lparr>wpc := Run 10 0\<rparr>))) = Finished
   \<and> length (process_calls (thread_turns (spawn_peek_step 5) [(0, False), (0, False), (0, True)]
      (request_stop (example_worker\<lparr>wpc := Run 10 0\<rparr>)))) \<le> length (process_calls (example_worker\<lparr>wpc := Run 10 0\<rparr>)) + 1"
  by (rule retrying_worker_stops) (simp_all add: observed_generation_def example_worker_def)

text \<open>
  The retry period of \<open>spawn_peek\<close> is not tied to an item: a worker whose first item failed at
  instant 0 and was then pushed out of its full queue discards the next item at that item's first
  failure, although it has never been retried.
\<close>

lemma retry_period_outlives_its_item:
  "process_calls (thread_turns (spawn_peek_step 5) [(7, False), (7, False), (7, False), (7, False), (7, False)]
     \<lparr>wsys = \<lparr>buffer = snd (push 20 \<lparr>capacity = 1, items = [10], closed = False, generation = 1\<rparr>),
         reserved = None, accepted = [10, 20], delivered = [], lost = [10]\<rparr>,
      wstop = False, wsignal = 0, wpc = Waiting 0 5, retry_started = Some 0, process_calls = [10]\<rparr>) = [10, 20::nat]
   \<and> items (buffer (wsys (thread_turns (spawn_peek_step 5)
       [(7, False), (7, False), (7, False), (7, False), (7, False)]
     \<lparr>wsys = \<lparr>buffer = snd (push 20 \<lparr>capacity = 1, items = [10], closed = False, generation = 1\<rparr>),
         reserved = None, accepted = [10, 20], delivered = [], lost = [10]\<rparr>,
      wstop = False, wsignal = 0, wpc = Waiting 0 5, retry_started = Some 0, process_calls = [10]\<rparr>))) = []"
  by (simp add: push_def signal_wait_for_change_def take_peek_def peek_def commit_front_def)

end
