(* ===== verification/Vpn_Text.thy ===== *)
theory Vpn_Text
  imports Vpn_Prelude
begin

text \<open>
  The string operations of the Rust standard library the program calls: \<open>trim\<close>,
  \<open>split_whitespace\<close>, \<open>lines\<close>, \<open>split_once\<close>, \<open>strip_prefix\<close>, \<open>trim_start_matches\<close>,
  \<open>to_ascii_lowercase\<close>, \<open>replace\<close> with an empty string, and the parsing and printing of unsigned
  decimal numbers. A Rust string is its UTF-8 byte sequence, a HOL \<open>string\<close> (one \<open>char\<close> per byte);
  lengths are byte lengths, as \<open>str::len\<close> counts them. White space is the Unicode set of
  \<open>char::is_whitespace\<close>, recognised by its UTF-8 encodings.
\<close>

definition code :: "char \<Rightarrow> nat" where
  "code c = of_char c"

definition as_bytes :: "string \<Rightarrow> byte list" where
  "as_bytes s = map (\<lambda>c. word_of_nat (code c)) s"

lemma code_less: "code c < 256"
  by (simp add: code_def)

lemma code_inject: "code c = code d \<longleftrightarrow> c = d"
  by (simp add: code_def)

lemma byte_of_char_inject: "(word_of_nat (code c) :: byte) = word_of_nat (code d) \<longleftrightarrow> c = d"
proof
  assume "(word_of_nat (code c) :: byte) = word_of_nat (code d)"
  then have "unat (word_of_nat (code c) :: byte) = unat (word_of_nat (code d) :: byte)" by simp
  then have "code c = code d"
    using code_less [of c] code_less [of d] by (simp add: unat_of_nat)
  then show "c = d" by (simp add: code_inject)
qed simp

lemma as_bytes_inject: "as_bytes s = as_bytes t \<longleftrightarrow> s = t"
proof (induction s arbitrary: t)
  case Nil
  then show ?case by (cases t) (simp_all add: as_bytes_def)
next
  case (Cons c s)
  then show ?case by (cases t) (simp_all add: as_bytes_def byte_of_char_inject)
qed

lemma length_as_bytes [simp]: "length (as_bytes s) = length s"
  by (simp add: as_bytes_def)

lemma as_bytes_append: "as_bytes (s @ t) = as_bytes s @ as_bytes t"
  by (simp add: as_bytes_def)

section \<open>White space\<close>

text \<open>
  One-, two- and three-byte encodings: U+0009 to U+000D and U+0020; U+0085 and U+00A0; U+1680,
  U+2000 to U+200A, U+2028, U+2029, U+202F, U+205F and U+3000.
\<close>

definition ascii_ws :: "char \<Rightarrow> bool" where
  "ascii_ws c = (9 \<le> code c \<and> code c \<le> 13 \<or> code c = 32)"

definition ws2 :: "char \<Rightarrow> char \<Rightarrow> bool" where
  "ws2 a b = (code a = 194 \<and> (code b = 133 \<or> code b = 160))"

definition ws3 :: "char \<Rightarrow> char \<Rightarrow> char \<Rightarrow> bool" where
  "ws3 a b c =
     (code a = 225 \<and> code b = 154 \<and> code c = 128
      \<or> code a = 226 \<and> code b = 128
         \<and> (128 \<le> code c \<and> code c \<le> 138 \<or> code c = 168 \<or> code c = 169 \<or> code c = 175)
      \<or> code a = 226 \<and> code b = 129 \<and> code c = 159
      \<or> code a = 227 \<and> code b = 128 \<and> code c = 128)"

text \<open>The byte length of the white space character a string starts with, 0 if there is none.\<close>

fun ws_prefix :: "string \<Rightarrow> nat" where
  "ws_prefix [] = 0"
| "ws_prefix [a] = (if ascii_ws a then 1 else 0)"
| "ws_prefix [a, b] = (if ascii_ws a then 1 else if ws2 a b then 2 else 0)"
| "ws_prefix (a # b # c # s) =
     (if ascii_ws a then 1 else if ws2 a b then 2 else if ws3 a b c then 3 else 0)"

text \<open>The same for the end of a string, given reversed.\<close>

fun ws_suffix :: "string \<Rightarrow> nat" where
  "ws_suffix [] = 0"
| "ws_suffix [a] = (if ascii_ws a then 1 else 0)"
| "ws_suffix [b, a] = (if ascii_ws b then 1 else if ws2 a b then 2 else 0)"
| "ws_suffix (c # b # a # s) =
     (if ascii_ws c then 1 else if ws2 b c then 2 else if ws3 a b c then 3 else 0)"

lemma ws_prefix_le: "ws_prefix s \<le> length s"
  by (induction s rule: ws_prefix.induct) auto

lemma ws_suffix_le: "ws_suffix s \<le> length s"
  by (induction s rule: ws_suffix.induct) auto

lemma ws_prefix_nonzero: "ws_prefix s \<noteq> 0 \<Longrightarrow> length (drop (ws_prefix s) s) < length s"
  using ws_prefix_le [of s] by simp

lemma ws_suffix_nonzero: "ws_suffix s \<noteq> 0 \<Longrightarrow> length (drop (ws_suffix s) s) < length s"
  using ws_suffix_le [of s] by simp

function trim_start :: "string \<Rightarrow> string" where
  "trim_start s = (if ws_prefix s = 0 then s else trim_start (drop (ws_prefix s) s))"
  by pat_completeness auto
termination
  by (relation "measure length") (use ws_prefix_nonzero in simp_all)

function trim_rev :: "string \<Rightarrow> string" where
  "trim_rev s = (if ws_suffix s = 0 then s else trim_rev (drop (ws_suffix s) s))"
  by pat_completeness auto
termination
  by (relation "measure length") (use ws_suffix_nonzero in simp_all)

declare trim_start.simps [simp del] trim_rev.simps [simp del]

definition trim_end :: "string \<Rightarrow> string" where
  "trim_end s = rev (trim_rev (rev s))"

definition trim :: "string \<Rightarrow> string" where
  "trim s = trim_end (trim_start s)"

lemma trim_start_id: "ws_prefix s = 0 \<Longrightarrow> trim_start s = s"
  by (subst trim_start.simps) simp

lemma trim_rev_id: "ws_suffix s = 0 \<Longrightarrow> trim_rev s = s"
  by (subst trim_rev.simps) simp

lemma trim_end_id: "ws_suffix (rev s) = 0 \<Longrightarrow> trim_end s = s"
  by (simp add: trim_end_def trim_rev_id)

lemma trim_id: "ws_prefix s = 0 \<Longrightarrow> ws_suffix (rev s) = 0 \<Longrightarrow> trim s = s"
  by (simp add: trim_def trim_start_id trim_end_id)

text \<open>\<open>str::split_whitespace\<close>; the first argument is the current word, reversed.\<close>

function split_ws :: "string \<Rightarrow> string \<Rightarrow> string list" where
  "split_ws cur [] = (if cur = [] then [] else [rev cur])"
| "split_ws cur (c # s) =
     (if ws_prefix (c # s) = 0 then split_ws (c # cur) s
      else (if cur = [] then [] else [rev cur]) @ split_ws [] (drop (ws_prefix (c # s)) (c # s)))"
  by pat_completeness auto
termination
  by (relation "measure (\<lambda>(cur, s). length s)")
    (auto simp: Suc_diff_le less_Suc_eq_le dest: ws_prefix_nonzero)

declare split_ws.simps(2) [simp del]

definition split_whitespace :: "string \<Rightarrow> string list" where
  "split_whitespace s = split_ws [] s"

lemma split_ws_nonempty: "w \<in> set (split_ws cur s) \<Longrightarrow> w \<noteq> []"
proof (induction cur s rule: split_ws.induct)
  case (1 cur)
  then show ?case by (auto split: if_splits)
next
  case (2 cur c s)
  then show ?case
    by (cases "ws_prefix (c # s) = 0") (auto simp: split_ws.simps(2) split: if_splits)
qed

text \<open>The words of a string are never empty.\<close>

lemma split_whitespace_nonempty: "w \<in> set (split_whitespace s) \<Longrightarrow> w \<noteq> []"
  by (auto simp: split_whitespace_def dest: split_ws_nonempty)

section \<open>Lines and separators\<close>

definition newline :: char where
  "newline = char_of (10 :: nat)"

definition carriage_return :: char where
  "carriage_return = char_of (13 :: nat)"

text \<open>
  \<open>str::lines\<close>: lines end at a line feed, which is removed together with one carriage return before
  it; a last line without a line feed is kept as it is, and no empty line follows a final line feed.
\<close>

definition strip_cr :: "string \<Rightarrow> string" where
  "strip_cr r = (case r of c # cs \<Rightarrow> (if c = carriage_return then cs else r) | [] \<Rightarrow> [])"

fun lines_from :: "string \<Rightarrow> string \<Rightarrow> string list" where
  "lines_from cur [] = (if cur = [] then [] else [rev cur])"
| "lines_from cur (c # s) =
     (if c = newline then rev (strip_cr cur) # lines_from [] s else lines_from (c # cur) s)"

definition lines :: "string \<Rightarrow> string list" where
  "lines s = lines_from [] s"

lemma lines_from_line:
  "newline \<notin> set l \<Longrightarrow>
   lines_from cur (l @ newline # s) = rev (strip_cr (rev l @ cur)) # lines_from [] s"
  by (induction l arbitrary: cur) auto

lemma lines_line:
  assumes "newline \<notin> set l" "l = [] \<or> last l \<noteq> carriage_return"
  shows "lines (l @ newline # s) = l # lines s"
proof -
  have "strip_cr (rev l) = rev l"
    using assms(2) by (cases l rule: rev_cases) (auto simp: strip_cr_def)
  then show ?thesis using lines_from_line [OF assms(1), of "[]" s] by (simp add: lines_def)
qed

lemma lines_Nil [simp]: "lines [] = []"
  by (simp add: lines_def)

fun split_once :: "char \<Rightarrow> string \<Rightarrow> (string \<times> string) option" where
  "split_once d [] = None"
| "split_once d (c # s) =
     (if c = d then Some ([], s) else map_option (\<lambda>(a, b). (c # a, b)) (split_once d s))"

lemma split_once_Some: "split_once d s = Some (a, b) \<longleftrightarrow> s = a @ d # b \<and> d \<notin> set a"
proof (induction s arbitrary: a)
  case Nil
  then show ?case by simp
next
  case (Cons c s)
  then show ?case by (cases a) auto
qed

lemma split_once_None: "split_once d s = None \<longleftrightarrow> d \<notin> set s"
  by (induction s) auto

text \<open>\<open>split(d).next()\<close>: what precedes the first separator.\<close>

definition before :: "char \<Rightarrow> string \<Rightarrow> string" where
  "before d s = takeWhile (\<lambda>c. c \<noteq> d) s"

lemma before_id: "d \<notin> set s \<Longrightarrow> before d s = s"
  by (induction s) (auto simp: before_def)

lemma before_append: "d \<notin> set s \<Longrightarrow> before d (s @ d # t) = s"
  by (induction s) (auto simp: before_def)

text \<open>\<open>str::split\<close> on one character, all pieces.\<close>

fun split_on :: "char \<Rightarrow> string \<Rightarrow> string list" where
  "split_on d [] = [[]]"
| "split_on d (c # s) =
     (if c = d then [] # split_on d s
      else (case split_on d s of [] \<Rightarrow> [[c]] | w # ws \<Rightarrow> (c # w) # ws))"

lemma split_on_not_Nil: "split_on d s \<noteq> []"
  by (cases s) (auto split: list.splits)

lemma split_on_id: "d \<notin> set s \<Longrightarrow> split_on d s = [s]"
  by (induction s) auto

lemma split_on_append: "d \<notin> set s \<Longrightarrow> split_on d (s @ d # t) = s # split_on d t"
  by (induction s) (auto simp: split_on_not_Nil)

text \<open>\<open>strip_prefix\<close> on strings and on byte slices; \<open>starts_with\<close>.\<close>

fun strip_prefix :: "'a list \<Rightarrow> 'a list \<Rightarrow> 'a list option" where
  "strip_prefix [] s = Some s"
| "strip_prefix (p # ps) [] = None"
| "strip_prefix (p # ps) (c # s) = (if p = c then strip_prefix ps s else None)"

definition starts_with :: "'a list \<Rightarrow> 'a list \<Rightarrow> bool" where
  "starts_with p s = (strip_prefix p s \<noteq> None)"

definition ends_with :: "'a list \<Rightarrow> 'a list \<Rightarrow> bool" where
  "ends_with p s = starts_with (rev p) (rev s)"

lemma strip_prefix_Some: "strip_prefix p s = Some r \<longleftrightarrow> s = p @ r"
  by (induction p s rule: strip_prefix.induct) auto

lemma starts_with_iff: "starts_with p s \<longleftrightarrow> (\<exists>r. s = p @ r)"
proof -
  have "starts_with p s \<longleftrightarrow> (\<exists>r. strip_prefix p s = Some r)"
    by (cases "strip_prefix p s") (simp_all add: starts_with_def)
  then show ?thesis by (simp add: strip_prefix_Some)
qed

lemma strip_prefix_append [simp]: "strip_prefix p (p @ r) = Some r"
  by (simp add: strip_prefix_Some)

lemma strip_prefix_shorter: "p \<noteq> [] \<Longrightarrow> strip_prefix p s = Some r \<Longrightarrow> length r < length s"
  by (simp add: strip_prefix_Some)

text \<open>
  \<open>trim_start_matches(p)\<close> removes the pattern as often as it occurs at the start. An empty pattern
  never occurs in the program.
\<close>

function trim_start_matches :: "string \<Rightarrow> string \<Rightarrow> string" where
  "trim_start_matches p s =
     (if p = [] then s
      else case strip_prefix p s of None \<Rightarrow> s | Some r \<Rightarrow> trim_start_matches p r)"
  by pat_completeness auto
termination
  by (relation "measure (\<lambda>(p, s). length s)") (auto dest: strip_prefix_shorter)

declare trim_start_matches.simps [simp del]

lemma trim_start_matches_once:
  "p \<noteq> [] \<Longrightarrow> \<not> starts_with p r \<Longrightarrow> trim_start_matches p (p @ r) = r"
  by (simp add: trim_start_matches.simps [of p "p @ r"] trim_start_matches.simps [of p r]
      starts_with_def)

lemma trim_start_matches_twice:
  "p \<noteq> [] \<Longrightarrow> trim_start_matches p (p @ r) = trim_start_matches p r"
  by (simp add: trim_start_matches.simps [of p "p @ r"])

section \<open>ASCII case and digits\<close>

definition to_lower :: "char \<Rightarrow> char" where
  "to_lower c = (if 65 \<le> code c \<and> code c \<le> 90 then char_of (code c + 32) else c)"

definition to_ascii_lowercase :: "string \<Rightarrow> string" where
  "to_ascii_lowercase s = map to_lower s"

definition is_digit :: "char \<Rightarrow> bool" where
  "is_digit c = (48 \<le> code c \<and> code c \<le> 57)"

definition is_hexdigit :: "char \<Rightarrow> bool" where
  "is_hexdigit c =
     (is_digit c \<or> 97 \<le> code c \<and> code c \<le> 102 \<or> 65 \<le> code c \<and> code c \<le> 70)"

definition is_lower_hexdigit :: "char \<Rightarrow> bool" where
  "is_lower_hexdigit c = (is_digit c \<or> 97 \<le> code c \<and> code c \<le> 102)"

lemma code_char_of: "n < 256 \<Longrightarrow> code (char_of n) = n"
  by (simp add: code_def)

lemma to_lower_idem: "to_lower (to_lower c) = to_lower c"
  by (auto simp: to_lower_def code_char_of)

lemma to_ascii_lowercase_idem: "to_ascii_lowercase (to_ascii_lowercase s) = to_ascii_lowercase s"
  by (simp add: to_ascii_lowercase_def to_lower_idem)

lemma to_lower_hexdigit: "is_hexdigit (to_lower c) \<longleftrightarrow> is_lower_hexdigit (to_lower c)"
  by (auto simp: is_hexdigit_def is_lower_hexdigit_def is_digit_def to_lower_def code_char_of)

lemma to_lower_lower_hexdigit: "is_lower_hexdigit c \<Longrightarrow> to_lower c = c"
  by (auto simp: is_lower_hexdigit_def is_digit_def to_lower_def)

section \<open>Unsigned decimal numbers\<close>

definition digit_value :: "char \<Rightarrow> nat" where
  "digit_value c = code c - 48"

definition digits_value :: "string \<Rightarrow> nat" where
  "digits_value s = foldl (\<lambda>n c. 10 * n + digit_value c) 0 s"

text \<open>
  \<open>str::parse\<close> into an unsigned type with the given maximum: an optional plus sign followed by at
  least one decimal digit and nothing else, and a value that does not overflow the type.
\<close>

definition parse_unsigned :: "nat \<Rightarrow> string \<Rightarrow> nat option" where
  "parse_unsigned m s =
     (let ds = (case s of c # d # r \<Rightarrow> (if c = CHR ''+'' then d # r else s) | _ \<Rightarrow> s)
      in if ds \<noteq> [] \<and> list_all is_digit ds \<and> digits_value ds \<le> m
         then Some (digits_value ds) else None)"

lemma parse_unsigned_le: "parse_unsigned m s = Some n \<Longrightarrow> n \<le> m"
  by (auto simp: parse_unsigned_def Let_def split: if_splits)

text \<open>Decimal printing, as \<open>Display\<close> for the unsigned types does it.\<close>

fun show_nat :: "nat \<Rightarrow> string" where
  "show_nat n = (if n < 10 then [char_of (48 + n)] else show_nat (n div 10) @ [char_of (48 + n mod 10)])"

declare show_nat.simps [simp del]

lemma is_digit_char_of: "(n :: nat) < 10 \<Longrightarrow> is_digit (char_of (48 + n))"
  by (simp add: is_digit_def code_char_of)

lemma show_nat_digits: "list_all is_digit (show_nat n)"
proof (induction n rule: show_nat.induct)
  case (1 n)
  then show ?case
    by (cases "n < 10"; subst show_nat.simps) (simp_all add: is_digit_char_of)
qed

lemma show_nat_not_Nil: "show_nat n \<noteq> []"
  by (subst show_nat.simps) simp

lemma digits_value_snoc: "digits_value (s @ [c]) = 10 * digits_value s + digit_value c"
  by (simp add: digits_value_def)

lemma digits_value_show_nat: "digits_value (show_nat n) = n"
proof (induction n rule: show_nat.induct)
  case (1 n)
  show ?case
  proof (cases "n < 10")
    case True
    then show ?thesis
      by (subst show_nat.simps) (simp add: digits_value_def digit_value_def code_char_of)
  next
    case False
    with "1.IH" have "digits_value (show_nat (n div 10)) = n div 10" by simp
    with False show ?thesis
      by (subst show_nat.simps) (simp add: digits_value_snoc digit_value_def code_char_of)
  qed
qed

lemma is_digit_plus: "\<not> is_digit (CHR ''+'')"
  by (simp add: is_digit_def code_def)

text \<open>Printing and parsing an unsigned number is the identity within the type's range.\<close>

lemma parse_show_nat: "n \<le> m \<Longrightarrow> parse_unsigned m (show_nat n) = Some n"
proof -
  assume le: "n \<le> m"
  have "hd (show_nat n) \<noteq> CHR ''+''"
    using show_nat_digits [of n] show_nat_not_Nil [of n] is_digit_plus
    by (metis list.set_sel(1) list_all_iff)
  then have "(case show_nat n of c # d # r \<Rightarrow> (if c = CHR ''+'' then d # r else show_nat n)
      | _ \<Rightarrow> show_nat n) = show_nat n"
    by (auto split: list.splits)
  then show ?thesis
    using le show_nat_not_Nil show_nat_digits
    by (simp add: parse_unsigned_def Let_def digits_value_show_nat)
qed

text \<open>Rules that run the readers on a given text.\<close>

lemmas text_eval = is_digit_def code_def digits_value_def digit_value_def parse_unsigned_def

lemmas words_eval = split_whitespace_def split_ws.simps(2) ascii_ws_def ws2_def ws3_def code_def

lemma ws_prefix_graphic: "33 \<le> code c \<Longrightarrow> code c \<le> 126 \<Longrightarrow> ws_prefix (c # s) = 0"
  by (cases "c # s" rule: ws_prefix.cases) (auto simp: ascii_ws_def ws2_def ws3_def)

lemma split_ws_word:
  "list_all (\<lambda>c. 33 \<le> code c \<and> code c \<le> 126) s \<Longrightarrow> cur \<noteq> [] \<or> s \<noteq> [] \<Longrightarrow>
   split_ws cur s = [rev cur @ s]"
  by (induction s arbitrary: cur) (auto simp: split_ws.simps(2) ws_prefix_graphic)

lemma split_whitespace_word:
  "list_all (\<lambda>c. 33 \<le> code c \<and> code c \<le> 126) s \<Longrightarrow> s \<noteq> [] \<Longrightarrow> split_whitespace s = [s]"
  by (simp add: split_whitespace_def split_ws_word)

end
