(* ===== verification/Vpn_Ipv4.thy ===== *)
theory Vpn_Ipv4
  imports Vpn_Text
begin

text \<open>
  IPv4: the address type of the standard library (construction from octets, parsing, printing), and
  the packet and network functions of \<open>src/src/lib.rs\<close>: \<open>ipv4_packet_addresses\<close>,
  \<open>ipv4_is_broadcast\<close>, \<open>parse_ipv4_cidr\<close>, \<open>ipv4_in_cidr\<close>, and \<open>is_keepalive_packet\<close>,
  \<open>validate_datagram_write\<close>, \<open>validate_mtu\<close>. An address is a 32-bit word in network order. The lemmas show that parsing undoes
  printing, that membership in a CIDR network is membership in an interval of addresses, and that
  the directed broadcast address is its last element.
\<close>

section \<open>Addresses\<close>

text \<open>\<open>Ipv4Addr::new\<close>, \<open>octets\<close>, \<open>is_multicast\<close>, \<open>BROADCAST\<close> and \<open>UNSPECIFIED\<close>.\<close>

definition ipv4_new :: "byte \<Rightarrow> byte \<Rightarrow> byte \<Rightarrow> byte \<Rightarrow> ipv4" where
  "ipv4_new a b c d = word_of_nat (((unat a * 256 + unat b) * 256 + unat c) * 256 + unat d)"

definition octets :: "ipv4 \<Rightarrow> byte list" where
  "octets w = [word_of_nat (unat w div 2 ^ 24), word_of_nat (unat w div 2 ^ 16 mod 256),
               word_of_nat (unat w div 2 ^ 8 mod 256), word_of_nat (unat w mod 256)]"

definition is_multicast :: "ipv4 \<Rightarrow> bool" where
  "is_multicast w = (let o0 = unat w div 2 ^ 24 in 224 \<le> o0 \<and> o0 \<le> 239)"

definition ipv4_broadcast :: ipv4 where
  "ipv4_broadcast = 0xFFFFFFFF"

definition ipv4_unspecified :: ipv4 where
  "ipv4_unspecified = 0"

lemma unat_byte: "unat (b :: byte) < 256"
  using unsigned_less [of b] by simp

lemma unat_ipv4: "unat (w :: ipv4) < 2 ^ 32"
  using unsigned_less [of w] by simp

text \<open>The four base-256 digits of a number.\<close>

lemma base256_digits:
  fixes a b c d :: nat
  assumes "b < 256" "c < 256" "d < 256"
  defines "n \<equiv> ((a * 256 + b) * 256 + c) * 256 + d"
  shows "n div 2 ^ 24 = a" "n div 2 ^ 16 mod 256 = b" "n div 2 ^ 8 mod 256 = c" "n mod 256 = d"
proof -
  have d8: "n div 2 ^ 8 = (a * 256 + b) * 256 + c" using assms by simp
  have "n div 2 ^ 16 = n div 2 ^ 8 div 2 ^ 8" by (simp add: div_mult2_eq [symmetric])
  then have d16: "n div 2 ^ 16 = a * 256 + b" using assms d8 by simp
  have "n div 2 ^ 24 = n div 2 ^ 16 div 2 ^ 8" by (simp add: div_mult2_eq [symmetric])
  then show "n div 2 ^ 24 = a" using assms d16 by simp
  have low: "(x * 256 + y) mod 256 = y" if "y < 256" for x y :: nat using that by simp
  show "n div 2 ^ 16 mod 256 = b" unfolding d16 using assms(1) by (rule low)
  show "n div 2 ^ 8 mod 256 = c" unfolding d8 using assms(2) by (rule low)
  show "n mod 256 = d" unfolding n_def using assms(3) by (rule low)
qed

lemma base256_compose:
  fixes n :: nat
  shows "((n div 2 ^ 24 * 256 + n div 2 ^ 16 mod 256) * 256 + n div 2 ^ 8 mod 256) * 256
           + n mod 256 = n"
proof -
  have d16: "n div 2 ^ 16 = n div 2 ^ 8 div 256" by (simp add: div_mult2_eq [symmetric])
  have d24: "n div 2 ^ 24 = n div 2 ^ 16 div 256" by (simp add: div_mult2_eq [symmetric])
  have "n div 2 ^ 24 * 256 + n div 2 ^ 16 mod 256 = n div 2 ^ 16" unfolding d24 by simp
  moreover have "n div 2 ^ 16 * 256 + n div 2 ^ 8 mod 256 = n div 2 ^ 8" unfolding d16 by simp
  moreover have "n div 2 ^ 8 * 256 + n mod 256 = n" by simp
  ultimately show ?thesis by (simp only:)
qed

lemma unat_ipv4_new:
  "unat (ipv4_new a b c d) = ((unat a * 256 + unat b) * 256 + unat c) * 256 + unat d"
proof -
  have "((unat a * 256 + unat b) * 256 + unat c) * 256 + unat d < 2 ^ 32"
    using unat_byte [of a] unat_byte [of b] unat_byte [of c] unat_byte [of d] by simp
  then have "((unat a * 256 + unat b) * 256 + unat c) * 256 + unat d < 2 ^ LENGTH(32)" by simp
  then show ?thesis unfolding ipv4_new_def unat_of_nat by (rule mod_less)
qed

lemma octets_ipv4_new: "octets (ipv4_new a b c d) = [a, b, c, d]"
  unfolding octets_def unat_ipv4_new
  by (simp only: base256_digits [OF unat_byte unat_byte unat_byte]) simp

lemma ipv4_new_octets: "octets w = [a, b, c, d] \<Longrightarrow> ipv4_new a b c d = w"
proof -
  assume o: "octets w = [a, b, c, d]"
  have lt24: "unat w div 2 ^ 24 < 256"
    using unat_ipv4 [of w] by (simp add: less_mult_imp_div_less)
  have "unat a = unat w div 2 ^ 24 \<and> unat b = unat w div 2 ^ 16 mod 256
    \<and> unat c = unat w div 2 ^ 8 mod 256 \<and> unat d = unat w mod 256"
    using o lt24 unfolding octets_def by (auto simp: unat_of_nat)
  then have "unat (ipv4_new a b c d) = unat w"
    unfolding unat_ipv4_new using base256_compose [of "unat w"] by simp
  then show ?thesis by (simp add: word_unat_eq_iff)
qed

section \<open>Text\<close>

text \<open>
  \<open>Ipv4Addr::from_str\<close>: exactly four decimal fields separated by dots, each of one to three digits,
  without a leading zero unless it is the digit zero, and at most 255.
\<close>

definition parse_octet :: "string \<Rightarrow> byte option" where
  "parse_octet s =
     (if s \<noteq> [] \<and> length s \<le> 3 \<and> list_all is_digit s
         \<and> (length s = 1 \<or> hd s \<noteq> CHR ''0'') \<and> digits_value s \<le> 255
      then Some (word_of_nat (digits_value s)) else None)"

definition parse_ipv4 :: "string \<Rightarrow> ipv4 option" where
  "parse_ipv4 s =
     (case split_on (CHR ''.'') s of
        [a, b, c, d] \<Rightarrow>
          (case (parse_octet a, parse_octet b, parse_octet c, parse_octet d) of
             (Some a', Some b', Some c', Some d') \<Rightarrow> Some (ipv4_new a' b' c' d')
           | _ \<Rightarrow> None)
      | _ \<Rightarrow> None)"

definition show_octets :: "byte list \<Rightarrow> string" where
  "show_octets bs =
     (case bs of
        [a, b, c, d] \<Rightarrow>
          show_nat (unat a) @ CHR ''.'' # show_nat (unat b) @ CHR ''.'' # show_nat (unat c)
            @ CHR ''.'' # show_nat (unat d)
      | _ \<Rightarrow> [])"

definition show_ipv4 :: "ipv4 \<Rightarrow> string" where
  "show_ipv4 w = show_octets (octets w)"

lemma show_nat_no_dot: "CHR ''.'' \<notin> set (show_nat n)"
  using show_nat_digits [of n] by (auto simp: list_all_iff is_digit_def code_def)

lemma show_nat_step:
  "show_nat n = (if n < 10 then [char_of (48 + n)]
     else show_nat (n div 10) @ [char_of (48 + n mod 10)])"
  by (rule show_nat.simps)

lemma show_nat_short: "n < 1000 \<Longrightarrow> length (show_nat n) \<le> 3"
  using show_nat_step [of n] show_nat_step [of "n div 10"] show_nat_step [of "n div 10 div 10"]
  by (simp split: if_splits)

lemma hd_show_nat: "0 < n \<Longrightarrow> hd (show_nat n) \<noteq> CHR ''0''"
proof (induction n rule: show_nat.induct)
  case (1 n)
  show ?case
  proof (cases "n < 10")
    case True
    then have "code (hd (show_nat n)) = 48 + n"
      by (simp add: show_nat_step [of n] code_char_of)
    moreover have "code (CHR ''0'') = 48" by (simp add: code_def)
    ultimately show ?thesis using "1.prems" by auto
  next
    case False
    with "1.IH" have "hd (show_nat (n div 10)) \<noteq> CHR ''0''" by simp
    with False show ?thesis by (simp add: show_nat_step [of n] hd_append show_nat_not_Nil)
  qed
qed

lemma parse_octet_show: "parse_octet (show_nat (unat b)) = Some b"
proof -
  have lt: "unat b < 256" by (rule unat_byte)
  have hd: "length (show_nat (unat b)) = 1 \<or> hd (show_nat (unat b)) \<noteq> CHR ''0''"
  proof (cases "unat b < 10")
    case True
    then show ?thesis by (simp add: show_nat.simps [of "unat b"])
  next
    case False
    then show ?thesis using hd_show_nat by simp
  qed
  have short: "length (show_nat (unat b)) \<le> 3"
    using lt by (intro show_nat_short) simp
  show ?thesis
    using lt hd short show_nat_digits [of "unat b"] show_nat_not_Nil [of "unat b"]
    by (simp add: parse_octet_def digits_value_show_nat)
qed

lemma octets_exhaust: "\<exists>a b c d. octets w = [a, b, c, d]"
  by (simp add: octets_def)

lemma parse_show_ipv4: "parse_ipv4 (show_ipv4 w) = Some w"
proof -
  obtain a b c d where o: "octets w = [a, b, c, d]" using octets_exhaust by blast
  then show ?thesis
    by (simp add: parse_ipv4_def show_ipv4_def show_octets_def split_on_append split_on_id
        show_nat_no_dot parse_octet_show ipv4_new_octets)
qed

section \<open>Packets\<close>

text \<open>\<open>u16::from_be_bytes\<close>.\<close>

definition u16_from_be :: "byte \<Rightarrow> byte \<Rightarrow> nat" where
  "u16_from_be hi lo = unat hi * 256 + unat lo"

definition KEEPALIVE_PACKET :: "byte list" where
  "KEEPALIVE_PACKET = [0]"

definition is_keepalive_packet :: "byte list \<Rightarrow> bool" where
  "is_keepalive_packet packet = (packet = KEEPALIVE_PACKET)"

text \<open>
  Source and destination of a well-formed IPv4 packet: version 4, a header of at least 20 bytes that
  fits, and a total length that is exactly the length of the packet.
\<close>

definition ipv4_packet_addresses :: "byte list \<Rightarrow> (ipv4 \<times> ipv4) option" where
  "ipv4_packet_addresses packet =
     (if length packet < 20 \<or> drop_bit 4 (packet ! 0) \<noteq> 4 then None
      else let header_length = unat (packet ! 0 AND 0x0F) * 4 in
        if header_length < 20 \<or> length packet < header_length then None
        else let total_length = u16_from_be (packet ! 2) (packet ! 3) in
          if total_length < header_length \<or> total_length \<noteq> length packet then None
          else Some (ipv4_new (packet ! 12) (packet ! 13) (packet ! 14) (packet ! 15),
                     ipv4_new (packet ! 16) (packet ! 17) (packet ! 18) (packet ! 19)))"

definition ipv4_destination :: "byte list \<Rightarrow> ipv4 option" where
  "ipv4_destination packet = map_option (\<lambda>(source, destination). destination) (ipv4_packet_addresses packet)"

definition ipv4_source :: "byte list \<Rightarrow> ipv4 option" where
  "ipv4_source packet = map_option (\<lambda>(source, destination). source) (ipv4_packet_addresses packet)"

lemma ipv4_packet_addresses_Some:
  "ipv4_packet_addresses packet = Some (source, destination) \<Longrightarrow>
     20 \<le> length packet \<and> drop_bit 4 (packet ! 0) = 4 \<and> length packet \<le> 65535
     \<and> length packet = u16_from_be (packet ! 2) (packet ! 3)
     \<and> octets source = take 4 (drop 12 packet) \<and> octets destination = take 4 (drop 16 packet)"
proof -
  assume s: "ipv4_packet_addresses packet = Some (source, destination)"
  then have len: "20 \<le> length packet"
    and ver: "drop_bit 4 (packet ! 0) = 4"
    and tot: "length packet = u16_from_be (packet ! 2) (packet ! 3)"
    and src: "source = ipv4_new (packet ! 12) (packet ! 13) (packet ! 14) (packet ! 15)"
    and dst: "destination = ipv4_new (packet ! 16) (packet ! 17) (packet ! 18) (packet ! 19)"
    by (auto simp: ipv4_packet_addresses_def Let_def split: if_splits)
  have four: "take 4 (drop i packet) = [packet ! i, packet ! (i + 1), packet ! (i + 2), packet ! (i + 3)]"
    if "i + 4 \<le> length packet" for i
    using that by (simp add: numeral_eq_Suc take_Suc_conv_app_nth Cons_nth_drop_Suc [symmetric])
  have "u16_from_be (packet ! 2) (packet ! 3) \<le> 65535"
    using unat_byte [of "packet ! 2"] unat_byte [of "packet ! 3"] by (simp add: u16_from_be_def)
  moreover have "octets source = take 4 (drop 12 packet)"
    using four [of 12] len by (simp add: src octets_ipv4_new)
  moreover have "octets destination = take 4 (drop 16 packet)"
    using four [of 16] len by (simp add: dst octets_ipv4_new)
  ultimately show ?thesis using len ver tot by simp
qed

text \<open>A packet too short, or whose first byte is not of version 4, has no addresses.\<close>

lemma ipv4_packet_addresses_None:
  "length packet < 20 \<or> drop_bit 4 (packet ! 0) \<noteq> 4 \<Longrightarrow> ipv4_packet_addresses packet = None"
  by (auto simp: ipv4_packet_addresses_def)

section \<open>Networks\<close>

text \<open>The mask \<open>u32::MAX << (32 - prefix)\<close>, with 0 for prefix 0; callers have \<open>prefix \<le> 32\<close>.\<close>

definition netmask :: "nat \<Rightarrow> ipv4" where
  "netmask prefix = (if prefix = 0 then 0 else push_bit (32 - prefix) (- 1))"

definition ipv4_is_broadcast :: "ipv4 \<Rightarrow> ipv4 \<Rightarrow> nat \<Rightarrow> bool" where
  "ipv4_is_broadcast address network prefix =
     (if address = ipv4_broadcast then True
      else if 32 \<le> prefix then False
      else address = (network OR NOT (netmask prefix)))"

definition parse_ipv4_cidr :: "string \<Rightarrow> (ipv4 \<times> nat) io_result" where
  "parse_ipv4_cidr v =
     and_then (ok_or (error_new InvalidInput ''network must be CIDR'') (split_once (CHR ''/'') v))
     (\<lambda>(address, prefix).
        and_then (ok_or (error_new InvalidInput ''invalid IPv4 network'') (parse_ipv4 address))
        (\<lambda>address.
          and_then (ok_or (error_new InvalidInput ''invalid network prefix'') (parse_unsigned 255 prefix))
          (\<lambda>prefix.
            if 32 < prefix then Inl (error_new InvalidInput ''invalid network prefix'')
            else if address AND netmask prefix \<noteq> address
            then Inl (error_new InvalidInput ''CIDR address contains host bits'')
            else Inr (address, prefix))))"

definition ipv4_in_cidr :: "ipv4 \<Rightarrow> ipv4 \<Rightarrow> nat \<Rightarrow> bool" where
  "ipv4_in_cidr address network prefix = (address AND netmask prefix = network)"

lemma unat_and_netmask:
  assumes "p \<le> 32"
  shows "unat (a AND netmask p) = unat a div 2 ^ (32 - p) * 2 ^ (32 - p)"
proof (cases "p = 0")
  case True
  then show ?thesis using unat_ipv4 [of a] by (simp add: netmask_def)
next
  case False
  let ?m = "32 - p"
  have "a AND push_bit ?m (- 1) = push_bit ?m (drop_bit ?m a)"
    by (rule bit_eqI) (auto simp: bit_simps)
  moreover have "unat (push_bit ?m (drop_bit ?m a)) = unat a div 2 ^ ?m * 2 ^ ?m"
  proof -
    have le: "unat a div 2 ^ ?m * 2 ^ ?m \<le> unat a" by (rule div_times_less_eq_dividend)
    then have "unat a div 2 ^ ?m * 2 ^ ?m < 2 ^ 32" using unat_ipv4 [of a] by (rule le_less_trans)
    then have lt: "unat a div 2 ^ ?m * 2 ^ ?m < 2 ^ LENGTH(32)" by simp
    have "unat (push_bit ?m (drop_bit ?m a)) = take_bit LENGTH(32) (push_bit ?m (drop_bit ?m (unat a)))"
      by (simp only: unsigned_push_bit_eq unat_drop_bit_eq)
    also have "\<dots> = unat a div 2 ^ ?m * 2 ^ ?m"
      unfolding push_bit_eq_mult drop_bit_eq_div using lt by (simp only: take_bit_nat_eq_self)
    finally show ?thesis .
  qed
  ultimately show ?thesis using False by (simp add: netmask_def)
qed

lemma interval_div:
  fixes x k m :: nat
  assumes "0 < m"
  shows "x div m * m = k * m \<longleftrightarrow> k * m \<le> x \<and> x < k * m + m"
proof
  assume "x div m * m = k * m"
  then show "k * m \<le> x \<and> x < k * m + m"
    using div_mult_mod_eq [of x m] mod_less_divisor [OF assms, of x] by linarith
next
  assume "k * m \<le> x \<and> x < k * m + m"
  then have "x div m = k" by (intro div_nat_eqI) (simp_all add: mult.commute)
  then show "x div m * m = k * m" by simp
qed

text \<open>Membership in a canonical network is membership in an interval of addresses.\<close>

lemma ipv4_in_cidr_interval:
  assumes "p \<le> 32" "n AND netmask p = n"
  shows "ipv4_in_cidr a n p \<longleftrightarrow> unat n \<le> unat a \<and> unat a < unat n + 2 ^ (32 - p)"
proof -
  let ?m = "2 ^ (32 - p) :: nat"
  have n: "unat n = unat n div ?m * ?m"
    using unat_and_netmask [OF assms(1), of n] assms(2) by simp
  have "ipv4_in_cidr a n p \<longleftrightarrow> unat (a AND netmask p) = unat n"
    by (simp add: ipv4_in_cidr_def word_unat_eq_iff)
  also have "\<dots> \<longleftrightarrow> unat a div ?m * ?m = unat n div ?m * ?m"
    unfolding unat_and_netmask [OF assms(1)] using n by simp
  also have "\<dots> \<longleftrightarrow> unat n div ?m * ?m \<le> unat a \<and> unat a < unat n div ?m * ?m + ?m"
    by (rule interval_div) simp
  finally show ?thesis using n by simp
qed

lemma parse_ipv4_cidr_canonical:
  assumes "parse_ipv4_cidr v = Inr (n, p)"
  shows "p \<le> 32" and "n AND netmask p = n"
  using assms by (auto simp: parse_ipv4_cidr_def and_then_eq_Inr ok_or_eq_Inr split: prod.splits if_splits)

lemma unat_not_netmask:
  assumes "p \<le> 32"
  shows "unat (NOT (netmask p)) = 2 ^ (32 - p) - 1"
proof (cases "p = 0")
  case True
  then show ?thesis by (simp add: netmask_def unsigned_minus_1_eq_mask mask_eq_exp_minus_1)
next
  case False
  have "NOT (push_bit (32 - p) (- 1)) = (mask (32 - p) :: ipv4)"
    by (rule bit_eqI) (auto simp: bit_simps)
  moreover have "unat (mask (32 - p) :: ipv4) = 2 ^ (32 - p) - 1"
  proof -
    have "unat (mask (32 - p) :: ipv4) = take_bit (32 - p) (unat (- 1 :: ipv4))"
      by (simp only: unsigned_take_bit_eq flip: take_bit_minus_one_eq_mask)
    also have "\<dots> = mask (min (32 - p) 32)"
      unfolding unsigned_minus_1_eq_mask by (simp add: min.commute)
    finally show ?thesis by (simp add: mask_eq_exp_minus_1)
  qed
  ultimately show ?thesis using False by (simp add: netmask_def)
qed

text \<open>The directed broadcast address is the last address of a canonical network.\<close>

lemma unat_broadcast:
  assumes "p \<le> 32" "n AND netmask p = n"
  shows "unat (n OR NOT (netmask p)) = unat n + (2 ^ (32 - p) - 1)"
proof -
  let ?m = "2 ^ (32 - p) :: nat"
  have "n AND NOT (netmask p) = 0"
    using assms(2) by (metis and.left_commute and.right_neutral and_zero_eq bit.conj_cancel_right
        and.assoc)
  then have "n OR NOT (netmask p) = n + NOT (netmask p)"
    by (simp add: disjunctive_add_eq_or)
  moreover have "unat n + (?m - 1) < 2 ^ 32"
  proof -
    obtain k where k: "unat n = k * ?m"
      using unat_and_netmask [OF assms(1), of n] assms(2) by metis
    have "(2 :: nat) ^ 32 = 2 ^ p * ?m" using assms(1) by (simp flip: power_add)
    then have "k * ?m < 2 ^ p * ?m" using k unat_ipv4 [of n] by simp
    then have "(k + 1) * ?m \<le> 2 ^ p * ?m" by (intro mult_le_mono1) simp
    then show ?thesis using k \<open>2 ^ 32 = 2 ^ p * ?m\<close> by simp
  qed
  ultimately show ?thesis
    using unat_not_netmask [OF assms(1)] by (simp add: unat_word_ariths)
qed

lemma ipv4_is_broadcast_iff:
  assumes "p \<le> 32" "n AND netmask p = n"
  shows "ipv4_is_broadcast a n p \<longleftrightarrow>
     a = ipv4_broadcast \<or> p < 32 \<and> unat a = unat n + (2 ^ (32 - p) - 1)"
  using unat_broadcast [OF assms] by (auto simp: ipv4_is_broadcast_def word_unat_eq_iff)

section \<open>Small validators\<close>

definition MIN_TUN_MTU :: nat where "MIN_TUN_MTU = 576"
definition MAX_TUN_MTU :: nat where "MAX_TUN_MTU = 1500"

definition validate_mtu :: "nat \<Rightarrow> unit io_result" where
  "validate_mtu mtu =
     (if MIN_TUN_MTU \<le> mtu \<and> mtu \<le> MAX_TUN_MTU then Inr ()
      else Inl (error_new InvalidInput (''MTU must be between '' @ show_nat MIN_TUN_MTU @ '' and ''
             @ show_nat MAX_TUN_MTU)))"

definition validate_datagram_write :: "nat \<Rightarrow> nat \<Rightarrow> unit io_result" where
  "validate_datagram_write written expected =
     (if written = expected then Inr ()
      else Inl (error_new WriteZero (''partial datagram write: '' @ show_nat written @ ''/''
             @ show_nat expected @ '' bytes'')))"

lemmas ipv4_eval = parse_ipv4_def parse_octet_def ipv4_new_def netmask_def mask_eq_exp_minus_1
  parse_ipv4_cidr_def ipv4_in_cidr_def text_eval

end
