(* ===== verification/Vpn_Config.thy ===== *)
theory Vpn_Config
  imports Vpn_Ipv4
begin

text \<open>
  Configuration and certificate policy: the INI reader, the client bindings and the certificate
  source policy of \<open>src/src/lib.rs\<close>, and the configuration phase of the server
  (\<open>src/src/server.rs\<close>: the value readers, the client logins and the checks of \<open>run\<close>).

  A file system is a parameter: a function from paths to the text of a file or the error of reading
  it. The two sockets the configuration phase binds are parameters as well. A \<open>HashMap\<close> that is
  only looked up is a map; the bindings, which the server also searches by value, are kept as the
  list of their entries, whose order the program cannot know: lemma \<open>bindings_find_unique\<close> shows that
  the search does not depend on it.
\<close>

section \<open>The INI reader\<close>

type_synonym file_system = "string \<Rightarrow> string io_result"

definition ini_line :: "string \<Rightarrow> string" where
  "ini_line raw_line = trim (before (CHR ''#'') raw_line)"

fun ini_loop :: "string \<Rightarrow> bool \<Rightarrow> string list \<Rightarrow> (string \<times> string) list" where
  "ini_loop section active [] = []"
| "ini_loop section active (raw_line # rest) =
     (let line = ini_line raw_line in
      if line = [] then ini_loop section active rest
      else if starts_with ''['' line \<and> ends_with '']'' line
      then ini_loop section (butlast (tl line) = section) rest
      else if active
      then (case split_once (CHR ''='') line of
              None \<Rightarrow> ini_loop section active rest
            | Some (key, v) \<Rightarrow> (trim key, trim v) # ini_loop section active rest)
      else ini_loop section active rest)"

definition parse_ini_text :: "string \<Rightarrow> string \<Rightarrow> (string \<times> string) list" where
  "parse_ini_text section text = ini_loop section False (lines text)"

definition parse_ini_entries :: "file_system \<Rightarrow> string \<Rightarrow> string \<Rightarrow> (string \<times> string) list io_result" where
  "parse_ini_entries fs path section = and_then (fs path) (\<lambda>text. Inr (parse_ini_text section text))"

text \<open>Collecting into a \<open>HashMap\<close>: the last entry of a key wins.\<close>

definition collect_map :: "('k \<times> 'v) list \<Rightarrow> 'k \<Rightarrow> 'v option" where
  "collect_map entries = map_of (rev entries)"

definition parse_ini_section :: "file_system \<Rightarrow> string \<Rightarrow> string \<Rightarrow> (string \<Rightarrow> string option) io_result" where
  "parse_ini_section fs path section =
     and_then (parse_ini_entries fs path section) (\<lambda>entries. Inr (collect_map entries))"

section \<open>Fingerprints\<close>

definition normalize_sha256_fingerprint :: "string \<Rightarrow> string io_result" where
  "normalize_sha256_fingerprint v =
     (let normalized = to_ascii_lowercase (filter (\<lambda>c. c \<noteq> CHR '':'') v) in
      if length normalized \<noteq> 64 \<or> \<not> list_all is_hexdigit normalized
      then Inl (error_new InvalidInput ''fingerprint must contain exactly 64 hexadecimal SHA-256 digits'')
      else Inr normalized)"

definition fingerprint_form :: "string \<Rightarrow> bool" where
  "fingerprint_form f \<longleftrightarrow> length f = 64 \<and> list_all is_lower_hexdigit f"

lemma to_lower_colon: "to_lower c = CHR '':'' \<longleftrightarrow> c = CHR '':''"
proof -
  have "code (CHR '':'') = 58" by (simp add: code_def)
  then show ?thesis
    by (auto simp: to_lower_def code_inject [symmetric] code_char_of split: if_splits)
qed

lemma normalize_form: "normalize_sha256_fingerprint v = Inr f \<Longrightarrow> fingerprint_form f"
  by (auto simp: normalize_sha256_fingerprint_def fingerprint_form_def Let_def list_all_iff
      to_ascii_lowercase_def to_lower_hexdigit split: if_splits)

lemma lower_hexdigit_no_colon: "is_lower_hexdigit c \<Longrightarrow> c \<noteq> CHR '':''"
  by (auto simp: is_lower_hexdigit_def is_digit_def code_def)

lemma lower_hexdigit_hexdigit: "is_lower_hexdigit c \<Longrightarrow> is_hexdigit c"
  by (auto simp: is_lower_hexdigit_def is_hexdigit_def)

lemma normalize_id:
  assumes "fingerprint_form f"
  shows "normalize_sha256_fingerprint f = Inr f"
proof -
  have hex: "\<forall>c \<in> set f. is_lower_hexdigit c" and len: "length f = 64"
    using assms by (auto simp: fingerprint_form_def list_all_iff)
  have "filter (\<lambda>c. c \<noteq> CHR '':'') f = f" using hex lower_hexdigit_no_colon by (simp add: filter_id_conv)
  moreover have "to_ascii_lowercase f = f"
    using hex by (simp add: to_ascii_lowercase_def map_idI to_lower_lower_hexdigit)
  ultimately show ?thesis
    using hex len lower_hexdigit_hexdigit
    by (simp add: normalize_sha256_fingerprint_def Let_def list_all_iff)
qed

section \<open>Client bindings\<close>

type_synonym bindings = "(ipv4 \<times> string) list"

text \<open>One iteration of the loop of \<open>validate_client_bindings\<close>; the set of fingerprints is that of the bindings.\<close>

definition first_word :: "string \<Rightarrow> string" where
  "first_word s = (case split_whitespace s of [] \<Rightarrow> '''' | w # _ \<Rightarrow> w)"

definition add_binding :: "ipv4 \<Rightarrow> string \<Rightarrow> ipv4 \<times> nat \<Rightarrow> bindings \<Rightarrow> string \<times> string \<Rightarrow> bindings io_result" where
  "add_binding server_address network cidr bs entry =
     (case (cidr, entry) of ((network_address, network_prefix), (ip, fingerprint)) \<Rightarrow>
      and_then (ok_or (error_new InvalidInput (''invalid client VPN address: '' @ ip)) (parse_ipv4 ip))
      (\<lambda>address.
        if \<not> ipv4_in_cidr address network_address network_prefix
        then Inl (error_new InvalidInput (''client address '' @ show_ipv4 address @ '' is outside '' @ network))
        else if address = server_address
        then Inl (error_new InvalidInput (''client address '' @ show_ipv4 address @ '' conflicts with the server''))
        else if address \<in> fst ` set bs
        then Inl (error_new InvalidInput (''duplicate client address: '' @ show_ipv4 address))
        else case normalize_sha256_fingerprint (first_word fingerprint) of
            Inl e \<Rightarrow> Inl (error_new InvalidInput
              (''invalid fingerprint for '' @ show_ipv4 address @ '': '' @ message e))
          | Inr f \<Rightarrow>
              if f \<in> snd ` set bs
              then Inl (error_new InvalidInput (''duplicate client fingerprint for '' @ show_ipv4 address))
              else Inr (bs @ [(address, f)])))"

fun add_bindings :: "ipv4 \<Rightarrow> string \<Rightarrow> ipv4 \<times> nat \<Rightarrow> bindings \<Rightarrow> (string \<times> string) list \<Rightarrow> bindings io_result" where
  "add_bindings server_address network cidr bs [] = Inr bs"
| "add_bindings server_address network cidr bs (entry # entries) =
     and_then (add_binding server_address network cidr bs entry)
       (\<lambda>bs'. add_bindings server_address network cidr bs' entries)"

definition validate_client_bindings :: "(string \<times> string) list \<Rightarrow> ipv4 \<Rightarrow> string \<Rightarrow> bindings io_result" where
  "validate_client_bindings entries server_address network =
     and_then (parse_ipv4_cidr network)
       (\<lambda>cidr. add_bindings server_address network cidr [] entries)"

text \<open>What the rest of the server relies on.\<close>

definition bindings_ok :: "ipv4 \<Rightarrow> ipv4 \<times> nat \<Rightarrow> bindings \<Rightarrow> bool" where
  "bindings_ok server_address cidr bs \<longleftrightarrow>
     distinct (map fst bs) \<and> distinct (map snd bs)
     \<and> (\<forall>(address, f) \<in> set bs. ipv4_in_cidr address (fst cidr) (snd cidr) \<and> address \<noteq> server_address
          \<and> fingerprint_form f)"

lemma add_binding_ok:
  assumes "add_binding srv net cidr bs (ip, fp) = Inr bs'" "bindings_ok srv cidr bs"
  shows "bindings_ok srv cidr bs' \<and> (\<exists>a f. bs' = bs @ [(a, f)] \<and> parse_ipv4 ip = Some a
    \<and> normalize_sha256_fingerprint (first_word fp) = Inr f)"
  using assms normalize_form
  by (cases cidr)
    (fastforce simp: add_binding_def and_then_eq_Inr ok_or_eq_Inr bindings_ok_def
      split: if_splits sum.splits)

lemma add_bindings_ok:
  assumes "add_bindings srv net cidr bs entries = Inr bs'" "bindings_ok srv cidr bs"
  shows "bindings_ok srv cidr bs'
    \<and> (\<exists>new. bs' = bs @ new \<and> list_all2 (\<lambda>(ip, fp) (a, f). parse_ipv4 ip = Some a
         \<and> normalize_sha256_fingerprint (first_word fp) = Inr f) entries new)"
  using assms
proof (induction entries arbitrary: bs)
  case Nil
  then show ?case by simp
next
  case (Cons entry entries)
  obtain ip fp where e: "entry = (ip, fp)" by (cases entry)
  obtain b1 where b1: "add_binding srv net cidr bs (ip, fp) = Inr b1"
    and rest: "add_bindings srv net cidr b1 entries = Inr bs'"
    using Cons.prems(1) by (auto simp: and_then_eq_Inr e)
  obtain a f where af: "b1 = bs @ [(a, f)]" "parse_ipv4 ip = Some a"
    "normalize_sha256_fingerprint (first_word fp) = Inr f" and ok: "bindings_ok srv cidr b1"
    using add_binding_ok [OF b1 Cons.prems(2)] by blast
  obtain new where "bs' = b1 @ new" "bindings_ok srv cidr bs'"
    "list_all2 (\<lambda>(ip, fp) (a, f). parse_ipv4 ip = Some a
         \<and> normalize_sha256_fingerprint (first_word fp) = Inr f) entries new"
    using Cons.IH [OF rest ok] by blast
  then show ?case using af e by (intro conjI exI [of _ "(a, f) # new"]) simp_all
qed

lemma validate_ok:
  assumes "validate_client_bindings entries srv network = Inr bs"
  shows "\<exists>cidr. parse_ipv4_cidr network = Inr cidr \<and> bindings_ok srv cidr bs
    \<and> list_all2 (\<lambda>(ip, fp) (a, f). parse_ipv4 ip = Some a
         \<and> normalize_sha256_fingerprint (first_word fp) = Inr f) entries bs"
proof -
  obtain cidr where c: "parse_ipv4_cidr network = Inr cidr"
    and b: "add_bindings srv network cidr [] entries = Inr bs"
    using assms by (auto simp: validate_client_bindings_def and_then_eq_Inr)
  show ?thesis using add_bindings_ok [OF b] c by (auto simp: bindings_ok_def)
qed

text \<open>The address a fingerprint is bound to: \<open>bindings.iter().find(..)\<close>.\<close>

definition bound_address :: "bindings \<Rightarrow> string \<Rightarrow> ipv4 option" where
  "bound_address bs f = map_option fst (find (\<lambda>(a, g). g = f) bs)"

definition binding_of :: "bindings \<Rightarrow> ipv4 \<Rightarrow> string option" where
  "binding_of bs a = map_of bs a"

lemma bound_address_Some: "bound_address bs f = Some a \<Longrightarrow> (a, f) \<in> set bs"
  by (auto simp: bound_address_def find_Some_iff) (metis nth_mem prod.collapse)

lemma bound_address_unique:
  assumes "distinct (map snd bs)"
  shows "bound_address bs f = Some a \<longleftrightarrow> (a, f) \<in> set bs"
proof
  assume m: "(a, f) \<in> set bs"
  then obtain x where x: "find (\<lambda>(a, g). g = f) bs = Some x"
    using find_None_iff [of "\<lambda>(a, g). g = f" bs] by (cases "find (\<lambda>(a, g). g = f) bs") auto
  then have b: "bound_address bs f = Some (fst x)" by (simp add: bound_address_def)
  then have "(fst x, f) \<in> set bs" by (rule bound_address_Some)
  then have "(fst x, f) = (a, f)" 
    using m assms inj_onD [of snd "set bs" "(fst x, f)" "(a, f)"] by (simp add: distinct_map)
  then show "bound_address bs f = Some a" using b by simp
qed (rule bound_address_Some)

lemma bindings_find_unique:
  assumes "distinct (map snd bs)" "mset bs = mset bs'"
  shows "bound_address bs f = bound_address bs' f"
proof -
  have "mset (map snd bs) = mset (map snd bs')" using assms(2) by simp
  then have d: "distinct (map snd bs')" using assms(1) mset_eq_imp_distinct_iff by blast
  have "bound_address bs f = Some a \<longleftrightarrow> bound_address bs' f = Some a" for a
    using bound_address_unique [OF assms(1)] bound_address_unique [OF d] mset_eq_setD [OF assms(2)] by simp
  then show ?thesis by (metis not_Some_eq)
qed

lemma binding_of_bound:
  assumes "distinct (map fst bs)" "distinct (map snd bs)"
  shows "binding_of bs a = Some f \<longleftrightarrow> bound_address bs f = Some a"
  using assms by (simp add: binding_of_def bound_address_unique)

section \<open>The certificate source policy\<close>

definition ALLOWED_SOURCE_CIDR_URI_PREFIX :: string where
  "ALLOWED_SOURCE_CIDR_URI_PREFIX = ''urn:autobricks:allowed-source-cidr:''"

fun source_policy :: "(ipv4 \<times> nat) option \<Rightarrow> string list \<Rightarrow> (ipv4 \<times> nat) option io_result" where
  "source_policy policy [] = Inr policy"
| "source_policy policy (name # names) =
     (if \<not> starts_with ''urn:autobricks:'' name then source_policy policy names
      else case strip_prefix ALLOWED_SOURCE_CIDR_URI_PREFIX name of
          None \<Rightarrow> Inl (error_new InvalidData (''unknown client certificate policy URI: '' @ name))
        | Some cidr \<Rightarrow>
            if policy \<noteq> None
            then Inl (error_new InvalidData
              ''client certificate contains multiple allowed source CIDR policies'')
            else and_then (parse_ipv4_cidr cidr) (\<lambda>p. source_policy (Some p) names))"

definition certificate_source_policy_allows :: "string list \<Rightarrow> ipv4 \<Rightarrow> bool io_result" where
  "certificate_source_policy_allows alt_names source =
     and_then (source_policy None alt_names)
       (\<lambda>policy. Inr (case policy of None \<Rightarrow> True
                       | Some (network, prefix) \<Rightarrow> ipv4_in_cidr source network prefix))"

definition is_policy_name :: "string \<Rightarrow> bool" where
  "is_policy_name name = starts_with ''urn:autobricks:'' name"

lemma policy_prefix: "is_policy_name (ALLOWED_SOURCE_CIDR_URI_PREFIX @ cidr)"
  by (simp add: is_policy_name_def starts_with_def ALLOWED_SOURCE_CIDR_URI_PREFIX_def)

lemma source_policy_set:
  "source_policy (Some p) names = Inr r \<longleftrightarrow> filter is_policy_name names = [] \<and> r = Some p"
  by (induction names) (auto simp: is_policy_name_def split: option.splits)

lemma source_policy_unset:
  "source_policy None names = Inr r \<longleftrightarrow>
     (filter is_policy_name names = [] \<and> r = None)
     \<or> (\<exists>cidr p. filter is_policy_name names = [ALLOWED_SOURCE_CIDR_URI_PREFIX @ cidr]
          \<and> parse_ipv4_cidr cidr = Inr p \<and> r = Some p)"
proof (induction names)
  case Nil
  then show ?case by auto
next
  case (Cons name names)
  show ?case
  proof (cases "is_policy_name name")
    case False
    then show ?thesis using Cons.IH by (simp add: is_policy_name_def)
  next
    case True
    show ?thesis
    proof (cases "strip_prefix ALLOWED_SOURCE_CIDR_URI_PREFIX name")
      case None
      then have "name \<noteq> ALLOWED_SOURCE_CIDR_URI_PREFIX @ cidr" for cidr by auto
      then show ?thesis using True None by (auto simp: is_policy_name_def)
    next
      case (Some cidr)
      then have "name = ALLOWED_SOURCE_CIDR_URI_PREFIX @ cidr" by (simp add: strip_prefix_Some)
      then show ?thesis
        using True Some by (auto simp: is_policy_name_def [symmetric] and_then_eq_Inr source_policy_set)
    qed
  qed
qed

section \<open>Values of the server configuration\<close>

type_synonym settings = "string \<Rightarrow> string option"

definition config_value :: "settings \<Rightarrow> string \<Rightarrow> string \<Rightarrow> string" where
  "config_value values key fallback = (case values key of None \<Rightarrow> fallback | Some v \<Rightarrow> v)"

definition non_blank :: "string \<Rightarrow> bool" where
  "non_blank v = (trim v \<noteq> [])"

definition option_filter :: "('a \<Rightarrow> bool) \<Rightarrow> 'a option \<Rightarrow> 'a option" where
  "option_filter P v = (case v of None \<Rightarrow> None | Some x \<Rightarrow> if P x then Some x else None)"

definition required_value :: "settings \<Rightarrow> string \<Rightarrow> string io_result" where
  "required_value values key =
     ok_or (error_new InvalidInput (key @ '' is required and must not be empty''))
       (option_filter non_blank (values key))"

fun login_loop :: "(ipv4 \<Rightarrow> (string \<times> string) option) \<Rightarrow> (string \<times> string) list \<Rightarrow>
    (ipv4 \<Rightarrow> (string \<times> string) option) io_result" where
  "login_loop logins [] = Inr logins"
| "login_loop logins ((address, v) # entries) =
     (case split_whitespace v of
        [_] \<Rightarrow> login_loop logins entries
      | [_, name, password] \<Rightarrow>
          (if name \<noteq> [] \<and> password \<noteq> []
           then and_then (ok_or (error_other ''invalid client address'') (parse_ipv4 address))
             (\<lambda>a. login_loop (logins(a \<mapsto> (name, password))) entries)
           else Inl (error_new InvalidInput (''invalid login fields for '' @ address)))
      | _ \<Rightarrow> Inl (error_new InvalidInput (''invalid login fields for '' @ address)))"

definition client_logins :: "(string \<times> string) list \<Rightarrow> (ipv4 \<Rightarrow> (string \<times> string) option) io_result" where
  "client_logins entries = login_loop Map.empty entries"

definition duration_value :: "settings \<Rightarrow> string \<Rightarrow> nat \<Rightarrow> nat \<Rightarrow> nat \<Rightarrow> duration io_result" where
  "duration_value values key fallback minimum maximum =
     and_then (ok_or (error_new InvalidInput (''invalid '' @ key))
                 (parse_unsigned u64_max (config_value values key (show_nat fallback))))
       (\<lambda>n. if n < minimum \<or> maximum < n
             then Inl (error_new InvalidInput
               (key @ '' must be between '' @ show_nat minimum @ '' and '' @ show_nat maximum @ '' seconds''))
             else Inr (seconds n))"

definition boolean_value :: "settings \<Rightarrow> string \<Rightarrow> bool \<Rightarrow> bool io_result" where
  "boolean_value values key fallback =
     (case values key of
        None \<Rightarrow> Inr fallback
      | Some v \<Rightarrow>
          let text = to_ascii_lowercase (trim v) in
          if text \<in> {''true'', ''1'', ''yes'', ''on''} then Inr True
          else if text \<in> {''false'', ''0'', ''no'', ''off''} then Inr False
          else Inl (error_new InvalidInput (key @ '' must be true or false'')))"

text \<open>A number of a given maximum; \<open>usize\<close> and \<open>u64\<close> have 64 bits.\<close>

definition number_value :: "nat \<Rightarrow> settings \<Rightarrow> string \<Rightarrow> string \<Rightarrow> nat io_result" where
  "number_value m values key fallback =
     ok_or (error_other (''invalid '' @ key)) (parse_unsigned m (config_value values key fallback))"

definition address_value :: "io_error \<Rightarrow> settings \<Rightarrow> string \<Rightarrow> string \<Rightarrow> ipv4 io_result" where
  "address_value e values key fallback = ok_or e (parse_ipv4 (config_value values key fallback))"

section \<open>The configuration phase of the server\<close>

record server_config =
  max_clients :: nat
  max_pending_handshakes :: nat
  port :: nat
  listen :: ipv4
  certificate_file :: string
  private_key_file :: string
  ca_file :: string
  crl_file :: "string option"
  ocsp_url :: "string option"
  ocsp_enabled :: bool
  mtu :: nat
  verify_client_san_ip :: bool
  allow_broadcast :: bool
  allow_multicast :: bool
  max_session_lifetime :: duration
  config_reload_interval :: duration
  vpn_address :: ipv4
  vpn_network :: string
  network_address :: ipv4
  network_prefix :: nat
  config_logins :: "ipv4 \<Rightarrow> (string \<times> string) option"
  config_bindings :: bindings

text \<open>
  \<open>run\<close> up to the opening of the TUN device, on the sections already read: the limits, the socket
  settings, the sockets themselves, the network and the clients, in the order of the code.
\<close>

definition server_limits :: "settings \<Rightarrow> (nat \<times> nat) io_result" where
  "server_limits server =
     and_then (number_value u64_max server ''max_clients'' ''64'') (\<lambda>clients.
       if clients < 1 \<or> 1024 < clients
       then Inl (error_other ''max_clients must be between 1 and 1024'')
       else and_then (number_value u64_max server ''max_pending_handshakes'' ''16'') (\<lambda>pending.
         if pending < 1 \<or> 256 < pending
         then Inl (error_other ''max_pending_handshakes must be between 1 and 256'')
         else Inr (clients, pending)))"

definition server_network :: "settings \<Rightarrow> (ipv4 \<times> string \<times> ipv4 \<times> nat) io_result" where
  "server_network server =
     and_then (address_value (error_new InvalidInput ''invalid vpn_address'') server ''vpn_address'' ''10.8.1.1'')
     (\<lambda>address.
       let network = config_value server ''vpn_network'' ''10.8.1.0/24'' in
       and_then (parse_ipv4_cidr network) (\<lambda>(network_address, network_prefix).
         if \<not> ipv4_in_cidr address network_address network_prefix
         then Inl (error_new InvalidInput ''vpn_address is outside vpn_network'')
         else Inr (address, network, network_address, network_prefix)))"

definition load_server_config ::
  "(string \<Rightarrow> string option \<Rightarrow> unit io_result) \<Rightarrow> (ipv4 \<Rightarrow> nat \<Rightarrow> unit io_result) \<Rightarrow>
   settings \<Rightarrow> (string \<times> string) list \<Rightarrow> server_config io_result" where
  "load_server_config bind_control bind_udp server clients =
     and_then (server_limits server) (\<lambda>(limit_clients, limit_pending).
     and_then (number_value 65535 server ''port'' ''4433'') (\<lambda>port_number.
     and_then (address_value (error_other ''invalid listen_address'') server ''listen_address'' ''0.0.0.0'')
       (\<lambda>listen_ip.
     and_then (required_value server ''ca_file'') (\<lambda>ca.
     and_then (boolean_value server ''ocsp_enabled'' True) (\<lambda>ocsp.
     and_then (number_value 65535 server ''mtu'' ''1200'') (\<lambda>mtu_value.
     and_then (boolean_value server ''verify_client_san_ip'' False) (\<lambda>san.
     and_then (boolean_value server ''allow_broadcast'' False) (\<lambda>broadcast.
     and_then (boolean_value server ''allow_multicast'' False) (\<lambda>multicast.
     and_then (duration_value server ''max_session_lifetime'' 3600 60 604800) (\<lambda>lifetime.
     and_then (duration_value server ''config_reload_interval'' 30 5 3600) (\<lambda>interval.
     and_then (bind_control (config_value server ''control_socket'' ''/var/run/autobricks-vpn.sock'')
                 (server ''control_socket_group'')) (\<lambda>_.
     and_then (bind_udp listen_ip port_number) (\<lambda>_.
     and_then (server_network server) (\<lambda>(address, network, net_address, net_prefix).
     and_then (client_logins clients) (\<lambda>logins.
     and_then (validate_client_bindings clients address network) (\<lambda>bs.
       Inr \<lparr>max_clients = limit_clients, max_pending_handshakes = limit_pending, port = port_number,
            listen = listen_ip,
            certificate_file = config_value server ''certificate_file'' ''server-cert.pem'',
            private_key_file = config_value server ''private_key_file'' ''server-key.pem'',
            ca_file = ca,
            crl_file = option_filter non_blank (server ''crl_file''),
            ocsp_url = option_filter non_blank (server ''ocsp_url''),
            ocsp_enabled = ocsp, mtu = mtu_value, verify_client_san_ip = san,
            allow_broadcast = broadcast, allow_multicast = multicast,
            max_session_lifetime = lifetime, config_reload_interval = interval,
            vpn_address = address, vpn_network = network, network_address = net_address,
            network_prefix = net_prefix, config_logins = logins, config_bindings = bs\<rparr>))))))))))))))))"

section \<open>Embedded credentials\<close>

text \<open>\<open>str::contains\<close> and \<open>join("\n")\<close>.\<close>

fun contains_str :: "string \<Rightarrow> string \<Rightarrow> bool" where
  "contains_str p [] = (p = [])"
| "contains_str p (c # s) = (starts_with p (c # s) \<or> contains_str p s)"

fun join_lines :: "string list \<Rightarrow> string" where
  "join_lines [] = []"
| "join_lines [l] = l"
| "join_lines (l # ls) = l @ newline # join_lines ls"

definition is_header :: "string \<Rightarrow> bool" where
  "is_header line = (starts_with ''['' (trim line) \<and> ends_with '']'' (trim line))"

definition embedded_section :: "string \<Rightarrow> string \<Rightarrow> string io_result" where
  "embedded_section text section =
     (let ls = lines text in
      and_then (ok_or (error_new InvalidInput (''missing ['' @ section @ '']''))
                 (position (\<lambda>line. trim line = ''['' @ section @ '']'') ls))
        (\<lambda>start.
          let pem = join_lines (takeWhile (\<lambda>line. \<not> is_header line) (drop (start + 1) ls)) in
          if \<not> contains_str ''-----BEGIN '' pem \<or> \<not> contains_str ''-----END '' pem
          then Inl (error_new InvalidInput (''invalid ['' @ section @ ''] PEM''))
          else Inr (trim pem @ [newline])))"

text \<open>
  \<open>materialize_embedded_credentials\<close>: creating the private directory and writing a new file of
  mode 0600 are parameters. The result is the directory to remove on drop, and the settings.
\<close>

fun write_credentials :: "(string \<Rightarrow> string \<Rightarrow> unit io_result) \<Rightarrow> string \<Rightarrow> (string \<times> string) list \<Rightarrow>
    settings \<Rightarrow> settings io_result" where
  "write_credentials write_new directory [] values = Inr values"
| "write_credentials write_new directory ((name, pem) # files) values =
     (let destination = directory @ ''/'' @ name @ ''.pem'';
          field = (if name = ''certificate'' then ''certificate_file''
                   else if name = ''key'' then ''private_key_file'' else ''ca_file'')
      in and_then (write_new destination pem)
           (\<lambda>_. write_credentials write_new directory files (values(field \<mapsto> destination))))"

definition materialize_embedded_credentials ::
  "file_system \<Rightarrow> string io_result \<Rightarrow> (string \<Rightarrow> string \<Rightarrow> unit io_result) \<Rightarrow> string \<Rightarrow> settings \<Rightarrow>
   (string option \<times> settings) io_result" where
  "materialize_embedded_credentials fs create_private_dir write_new path values =
     and_then (fs path) (\<lambda>text.
       if \<not> list_ex (\<lambda>line. trim line = ''[certificate]'') (lines text)
       then if list_ex (\<lambda>field. values field = Some ''embedded'')
                 [''certificate_file'', ''private_key_file'', ''ca_file'']
            then Inl (error_new InvalidInput ''missing [certificate]'')
            else Inr (None, values)
       else
         and_then (embedded_section text ''certificate'') (\<lambda>certificate.
         and_then (embedded_section text ''key'') (\<lambda>key.
         and_then (embedded_section text ''ca'') (\<lambda>ca.
         and_then create_private_dir (\<lambda>directory.
         and_then (write_credentials write_new directory
                     [(''certificate'', certificate), (''key'', key), (''ca'', ca)] values)
           (\<lambda>values'. Inr (Some directory, values')))))))"

section \<open>Reading back a written file\<close>

text \<open>Printable text without surrounding spaces and without a comment sign.\<close>

definition printable :: "string \<Rightarrow> bool" where
  "printable s \<longleftrightarrow> list_all (\<lambda>c. 32 \<le> code c \<and> code c \<le> 126 \<and> c \<noteq> CHR ''#'') s
     \<and> (s \<noteq> [] \<longrightarrow> code (hd s) \<noteq> 32 \<and> code (last s) \<noteq> 32)"

definition ini_key :: "string \<Rightarrow> bool" where
  "ini_key k \<longleftrightarrow> printable k \<and> k \<noteq> [] \<and> CHR ''='' \<notin> set k \<and> hd k \<noteq> CHR ''[''"

definition render_entry :: "string \<times> string \<Rightarrow> string" where
  "render_entry e = fst e @ CHR ''='' # snd e"

definition render_section :: "string \<times> (string \<times> string) list \<Rightarrow> string list" where
  "render_section b = (''['' @ fst b @ '']'') # map render_entry (snd b)"

definition render_ini :: "(string \<times> (string \<times> string) list) list \<Rightarrow> string" where
  "render_ini blocks = concat (map (\<lambda>l. l @ [newline]) (concat (map render_section blocks)))"

lemma ws_prefix_printable: "printable s \<Longrightarrow> ws_prefix s = 0"
  by (cases s rule: ws_prefix.cases) (auto simp: printable_def ascii_ws_def ws2_def ws3_def)

lemma ws_suffix_printable:
  assumes "printable s"
  shows "ws_suffix (rev s) = 0"
proof -
  have "\<forall>c \<in> set (rev s). code c \<le> 126" "\<forall>c \<in> set (rev s). 32 \<le> code c"
    and "rev s \<noteq> [] \<Longrightarrow> code (hd (rev s)) \<noteq> 32"
    using assms by (auto simp: printable_def list_all_iff hd_rev)
  then show ?thesis
    by (cases "rev s" rule: ws_suffix.cases) (auto simp: ascii_ws_def ws2_def ws3_def)
qed

lemma trim_printable: "printable s \<Longrightarrow> trim s = s"
  by (simp add: trim_id ws_prefix_printable ws_suffix_printable)

lemma printable_no_control:
  assumes "printable s"
  shows "newline \<notin> set s" "carriage_return \<notin> set s" "CHR ''#'' \<notin> set s"
proof -
  have all: "32 \<le> code c \<and> c \<noteq> CHR ''#''" if "c \<in> set s" for c
    using assms that unfolding printable_def list_all_iff by blast
  have codes: "code newline = 10" "code carriage_return = 13"
    by (simp_all add: newline_def carriage_return_def code_char_of)
  show "newline \<notin> set s" using all [of newline] codes(1) by force
  show "carriage_return \<notin> set s" using all [of carriage_return] codes(2) by force
  show "CHR ''#'' \<notin> set s" using all by blast
qed

lemma ini_line_printable: "printable s \<Longrightarrow> ini_line s = s"
  by (simp add: ini_line_def before_id printable_no_control trim_printable)

lemma printable_entry:
  assumes "ini_key k" "printable v"
  shows "printable (render_entry (k, v))"
proof -
  have "code (CHR ''='') = 61" by (simp add: code_def)
  then show ?thesis
    using assms by (cases v) (auto simp: printable_def ini_key_def render_entry_def)
qed

lemma lines_render:
  "list_all printable ls \<Longrightarrow> lines (concat (map (\<lambda>l. l @ [newline]) ls)) = ls"
proof (induction ls)
  case Nil
  then show ?case by simp
next
  case (Cons l ls)
  then have "newline \<notin> set l" "l = [] \<or> last l \<noteq> carriage_return"
    using printable_no_control [of l] last_in_set [of l] by (simp, metis list.pred_inject(2))
  then show ?case using Cons by (simp add: lines_line)
qed

lemma ini_loop_entries:
  assumes "list_all (\<lambda>(k, v). ini_key k \<and> printable v) es"
  shows "ini_loop sec active (map render_entry es @ rest) =
     (if active then es else []) @ ini_loop sec active rest"
  using assms
proof (induction es)
  case Nil
  then show ?case by simp
next
  case (Cons e es)
  obtain k v where e: "e = (k, v)" by (cases e)
  have k: "ini_key k" and v: "printable v" using Cons.prems by (simp_all add: e)
  have line: "ini_line (render_entry (k, v)) = k @ CHR ''='' # v"
    using ini_line_printable [OF printable_entry [OF k v]] by (simp add: render_entry_def)
  have "\<not> starts_with ''['' (k @ CHR ''='' # v)"
    using k by (cases k) (auto simp: ini_key_def starts_with_def)
  moreover have "split_once (CHR ''='') (k @ CHR ''='' # v) = Some (k, v)"
    using k by (simp add: split_once_Some ini_key_def)
  moreover have "trim k = k" "trim v = v" "k \<noteq> []" using k v trim_printable by (auto simp: ini_key_def)
  ultimately show ?case
    using Cons.IH Cons.prems by (cases active) (simp_all add: e line)
qed

definition ini_section :: "string \<Rightarrow> bool" where
  "ini_section s \<longleftrightarrow> printable (''['' @ s @ '']'')"

lemma ini_loop_header:
  assumes "ini_section s"
  shows "ini_loop sec active ((''['' @ s @ '']'') # rest) = ini_loop sec (s = sec) rest"
proof -
  have l: "ini_line (CHR ''['' # s @ '']'') = CHR ''['' # s @ '']''"
    using ini_line_printable [of "''['' @ s @ '']''"] assms by (simp add: ini_section_def)
  show ?thesis by (simp add: l starts_with_def ends_with_def)
qed

lemma ini_loop_blocks:
  assumes "list_all (\<lambda>(s, es). ini_section s \<and> list_all (\<lambda>(k, v). ini_key k \<and> printable v) es) blocks"
  shows "ini_loop sec active (concat (map render_section blocks)) =
     concat (map snd (filter (\<lambda>b. fst b = sec) blocks))"
  using assms
proof (induction blocks arbitrary: active)
  case Nil
  then show ?case by simp
next
  case (Cons b blocks)
  obtain s es where b: "b = (s, es)" by (cases b)
  have s: "ini_section s" and es: "list_all (\<lambda>(k, v). ini_key k \<and> printable v) es"
    using Cons.prems by (simp_all add: b)
  have IH: "ini_loop sec a (concat (map render_section blocks)) =
      concat (map snd (filter (\<lambda>b. fst b = sec) blocks))" for a
    using Cons.IH [of a] Cons.prems by simp
  have "ini_loop sec active (concat (map render_section (b # blocks))) =
      ini_loop sec (s = sec) (map render_entry es @ concat (map render_section blocks))"
    using ini_loop_header [OF s] by (simp add: b render_section_def)
  then show ?case using ini_loop_entries [OF es] IH b by simp
qed

section \<open>Logins\<close>

lemma login_loop_dom:
  assumes "login_loop logins entries = Inr logins'" "logins' a = Some (name, password)"
  shows "logins a = Some (name, password)
    \<or> ((\<exists>ip v. (ip, v) \<in> set entries \<and> parse_ipv4 ip = Some a) \<and> name \<noteq> [] \<and> password \<noteq> [])"
  using assms
proof (induction logins entries rule: login_loop.induct)
  case (1 logins)
  then show ?case by simp
next
  case (2 logins address v entries)
  show ?case
  proof (cases "length (split_whitespace v) = 1")
    case True
    then obtain w where w: "split_whitespace v = [w]" by (auto simp: length_Suc_conv)
    from 2(1) [OF w refl] 2(3,4) w show ?thesis by auto
  next
    case False
    then obtain w n p b where w: "split_whitespace v = [w, n, p]" and np: "n \<noteq> []" "p \<noteq> []"
      and b: "parse_ipv4 address = Some b" and rest: "login_loop (logins(b \<mapsto> (n, p))) entries = Inr logins'"
      using 2(3) by (auto simp: and_then_eq_Inr ok_or_eq_Inr split: list.splits if_splits)
    from 2(2) [OF w] np rest 2(4)
    have "(logins(b \<mapsto> (n, p))) a = Some (name, password)
      \<or> ((\<exists>ip v. (ip, v) \<in> set entries \<and> parse_ipv4 ip = Some a) \<and> name \<noteq> [] \<and> password \<noteq> [])"
      by blast
    then show ?thesis using b np by (auto split: if_splits)
  qed
qed

text \<open>Every login belongs to a bound address, since both come from the same entries.\<close>

lemma logins_bound:
  assumes l: "client_logins entries = Inr logins" and v: "validate_client_bindings entries srv net = Inr bs"
    and a: "logins a = Some (name, password)"
  shows "a \<in> fst ` set bs \<and> name \<noteq> [] \<and> password \<noteq> []"
proof -
  obtain ip v where e: "(ip, v) \<in> set entries" "parse_ipv4 ip = Some a" and np: "name \<noteq> []" "password \<noteq> []"
    using login_loop_dom [of Map.empty entries logins a name password] l a by (auto simp: client_logins_def)
  have "list_all2 (\<lambda>(ip, fp) (a, f). parse_ipv4 ip = Some a
         \<and> normalize_sha256_fingerprint (first_word fp) = Inr f) entries bs"
    using validate_ok [OF v] by blast
  then obtain b where "b \<in> set bs" "case b of (a', f) \<Rightarrow> parse_ipv4 ip = Some a'"
    using e(1) by (fastforce simp: list_all2_conv_all_nth in_set_conv_nth)
  then show ?thesis using np e(2) by (force split: prod.splits)
qed

section \<open>Properties\<close>

text \<open>
  C16: The client bindings accepted at start and at every reload assign each configured address one
  normalised fingerprint of 64 lower-case hexadecimal digits, no two clients share an address or a
  fingerprint, every address lies in the VPN network and none is the server's; each entry of the
  file yields the binding of its address to its normalised first word; and the address found for a
  fingerprint is the only one bound to it.
\<close>

theorem client_bindings_valid:
  assumes "validate_client_bindings entries server_address network = Inr bs"
  shows "\<exists>net prefix. parse_ipv4_cidr network = Inr (net, prefix)
    \<and> bindings_ok server_address (net, prefix) bs
    \<and> list_all2 (\<lambda>(ip, fp) (a, f). parse_ipv4 ip = Some a
         \<and> normalize_sha256_fingerprint (first_word fp) = Inr f) entries bs
    \<and> (\<forall>a f. bound_address bs f = Some a \<longleftrightarrow> binding_of bs a = Some f)"
proof -
  obtain net prefix where c: "parse_ipv4_cidr network = Inr (net, prefix)"
    "bindings_ok server_address (net, prefix) bs"
    "list_all2 (\<lambda>(ip, fp) (a, f). parse_ipv4 ip = Some a
         \<and> normalize_sha256_fingerprint (first_word fp) = Inr f) entries bs"
    using validate_ok [OF assms] by auto
  moreover have "bound_address bs f = Some a \<longleftrightarrow> binding_of bs a = Some f" for a f
    using c(2) binding_of_bound [of bs] by (simp add: bindings_ok_def)
  ultimately show ?thesis by blast
qed

definition example_fingerprint :: string where
  "example_fingerprint = replicate 64 (CHR ''a'')"

lemma example_bindings:
  "validate_client_bindings [(''10.8.1.2'', example_fingerprint)] 0x0A080101 ''10.8.1.0/24''
     = Inr [(0x0A080102, example_fingerprint)]"
proof -
  have "fingerprint_form example_fingerprint"
    by (simp add: fingerprint_form_def example_fingerprint_def is_lower_hexdigit_def code_def list_all_iff)
  moreover have "split_whitespace example_fingerprint = [example_fingerprint]"
    by (rule split_whitespace_word) (simp_all add: example_fingerprint_def code_def list_all_iff)
  ultimately show ?thesis
    by (simp add: validate_client_bindings_def add_binding_def first_word_def normalize_id ipv4_eval)
qed

theorem client_bindings_valid_witness:
  "\<exists>net prefix. parse_ipv4_cidr ''10.8.1.0/24'' = Inr (net, prefix)
    \<and> bindings_ok 0x0A080101 (net, prefix) [(0x0A080102, example_fingerprint)]
    \<and> list_all2 (\<lambda>(ip, fp) (a, f). parse_ipv4 ip = Some a
         \<and> normalize_sha256_fingerprint (first_word fp) = Inr f)
        [(''10.8.1.2'', example_fingerprint)] [(0x0A080102, example_fingerprint)]
    \<and> (\<forall>a f. bound_address [(0x0A080102, example_fingerprint)] f = Some a
         \<longleftrightarrow> binding_of [(0x0A080102, example_fingerprint)] a = Some f)"
  by (rule client_bindings_valid [OF example_bindings])

text \<open>
  The certificate source policy answers exactly for certificates with no policy URI (every
  source is allowed) or with exactly one, which must be an allowed-source CIDR that parses (the
  sources in that network are allowed); any other URI of the program's own namespace, a second
  policy or a malformed CIDR is an error.
\<close>

lemma certificate_policy_decides:
  "certificate_source_policy_allows alt_names source = Inr allowed \<longleftrightarrow>
     (filter is_policy_name alt_names = [] \<and> allowed)
     \<or> (\<exists>cidr network prefix. filter is_policy_name alt_names = [ALLOWED_SOURCE_CIDR_URI_PREFIX @ cidr]
          \<and> parse_ipv4_cidr cidr = Inr (network, prefix)
          \<and> allowed = ipv4_in_cidr source network prefix)"
  by (auto simp: certificate_source_policy_allows_def and_then_eq_Inr source_policy_unset)

text \<open>
  C29: A configuration file written as sections of printable entries is read back exactly: the reader
  returns the entries of the requested section, in order, those of repeated headers concatenated,
  and nothing of any other section.
\<close>

theorem ini_read_back:
  assumes "list_all (\<lambda>(s, es). ini_section s \<and> list_all (\<lambda>(k, v). ini_key k \<and> printable v) es) blocks"
    and "fs path = Inr (render_ini blocks)"
  shows "parse_ini_entries fs path sec = Inr (concat (map snd (filter (\<lambda>b. fst b = sec) blocks)))"
proof -
  have "list_all printable (render_section b)" if "b \<in> set blocks" for b
    using assms(1) that printable_entry
    by (cases b) (fastforce simp: render_section_def list_all_iff ini_section_def)
  then have "list_all printable (concat (map render_section blocks))"
    by (auto simp: list_all_iff)
  then show ?thesis
    using ini_loop_blocks [OF assms(1)] assms(2)
    by (simp add: parse_ini_entries_def parse_ini_text_def render_ini_def lines_render)
qed

theorem ini_read_back_witness:
  "parse_ini_entries (\<lambda>_. Inr (render_ini [(''server'', [(''port'', ''4433'')]), (''client'', [(''10.8.1.2'', ''ab cd'')])]))
     ''vpn.ini'' ''client'' = Inr [(''10.8.1.2'', ''ab cd'')]"
  using ini_read_back [of "[(''server'', [(''port'', ''4433'')]), (''client'', [(''10.8.1.2'', ''ab cd'')])]"
      "\<lambda>_. Inr (render_ini [(''server'', [(''port'', ''4433'')]), (''client'', [(''10.8.1.2'', ''ab cd'')])])"
      "''vpn.ini''" "''client''"]
  by (simp add: ini_section_def ini_key_def printable_def code_def)

lemma load_server_config_parts:
  assumes "load_server_config bind_control bind_udp server clients = Inr c"
  shows "duration_value server ''max_session_lifetime'' 3600 60 604800 = Inr (max_session_lifetime c)"
    "server_limits server = Inr (max_clients c, max_pending_handshakes c)"
    "number_value 65535 server ''port'' ''4433'' = Inr (port c)"
    "server_network server = Inr (vpn_address c, vpn_network c, network_address c, network_prefix c)"
    "client_logins clients = Inr (config_logins c)"
    "validate_client_bindings clients (vpn_address c) (vpn_network c) = Inr (config_bindings c)"
  using assms by (auto simp: load_server_config_def and_then_eq_Inr)

lemma server_limits_range:
  "server_limits server = Inr (clients, handshakes) \<Longrightarrow>
     1 \<le> clients \<and> clients \<le> 1024 \<and> 1 \<le> handshakes \<and> handshakes \<le> 256"
  by (auto simp: server_limits_def and_then_eq_Inr split: if_splits)

lemma server_network_parsed:
  "server_network server = Inr (a, net, base, prefix) \<Longrightarrow>
     parse_ipv4_cidr net = Inr (base, prefix) \<and> ipv4_in_cidr a base prefix"
  by (auto simp: server_network_def and_then_eq_Inr Let_def split: if_splits)

text \<open>
  C17: A server that passes its configuration phase has its limits in range (1 to 1024 clients, 1 to
  256 pending handshakes, a session lifetime of a minute to a week), its own address inside the VPN
  network, valid bindings, and logins, with non-empty name and password, only for bound addresses.
\<close>

theorem server_config_valid:
  assumes "load_server_config bind_control bind_udp server clients = Inr c"
  shows "1 \<le> max_clients c \<and> max_clients c \<le> 1024
    \<and> 1 \<le> max_pending_handshakes c \<and> max_pending_handshakes c \<le> 256
    \<and> port c \<le> 65535 \<and> seconds 60 \<le> max_session_lifetime c \<and> max_session_lifetime c \<le> seconds 604800
    \<and> parse_ipv4_cidr (vpn_network c) = Inr (network_address c, network_prefix c)
    \<and> ipv4_in_cidr (vpn_address c) (network_address c) (network_prefix c)
    \<and> bindings_ok (vpn_address c) (network_address c, network_prefix c) (config_bindings c)
    \<and> (\<forall>a name password. config_logins c a = Some (name, password) \<longrightarrow>
         a \<in> fst ` set (config_bindings c) \<and> name \<noteq> [] \<and> password \<noteq> [])"
proof -
  note parts = load_server_config_parts [OF assms]
  have "1 \<le> max_clients c \<and> max_clients c \<le> 1024
    \<and> 1 \<le> max_pending_handshakes c \<and> max_pending_handshakes c \<le> 256"
    by (rule server_limits_range [OF parts(2)])
  moreover have "port c \<le> 65535"
    using parts(3) by (auto simp: number_value_def ok_or_eq_Inr dest: parse_unsigned_le)
  moreover have "seconds 60 \<le> max_session_lifetime c \<and> max_session_lifetime c \<le> seconds 604800"
    using parts(1) by (auto simp: duration_value_def and_then_eq_Inr seconds_def split: if_splits)
  moreover have net: "parse_ipv4_cidr (vpn_network c) = Inr (network_address c, network_prefix c)
    \<and> ipv4_in_cidr (vpn_address c) (network_address c) (network_prefix c)"
    by (rule server_network_parsed [OF parts(4)])
  moreover have "bindings_ok (vpn_address c) (network_address c, network_prefix c) (config_bindings c)"
    using validate_ok [OF parts(6)] net by auto
  ultimately show ?thesis using logins_bound [OF parts(5,6)] by blast
qed

definition example_settings :: settings where
  "example_settings = [''ca_file'' \<mapsto> ''ca.pem'']"

lemmas config_eval = server_limits_def number_value_def config_value_def example_settings_def
  address_value_def required_value_def option_filter_def non_blank_def boolean_value_def
  server_network_def u64_max_def

lemma example_durations:
  "duration_value example_settings ''max_session_lifetime'' 3600 60 604800 = Inr (seconds 3600)"
  "duration_value example_settings ''config_reload_interval'' 30 5 3600 = Inr (seconds 30)"
  by (simp_all add: config_eval duration_value_def parse_show_nat)

lemma example_numbers:
  "server_limits example_settings = Inr (64, 16)"
  "number_value 65535 example_settings ''port'' ''4433'' = Inr 4433"
  "number_value 65535 example_settings ''mtu'' ''1200'' = Inr 1200"
  "address_value e example_settings ''listen_address'' ''0.0.0.0'' = Inr 0"
  "server_network example_settings = Inr (0x0A080101, ''10.8.1.0/24'', 0x0A080100, 24)"
  by (simp_all add: config_eval ipv4_eval)

lemma example_texts:
  "required_value example_settings ''ca_file'' = Inr ''ca.pem''"
  "boolean_value example_settings ''ocsp_enabled'' True = Inr True"
  "boolean_value example_settings ''verify_client_san_ip'' False = Inr False"
  "boolean_value example_settings ''allow_broadcast'' False = Inr False"
  "boolean_value example_settings ''allow_multicast'' False = Inr False"
  by (simp_all add: config_eval trim_printable printable_def code_def)

lemma example_config:
  "\<exists>c. load_server_config (\<lambda>_ _. Inr ()) (\<lambda>_ _. Inr ()) example_settings
         [(''10.8.1.2'', example_fingerprint)] = Inr c"
proof -
  have "split_whitespace example_fingerprint = [example_fingerprint]"
    by (rule split_whitespace_word) (simp_all add: example_fingerprint_def code_def list_all_iff)
  then have "client_logins [(''10.8.1.2'', example_fingerprint)] = Inr Map.empty"
    by (simp add: client_logins_def)
  then show ?thesis
    by (simp add: load_server_config_def example_durations example_numbers example_texts example_bindings)
qed

theorem server_config_valid_witness:
  "\<exists>c. load_server_config (\<lambda>_ _. Inr ()) (\<lambda>_ _. Inr ()) example_settings
         [(''10.8.1.2'', example_fingerprint)] = Inr c
     \<and> bindings_ok (vpn_address c) (network_address c, network_prefix c) (config_bindings c)
     \<and> max_clients c \<le> 1024"
proof -
  obtain c where c: "load_server_config (\<lambda>_ _. Inr ()) (\<lambda>_ _. Inr ()) example_settings
         [(''10.8.1.2'', example_fingerprint)] = Inr c"
    using example_config by blast
  then show ?thesis using server_config_valid [OF c] by blast
qed

end
