(* ===== verification/Vpn_Dtls.thy ===== *)
theory Vpn_Dtls
  imports Vpn_Worker Vpn_Config
begin

text \<open>
  The DTLS layer of \<open>src/src/lib.rs\<close>: the checks before a context is built (\<open>validate_mtu\<close>,
  \<open>validate_private_key_file\<close>), \<open>Dtls::new\<close> with the wolfSSL calls it makes, the callback context
  \<open>DtlsIo\<close> with the two callbacks \<open>dtls_recv\<close> and \<open>dtls_send\<close>, and the methods of \<open>Dtls\<close>.

  wolfSSL itself is not part of the repository. It is the record \<open>wolfssl\<close> of functions over an
  abstract connection state; every call the code makes is an application of one of its fields, and
  a call that may run the callbacks also transforms the callback context. A null pointer is \<open>None\<close>.
  The building of a context is recorded as the list of the calls made, with a function that says
  which calls succeed.
\<close>

section \<open>Addresses of peers\<close>

text \<open>
  A \<open>sockaddr_storage\<close>: family, port, IPv4 address and the remaining bytes. The code compares all
  of its bytes, so that equality of the record is \<open>memcmp\<close>.
\<close>

record sockaddr =
  sa_family :: nat
  sa_port :: nat
  sa_addr :: ipv4
  sa_rest :: "byte list"

definition AF_INET :: nat where
  "AF_INET = 2"

definition same_peer :: "sockaddr \<Rightarrow> sockaddr \<Rightarrow> bool" where
  "same_peer a b = (a = b)"

definition peer_ipv4 :: "sockaddr \<Rightarrow> ipv4 option" where
  "peer_ipv4 peer = (if sa_family peer \<noteq> AF_INET then None else Some (sa_addr peer))"

section \<open>The private key file\<close>

record file_metadata =
  is_file :: bool
  permission_mode :: "32 word"

definition show_octal3 :: "32 word \<Rightarrow> string" where
  "show_octal3 m =
     (let n = unat (m AND 0x1FF) in
      [char_of (48 + n div 64), char_of (48 + n div 8 mod 8), char_of (48 + n mod 8)])"

definition validate_private_key_file :: "(string \<Rightarrow> file_metadata io_result) \<Rightarrow> string \<Rightarrow> unit io_result" where
  "validate_private_key_file metadata path =
     (case metadata path of
        Inl e \<Rightarrow> Inl (error_new (kind e) (''unable to inspect private key '' @ path @ '': '' @ message e))
      | Inr m \<Rightarrow>
          if \<not> is_file m
          then Inl (error_new InvalidInput (''private key is not a regular file: '' @ path))
          else if permission_mode m AND 0x3F \<noteq> 0
          then Inl (error_new PermissionDenied
            (''private key permissions are too open ('' @ show_octal3 (permission_mode m)
             @ ''); use chmod 600 '' @ path))
          else Inr ())"

section \<open>Building a context\<close>

record tls_config =
  as_server :: bool
  cert_path :: string
  key_path :: string
  ca_path :: "string option"
  crl_path :: "string option"
  use_ocsp :: bool
  ocsp_override :: "string option"
  tun_mtu :: nat

datatype ctx_call =
    Init | CtxNew bool | UseCertificate string | UsePrivateKey string | LoadVerify string
  | SetVerify "32 word" | EnableCrl | LoadCrl string | SetOcspUrl string | EnableOcsp nat | CtxFree

definition VERIFY_NONE :: "32 word" where "VERIFY_NONE = 0"

definition VERIFY_PEER :: "32 word" where "VERIFY_PEER = 1"

definition VERIFY_FAIL_IF_NO_PEER_CERT :: "32 word" where "VERIFY_FAIL_IF_NO_PEER_CERT = 2"

text \<open>\<open>CString::new\<close>.\<close>

definition c_string :: "string \<Rightarrow> string io_result" where
  "c_string s =
     (case position (\<lambda>c. c = char_of (0 :: nat)) s of
        None \<Rightarrow> Inr s
      | Some i \<Rightarrow> Inl (error_new InvalidInput (''nul byte found in provided data at position: '' @ show_nat i)))"

definition c_string_opt :: "string option \<Rightarrow> string option io_result" where
  "c_string_opt v = (case v of None \<Rightarrow> Inr None | Some s \<Rightarrow> and_then (c_string s) (\<lambda>c. Inr (Some c)))"

text \<open>
  The calls on the context, in order: each step appends what it called. A failed step frees the
  context and ends with its message.
\<close>

definition fail_free :: "string \<Rightarrow> ctx_call list \<Rightarrow> unit io_result \<times> ctx_call list" where
  "fail_free m calls = (Inl (error_other m), calls @ [CtxFree])"

definition load_identity :: "(ctx_call \<Rightarrow> bool) \<Rightarrow> tls_config \<Rightarrow> ctx_call list \<Rightarrow> bool \<times> ctx_call list" where
  "load_identity ok cfg calls =
     (let calls = calls @ [UseCertificate (cert_path cfg)] in
      if \<not> ok (UseCertificate (cert_path cfg)) then (False, calls)
      else (ok (UsePrivateKey (key_path cfg)), calls @ [UsePrivateKey (key_path cfg)]))"

definition verify_flags :: "tls_config \<Rightarrow> 32 word" where
  "verify_flags cfg = VERIFY_PEER OR (if as_server cfg then VERIFY_FAIL_IF_NO_PEER_CERT else 0)"

definition load_ca :: "(ctx_call \<Rightarrow> bool) \<Rightarrow> tls_config \<Rightarrow> ctx_call list \<Rightarrow> bool \<times> ctx_call list" where
  "load_ca ok cfg calls =
     (case ca_path cfg of
        None \<Rightarrow> (True, calls @ [SetVerify VERIFY_NONE])
      | Some ca \<Rightarrow>
          if \<not> ok (LoadVerify ca) then (False, calls @ [LoadVerify ca])
          else (True, calls @ [LoadVerify ca, SetVerify (verify_flags cfg)]))"

definition load_crl :: "(ctx_call \<Rightarrow> bool) \<Rightarrow> tls_config \<Rightarrow> ctx_call list \<Rightarrow> bool \<times> ctx_call list" where
  "load_crl ok cfg calls =
     (case crl_path cfg of
        None \<Rightarrow> (True, calls)
      | Some crl \<Rightarrow>
          if \<not> ok EnableCrl then (False, calls @ [EnableCrl])
          else (ok (LoadCrl crl), calls @ [EnableCrl, LoadCrl crl]))"

definition set_ocsp_url :: "(ctx_call \<Rightarrow> bool) \<Rightarrow> tls_config \<Rightarrow> ctx_call list \<Rightarrow> bool \<times> nat \<times> ctx_call list" where
  "set_ocsp_url ok cfg calls =
     (case ocsp_override cfg of
        None \<Rightarrow> (True, 0, calls)
      | Some url \<Rightarrow> (ok (SetOcspUrl url), 1, calls @ [SetOcspUrl url]))"

definition build_context :: "(ctx_call \<Rightarrow> bool) \<Rightarrow> tls_config \<Rightarrow> unit io_result \<times> ctx_call list" where
  "build_context ok cfg =
     (if \<not> ok Init then (Inl (error_other ''wolfSSL_Init failed''), [Init])
      else if \<not> ok (CtxNew (as_server cfg))
      then (Inl (error_other ''wolfSSL_CTX_new failed''), [Init, CtxNew (as_server cfg)])
      else case load_identity ok cfg [Init, CtxNew (as_server cfg)] of
          (False, calls) \<Rightarrow> fail_free ''unable to load certificate or private key'' calls
        | (True, calls) \<Rightarrow>
      (case load_ca ok cfg calls of
          (False, calls) \<Rightarrow> fail_free ''unable to load CA file'' calls
        | (True, calls) \<Rightarrow>
      (case load_crl ok cfg calls of
          (False, calls) \<Rightarrow>
            fail_free ''unable to enable CRL verification; wolfSSL must include CRL support'' calls
        | (True, calls) \<Rightarrow>
      (if use_ocsp cfg \<or> ocsp_override cfg \<noteq> None
       then case set_ocsp_url ok cfg calls of
            (False, _, calls) \<Rightarrow> fail_free ''unable to set OCSP override URL'' calls
          | (True, options, calls) \<Rightarrow>
              if \<not> ok (EnableOcsp options)
              then fail_free ''unable to enable OCSP verification; wolfSSL must include OCSP support''
                     (calls @ [EnableOcsp options])
              else (Inr (), calls @ [EnableOcsp options])
       else (Inr (), calls)))))"

text \<open>\<open>Dtls::new\<close>: the checks, the conversions of the paths, the context.\<close>

definition dtls_checks :: "(string \<Rightarrow> file_metadata io_result) \<Rightarrow> tls_config \<Rightarrow> unit io_result" where
  "dtls_checks metadata cfg =
     and_then (validate_mtu (tun_mtu cfg)) (\<lambda>_.
     and_then (validate_private_key_file metadata (key_path cfg)) (\<lambda>_.
     and_then (c_string (cert_path cfg)) (\<lambda>_.
     and_then (c_string (key_path cfg)) (\<lambda>_.
     and_then (c_string_opt (ca_path cfg)) (\<lambda>_.
     and_then (c_string_opt (crl_path cfg)) (\<lambda>_.
     and_then (c_string_opt (ocsp_override cfg)) (\<lambda>_. Inr ())))))))"

definition dtls_new :: "(string \<Rightarrow> file_metadata io_result) \<Rightarrow> (ctx_call \<Rightarrow> bool) \<Rightarrow> tls_config \<Rightarrow>
    unit io_result \<times> ctx_call list" where
  "dtls_new metadata ok cfg =
     (case dtls_checks metadata cfg of
        Inl e \<Rightarrow> (Inl e, [])
      | Inr _ \<Rightarrow> build_context ok cfg)"

lemmas context_defs = build_context_def load_identity_def load_ca_def load_crl_def set_ocsp_url_def
  fail_free_def Let_def

text \<open>Contexts are neither leaked nor freed twice.\<close>

lemma build_context_frees:
  assumes "build_context ok cfg = (r, calls)"
  shows "count_list calls CtxFree = (case r of Inr _ \<Rightarrow> 0 | Inl _ \<Rightarrow>
           if ok Init \<and> ok (CtxNew (as_server cfg)) then 1 else 0)"
  using assms
  by (auto simp: context_defs split: if_splits option.splits bool.splits prod.splits)

lemma build_context_calls:
  assumes "build_context ok cfg = (Inr (), calls)"
  shows "\<forall>c \<in> set calls. (\<exists>f. c = SetVerify f) \<or> ok c"
  using assms by (auto simp: context_defs split: if_splits option.splits bool.splits prod.splits)

lemma build_context_verifies:
  assumes "build_context ok cfg = (Inr (), calls)" "ca_path cfg = Some ca"
  shows "LoadVerify ca \<in> set calls \<and> (\<forall>f. SetVerify f \<in> set calls \<longleftrightarrow> f = verify_flags cfg)"
  using assms by (auto simp: context_defs split: if_splits option.splits bool.splits prod.splits)

lemma build_context_crl:
  assumes "build_context ok cfg = (Inr (), calls)"
  shows "(crl_path cfg = Some crl \<longrightarrow> EnableCrl \<in> set calls \<and> LoadCrl crl \<in> set calls)
    \<and> (use_ocsp cfg \<longrightarrow> (\<exists>n. EnableOcsp n \<in> set calls))"
  using assms by (auto simp: context_defs split: if_splits option.splits bool.splits prod.splits)

section \<open>The callback context\<close>

record encrypted_datagram =
  datagram_bytes :: "byte list"
  enqueued_at :: instant

text \<open>
  \<open>DtlsIo\<close>. The outgoing queue is shared with the session, the signal with the workers: the record
  holds the queue itself and the generation of the signal.
\<close>

record dtls_io =
  io_peer :: sockaddr
  direct_receive :: bool
  connected_send :: bool
  incoming :: "byte list list"
  incoming_shared :: "byte list queue option"
  recv_pop :: nat
  recv_empty :: nat
  recv_oversize :: nat
  outgoing :: "encrypted_datagram queue option"
  outgoing_signal :: worker_signal

definition dtls_io_new :: "sockaddr \<Rightarrow> dtls_io" where
  "dtls_io_new peer =
     \<lparr>io_peer = peer, direct_receive = False, connected_send = False, incoming = [],
      incoming_shared = None, recv_pop = 0, recv_empty = 0, recv_oversize = 0,
      outgoing = None, outgoing_signal = signal_new\<rparr>"

definition dtls_io_new_client :: "sockaddr \<Rightarrow> dtls_io" where
  "dtls_io_new_client peer = (dtls_io_new peer)\<lparr>direct_receive := True, connected_send := True\<rparr>"

definition io_push :: "byte list \<Rightarrow> dtls_io \<Rightarrow> dtls_io" where
  "io_push packet io = io\<lparr>incoming := incoming io @ [packet]\<rparr>"

definition io_use_queued_send :: "encrypted_datagram queue \<Rightarrow> worker_signal \<Rightarrow> dtls_io \<Rightarrow> dtls_io" where
  "io_use_queued_send q g io = io\<lparr>outgoing := Some q, outgoing_signal := g\<rparr>"

text \<open>
  \<open>dtls_recv\<close>: the return code, the bytes stored in the buffer of the given size, the context. The
  socket's answer is an argument; it stores at most \<open>room\<close> bytes.
\<close>

definition dtls_recv :: "byte list option \<Rightarrow> nat \<Rightarrow> dtls_io \<Rightarrow> int \<times> byte list \<times> dtls_io" where
  "dtls_recv from_socket room io =
     (if direct_receive io
      then (case from_socket of
              None \<Rightarrow> (- 2, [], io)
            | Some packet \<Rightarrow> (int (length (take room packet)), take room packet, io))
      else case incoming_shared io of
          Some q \<Rightarrow>
            (case try_peek q of
               (Inl _, q') \<Rightarrow>
                 (- 2, [], io\<lparr>incoming_shared := Some q', recv_empty := saturating_add (recv_empty io) 1\<rparr>)
             | (Inr packet, q') \<Rightarrow>
                 if room < length packet
                 then (- 1, [], io\<lparr>incoming_shared := Some q',
                                   recv_oversize := saturating_add (recv_oversize io) 1\<rparr>)
                 else (int (length packet), packet,
                       io\<lparr>incoming_shared := Some q', recv_pop := saturating_add (recv_pop io) 1\<rparr>))
        | None \<Rightarrow>
            (case pop_front (incoming io) of
               (None, _) \<Rightarrow> (- 2, [], io\<lparr>recv_empty := saturating_add (recv_empty io) 1\<rparr>)
             | (Some packet, rest) \<Rightarrow>
                 if room < length packet
                 then (- 1, [], io\<lparr>incoming := rest, recv_oversize := saturating_add (recv_oversize io) 1\<rparr>)
                 else (int (length packet), packet,
                       io\<lparr>incoming := rest, recv_pop := saturating_add (recv_pop io) 1\<rparr>)))"

text \<open>\<open>dtls_send\<close>: the socket's answer is the number of bytes sent, negative for an error.\<close>

definition dtls_send :: "instant \<Rightarrow> int \<Rightarrow> byte list \<Rightarrow> dtls_io \<Rightarrow> int \<times> dtls_io" where
  "dtls_send now socket_result bytes io =
     (case outgoing io of
        Some q \<Rightarrow>
          (case push \<lparr>datagram_bytes = bytes, enqueued_at = now\<rparr> q of
             (Inl _, q') \<Rightarrow> (- 1, io\<lparr>outgoing := Some q'\<rparr>)
           | (Inr _, q') \<Rightarrow>
               (int (length bytes),
                io\<lparr>outgoing := Some q', outgoing_signal := signal_notify (outgoing_signal io)\<rparr>))
      | None \<Rightarrow> (if socket_result < 0 then - 1 else socket_result, io))"

section \<open>The connection\<close>

text \<open>wolfSSL: the functions the code calls on a connection.\<close>

record 'w wolfssl =
  ssl_new :: "'w option"
  ssl_set_fd :: "'w option \<Rightarrow> int \<Rightarrow> int \<times> 'w option"
  ssl_set_nonblock :: "'w option \<Rightarrow> bool \<Rightarrow> 'w option"
  ssl_set_peer :: "'w option \<Rightarrow> sockaddr \<Rightarrow> int \<times> 'w option"
  ssl_accept :: "'w option \<Rightarrow> dtls_io option \<Rightarrow> int \<times> 'w option \<times> dtls_io option"
  ssl_connect :: "'w option \<Rightarrow> dtls_io option \<Rightarrow> int \<times> 'w option \<times> dtls_io option"
  ssl_accept_stateless :: "'w option \<Rightarrow> dtls_io option \<Rightarrow> int \<times> 'w option \<times> dtls_io option"
  ssl_read :: "'w option \<Rightarrow> dtls_io option \<Rightarrow> nat \<Rightarrow> int \<times> byte list \<times> 'w option \<times> dtls_io option"
  ssl_write :: "'w option \<Rightarrow> dtls_io option \<Rightarrow> byte list \<Rightarrow> int \<times> 'w option \<times> dtls_io option"
  ssl_get_error :: "'w option \<Rightarrow> int \<Rightarrow> int"
  ssl_inject :: "'w option \<Rightarrow> byte list \<Rightarrow> int \<times> 'w option"
  ssl_disable_read :: "'w option \<Rightarrow> 'w option"
  ssl_current_timeout :: "'w option \<Rightarrow> int"
  ssl_got_timeout :: "'w option \<Rightarrow> dtls_io option \<Rightarrow> int \<times> 'w option \<times> dtls_io option"
  ssl_set_cookie :: "'w option \<Rightarrow> byte list \<Rightarrow> bool \<times> int \<times> 'w option"
  ssl_peer_digest :: "'w option \<Rightarrow> (bool \<times> byte list) option"
  ssl_peer_alt_names :: "'w option \<Rightarrow> string option list option"

record 'w dtls =
  ssl :: "'w option"
  callback_io :: "dtls_io option"
  server_side :: bool
  nonblocking :: bool
  last_read_error :: int

datatype dtls_io_result = Complete nat | WantRead | WantWrite

definition ERROR_WANT_READ :: int where "ERROR_WANT_READ = 2"

definition ERROR_WANT_WRITE :: int where "ERROR_WANT_WRITE = 3"

definition SOCKET_ERROR :: int where "SOCKET_ERROR = - 308"

definition SUCCESS :: int where "SUCCESS = 1"

definition show_int :: "int \<Rightarrow> string" where
  "show_int i = (if i < 0 then CHR ''-'' # show_nat (nat (- i)) else show_nat (nat i))"

definition set_socket :: "'w wolfssl \<Rightarrow> int \<Rightarrow> 'w dtls \<Rightarrow> unit io_result \<times> 'w dtls" where
  "set_socket W fd d =
     (case ssl_new W of
        None \<Rightarrow> (Inl (error_other ''wolfSSL_new failed''), d)
      | Some w \<Rightarrow>
          (case ssl_set_fd W (Some w) fd of
             (r, w') \<Rightarrow>
               if r \<noteq> SUCCESS then (Inl (error_other ''wolfSSL_set_fd failed''), d)
               else (Inr (), d\<lparr>ssl := w', callback_io := None\<rparr>)))"

definition set_nonblocking :: "'w wolfssl \<Rightarrow> bool \<Rightarrow> 'w dtls \<Rightarrow> 'w dtls" where
  "set_nonblocking W b d = d\<lparr>nonblocking := b, ssl := ssl_set_nonblock W (ssl d) b\<rparr>"

definition peer_check :: "int \<Rightarrow> unit io_result" where
  "peer_check r = (if r = SUCCESS then Inr () else Inl (error_other ''wolfSSL peer setup failed''))"

definition set_peer :: "'w wolfssl \<Rightarrow> sockaddr \<Rightarrow> 'w dtls \<Rightarrow> unit io_result \<times> 'w dtls" where
  "set_peer W peer d =
     (case ssl_set_peer W (ssl d) peer of
        (r, w') \<Rightarrow> (peer_check r, d\<lparr>ssl := w'\<rparr>))"

definition set_io :: "dtls_io \<Rightarrow> 'w dtls \<Rightarrow> unit io_result \<times> 'w dtls" where
  "set_io io d =
     (if ssl d = None then (Inl (error_other ''DTLS socket is not initialized''), d)
      else (Inr (), d\<lparr>callback_io := Some io\<rparr>))"

text \<open>The methods that need the callback context share its check.\<close>

definition with_io :: "'w dtls \<Rightarrow> (dtls_io \<Rightarrow> unit io_result \<times> dtls_io) \<Rightarrow> unit io_result \<times> 'w dtls" where
  "with_io d f =
     (case callback_io d of
        None \<Rightarrow> (Inl (error_other ''DTLS I/O is not initialized''), d)
      | Some io \<Rightarrow> (case f io of (r, io') \<Rightarrow> (r, d\<lparr>callback_io := Some io'\<rparr>)))"

definition push_incoming :: "byte list \<Rightarrow> 'w dtls \<Rightarrow> unit io_result \<times> 'w dtls" where
  "push_incoming packet d =
     with_io d (\<lambda>io.
       if direct_receive io
       then (Inl (error_other ''cannot queue packets for a connected DTLS socket''), io)
       else (Inr (), io_push packet io))"

definition use_queued_receive :: "'w dtls \<Rightarrow> unit io_result \<times> 'w dtls" where
  "use_queued_receive d = with_io d (\<lambda>io. (Inr (), io\<lparr>direct_receive := False\<rparr>))"

definition use_shared_receive_queue :: "byte list queue \<Rightarrow> 'w dtls \<Rightarrow> unit io_result \<times> 'w dtls" where
  "use_shared_receive_queue q d =
     with_io d (\<lambda>io. (Inr (), io\<lparr>direct_receive := False, incoming_shared := Some q\<rparr>))"

definition queued_incoming_len :: "'w dtls \<Rightarrow> nat" where
  "queued_incoming_len d =
     (case callback_io d of
        None \<Rightarrow> 0
      | Some io \<Rightarrow> (case incoming_shared io of None \<Rightarrow> length (incoming io) | Some q \<Rightarrow> queue_len q))"

definition receive_callback_stats :: "'w dtls \<Rightarrow> nat \<times> nat \<times> nat" where
  "receive_callback_stats d =
     (case callback_io d of None \<Rightarrow> (0, 0, 0) | Some io \<Rightarrow> (recv_pop io, recv_empty io, recv_oversize io))"

definition use_queued_send :: "encrypted_datagram queue \<Rightarrow> worker_signal \<Rightarrow> 'w dtls \<Rightarrow> unit io_result \<times> 'w dtls" where
  "use_queued_send q g d = with_io d (\<lambda>io. (Inr (), io_use_queued_send q g io))"

definition set_incoming_peer :: "'w wolfssl \<Rightarrow> sockaddr \<Rightarrow> byte list \<Rightarrow> 'w dtls \<Rightarrow> unit io_result \<times> 'w dtls" where
  "set_incoming_peer W peer packet d =
     (case set_peer W peer d of
        (Inl e, d') \<Rightarrow> (Inl e, d')
      | (Inr _, d') \<Rightarrow>
          with_io d' (\<lambda>io.
            if direct_receive io
            then (Inl (error_other ''cannot queue packets for a connected DTLS socket''), io)
            else (Inr (), io\<lparr>io_peer := peer, incoming := [packet]\<rparr>)))"

definition accept_stateless :: "'w wolfssl \<Rightarrow> 'w dtls \<Rightarrow> bool io_result \<times> 'w dtls" where
  "accept_stateless W d =
     (if ssl d = None then (Inl (error_other ''DTLS socket is not initialized''), d)
      else if \<not> server_side d
      then (Inl (error_other ''stateless DTLS accept is only available to servers''), d)
      else case ssl_accept_stateless W (ssl d) (callback_io d) of
          (r, w', io') \<Rightarrow>
            (if r = SUCCESS then Inr True
             else if r = 0 then Inr False
             else Inl (error_other (''stateless DTLS cookie validation failed: '' @ show_int (ssl_get_error W w' r))),
             d\<lparr>ssl := w', callback_io := io'\<rparr>))"

definition set_cookie_secret :: "'w wolfssl \<Rightarrow> byte list \<Rightarrow> 'w dtls \<Rightarrow> unit io_result \<times> 'w dtls" where
  "set_cookie_secret W secret d =
     (if ssl d = None then (Inl (error_other ''DTLS socket is not initialized''), d)
      else if \<not> server_side d
      then (Inl (error_other ''a DTLS cookie secret can only be set on a server''), d)
      else if 2 ^ 32 \<le> length secret
      then (Inl (error_new InvalidInput ''cookie secret is too long''), d)
      else if length secret = 0
      then (Inl (error_new InvalidInput ''cookie secret must not be empty''), d)
      else case ssl_set_cookie W (ssl d) secret of
          (success, r, w') \<Rightarrow>
            (if success then Inr () else Inl (error_other (''unable to set DTLS cookie secret: '' @ show_int r)),
             d\<lparr>ssl := w'\<rparr>))"

definition handshake :: "'w wolfssl \<Rightarrow> 'w dtls \<Rightarrow> bool io_result \<times> 'w dtls" where
  "handshake W d =
     (case (if server_side d then ssl_accept W (ssl d) (callback_io d) else ssl_connect W (ssl d) (callback_io d)) of
        (r, w', io') \<Rightarrow>
          (let d' = d\<lparr>ssl := w', callback_io := io'\<rparr>; e = ssl_get_error W w' r in
           if r = SUCCESS then (Inr True, d')
           else if e = ERROR_WANT_READ \<or> e = ERROR_WANT_WRITE \<or> (nonblocking d \<and> e = SOCKET_ERROR)
           then (Inr False, d')
           else (Inl (error_other (''DTLS handshake failed: '' @ show_int e)), d')))"

definition current_timeout :: "'w wolfssl \<Rightarrow> 'w dtls \<Rightarrow> duration" where
  "current_timeout W d = seconds (nat (max (ssl_current_timeout W (ssl d)) 1))"

definition handle_timeout :: "'w wolfssl \<Rightarrow> 'w dtls \<Rightarrow> unit io_result \<times> 'w dtls" where
  "handle_timeout W d =
     (case ssl_got_timeout W (ssl d) (callback_io d) of
        (r, w', io') \<Rightarrow>
          (if r = SUCCESS then Inr ()
           else Inl (error_other (''DTLS retransmission failed: '' @ show_int (ssl_get_error W w' r))),
           d\<lparr>ssl := w', callback_io := io'\<rparr>))"

definition accept :: "'w wolfssl \<Rightarrow> 'w dtls \<Rightarrow> bool io_result \<times> 'w dtls" where
  "accept W d =
     (case ssl_accept W (ssl d) (callback_io d) of
        (r, w', io') \<Rightarrow>
          (let d' = d\<lparr>ssl := w', callback_io := io'\<rparr>; e = ssl_get_error W w' r in
           if r = SUCCESS then (Inr True, d')
           else if e = ERROR_WANT_READ \<or> e = ERROR_WANT_WRITE \<or> e = SOCKET_ERROR then (Inr False, d')
           else (Inl (error_other (''DTLS handshake failed: '' @ show_int e)), d')))"

text \<open>\<open>read\<close> and \<open>read_status\<close> return the bytes placed in the buffer instead of only their number.\<close>

definition dtls_read :: "'w wolfssl \<Rightarrow> nat \<Rightarrow> 'w dtls \<Rightarrow> byte list io_result \<times> 'w dtls" where
  "dtls_read W room d =
     (case ssl_read W (ssl d) (callback_io d) room of
        (r, bytes, w', io') \<Rightarrow>
          (let d' = d\<lparr>ssl := w', callback_io := io'\<rparr>; e = ssl_get_error W w' r in
           if 0 \<le> r then (Inr (take (nat r) bytes), d'\<lparr>last_read_error := 0\<rparr>)
           else if e = ERROR_WANT_READ \<or> e = ERROR_WANT_WRITE \<or> e = SOCKET_ERROR
           then (Inl (error_from_kind WouldBlock), d'\<lparr>last_read_error := e\<rparr>)
           else (Inl (error_other (''wolfSSL I/O failed: '' @ show_int e)), d'\<lparr>last_read_error := e\<rparr>)))"

definition read_status :: "'w wolfssl \<Rightarrow> nat \<Rightarrow> 'w dtls \<Rightarrow> (dtls_io_result \<times> byte list) io_result \<times> 'w dtls" where
  "read_status W room d =
     (case ssl_read W (ssl d) (callback_io d) room of
        (r, bytes, w', io') \<Rightarrow>
          (let d' = d\<lparr>ssl := w', callback_io := io'\<rparr>; e = ssl_get_error W w' r in
           if 0 < r then (Inr (Complete (nat r), take (nat r) bytes), d'\<lparr>last_read_error := 0\<rparr>)
           else
             (if e = ERROR_WANT_READ then Inr (WantRead, [])
              else if e = ERROR_WANT_WRITE then Inr (WantWrite, [])
              else Inl (error_other (''wolfSSL read failed: '' @ show_int e)),
              d'\<lparr>last_read_error := e\<rparr>)))"

definition inject :: "'w wolfssl \<Rightarrow> byte list \<Rightarrow> 'w dtls \<Rightarrow> bool io_result \<times> 'w dtls" where
  "inject W packet d =
     (if 2 ^ 31 \<le> length packet
      then (Inl (error_new InvalidInput ''DTLS datagram is too large''), d)
      else case ssl_inject W (ssl d) packet of
          (r, w') \<Rightarrow>
            (if r = SUCCESS then Inr True
             else if r = - 441 then Inr False
             else Inl (error_other (''wolfSSL inject failed: '' @ show_int r)),
             d\<lparr>ssl := w'\<rparr>))"

definition disable_callback_receive :: "'w wolfssl \<Rightarrow> 'w dtls \<Rightarrow> 'w dtls" where
  "disable_callback_receive W d = d\<lparr>ssl := ssl_disable_read W (ssl d)\<rparr>"

definition write_outcome :: "'w wolfssl \<Rightarrow> 'w option \<Rightarrow> int \<Rightarrow> nat io_result" where
  "write_outcome W w r =
     (let e = ssl_get_error W w r in
      if 0 \<le> r then Inr (nat r)
      else if e = ERROR_WANT_READ \<or> e = ERROR_WANT_WRITE \<or> e = SOCKET_ERROR
      then Inl (error_from_kind WouldBlock)
      else Inl (error_other (''wolfSSL I/O failed: '' @ show_int e)))"

definition dtls_write :: "'w wolfssl \<Rightarrow> byte list \<Rightarrow> 'w dtls \<Rightarrow> nat io_result \<times> 'w dtls" where
  "dtls_write W data d =
     (case ssl_write W (ssl d) (callback_io d) data of
        (r, w', io') \<Rightarrow>
          (write_outcome W w' r, d\<lparr>ssl := w', callback_io := io'\<rparr>))"

definition write_status :: "'w wolfssl \<Rightarrow> byte list \<Rightarrow> 'w dtls \<Rightarrow> dtls_io_result io_result \<times> 'w dtls" where
  "write_status W data d =
     (case ssl_write W (ssl d) (callback_io d) data of
        (r, w', io') \<Rightarrow>
          (let e = ssl_get_error W w' r in
           (if 0 < r then Inr (Complete (nat r))
            else if e = ERROR_WANT_READ then Inr WantRead
            else if e = ERROR_WANT_WRITE then Inr WantWrite
            else Inl (error_other (''wolfSSL write failed: '' @ show_int e)),
            d\<lparr>ssl := w', callback_io := io'\<rparr>)))"

definition hex_digit :: "nat \<Rightarrow> char" where
  "hex_digit n = (if n < 10 then char_of (48 + n) else char_of (87 + n))"

definition hex_byte :: "byte \<Rightarrow> string" where
  "hex_byte b = [hex_digit (unat b div 16), hex_digit (unat b mod 16)]"

definition dtls_fingerprint :: "'w wolfssl \<Rightarrow> 'w dtls \<Rightarrow> string io_result" where
  "dtls_fingerprint W d =
     (case ssl_peer_digest W (ssl d) of
        None \<Rightarrow> Inl (error_other ''peer certificate unavailable'')
      | Some (ok, digest) \<Rightarrow>
          if \<not> ok \<or> length digest \<noteq> 32
          then Inl (error_other ''unable to calculate certificate fingerprint'')
          else Inr (concat (map hex_byte digest)))"

definition peer_certificate_has_san_ip :: "'w wolfssl \<Rightarrow> ipv4 \<Rightarrow> 'w dtls \<Rightarrow> bool io_result" where
  "peer_certificate_has_san_ip W expected d =
     (case ssl_peer_alt_names W (ssl d) of
        None \<Rightarrow> Inl (error_other ''peer certificate unavailable'')
      | Some names \<Rightarrow>
          Inr (list_ex (\<lambda>name. (case name of None \<Rightarrow> None | Some v \<Rightarrow> parse_ipv4 v) = Some expected) names))"

fun valid_names :: "string option list \<Rightarrow> string list io_result" where
  "valid_names [] = Inr []"
| "valid_names (None # names) = Inl (error_new InvalidData ''client certificate SAN is not valid UTF-8'')"
| "valid_names (Some n # names) = and_then (valid_names names) (\<lambda>ns. Inr (n # ns))"

definition peer_certificate_allows_source_ip :: "'w wolfssl \<Rightarrow> ipv4 \<Rightarrow> 'w dtls \<Rightarrow> bool io_result" where
  "peer_certificate_allows_source_ip W source d =
     (case ssl_peer_alt_names W (ssl d) of
        None \<Rightarrow> Inl (error_other ''peer certificate unavailable'')
      | Some names \<Rightarrow>
          and_then (valid_names names) (\<lambda>ns. certificate_source_policy_allows ns source))"

section \<open>Lemmas\<close>

lemma code_hex_digit: "n < 16 \<Longrightarrow> code (hex_digit n) = (if n < 10 then 48 + n else 87 + n)"
  by (simp add: hex_digit_def code_char_of)

lemma hex_digit_form: "n < 16 \<Longrightarrow> is_lower_hexdigit (hex_digit n)"
  by (auto simp: is_lower_hexdigit_def is_digit_def code_hex_digit)

lemma hex_digit_inject: "m < 16 \<Longrightarrow> n < 16 \<Longrightarrow> hex_digit m = hex_digit n \<longleftrightarrow> m = n"
  by (auto simp: code_inject [symmetric] code_hex_digit split: if_splits)

lemma byte_halves: "unat (b :: byte) div 16 < 16" "unat (b :: byte) mod 16 < 16"
  using unat_byte [of b] by auto

lemma hex_byte_inject: "hex_byte a = hex_byte b \<longleftrightarrow> a = b"
proof
  assume "hex_byte a = hex_byte b"
  then have "unat a div 16 = unat b div 16" "unat a mod 16 = unat b mod 16"
    by (simp_all add: hex_byte_def hex_digit_inject byte_halves)
  then have "unat a = unat b" by (metis div_mult_mod_eq)
  then show "a = b" by (simp add: word_unat_eq_iff)
qed simp

lemma length_hex: "length (concat (map hex_byte digest)) = 2 * length digest"
  by (induction digest) (simp_all add: hex_byte_def)

lemma hex_form: "list_all is_lower_hexdigit (concat (map hex_byte digest))"
  by (induction digest) (simp_all add: hex_byte_def hex_digit_form byte_halves)

lemma hex_inject: "concat (map hex_byte xs) = concat (map hex_byte ys) \<longleftrightarrow> xs = ys"
proof (induction xs arbitrary: ys)
  case Nil
  then show ?case by (cases ys) (simp_all add: hex_byte_def)
next
  case (Cons x xs)
  show ?case
  proof (cases ys)
    case Nil
    then show ?thesis by (simp add: hex_byte_def)
  next
    case (Cons y zs)
    have "length (hex_byte x) = length (hex_byte y)" by (simp add: hex_byte_def)
    then show ?thesis using Cons.IH Cons by (simp add: hex_byte_inject)
  qed
qed

lemma validate_mtu_ok: "validate_mtu m = Inr u \<Longrightarrow> 576 \<le> m \<and> m \<le> 1500"
  by (auto simp: validate_mtu_def MIN_TUN_MTU_def MAX_TUN_MTU_def split: if_splits)

lemma private_key_ok:
  "validate_private_key_file metadata path = Inr u \<Longrightarrow>
     \<exists>m. metadata path = Inr m \<and> is_file m \<and> permission_mode m AND 0x3F = 0"
  by (auto simp: validate_private_key_file_def split: sum.splits if_splits)

lemma dtls_checks_ok:
  "dtls_checks metadata cfg = Inr u \<Longrightarrow>
     576 \<le> tun_mtu cfg \<and> tun_mtu cfg \<le> 1500
     \<and> (\<exists>m. metadata (key_path cfg) = Inr m \<and> is_file m \<and> permission_mode m AND 0x3F = 0)"
  using validate_mtu_ok private_key_ok by (fastforce simp: dtls_checks_def and_then_eq_Inr)

text \<open>The datagrams waiting for the receive callback.\<close>

definition io_waiting :: "dtls_io \<Rightarrow> byte list list" where
  "io_waiting io = (case incoming_shared io of None \<Rightarrow> incoming io | Some q \<Rightarrow> items q)"

lemma try_peek_items:
  "try_peek q = (case items q of [] \<Rightarrow> (Inl (if closed q then Closed else Empty), q)
                 | x # xs \<Rightarrow> (Inr x, q\<lparr>items := xs\<rparr>))"
  by (simp add: try_peek_def pop_front_def split: list.splits)

section \<open>A concrete library\<close>

text \<open>
  An instance of the parameter: a connection whose handshake succeeds at once and whose state is the
  list of plaintexts it will deliver; the peer's certificate has digest 0 and no alternative names.
\<close>

definition example_wolf :: "byte list list wolfssl" where
  "example_wolf =
     \<lparr>ssl_new = Some [], ssl_set_fd = (\<lambda>w _. (1, w)), ssl_set_nonblock = (\<lambda>w _. w),
      ssl_set_peer = (\<lambda>w _. (1, w)), ssl_accept = (\<lambda>w io. (1, w, io)), ssl_connect = (\<lambda>w io. (1, w, io)),
      ssl_accept_stateless = (\<lambda>w io. (1, w, io)),
      ssl_read = (\<lambda>w io _. case w of Some (p # ps) \<Rightarrow> (int (length p), p, Some ps, io) | _ \<Rightarrow> (- 1, [], w, io)),
      ssl_write = (\<lambda>w io data. (int (length data), w, io)), ssl_get_error = (\<lambda>_ _. 2),
      ssl_inject = (\<lambda>w p. (1, map_option (\<lambda>ps. ps @ [p]) w)), ssl_disable_read = (\<lambda>w. w),
      ssl_current_timeout = (\<lambda>_. 1), ssl_got_timeout = (\<lambda>w io. (1, w, io)),
      ssl_set_cookie = (\<lambda>w _. (True, 1, w)), ssl_peer_digest = (\<lambda>_. Some (True, replicate 32 0)),
      ssl_peer_alt_names = (\<lambda>_. Some [])\<rparr>"

definition example_dtls :: "byte list list dtls" where
  "example_dtls = \<lparr>ssl = Some [], callback_io = None, server_side = True, nonblocking = True, last_read_error = 0\<rparr>"

definition example_peer :: sockaddr where
  "example_peer = \<lparr>sa_family = 2, sa_port = 4433, sa_addr = 0xC0A80001, sa_rest = []\<rparr>"

lemma example_fingerprint_digest:
  "dtls_fingerprint example_wolf d = Inr (replicate 64 (CHR ''0''))"
proof -
  have "code (CHR ''0'') = 48" by (simp add: code_def)
  then have "code (hex_digit 0) = code (CHR ''0'')" by (simp add: code_hex_digit)
  then have "hex_byte 0 = ''00''" by (simp add: hex_byte_def code_inject)
  then show ?thesis
    by (simp add: dtls_fingerprint_def example_wolf_def) (simp add: numeral_eq_Suc)
qed

section \<open>Properties\<close>

text \<open>
  C18: A server context that is built with a CA verifies its clients: wolfSSL was told to verify the
  peer and to fail without a peer certificate (and nothing weaker), the CA was loaded, a configured
  CRL was loaded and OCSP enabled where asked for; the private key is a regular file that group and
  others cannot access, and the MTU is between 576 and 1500.
\<close>

theorem server_context_requires_client_certificate:
  assumes "dtls_new metadata ok cfg = (Inr (), ctx_calls)" "as_server cfg" "ca_path cfg = Some ca"
  shows "(\<forall>flags. SetVerify flags \<in> set ctx_calls \<longleftrightarrow> flags = VERIFY_PEER OR VERIFY_FAIL_IF_NO_PEER_CERT)
    \<and> LoadVerify ca \<in> set ctx_calls \<and> ok (LoadVerify ca)
    \<and> (crl_path cfg = Some crl \<longrightarrow> LoadCrl crl \<in> set ctx_calls \<and> ok (LoadCrl crl))
    \<and> (use_ocsp cfg \<longrightarrow> (\<exists>n. EnableOcsp n \<in> set ctx_calls \<and> ok (EnableOcsp n)))
    \<and> (\<exists>m. metadata (key_path cfg) = Inr m \<and> is_file m \<and> permission_mode m AND 0x3F = 0)
    \<and> 576 \<le> tun_mtu cfg \<and> tun_mtu cfg \<le> 1500"
proof -
  have b: "build_context ok cfg = (Inr (), ctx_calls)" and c: "\<exists>u. dtls_checks metadata cfg = Inr u"
    using assms(1) by (auto simp: dtls_new_def split: sum.splits)
  have "verify_flags cfg = VERIFY_PEER OR VERIFY_FAIL_IF_NO_PEER_CERT"
    using assms(2) by (simp add: verify_flags_def)
  then show ?thesis
    using build_context_verifies [OF b assms(3)] build_context_calls [OF b] build_context_crl [OF b, of crl]
      dtls_checks_ok c
    by (smt (verit) ctx_call.distinct)
qed

definition example_tls :: tls_config where
  "example_tls = \<lparr>as_server = True, cert_path = ''c'', key_path = ''k'', ca_path = Some ''ca'',
     crl_path = Some ''crl'', use_ocsp = True, ocsp_override = None, tun_mtu = 1200\<rparr>"

definition example_metadata :: "string \<Rightarrow> file_metadata io_result" where
  "example_metadata path = Inr \<lparr>is_file = True, permission_mode = 0x180\<rparr>"

lemma example_context:
  "dtls_new example_metadata (\<lambda>_. True) example_tls =
     (Inr (), [Init, CtxNew True, UseCertificate ''c'', UsePrivateKey ''k'', LoadVerify ''ca'', SetVerify 3,
               EnableCrl, LoadCrl ''crl'', EnableOcsp 0])"
proof -
  have "dtls_checks example_metadata example_tls = Inr ()"
    by (simp add: dtls_checks_def example_tls_def example_metadata_def validate_mtu_def MIN_TUN_MTU_def
        MAX_TUN_MTU_def validate_private_key_file_def c_string_def c_string_opt_def char_of_def)
  then show ?thesis
    by (simp add: dtls_new_def context_defs example_tls_def verify_flags_def VERIFY_PEER_def
        VERIFY_FAIL_IF_NO_PEER_CERT_def)
qed

theorem server_context_requires_client_certificate_witness:
  "576 \<le> tun_mtu example_tls \<and> tun_mtu example_tls \<le> 1500
   \<and> (\<exists>m. example_metadata (key_path example_tls) = Inr m \<and> is_file m \<and> permission_mode m AND 0x3F = 0)"
  using server_context_requires_client_certificate [OF example_context]
  by (simp add: example_tls_def)

text \<open>
  The context of a connection is freed exactly once when building it fails after its creation,
  and is not freed when it is returned to the caller or was never created.
\<close>

lemma context_freed_exactly_on_failure:
  assumes "dtls_new metadata ok cfg = (r, ctx_calls)"
  shows "count_list ctx_calls CtxFree =
    (if is_ok r \<or> CtxNew (as_server cfg) \<notin> set ctx_calls \<or> \<not> ok (CtxNew (as_server cfg)) then 0 else 1)"
proof (cases "dtls_checks metadata cfg")
  case (Inl e)
  then show ?thesis using assms by (auto simp: dtls_new_def)
next
  case (Inr u)
  then have b: "build_context ok cfg = (r, ctx_calls)" using assms by (simp add: dtls_new_def)
  have "CtxNew (as_server cfg) \<in> set ctx_calls \<longleftrightarrow> ok Init"
    using b by (auto simp: context_defs split: if_splits option.splits bool.splits prod.splits)
  then show ?thesis using build_context_frees [OF b] by (cases r) auto
qed

lemma context_freed_exactly_on_failure_witness:
  "count_list [Init, CtxNew True, UseCertificate ''c'', UsePrivateKey ''k'', LoadVerify ''ca'', SetVerify 3,
               EnableCrl, LoadCrl ''crl'', EnableOcsp 0] CtxFree = 0"
  using context_freed_exactly_on_failure [OF example_context] by simp

text \<open>
  The receive callback of a queued connection hands the waiting datagrams to wolfSSL one per
  call, oldest first, each whole and exactly once; it reports that it would block only if none is
  waiting, and a datagram larger than the buffer is dropped with an error and never truncated.
\<close>

lemma recv_callback_delivers_in_order:
  assumes "\<not> direct_receive io" "dtls_recv from_socket room io = (status, bytes, io')"
  shows "case io_waiting io of
      [] \<Rightarrow> status = - 2 \<and> bytes = [] \<and> io_waiting io' = []
    | packet # rest \<Rightarrow> io_waiting io' = rest
        \<and> (if length packet \<le> room then status = int (length packet) \<and> bytes = packet
           else status = - 1 \<and> bytes = [])"
  using assms
  by (auto simp: dtls_recv_def io_waiting_def try_peek_items pop_front_def
      split: option.splits list.splits if_splits)

lemma recv_callback_delivers_in_order_witness:
  "case io_waiting (io_push [1, 2] (dtls_io_new example_peer)) of
      [] \<Rightarrow> (2 :: int) = - 2 \<and> [1, 2] = ([] :: byte list)
        \<and> io_waiting ((dtls_io_new example_peer)\<lparr>recv_pop := 1\<rparr>) = []
    | packet # rest \<Rightarrow>
        io_waiting ((dtls_io_new example_peer)\<lparr>recv_pop := 1\<rparr>) = rest
        \<and> (if length packet \<le> 10 then 2 = int (length packet) \<and> [1, 2] = packet
           else (2 :: int) = - 1 \<and> [1, 2] = ([] :: byte list))"
  by (rule recv_callback_delivers_in_order [where from_socket = None])
    (simp_all add: dtls_recv_def io_push_def dtls_io_new_def saturating_add_def u64_max_def)

text \<open>
  The fingerprint computed from a peer's certificate has the very form in which the bindings are
  stored (64 lower-case hexadecimal digits, fixed by normalisation), and two connections have the
  same fingerprint only if their certificates have the same SHA-256 digest.
\<close>

lemma fingerprint_identifies_digest:
  assumes "dtls_fingerprint W d = Inr f"
  shows "normalize_sha256_fingerprint f = Inr f
    \<and> (\<forall>d'. dtls_fingerprint W d' = Inr f \<longrightarrow> ssl_peer_digest W (ssl d') = ssl_peer_digest W (ssl d))"
proof -
  have digest: "\<exists>g. ssl_peer_digest W (ssl d') = Some (True, g) \<and> length g = 32 \<and> f = concat (map hex_byte g)"
    if "dtls_fingerprint W d' = Inr f" for d'
    using that by (auto simp: dtls_fingerprint_def split: option.splits if_splits)
  have "fingerprint_form f"
    using digest [OF assms] hex_form length_hex by (auto simp: fingerprint_form_def)
  moreover have "ssl_peer_digest W (ssl d') = ssl_peer_digest W (ssl d)" if "dtls_fingerprint W d' = Inr f" for d'
    using digest [OF assms] digest [OF that] hex_inject by (metis (no_types, opaque_lifting))
  ultimately show ?thesis by (simp add: normalize_id)
qed

lemma fingerprint_identifies_digest_witness:
  "normalize_sha256_fingerprint (replicate 64 (CHR ''0'')) = Inr (replicate 64 (CHR ''0''))
   \<and> ssl_peer_digest example_wolf None = ssl_peer_digest example_wolf (ssl example_dtls)"
proof -
  have "dtls_fingerprint example_wolf (example_dtls\<lparr>ssl := None\<rparr>) = Inr (replicate 64 (CHR ''0''))"
    by (rule example_fingerprint_digest)
  with fingerprint_identifies_digest [OF example_fingerprint_digest, of example_dtls] show ?thesis by fastforce
qed

end
