(* ===== verification/Vpn_Auth.thy ===== *)
theory Vpn_Auth
  imports Vpn_Ipv4
begin

text \<open>
  The control frames and the login exchange inside an established DTLS connection: the frames of
  \<open>src/src/lib.rs\<close>, the check of a login by the server (\<open>login_matches\<close> of
  \<open>src/src/server/decrypt.rs\<close>) and the client's side (\<open>src/src/client/mod.rs\<close>: \<open>make_login_credentials\<close>,
  \<open>cached_login\<close>, \<open>read_auth_response\<close>, \<open>authenticate\<close>).

  The client's loops read the connection, the clock and the socket; each iteration consumes one entry
  of a script that says what these returned, and a loop whose script ends is still waiting (\<open>None\<close>).
\<close>

section \<open>Frames\<close>

definition AUTH_REQUIRED :: "byte list" where
  "AUTH_REQUIRED = 0xFF # as_bytes ''AVPN_AUTH_REQUIRED''"

definition AUTH_OK :: "byte list" where
  "AUTH_OK = 0xFF # as_bytes ''AVPN_AUTH_OK''"

definition AUTH_FAILED :: "byte list" where
  "AUTH_FAILED = 0xFF # as_bytes ''AVPN_AUTH_FAILED''"

definition AUTH_LOGIN_PREFIX :: "byte list" where
  "AUTH_LOGIN_PREFIX = 0xFF # as_bytes ''AVPN_AUTH_LOGIN'' @ [0]"

section \<open>The server's check of a login\<close>

definition login_matches :: "byte list \<Rightarrow> string \<Rightarrow> string \<Rightarrow> bool" where
  "login_matches packet name password =
     (case strip_prefix AUTH_LOGIN_PREFIX packet of
        None \<Rightarrow> False
      | Some body \<Rightarrow>
          (case position (\<lambda>b. b = 0) body of
             None \<Rightarrow> False
           | Some index \<Rightarrow>
               take index body = as_bytes name \<and> drop (index + 1) body = as_bytes password))"

section \<open>Credentials of the client\<close>

record login_credentials =
  login_id :: "byte list"
  login_password :: "byte list"

definition make_login_credentials :: "string \<Rightarrow> string \<Rightarrow> login_credentials io_result" where
  "make_login_credentials name password =
     (if name = [] \<or> 128 < length name \<or> char_of (0 :: nat) \<in> set name
         \<or> password = [] \<or> 128 < length password \<or> char_of (0 :: nat) \<in> set password
      then Inl (error_new InvalidInput ''invalid login input'')
      else Inr \<lparr>login_id = as_bytes name, login_password = as_bytes password\<rparr>)"

text \<open>\<open>Drop\<close>: the bytes are overwritten before the memory is released.\<close>

definition drop_credentials :: "login_credentials \<Rightarrow> login_credentials" where
  "drop_credentials c =
     \<lparr>login_id = replicate (length (login_id c)) 0,
      login_password = replicate (length (login_password c)) 0\<rparr>"

text \<open>
  \<open>cached_login\<close>: the credentials in the cache, or new ones from the prompt, which is asked for the
  name and then for the password.
\<close>

definition cached_login :: "(string \<Rightarrow> bool \<Rightarrow> string io_result) \<Rightarrow> login_credentials option \<Rightarrow>
    login_credentials io_result \<times> login_credentials option" where
  "cached_login prompt cache =
     (case cache of
        Some c \<Rightarrow> (Inr c, cache)
      | None \<Rightarrow>
          (case prompt ''Login ID: '' False of
             Inl e \<Rightarrow> (Inl e, None)
           | Inr name \<Rightarrow>
               (case prompt ''Password: '' True of
                  Inl e \<Rightarrow> (Inl e, None)
                | Inr password \<Rightarrow>
                    (case make_login_credentials name password of
                       Inl e \<Rightarrow> (Inl e, None)
                     | Inr c \<Rightarrow> (Inr c, Some c)))))"

definition login_frame :: "login_credentials \<Rightarrow> byte list" where
  "login_frame c = AUTH_LOGIN_PREFIX @ login_id c @ 0 # login_password c"

section \<open>The exchange\<close>

text \<open>One turn of a reading loop: what \<open>Dtls::read\<close> returned, the clock, what waiting for UDP returned.\<close>

type_synonym read_turn = "byte list io_result \<times> instant \<times> unit io_result"
type_synonym write_turn = "nat io_result \<times> instant \<times> unit io_result"

fun read_auth_loop :: "instant \<Rightarrow> read_turn list \<Rightarrow> byte list io_result option" where
  "read_auth_loop deadline [] = None"
| "read_auth_loop deadline ((r, now, waited) # script) =
     (let continue =
        (if deadline - now = 0 then Some (Inl (error_new TimedOut ''login response timed out''))
         else case waited of Inl e \<Rightarrow> Some (Inl e) | Inr _ \<Rightarrow> read_auth_loop deadline script)
      in case r of
           Inr frame \<Rightarrow> if 0 < length frame then Some (Inr frame) else continue
         | Inl e \<Rightarrow> if kind e = WouldBlock then continue else Some (Inl e))"

definition read_auth_response :: "instant \<Rightarrow> duration \<Rightarrow> read_turn list \<Rightarrow> byte list io_result option" where
  "read_auth_response now timeout script = read_auth_loop (now + timeout) script"

fun send_login_loop :: "byte list \<Rightarrow> instant \<Rightarrow> write_turn list \<Rightarrow> unit io_result option" where
  "send_login_loop frame deadline [] = None"
| "send_login_loop frame deadline ((r, now, waited) # script) =
     (case r of
        Inr written \<Rightarrow>
          if written = length frame then Some (Inr ())
          else Some (Inl (error_other ''partial login message''))
      | Inl e \<Rightarrow>
          if kind e = WouldBlock
          then if deadline \<le> now then Some (Inl (error_new TimedOut ''login send timed out''))
               else (case waited of Inl e' \<Rightarrow> Some (Inl e') | Inr _ \<Rightarrow> send_login_loop frame deadline script)
          else Some (Inl e))"

record auth_env =
  challenge_at :: instant
  challenge_reads :: "read_turn list"
  login_prompt :: "string \<Rightarrow> bool \<Rightarrow> string io_result"
  send_at :: instant
  login_writes :: "write_turn list"
  answer_at :: instant
  answer_reads :: "read_turn list"

definition judge_answer :: "byte list \<Rightarrow> unit io_result" where
  "judge_answer answer =
     (if answer = AUTH_OK then Inr ()
      else if answer = AUTH_FAILED then Inl (error_new PermissionDenied ''login failed'')
      else Inl (error_new PermissionDenied ''invalid login response''))"

definition authenticate :: "auth_env \<Rightarrow> login_credentials option \<Rightarrow>
    unit io_result option \<times> login_credentials option" where
  "authenticate env cache =
     (case read_auth_response (challenge_at env) (seconds 10) (challenge_reads env) of
        None \<Rightarrow> (None, cache)
      | Some (Inl e) \<Rightarrow> (Some (Inl e), cache)
      | Some (Inr response) \<Rightarrow>
          if response = AUTH_OK then (Some (Inr ()), cache)
          else if response \<noteq> AUTH_REQUIRED
          then (Some (Inl (error_new PermissionDenied ''invalid login challenge'')), cache)
          else case cached_login (login_prompt env) cache of
              (Inl e, cache') \<Rightarrow> (Some (Inl e), cache')
            | (Inr c, cache') \<Rightarrow>
                (case send_login_loop (login_frame c) (send_at env + seconds 10) (login_writes env) of
                   None \<Rightarrow> (None, cache')
                 | Some (Inl e) \<Rightarrow> (Some (Inl e), cache')
                 | Some (Inr _) \<Rightarrow>
                     (case read_auth_response (answer_at env) (seconds 10) (answer_reads env) of
                        None \<Rightarrow> (None, cache')
                      | Some (Inl e) \<Rightarrow> (Some (Inl e), cache')
                      | Some (Inr answer) \<Rightarrow> (Some (judge_answer answer), cache'))))"

section \<open>Lemmas\<close>

text \<open>The frames are told apart by their first bytes.\<close>

lemma frames_distinct:
  "AUTH_OK \<noteq> AUTH_REQUIRED" "AUTH_OK \<noteq> AUTH_FAILED" "AUTH_REQUIRED \<noteq> AUTH_FAILED"
  by (simp_all add: AUTH_OK_def AUTH_REQUIRED_def AUTH_FAILED_def as_bytes_inject)

lemma frame_not_packet:
  "hd frame = 0xFF \<Longrightarrow> frame \<noteq> [] \<Longrightarrow> ipv4_packet_addresses frame = None"
  by (rule ipv4_packet_addresses_None) (cases frame, simp_all add: drop_bit_eq_div)

lemma as_bytes_no_zero: "char_of (0 :: nat) \<notin> set s \<Longrightarrow> 0 \<notin> set (as_bytes s)"
proof
  assume nz: "char_of (0 :: nat) \<notin> set s" and z: "0 \<in> set (as_bytes s)"
  then obtain c where c: "c \<in> set s" "(word_of_nat (code c) :: byte) = 0"
    by (auto simp: as_bytes_def)
  then have "(word_of_nat (code c) :: byte) = word_of_nat (code (char_of (0 :: nat)))"
    by (simp add: code_char_of)
  then have "c = char_of (0 :: nat)" by (simp only: byte_of_char_inject)
  then show False using c nz by simp
qed

lemma position_zero:
  "0 \<notin> set name \<Longrightarrow> position (\<lambda>b. b = (0 :: byte)) (name @ 0 # rest) = Some (length name)"
  by (induction name) auto

lemma credentials_bytes:
  "make_login_credentials name password = Inr c \<Longrightarrow>
     login_id c = as_bytes name \<and> login_password c = as_bytes password \<and> name \<noteq> [] \<and> password \<noteq> []
     \<and> length name \<le> 128 \<and> length password \<le> 128 \<and> 0 \<notin> set (login_id c) \<and> 0 \<notin> set (login_password c)"
  by (auto simp: make_login_credentials_def as_bytes_no_zero split: if_splits)

lemma login_matches_frame:
  "0 \<notin> set (login_id c) \<Longrightarrow>
   login_matches (login_frame c) name password \<longleftrightarrow>
     login_id c = as_bytes name \<and> login_password c = as_bytes password"
  by (simp add: login_matches_def login_frame_def position_zero)

lemma read_auth_frame: "read_auth_loop deadline script = Some (Inr frame) \<Longrightarrow>
    frame \<noteq> [] \<and> (\<exists>now waited. (Inr frame, now, waited) \<in> set script)"
proof (induction deadline script rule: read_auth_loop.induct)
  case (1 deadline)
  then show ?case by simp
next
  case (2 deadline r now waited script)
  then show ?case by (auto simp: Let_def split: sum.splits if_splits)
qed

lemma send_login_written: "send_login_loop frame deadline script = Some (Inr u) \<Longrightarrow>
    \<exists>now waited. (Inr (length frame), now, waited) \<in> set script"
proof (induction frame deadline script rule: send_login_loop.induct)
  case (1 frame deadline)
  then show ?case by simp
next
  case (2 frame deadline r now waited script)
  then show ?case by (auto split: sum.splits if_splits)
qed

text \<open>A reading loop ends by its deadline: once an entry's clock shows it, the loop has returned.\<close>

lemma read_auth_ends:
  "\<exists>(r, now, waited) \<in> set script. deadline \<le> now \<Longrightarrow> read_auth_loop deadline script \<noteq> None"
proof (induction deadline script rule: read_auth_loop.induct)
  case (1 deadline)
  then show ?case by simp
next
  case (2 deadline r now waited script)
  then show ?case by (auto simp: Let_def split: sum.splits if_splits)
qed

section \<open>Properties\<close>

text \<open>
  C30: The login frame that a client builds from accepted credentials is matched by the server
  exactly for that name and that password; it fits in 274 bytes.
\<close>

theorem login_frame_round_trip:
  assumes "make_login_credentials name password = Inr c"
  shows "(login_matches (login_frame c) name' password' \<longleftrightarrow> name' = name \<and> password' = password)
    \<and> length (login_frame c) \<le> 274"
proof -
  have c: "login_id c = as_bytes name" "login_password c = as_bytes password" "0 \<notin> set (login_id c)"
    and len: "length name \<le> 128" "length password \<le> 128"
    using credentials_bytes [OF assms] by auto
  have "length (login_frame c) = 18 + length name + length password"
    by (simp add: login_frame_def AUTH_LOGIN_PREFIX_def c)
  then show ?thesis using login_matches_frame [OF c(3)] c len by (auto simp: as_bytes_inject)
qed

theorem login_frame_round_trip_witness:
  "(login_matches (login_frame \<lparr>login_id = as_bytes ''alice'', login_password = as_bytes ''pw''\<rparr>)
      ''alice'' ''other'' \<longleftrightarrow> ''alice'' = ''alice'' \<and> ''other'' = ''pw'')
    \<and> length (login_frame \<lparr>login_id = as_bytes ''alice'', login_password = as_bytes ''pw''\<rparr>) \<le> 274"
  by (rule login_frame_round_trip) (simp add: make_login_credentials_def char_of_def)

text \<open>
  No control frame is a tunnel packet or another frame: the keepalive marker, the three
  authentication answers and every login frame have no IPv4 addresses, so they are never written to
  a TUN device, and the answers differ from each other, from the keepalive and from every login.
\<close>

lemma control_frames_disjoint:
  "ipv4_packet_addresses KEEPALIVE_PACKET = None \<and> ipv4_packet_addresses AUTH_OK = None
   \<and> ipv4_packet_addresses AUTH_REQUIRED = None \<and> ipv4_packet_addresses AUTH_FAILED = None
   \<and> ipv4_packet_addresses (login_frame c) = None
   \<and> distinct [KEEPALIVE_PACKET, AUTH_OK, AUTH_REQUIRED, AUTH_FAILED, login_frame c]"
proof -
  have short: "length AUTH_OK = 13" "length AUTH_REQUIRED = 19" "length AUTH_FAILED = 17"
    "length KEEPALIVE_PACKET = 1"
    by (simp_all add: AUTH_OK_def AUTH_REQUIRED_def AUTH_FAILED_def KEEPALIVE_PACKET_def)
  have login: "hd (login_frame c) = 0xFF" "login_frame c \<noteq> []"
    by (simp_all add: login_frame_def AUTH_LOGIN_PREFIX_def)
  have "take 13 (login_frame c) \<noteq> take 13 frame" if "frame \<in> {AUTH_OK, AUTH_REQUIRED, AUTH_FAILED}" for frame
    using that by (auto simp: login_frame_def AUTH_LOGIN_PREFIX_def AUTH_OK_def AUTH_REQUIRED_def
        AUTH_FAILED_def as_bytes_def code_def)
  then have "login_frame c \<notin> {AUTH_OK, AUTH_REQUIRED, AUTH_FAILED}" by blast
  moreover have "KEEPALIVE_PACKET \<noteq> login_frame c"
    by (simp add: KEEPALIVE_PACKET_def login_frame_def AUTH_LOGIN_PREFIX_def)
  moreover have "KEEPALIVE_PACKET \<noteq> AUTH_OK" "KEEPALIVE_PACKET \<noteq> AUTH_REQUIRED" "KEEPALIVE_PACKET \<noteq> AUTH_FAILED"
    by (simp_all add: KEEPALIVE_PACKET_def AUTH_OK_def AUTH_REQUIRED_def AUTH_FAILED_def)
  ultimately show ?thesis
    using short login frames_distinct frame_not_packet [OF login]
    by (auto simp: ipv4_packet_addresses_None)
qed

text \<open>
  C31: The client takes the connection as authenticated only if the server said so: it received the
  acceptance at once, or it received the challenge, wrote the complete login frame of the credentials
  it then keeps in its cache, and received the acceptance as the answer.
\<close>

theorem authenticate_only_if_accepted:
  assumes "authenticate env cache = (Some (Inr ()), cache')"
  shows "(\<exists>now w. (Inr AUTH_OK, now, w) \<in> set (challenge_reads env)) \<and> cache' = cache
    \<or> (\<exists>c. (\<exists>now w. (Inr AUTH_REQUIRED, now, w) \<in> set (challenge_reads env))
         \<and> cached_login (login_prompt env) cache = (Inr c, cache')
         \<and> (\<exists>now w. (Inr (length (login_frame c)), now, w) \<in> set (login_writes env))
         \<and> (\<exists>now w. (Inr AUTH_OK, now, w) \<in> set (answer_reads env)))"
proof -
  obtain response where r: "read_auth_response (challenge_at env) (seconds 10) (challenge_reads env) = Some (Inr response)"
    using assms by (auto simp: authenticate_def split: option.splits sum.splits)
  have got: "\<exists>now w. (Inr response, now, w) \<in> set (challenge_reads env)"
    using r read_auth_frame by (auto simp: read_auth_response_def)
  show ?thesis
  proof (cases "response = AUTH_OK")
    case True
    then show ?thesis using got assms r by (simp add: authenticate_def)
  next
    case False
    then have req: "response = AUTH_REQUIRED"
      using assms r by (auto simp: authenticate_def split: if_splits)
    obtain c where c: "cached_login (login_prompt env) cache = (Inr c, cache')"
      and w: "send_login_loop (login_frame c) (send_at env + seconds 10) (login_writes env) = Some (Inr ())"
      and a: "read_auth_response (answer_at env) (seconds 10) (answer_reads env) = Some (Inr AUTH_OK)"
      using assms r req False
      by (auto simp: authenticate_def judge_answer_def split: option.splits sum.splits prod.splits if_splits)
    show ?thesis
      using got req c send_login_written [OF w] a read_auth_frame
      by (auto simp: read_auth_response_def)
  qed
qed

definition example_auth :: auth_env where
  "example_auth =
     \<lparr>challenge_at = 0, challenge_reads = [(Inl (error_from_kind WouldBlock), 1, Inr ()), (Inr AUTH_REQUIRED, 2, Inr ())],
      login_prompt = (\<lambda>_ secret. Inr (if secret then ''pw'' else ''alice'')),
      send_at = 3, login_writes = [(Inr 25, 4, Inr ())], answer_at = 5, answer_reads = [(Inr AUTH_OK, 6, Inr ())]\<rparr>"

definition example_login :: login_credentials where
  "example_login = \<lparr>login_id = as_bytes ''alice'', login_password = as_bytes ''pw''\<rparr>"

lemma example_cached_login: "cached_login (login_prompt example_auth) None = (Inr example_login, Some example_login)"
  by (simp add: cached_login_def example_auth_def make_login_credentials_def char_of_def example_login_def)

lemma example_authenticates: "authenticate example_auth None = (Some (Inr ()), Some example_login)"
proof -
  have ne: "AUTH_REQUIRED \<noteq> AUTH_OK" "0 < length AUTH_REQUIRED" "0 < length AUTH_OK"
    using frames_distinct(1) by (auto simp: AUTH_REQUIRED_def AUTH_OK_def)
  have "length (login_frame example_login) = 25" by (simp add: login_frame_def AUTH_LOGIN_PREFIX_def example_login_def)
  then show ?thesis
    using ne example_cached_login by (simp add: authenticate_def read_auth_response_def judge_answer_def seconds_def)
      (simp add: example_auth_def seconds_def Let_def ne read_auth_response_def judge_answer_def)
qed

theorem authenticate_only_if_accepted_witness:
  "\<exists>c. cached_login (login_prompt example_auth) None = (Inr c, Some c)
     \<and> (\<exists>now w. (Inr (length (login_frame c)), now, w) \<in> set (login_writes example_auth))"
proof -
  have "AUTH_REQUIRED \<noteq> AUTH_OK" using frames_distinct(1) by auto
  then show ?thesis
    using authenticate_only_if_accepted [OF example_authenticates] example_cached_login
    by (auto simp: example_auth_def)
qed

end
