(* ===== verification/Vpn_Session.thy ===== *)
theory Vpn_Session
  imports Vpn_Dtls Vpn_Auth
begin

text \<open>
  The session of one peer (\<open>src/src/server/session.rs\<close>), its two transmit queues, and what the
  workers do with a single session: sending a tunnel packet and draining the plain queue
  (\<open>src/src/server/encrypt.rs\<close>), draining the encrypted queue (\<open>src/src/server/udp_write.rs\<close>), and the
  end of a session (\<open>Drop\<close>).

  The encrypted queue is one object shared by the session and by the callback context of its
  connection; the model keeps it in the callback context and \<open>enc_tx_queue\<close> reads it there. The
  clock is read once per handler: the instant is an argument.
\<close>

section \<open>The session\<close>

definition SESSION_TX_QUEUE_CAPACITY :: nat where "SESSION_TX_QUEUE_CAPACITY = 512"

definition SESSION_PACKET_TTL :: duration where "SESSION_PACKET_TTL = seconds 2"

definition SESSION_IDLE_TIMEOUT :: duration where "SESSION_IDLE_TIMEOUT = seconds 300"

definition HANDSHAKE_TIMEOUT :: duration where "HANDSHAKE_TIMEOUT = seconds 10"

record 'w session =
  conn :: "'w dtls"
  peer_addr :: sockaddr
  address :: ipv4
  fingerprint :: "string option"
  established :: bool
  authenticated :: bool
  login_attempted :: bool
  established_at :: "instant option"
  last_activity :: instant
  dtls_deadline :: "instant option"
  drain_pending :: bool
  pending_inject :: "byte list list"
  bytes_tx :: nat
  bytes_rx :: nat
  packets_tx :: nat
  packets_rx :: nat
  disconnect_reason :: string
  raw_tx_queue :: "(byte list \<times> instant) queue"

definition empty_queue :: "nat \<Rightarrow> 'a queue" where
  "empty_queue n = \<lparr>capacity = n, items = [], closed = False, generation = 0\<rparr>"

lemma queue_new_empty: "0 < n \<Longrightarrow> queue_new n = Inr (empty_queue n)"
  by (simp add: queue_new_def empty_queue_def)

definition enc_tx_queue :: "'w session \<Rightarrow> encrypted_datagram queue" where
  "enc_tx_queue s =
     (case callback_io (conn s) of
        None \<Rightarrow> empty_queue SESSION_TX_QUEUE_CAPACITY
      | Some io \<Rightarrow> (case outgoing io of None \<Rightarrow> empty_queue SESSION_TX_QUEUE_CAPACITY | Some q \<Rightarrow> q))"

definition set_enc_tx_queue :: "encrypted_datagram queue \<Rightarrow> 'w session \<Rightarrow> 'w session" where
  "set_enc_tx_queue q s =
     s\<lparr>conn := (conn s)\<lparr>callback_io := map_option (\<lambda>io. io\<lparr>outgoing := Some q\<rparr>) (callback_io (conn s))\<rparr>\<rparr>"

text \<open>The session the server creates for a peer whose cookie it verified.\<close>

definition session_new :: "'w dtls \<Rightarrow> sockaddr \<Rightarrow> instant \<Rightarrow> 'w session" where
  "session_new d peer now =
     \<lparr>conn = d, peer_addr = peer, address = ipv4_unspecified, fingerprint = None, established = False,
      authenticated = False, login_attempted = False, established_at = None, last_activity = now,
      dtls_deadline = None, drain_pending = False, pending_inject = [], bytes_tx = 0, bytes_rx = 0,
      packets_tx = 0, packets_rx = 0, disconnect_reason = ''server_shutdown'',
      raw_tx_queue = empty_queue SESSION_TX_QUEUE_CAPACITY\<rparr>"

text \<open>\<open>Drop\<close>: both queues are closed, and an authenticated session writes one event to the log.\<close>

definition whole_seconds :: "duration \<Rightarrow> nat" where
  "whole_seconds d = d div 1000000000"

definition elapsed_seconds :: "instant \<Rightarrow> instant option \<Rightarrow> nat" where
  "elapsed_seconds now started = (case started of None \<Rightarrow> 0 | Some t \<Rightarrow> whole_seconds (now - t))"

definition session_drop :: "instant \<Rightarrow> 'w session \<Rightarrow> string option \<times> 'w session" where
  "session_drop now s =
     (if authenticated s
      then Some (''client disconnected vpn_ip='' @ show_ipv4 (address s)
        @ '' fingerprint='' @ (case fingerprint s of None \<Rightarrow> ''unknown'' | Some f \<Rightarrow> f)
        @ '' duration_seconds='' @ show_nat (elapsed_seconds now (established_at s))
        @ '' bytes_tx='' @ show_nat (bytes_tx s) @ '' bytes_rx='' @ show_nat (bytes_rx s)
        @ '' packets_tx='' @ show_nat (packets_tx s) @ '' packets_rx='' @ show_nat (packets_rx s)
        @ '' reason='' @ disconnect_reason s)
      else None,
      (set_enc_tx_queue (close (enc_tx_queue s)) s)\<lparr>raw_tx_queue := close (raw_tx_queue s)\<rparr>)"

section \<open>Sending a packet\<close>

datatype send_packet_result = Sent | Retry | DropPacket

definition send_tunnel_packet :: "'w wolfssl \<Rightarrow> instant \<Rightarrow> 'w session \<Rightarrow> byte list \<Rightarrow>
    send_packet_result \<times> 'w session" where
  "send_tunnel_packet W now s packet =
     (case write_status W packet (conn s) of
        (r, d') \<Rightarrow>
          (let s' = s\<lparr>conn := d'\<rparr> in
           case r of
             Inr (Complete written) \<Rightarrow>
               if written = length packet
               then (Sent, s'\<lparr>last_activity := now, bytes_tx := saturating_add (bytes_tx s) written,
                             packets_tx := saturating_add (packets_tx s) 1\<rparr>)
               else (DropPacket, s')
           | Inr WantRead \<Rightarrow> (Retry, s')
           | Inr WantWrite \<Rightarrow> (Retry, s')
           | Inl _ \<Rightarrow> (Retry, s')))"

definition queue_session_plain :: "instant \<Rightarrow> byte list \<Rightarrow> 'w session \<Rightarrow> 'w session" where
  "queue_session_plain now packet s = s\<lparr>raw_tx_queue := snd (push (packet, now) (raw_tx_queue s))\<rparr>"

lemma send_keeps_raw_queue [simp]:
  "raw_tx_queue (snd (send_tunnel_packet W now s packet)) = raw_tx_queue s"
  by (auto simp: send_tunnel_packet_def Let_def split: prod.splits sum.splits dtls_io_result.splits)

lemma try_peek_shorter: "(Inr x, q') = try_peek q \<Longrightarrow> length (items q') < length (items q)"
  using try_peek_reserved [of q x q'] by simp

section \<open>Draining the plain queue\<close>

text \<open>
  \<open>drain_raw_queue\<close>: the closure that writes a packet is an argument, with the state it changes. The
  queue is only touched under the lock of the session list, so its items are those of the loop.
\<close>

function drain_raw_queue :: "('s \<Rightarrow> byte list \<Rightarrow> send_packet_result \<times> 's) \<Rightarrow> instant \<Rightarrow>
    (byte list \<times> instant) queue \<Rightarrow> 's \<Rightarrow> send_packet_result \<times> (byte list \<times> instant) queue \<times> 's" where
  "drain_raw_queue write now q st =
     (case try_peek q of
        (Inl _, _) \<Rightarrow> (Sent, q, st)
      | (Inr (packet, queued_at), q') \<Rightarrow>
          if SESSION_PACKET_TTL \<le> now - queued_at then drain_raw_queue write now q' st
          else case write st packet of
              (Sent, st') \<Rightarrow> drain_raw_queue write now q' st'
            | (DropPacket, st') \<Rightarrow> drain_raw_queue write now q' st'
            | (Retry, st') \<Rightarrow> (Retry, front_drop (packet, queued_at) q', st'))"
  by pat_completeness auto
termination
  by (relation "measure (\<lambda>(write, now, q, st). length (items q))") (auto dest: try_peek_shorter)

declare drain_raw_queue.simps [simp del]

definition drain_session_plain :: "'w wolfssl \<Rightarrow> instant \<Rightarrow> 'w session \<Rightarrow> send_packet_result \<times> 'w session" where
  "drain_session_plain W now s =
     (case drain_raw_queue (send_tunnel_packet W now) now (raw_tx_queue s) s of
        (r, q', s') \<Rightarrow> (r, s'\<lparr>raw_tx_queue := q'\<rparr>))"

text \<open>What a drain does to the waiting packets: the specification by lists.\<close>

definition fresh :: "instant \<Rightarrow> byte list \<times> instant \<Rightarrow> bool" where
  "fresh now p = (now - snd p < SESSION_PACKET_TTL)"

text \<open>A closure that also records the packets it was given.\<close>

definition logged :: "('s \<Rightarrow> byte list \<Rightarrow> 'r \<times> 's) \<Rightarrow> 's \<times> byte list list \<Rightarrow> byte list \<Rightarrow> 'r \<times> 's \<times> byte list list" where
  "logged write st packet = (case write (fst st) packet of (r, st') \<Rightarrow> (r, st', snd st @ [packet]))"

lemma try_peek_cases:
  obtains (nothing) e where "items q = []" "try_peek q = (Inl e, q)"
  | (item) x xs where "items q = x # xs" "try_peek q = (Inr x, q\<lparr>items := xs\<rparr>)"
  by (cases "items q") (auto simp: try_peek_items)

lemma restore_peeked:
  assumes "queue_inv q" "items q = x # xs"
  shows "items (front_drop x (q\<lparr>items := xs\<rparr>)) = x # xs"
  using assms by (auto simp: queue_inv_def front_drop_def)

lemma drain_raw_queue_spec:
  assumes "queue_inv q" "drain_raw_queue (logged write) now q (st, log) = (r, q', st', log')"
  shows "\<exists>done. items q = done @ items q' \<and> queue_inv q'
    \<and> (r = Sent \<and> items q' = [] \<and> log' = log @ map fst (filter (fresh now) done)
       \<or> r = Retry \<and> items q' \<noteq> [] \<and> fresh now (hd (items q'))
          \<and> log' = log @ map fst (filter (fresh now) done) @ [fst (hd (items q'))])"
  using assms
proof (induction "length (items q)" arbitrary: q st log rule: less_induct)
  case less
  note eq = less.prems(2) [unfolded drain_raw_queue.simps [of _ _ q]]
  show ?case
  proof (cases rule: try_peek_cases [of q])
    case (nothing e)
    then show ?thesis using eq less.prems(1) by auto
  next
    case (item x xs)
    obtain packet queued_at where x: "x = (packet, queued_at)" by (cases x)
    let ?q = "q\<lparr>items := xs\<rparr>"
    have inv: "queue_inv ?q" using less.prems(1) item(1) by (auto simp: queue_inv_def)
    have short: "length (items ?q) < length (items q)" using item(1) by simp
    show ?thesis
    proof (cases "SESSION_PACKET_TTL \<le> now - queued_at")
      case True
      then have "drain_raw_queue (logged write) now ?q (st, log) = (r, q', st', log')"
        using eq item x by simp
      from less.hyps [OF short inv this] obtain gone where g: "xs = gone @ items q'" "queue_inv q'"
        "r = Sent \<and> items q' = [] \<and> log' = log @ map fst (filter (fresh now) gone)
         \<or> r = Retry \<and> items q' \<noteq> [] \<and> fresh now (hd (items q'))
            \<and> log' = log @ map fst (filter (fresh now) gone) @ [fst (hd (items q'))]"
        by auto
      have "\<not> fresh now x" using True by (simp add: fresh_def x)
      then show ?thesis using g item(1) by (intro exI [of _ "x # gone"]) auto
    next
      case False
      then have f: "fresh now x" by (simp add: fresh_def x)
      obtain res st2 where w: "write st packet = (res, st2)" by (cases "write st packet")
      show ?thesis
      proof (cases "res = Retry")
        case True
        then have "r = Retry \<and> q' = front_drop x ?q \<and> log' = log @ [packet]"
          using eq item x False w by (auto simp: logged_def)
        then show ?thesis
          using restore_peeked [OF less.prems(1) item(1)] front_drop_inv [OF inv] f item(1) x by auto
      next
        case no_retry: False
        then have "drain_raw_queue (logged write) now ?q (st2, log @ [packet]) = (r, q', st', log')"
          using eq item x False w by (cases res) (auto simp: logged_def)
        from less.hyps [OF short inv this] obtain gone where g: "xs = gone @ items q'" "queue_inv q'"
          "r = Sent \<and> items q' = [] \<and> log' = (log @ [packet]) @ map fst (filter (fresh now) gone)
           \<or> r = Retry \<and> items q' \<noteq> [] \<and> fresh now (hd (items q'))
              \<and> log' = (log @ [packet]) @ map fst (filter (fresh now) gone) @ [fst (hd (items q'))]"
          by auto
        then show ?thesis using f item(1) x by (intro exI [of _ "x # gone"]) auto
      qed
    qed
  qed
qed

section \<open>Draining the encrypted queue\<close>

function drain_encrypted_queue :: "('s \<Rightarrow> byte list \<Rightarrow> nat io_result \<times> 's) \<Rightarrow> instant \<Rightarrow>
    encrypted_datagram queue \<Rightarrow> 's \<Rightarrow> bool io_result \<times> encrypted_datagram queue \<times> 's" where
  "drain_encrypted_queue send now q st =
     (case try_peek q of
        (Inl _, _) \<Rightarrow> (Inr False, q, st)
      | (Inr front, q') \<Rightarrow>
          if SESSION_PACKET_TTL \<le> now - enqueued_at front then drain_encrypted_queue send now q' st
          else case send st (datagram_bytes front) of
              (Inr written, st') \<Rightarrow>
                if written = length (datagram_bytes front) then drain_encrypted_queue send now q' st'
                else (Inl (error_new WriteZero (''partial UDP datagram write: '' @ show_nat written @ ''/''
                        @ show_nat (length (datagram_bytes front)))), q', st')
            | (Inl e, st') \<Rightarrow>
                (if kind e = WouldBlock then Inr True else Inl e, front_drop front q', st'))"
  by pat_completeness auto
termination
  by (relation "measure (\<lambda>(send, now, q, st). length (items q))") (auto dest: try_peek_shorter)

declare drain_encrypted_queue.simps [simp del]

definition fresh_datagram :: "instant \<Rightarrow> encrypted_datagram \<Rightarrow> bool" where
  "fresh_datagram now p = (now - enqueued_at p < SESSION_PACKET_TTL)"

text \<open>
  The drain sends the fresh datagrams in order; without an error it stops with an empty queue or, when
  the socket is full, with the datagram it could not send at the front.
\<close>

lemma drain_encrypted_queue_spec:
  assumes "queue_inv q" "drain_encrypted_queue (logged send) now q (st, log) = (Inr blocked, q', st', log')"
  shows "\<exists>gone. items q = gone @ items q' \<and> queue_inv q'
    \<and> (if blocked then items q' \<noteq> [] \<and> fresh_datagram now (hd (items q'))
            \<and> log' = log @ map datagram_bytes (filter (fresh_datagram now) gone @ [hd (items q')])
       else items q' = [] \<and> log' = log @ map datagram_bytes (filter (fresh_datagram now) gone))"
  using assms
proof (induction "length (items q)" arbitrary: q st log rule: less_induct)
  case less
  note eq = less.prems(2) [unfolded drain_encrypted_queue.simps [of _ _ q]]
  show ?case
  proof (cases rule: try_peek_cases [of q])
    case (nothing e)
    then show ?thesis using eq less.prems(1) by auto
  next
    case (item x xs)
    let ?q = "q\<lparr>items := xs\<rparr>"
    have inv: "queue_inv ?q" using less.prems(1) item(1) by (auto simp: queue_inv_def)
    have short: "length (items ?q) < length (items q)" using item(1) by simp
    show ?thesis
    proof (cases "fresh_datagram now x")
      case False
      then have "drain_encrypted_queue (logged send) now ?q (st, log) = (Inr blocked, q', st', log')"
        using eq item by (simp add: fresh_datagram_def)
      from less.hyps [OF short inv this] show ?thesis
        using item(1) False by (elim exE) (rule_tac x = "x # gone" in exI, simp)
    next
      case True
      obtain res st2 where w: "send st (datagram_bytes x) = (res, st2)" by (cases "send st (datagram_bytes x)")
      show ?thesis
      proof (cases res)
        case (Inl e)
        then have "blocked \<and> q' = front_drop x ?q \<and> log' = log @ [datagram_bytes x]"
          using eq item True w by (auto simp: logged_def fresh_datagram_def split: if_splits)
        then show ?thesis
          using restore_peeked [OF less.prems(1) item(1)] front_drop_inv [OF inv] True item(1) by auto
      next
        case (Inr written)
        then have "drain_encrypted_queue (logged send) now ?q (st2, log @ [datagram_bytes x])
            = (Inr blocked, q', st', log')"
          using eq item True w by (auto simp: logged_def fresh_datagram_def split: if_splits)
        from less.hyps [OF short inv this] show ?thesis
          using item(1) True by (elim exE) (rule_tac x = "x # gone" in exI, simp)
      qed
    qed
  qed
qed

section \<open>Properties\<close>

text \<open>
  Draining the plain queue of a session hands the waiting packets to DTLS in their order: those
  that have waited two seconds or longer are discarded without being tried, a drain that reports
  success leaves the queue empty, and one that has to be retried leaves the packet that was not
  accepted at the front, followed by all later ones.
\<close>

lemma plain_drain_keeps_order:
  assumes "queue_inv q" "drain_raw_queue (logged write) now q (st, []) = (r, q', st', tried)"
  shows "\<exists>gone. items q = gone @ items q'
    \<and> (r = Sent \<and> items q' = [] \<and> tried = map fst (filter (fresh now) gone)
       \<or> r = Retry \<and> items q' \<noteq> []
          \<and> tried = map fst (filter (fresh now) gone @ [hd (items q')]))"
  using drain_raw_queue_spec [OF assms] by auto

lemma plain_drain_keeps_order_witness:
  "\<exists>gone. items (\<lparr>capacity = 3, items = [([1], 0), ([2], 9), ([3], seconds 5)], closed = False, generation = 3\<rparr>)
        = gone @ [([3 :: byte], seconds 5)]
    \<and> [[3 :: byte]] = map fst (filter (fresh (seconds 5)) gone @ [([3], seconds 5)])"
proof -
  let ?q = "\<lparr>capacity = 3, items = [([1 :: byte], 0), ([2], 9), ([3], seconds 5)], closed = False, generation = 3\<rparr>"
  let ?r = "\<lparr>capacity = 3, items = [([3 :: byte], seconds 5)], closed = False, generation = 3\<rparr>"
  have "drain_raw_queue (logged (\<lambda>u p. (Retry, u))) (seconds 5) ?q ((), []) = (Retry, ?r, (), [[3]])"
    by (simp add: drain_raw_queue.simps try_peek_def SESSION_PACKET_TTL_def seconds_def logged_def front_drop_def)
  moreover have "queue_inv ?q" by (simp add: queue_inv_def)
  ultimately show ?thesis using plain_drain_keeps_order [of ?q _ "seconds 5" "()" Retry ?r "()" "[[3]]"] by simp
qed

end
