(* ===== verification/Vpn_Sessions.thy ===== *)
theory Vpn_Sessions
  imports Vpn_Session
begin

text \<open>
  The list of sessions the workers share: who a session is (\<open>identity\<close>), the invariant of the list
  (\<open>sessions_inv\<close>: one session per peer, bounded numbers, consistent flags), and the contract of the
  many operations that only work inside sessions or remove some of them (locale \<open>shrinking\<close>):
  whatever they do, they keep the invariant. The server's operations are interpretations of it in
  the theories that define them.
\<close>

section \<open>Identities\<close>

type_synonym ident = "sockaddr \<times> ipv4 \<times> string option \<times> bool \<times> bool \<times> instant option"

definition identity :: "'w session \<Rightarrow> ident" where
  "identity s = (peer_addr s, address s, fingerprint s, established s, authenticated s, established_at s)"

definition ident_peer :: "ident \<Rightarrow> sockaddr" where
  "ident_peer i = fst i"

definition ident_established :: "ident \<Rightarrow> bool" where
  "ident_established i = (case i of (p, a, f, e, u, t) \<Rightarrow> e)"

text \<open>An authenticated session is established; an established one has a fingerprint and a start.\<close>

definition ident_ok :: "ident \<Rightarrow> bool" where
  "ident_ok i = (case i of (p, a, f, e, u, t) \<Rightarrow> (u \<longrightarrow> e) \<and> (e \<longleftrightarrow> f \<noteq> None) \<and> (e \<longleftrightarrow> t \<noteq> None))"

definition identities :: "'w session list \<Rightarrow> ident multiset" where
  "identities xs = image_mset identity (mset xs)"

lemma ident_simps [simp]:
  "ident_peer (identity s) = peer_addr s"
  "ident_established (identity s) = established s"
  by (simp_all add: ident_peer_def ident_established_def identity_def)

lemma ident_ok_iff:
  "ident_ok (identity s) \<longleftrightarrow> (authenticated s \<longrightarrow> established s) \<and> (established s \<longleftrightarrow> fingerprint s \<noteq> None)
     \<and> (established s \<longleftrightarrow> established_at s \<noteq> None)"
  by (simp add: ident_ok_def identity_def)

lemma identities_simps [simp]:
  "identities [] = {#}"
  "identities (s # xs) = add_mset (identity s) (identities xs)"
  "identities (xs @ ys) = identities xs + identities ys"
  by (simp_all add: identities_def)

lemma identities_mono: "mset xs \<subseteq># mset ys \<Longrightarrow> identities xs \<subseteq># identities ys"
  by (simp add: identities_def image_mset_subseteq_mono)

lemma identities_map: "(\<And>s. s \<in> set xs \<Longrightarrow> identity (f s) = identity s) \<Longrightarrow> identities (map f xs) = identities xs"
  by (induction xs) simp_all

lemma identities_update:
  "i < length xs \<Longrightarrow> identity s = identity (xs ! i) \<Longrightarrow> identities (xs[i := s]) = identities xs"
proof (induction xs arbitrary: i)
  case Nil
  then show ?case by simp
next
  case (Cons x xs)
  then show ?case by (cases i) simp_all
qed

section \<open>The invariant of the list\<close>

definition pending :: "'w session list \<Rightarrow> nat" where
  "pending xs = count_where (\<lambda>s. \<not> established s) xs"

definition sessions_inv :: "nat \<Rightarrow> nat \<Rightarrow> 'w session list \<Rightarrow> bool" where
  "sessions_inv clients handshakes xs \<longleftrightarrow>
     distinct (map peer_addr xs) \<and> pending xs \<le> handshakes \<and> length xs \<le> clients + handshakes - 1
     \<and> (\<forall>s \<in> set xs. ident_ok (identity s))"

text \<open>The invariant depends on the identities only.\<close>

lemma pending_identities: "pending xs = size (filter_mset (\<lambda>i. \<not> ident_established i) (identities xs))"
  by (simp add: pending_def count_where_mset identities_def filter_mset_image_mset)

lemma length_identities: "length xs = size (identities xs)"
  by (simp add: identities_def)

lemma peers_identities: "mset (map peer_addr xs) = image_mset ident_peer (identities xs)"
  by (simp add: identities_def image_mset.compositionality comp_def)

lemma distinct_subset_mset: "mset xs \<subseteq># mset ys \<Longrightarrow> distinct ys \<Longrightarrow> distinct xs"
proof -
  assume sub: "mset xs \<subseteq># mset ys" and d: "distinct ys"
  obtain zs where "mset ys = mset (xs @ zs)"
    using sub by (metis ex_mset mset_append mset_subset_eq_exists_conv)
  then have "distinct (xs @ zs)" using d mset_eq_imp_distinct_iff by blast
  then show ?thesis by simp
qed

lemma ident_ok_identities: "(\<forall>s \<in> set xs. ident_ok (identity s)) \<longleftrightarrow> (\<forall>i \<in># identities xs. ident_ok i)"
  by (simp add: identities_def)

lemma sessions_inv_mono:
  assumes "identities xs \<subseteq># identities ys" "sessions_inv c h ys"
  shows "sessions_inv c h xs"
proof -
  have sub: "mset (map peer_addr xs) \<subseteq># mset (map peer_addr ys)"
    unfolding peers_identities using assms(1) by (rule image_mset_subseteq_mono)
  have "distinct (map peer_addr ys)" using assms(2) by (simp add: sessions_inv_def)
  with sub have "distinct (map peer_addr xs)" by (rule distinct_subset_mset)
  moreover have "pending xs \<le> pending ys"
    unfolding pending_identities using assms(1) by (intro size_mset_mono multiset_filter_mono)
  moreover have "length xs \<le> length ys"
    unfolding length_identities using assms(1) by (rule size_mset_mono)
  moreover have "\<forall>s \<in> set xs. ident_ok (identity s)"
  proof -
    have "\<forall>i \<in># identities ys. ident_ok i"
      using assms(2) ident_ok_identities [of ys] by (simp add: sessions_inv_def)
    then have "\<forall>i \<in># identities xs. ident_ok i" using assms(1) by (meson mset_subset_eqD)
    then show ?thesis using ident_ok_identities [of xs] by simp
  qed
  ultimately show ?thesis using assms(2) by (simp add: sessions_inv_def)
qed

section \<open>Operations that keep the invariant\<close>

locale shrinking =
  fixes operation :: "'w session list \<Rightarrow> 'w session list"
  assumes shrinks: "identities (operation xs) \<subseteq># identities xs"
begin

lemma keeps_inv: "sessions_inv c h xs \<Longrightarrow> sessions_inv c h (operation xs)"
  by (rule sessions_inv_mono [OF shrinks])

lemma length_le: "length (operation xs) \<le> length xs"
  unfolding length_identities by (rule size_mset_mono [OF shrinks])

lemma count_le: "count_where (\<lambda>s. P (identity s)) (operation xs) \<le> count_where (\<lambda>s. P (identity s)) xs"
proof -
  have "count_where (\<lambda>s. P (identity s)) ys = size (filter_mset P (identities ys))" for ys :: "'w session list"
    by (simp add: count_where_mset identities_def filter_mset_image_mset)
  then show ?thesis using shrinks by (simp add: size_mset_mono multiset_filter_mono)
qed

lemma all_le: "\<forall>s \<in> set xs. P (identity s) \<Longrightarrow> \<forall>s \<in> set (operation xs). P (identity s)"
proof -
  assume "\<forall>s \<in> set xs. P (identity s)"
  then have "\<forall>i \<in># identities xs. P i" by (simp add: identities_def)
  then have "\<forall>i \<in># identities (operation xs). P i" using shrinks by (meson mset_subset_eqD)
  then show ?thesis by (simp add: identities_def)
qed

end

text \<open>Removing sessions, by index or by condition.\<close>

interpretation remove_index: shrinking "swap_remove i" for i
  by unfold_locales (rule identities_mono [OF mset_swap_remove_subset])

interpretation retain: shrinking "filter P" for P
  by unfold_locales (simp add: identities_mono)

lemma retain_map_identities:
  "(\<And>s. identity (f s) = identity s) \<Longrightarrow> identities (map f (filter P xs)) \<subseteq># identities xs"
  using retain.shrinks [of P xs] by (simp add: identities_map)

section \<open>Single sessions keep their identity\<close>

lemma identity_update_simps [simp]:
  "identity (s\<lparr>conn := d\<rparr>) = identity s"
  "identity (s\<lparr>last_activity := t\<rparr>) = identity s"
  "identity (s\<lparr>dtls_deadline := dl\<rparr>) = identity s"
  "identity (s\<lparr>drain_pending := b\<rparr>) = identity s"
  "identity (s\<lparr>pending_inject := pi\<rparr>) = identity s"
  "identity (s\<lparr>login_attempted := b\<rparr>) = identity s"
  "identity (s\<lparr>bytes_tx := n\<rparr>) = identity s"
  "identity (s\<lparr>bytes_rx := n\<rparr>) = identity s"
  "identity (s\<lparr>packets_tx := n\<rparr>) = identity s"
  "identity (s\<lparr>packets_rx := n\<rparr>) = identity s"
  "identity (s\<lparr>disconnect_reason := r\<rparr>) = identity s"
  "identity (s\<lparr>raw_tx_queue := q\<rparr>) = identity s"
  by (simp_all add: identity_def)

lemma identity_queue_session_plain [simp]: "identity (queue_session_plain now p s) = identity s"
  by (simp add: queue_session_plain_def)

lemma identity_set_enc_tx_queue [simp]: "identity (set_enc_tx_queue q s) = identity s"
  by (simp add: set_enc_tx_queue_def)

lemma identity_send [simp]: "identity (snd (send_tunnel_packet W now s p)) = identity s"
  by (simp add: send_tunnel_packet_def Let_def split: prod.splits sum.splits dtls_io_result.splits)

lemma identity_drain_raw:
  assumes "\<And>st p. I (snd (write st p)) = I st"
  shows "I (snd (snd (drain_raw_queue write now q st))) = I st"
proof (induction "length (items q)" arbitrary: q st rule: less_induct)
  case less
  show ?case
  proof (cases rule: try_peek_cases [of q])
    case (nothing e)
    then show ?thesis by (simp add: drain_raw_queue.simps [of _ _ q])
  next
    case (item x xs)
    obtain packet queued_at where x: "x = (packet, queued_at)" by (cases x)
    obtain r st' where w: "write st packet = (r, st')" by (cases "write st packet")
    have "length (items (q\<lparr>items := xs\<rparr>)) < length (items q)" using item by simp
    note IH = less [OF this]
    have "I st' = I st" using assms [of st packet] w by simp
    then show ?thesis
      using IH item x w by (cases r) (simp_all add: drain_raw_queue.simps [of _ _ q])
  qed
qed

lemma identity_drain [simp]: "identity (snd (drain_session_plain W now s)) = identity s"
  using identity_drain_raw [of identity "send_tunnel_packet W now" now "raw_tx_queue s" s]
  by (cases "drain_raw_queue (send_tunnel_packet W now) now (raw_tx_queue s) s")
    (simp add: drain_session_plain_def)

end
