(* ===== verification/Vpn_Server_Encrypt.thy ===== *)
theory Vpn_Server_Encrypt
  imports Vpn_Sessions
begin

text \<open>
  The encrypting worker of the server (\<open>src/src/server/encrypt.rs\<close>): packets read from the TUN device
  are routed to the plain queue of a session and encrypted from there. One iteration of the worker is
  \<open>encrypt_round\<close>; the packets are taken from the queue one by one and the list of sessions is locked
  for each of them. Whether another thread asked for a retry before a packet's turn is an input.
\<close>

section \<open>Routing\<close>

record encrypt_routing =
  route_network :: ipv4
  route_prefix :: nat
  route_broadcast :: bool
  route_multicast :: bool

definition flush_pending :: "'w wolfssl \<Rightarrow> instant \<Rightarrow> 'w session list \<Rightarrow> 'w session list" where
  "flush_pending W now xs = map (\<lambda>s. snd (drain_session_plain W now s)) xs"

text \<open>The session a packet for one address goes to: of those logged in there, the most recently active.\<close>

definition unicast_target :: "ipv4 \<Rightarrow> 'w session list \<Rightarrow> nat option" where
  "unicast_target destination xs =
     max_index (\<lambda>s. authenticated s \<and> address s = destination) last_activity xs"

definition route_packet :: "'w wolfssl \<Rightarrow> encrypt_routing \<Rightarrow> instant \<Rightarrow> byte list \<Rightarrow>
    'w session list \<Rightarrow> 'w session list" where
  "route_packet W rt now packet xs =
     (case ipv4_destination packet of
        None \<Rightarrow> xs
      | Some destination \<Rightarrow>
          let broadcast = ipv4_is_broadcast destination (route_network rt) (route_prefix rt);
              multicast = is_multicast destination
          in if (broadcast \<and> route_broadcast rt) \<or> (multicast \<and> route_multicast rt)
             then flush_pending W now
                    (map (\<lambda>s. if authenticated s then queue_session_plain now packet s else s) xs)
             else if \<not> broadcast \<and> \<not> multicast
             then (case unicast_target destination xs of
                     None \<Rightarrow> xs
                   | Some i \<Rightarrow> xs[i := snd (drain_session_plain W now (queue_session_plain now packet (xs ! i)))])
             else xs)"

text \<open>
  The inner loop: each packet of the queue, with the flag \<open>retry_requested\<close> as it is found after the
  packet. A packet without a destination goes on with the next one at once.
\<close>

function encrypt_packets :: "'w wolfssl \<Rightarrow> encrypt_routing \<Rightarrow> instant \<Rightarrow> (nat \<Rightarrow> bool) \<Rightarrow>
    byte list queue \<Rightarrow> 'w session list \<Rightarrow> byte list queue \<times> 'w session list" where
  "encrypt_packets W rt now retry q xs =
     (case try_pop q of
        (Inl _, _) \<Rightarrow> (q, xs)
      | (Inr packet, q') \<Rightarrow>
          (let routed = route_packet W rt now packet xs in
           encrypt_packets W rt now retry q'
             (if ipv4_destination packet \<noteq> None \<and> retry (length (items q'))
              then flush_pending W now routed else routed)))"
  by pat_completeness auto
termination
  by (relation "measure (\<lambda>(W, rt, now, retry, q, xs). length (items q))") (auto dest: try_pop_delivered [OF sym])

declare encrypt_packets.simps [simp del]

text \<open>One iteration; the last component tells whether packets are left that DTLS did not accept.\<close>

definition encrypt_round :: "'w wolfssl \<Rightarrow> encrypt_routing \<Rightarrow> instant \<Rightarrow> (nat \<Rightarrow> bool) \<Rightarrow>
    byte list queue \<Rightarrow> 'w session list \<Rightarrow> byte list queue \<times> 'w session list \<times> bool" where
  "encrypt_round W rt now retry q xs =
     (case encrypt_packets W rt now retry q xs of
        (q', ys) \<Rightarrow>
          let zs = flush_pending W now ys
          in (q', zs, list_ex (\<lambda>s. \<not> queue_is_empty (raw_tx_queue s)) zs))"

section \<open>The sessions keep their identity\<close>

lemma identities_flush [simp]: "identities (flush_pending W now xs) = identities xs"
  by (simp add: flush_pending_def identities_map)

lemma unicast_target_Some:
  "unicast_target destination xs = Some i \<Longrightarrow>
     i < length xs \<and> authenticated (xs ! i) \<and> address (xs ! i) = destination
     \<and> (\<forall>s \<in> set xs. authenticated s \<and> address s = destination \<longrightarrow> last_activity s \<le> last_activity (xs ! i))"
  using max_index_Some by (fastforce simp: unicast_target_def)

lemma identities_route [simp]: "identities (route_packet W rt now packet xs) = identities xs"
proof (cases "ipv4_destination packet")
  case None
  then show ?thesis by (simp add: route_packet_def)
next
  case (Some destination)
  show ?thesis
  proof (cases "unicast_target destination xs")
    case None
    then show ?thesis by (simp add: route_packet_def Some Let_def identities_map)
  next
    case i: (Some i)
    then have "i < length xs" using unicast_target_Some by blast
    then show ?thesis using i by (simp add: route_packet_def Some Let_def identities_map identities_update)
  qed
qed

lemma identities_encrypt_packets [simp]:
  "identities (snd (encrypt_packets W rt now retry q xs)) = identities xs"
proof (induction "length (items q)" arbitrary: q xs rule: less_induct)
  case less
  show ?case
  proof (cases "try_pop q")
    case (Pair r q')
    show ?thesis
    proof (cases r)
      case (Inl e)
      then show ?thesis using Pair by (simp add: encrypt_packets.simps [of _ _ _ _ q])
    next
      case (Inr packet)
      then have "length (items q') < length (items q)" using Pair try_pop_delivered [of q] by fastforce
      then show ?thesis using less Pair Inr by (simp add: encrypt_packets.simps [of _ _ _ _ q] Let_def)
    qed
  qed
qed

interpretation encrypt_worker: shrinking "\<lambda>xs. fst (snd (encrypt_round W rt now retry q xs))" for W rt now retry q
  by unfold_locales
    (metis (mono_tags, lifting) encrypt_round_def identities_encrypt_packets identities_flush
      case_prod_beta fst_conv snd_conv subset_mset.order_refl)

section \<open>An example\<close>

text \<open>Two sessions, of which the second is logged in as 10.8.1.2, and a packet for that address.\<close>

definition example_session :: "byte list list session" where
  "example_session =
     (session_new example_dtls example_peer 5)
       \<lparr>established := True, authenticated := True, address := 0x0A080102,
        fingerprint := Some example_fingerprint, established_at := Some 5\<rparr>"

definition example_sessions :: "byte list list session list" where
  "example_sessions =
     [session_new example_dtls (example_peer\<lparr>sa_port := 1\<rparr>) 3, example_session]"

definition example_packet :: "byte list" where
  "example_packet = [0x45, 0, 0, 20, 0, 0, 0, 0, 64, 17, 0, 0, 10, 8, 1, 9, 10, 8, 1, 2]"

definition example_routing :: encrypt_routing where
  "example_routing =
     \<lparr>route_network = 0x0A080100, route_prefix = 24, route_broadcast = False, route_multicast = False\<rparr>"

lemma example_destination: "ipv4_destination example_packet = Some 0x0A080102"
  by (simp add: ipv4_destination_def ipv4_packet_addresses_def example_packet_def drop_bit_eq_div
      u16_from_be_def ipv4_new_def)

section \<open>Properties\<close>

text \<open>
  C9: A packet from the TUN device reaches only the clients it is for. If its destination is a unicast
  address, every session but one stays as it is, and that one is logged in with exactly this address
  and is the most recently active of those; a broadcast or multicast destination that is not enabled,
  or a malformed packet, changes no session; an enabled one is queued for the authenticated sessions
  only, the others at most continue with what they already had to send.
\<close>

theorem tunnel_packet_reaches_only_its_clients:
  assumes "i < length xs" "ys = route_packet W rt now packet xs"
  shows "length ys = length xs
    \<and> (case ipv4_destination packet of
         None \<Rightarrow> ys ! i = xs ! i
       | Some destination \<Rightarrow>
           if ipv4_is_broadcast destination (route_network rt) (route_prefix rt) \<or> is_multicast destination
           then ys ! i = xs ! i
             \<or> (ipv4_is_broadcast destination (route_network rt) (route_prefix rt) \<and> route_broadcast rt
                 \<or> is_multicast destination \<and> route_multicast rt)
               \<and> ys ! i = snd (drain_session_plain W now
                     (if authenticated (xs ! i) then queue_session_plain now packet (xs ! i) else xs ! i))
           else ys ! i \<noteq> xs ! i \<longrightarrow>
             authenticated (xs ! i) \<and> address (xs ! i) = destination
             \<and> (\<forall>s \<in> set xs. authenticated s \<and> address s = destination \<longrightarrow>
                  last_activity s \<le> last_activity (xs ! i))
             \<and> (\<forall>j < length xs. j \<noteq> i \<longrightarrow> ys ! j = xs ! j))"
proof (cases "ipv4_destination packet")
  case None
  then show ?thesis using assms by (simp add: route_packet_def)
next
  case (Some destination)
  show ?thesis
  proof (cases "unicast_target destination xs")
    case None
    then show ?thesis using assms Some by (simp add: route_packet_def Let_def flush_pending_def)
  next
    case t: (Some k)
    note target = unicast_target_Some [OF t]
    show ?thesis
      using assms Some t target by (cases "k = i") (simp_all add: route_packet_def Let_def flush_pending_def)
  qed
qed

theorem tunnel_packet_reaches_only_its_clients_witness:
  "route_packet example_wolf example_routing 9 example_packet example_sessions ! 0 = example_sessions ! 0"
proof -
  have "\<not> (ipv4_is_broadcast 0x0A080102 (route_network example_routing) (route_prefix example_routing)
      \<or> is_multicast 0x0A080102)"
    by (simp add: example_routing_def ipv4_is_broadcast_def ipv4_broadcast_def is_multicast_def octets_def
        netmask_def mask_eq_exp_minus_1)
  moreover have "\<not> authenticated (example_sessions ! 0)"
    by (simp add: example_sessions_def session_new_def)
  ultimately show ?thesis
    using tunnel_packet_reaches_only_its_clients [of 0 example_sessions _ example_wolf example_routing 9 example_packet]
    by (auto simp: example_destination) (simp add: example_sessions_def)
qed

end
