(* ===== verification/Vpn_Server_Udp_Write.thy ===== *)
theory Vpn_Server_Udp_Write
  imports Vpn_Server_Encrypt
begin

text \<open>
  The sending worker of the server (\<open>src/src/server/udp_write.rs\<close>): one pass over the sessions sends
  the encrypted datagrams of each, and removes the sessions whose sending failed, by index from the
  back. The socket is a parameter: a function that threads its own state. The lemmas show that the
  removal by swapping takes out exactly the sessions that failed.
\<close>

section \<open>One pass\<close>

type_synonym 's udp_socket = "'s \<Rightarrow> sockaddr \<Rightarrow> byte list \<Rightarrow> nat io_result \<times> 's"

definition send_session :: "'s udp_socket \<Rightarrow> instant \<Rightarrow> 's \<Rightarrow> 'w session \<Rightarrow>
    bool io_result \<times> 'w session \<times> 's" where
  "send_session send now st s =
     (case drain_encrypted_queue (\<lambda>st packet. send st (peer_addr s) packet) now (enc_tx_queue s) st of
        (r, q', st') \<Rightarrow>
          let s' = set_enc_tx_queue q' s
          in (r, if is_ok r then s' else s'\<lparr>disconnect_reason := ''udp_write_error''\<rparr>, st'))"

text \<open>The loop over the list: results and sessions in order.\<close>

fun send_sessions :: "'s udp_socket \<Rightarrow> instant \<Rightarrow> 's \<Rightarrow> 'w session list \<Rightarrow>
    (bool io_result \<times> 'w session) list \<times> 's" where
  "send_sessions send now st [] = ([], st)"
| "send_sessions send now st (s # xs) =
     (case send_session send now st s of
        (r, s', st') \<Rightarrow> (case send_sessions send now st' xs of (rs, st'') \<Rightarrow> ((r, s') # rs, st'')))"

text \<open>The indices pushed to \<open>remove\<close>, in the order of the loop.\<close>

definition failed_indices :: "(bool io_result \<times> 'w session) list \<Rightarrow> nat list" where
  "failed_indices rs = filter (\<lambda>i. \<not> is_ok (fst (rs ! i))) [0..<length rs]"

record udp_outcome =
  socket_blocked :: bool
  sent_any :: bool

definition udp_write_pass :: "'s udp_socket \<Rightarrow> instant \<Rightarrow> 's \<Rightarrow> 'w session list \<Rightarrow>
    'w session list \<times> udp_outcome \<times> 's" where
  "udp_write_pass send now st xs =
     (case send_sessions send now st xs of
        (rs, st') \<Rightarrow>
          (swap_remove_all (rev (failed_indices rs)) (map snd rs),
           \<lparr>socket_blocked = list_ex (\<lambda>(r, _). r = Inr True) rs,
            sent_any = list_ex (\<lambda>((r, _), s). \<not> queue_is_empty (enc_tx_queue s) \<and> r = Inr False) (zip rs xs)\<rparr>,
           st'))"

text \<open>What the worker does after a pass: poll the socket, wait for the signal, or ask for more.\<close>

datatype udp_next = PollSocket | WaitSignal | AskMore | GoOn

definition udp_write_next :: "udp_outcome \<Rightarrow> bool \<Rightarrow> 'w session list \<Rightarrow> udp_next" where
  "udp_write_next outcome running xs =
     (if socket_blocked outcome then PollSocket
      else if \<not> sent_any outcome
      then (if \<not> list_ex (\<lambda>s. \<not> queue_is_empty (enc_tx_queue s)) xs \<and> running then WaitSignal else GoOn)
      else AskMore)"

section \<open>Removal from the back\<close>

lemma swap_remove_all_desc:
  "sorted_wrt (>) js \<Longrightarrow> \<forall>j \<in> set js. j < length xs \<Longrightarrow>
   mset xs = mset (swap_remove_all js xs) + mset (map ((!) xs) js)"
proof (induction js arbitrary: xs)
  case Nil
  then show ?case by simp
next
  case (Cons j js)
  let ?ys = "swap_remove j xs"
  have j: "j < length xs" and less: "\<forall>i \<in> set js. i < j" using Cons.prems by auto
  have "\<forall>i \<in> set js. i < length ?ys" using j less by (auto simp: length_swap_remove)
  then have "mset ?ys = mset (swap_remove_all js ?ys) + mset (map ((!) ?ys) js)"
    using Cons by simp
  moreover have "map ((!) ?ys) js = map ((!) xs) js"
    using less j by (simp add: nth_swap_remove_less)
  ultimately show ?case using mset_swap_remove [OF j] by simp
qed

lemma map_failed: "map ((!) (map snd rs)) (failed_indices rs) = map snd (filter (\<lambda>r. \<not> is_ok (fst r)) rs)"
proof -
  have "filter (\<lambda>r. \<not> is_ok (fst r)) rs = map ((!) rs) (failed_indices rs)"
    unfolding failed_indices_def by (metis (no_types, lifting) filter_map map_nth comp_apply filter_cong)
  moreover have "\<forall>i \<in> set (failed_indices rs). i < length rs" by (simp add: failed_indices_def)
  ultimately show ?thesis by (simp add: comp_def)
qed

lemma failed_removed:
  "mset (swap_remove_all (rev (failed_indices rs)) (map snd rs)) = mset (map snd (filter (\<lambda>r. is_ok (fst r)) rs))"
proof -
  have "sorted_wrt (>) (rev (failed_indices rs))"
    by (simp add: failed_indices_def sorted_wrt_rev sorted_wrt_filter)
  moreover have "\<forall>j \<in> set (rev (failed_indices rs)). j < length (map snd rs)"
    by (simp add: failed_indices_def)
  ultimately have "mset (map snd rs) = mset (swap_remove_all (rev (failed_indices rs)) (map snd rs))
      + mset (map snd (filter (\<lambda>r. \<not> is_ok (fst r)) rs))"
    using swap_remove_all_desc [of "rev (failed_indices rs)" "map snd rs"] map_failed [of rs]
    by (simp add: rev_map [symmetric])
  moreover have "mset (map snd rs) = mset (map snd (filter (\<lambda>r. is_ok (fst r)) rs))
      + mset (map snd (filter (\<lambda>r. \<not> is_ok (fst r)) rs))"
    by (induction rs) auto
  ultimately show ?thesis by simp
qed

section \<open>Identities\<close>

lemma identity_send_session: "identity (fst (snd (send_session send now st s))) = identity s"
  by (simp add: send_session_def Let_def split: prod.splits)

lemma identities_send_sessions: "identities (map snd (fst (send_sessions send now st xs))) = identities xs"
proof (induction xs arbitrary: st)
  case Nil
  then show ?case by simp
next
  case (Cons s xs)
  obtain r s' st' where a: "send_session send now st s = (r, s', st')" by (metis prod_cases3)
  obtain rs st'' where b: "send_sessions send now st' xs = (rs, st'')" by (metis surj_pair)
  have "identity s' = identity s" using identity_send_session [of send now st s] a by simp
  then show ?case using Cons [of st'] by (simp add: a b)
qed

lemma identities_filter_map: "identities (map snd (filter P rs)) \<subseteq># identities (map snd rs)"
  by (rule identities_mono) (simp add: image_mset_subseteq_mono)

interpretation udp_writer: shrinking "\<lambda>xs. fst (udp_write_pass send now st xs)" for send now st
proof unfold_locales
  fix xs :: "'a session list"
  obtain rs st' where rs: "send_sessions send now st xs = (rs, st')" by (metis surj_pair)
  have "identities (swap_remove_all (rev (failed_indices rs)) (map snd rs))
      = identities (map snd (filter (\<lambda>r. is_ok (fst r)) rs))"
    using failed_removed [of rs] by (simp add: identities_def)
  then show "identities (fst (udp_write_pass send now st xs)) \<subseteq># identities xs"
    using identities_filter_map [of "\<lambda>r. is_ok (fst r)" rs] identities_send_sessions [of send now st xs]
    by (simp add: udp_write_pass_def rs)
qed

section \<open>Properties\<close>

text \<open>
  A pass of the UDP writer keeps exactly the sessions whose datagrams were sent or are waiting for
  the socket, and removes exactly those whose sending failed: removing the recorded indices from the
  back by swapping never takes out another session.
\<close>

lemma udp_write_removes_exactly_failed:
  "mset (fst (udp_write_pass send now st xs)) =
     mset (map snd (filter (\<lambda>(r, s). is_ok r) (fst (send_sessions send now st xs))))"
  using failed_removed by (simp add: udp_write_pass_def case_prod_unfold split: prod.splits)

end
