(* ===== verification/Vpn_Rate_Limit.thy ===== *)
theory Vpn_Rate_Limit
  imports Vpn_Prelude
begin

text \<open>
  The handshake rate limiter of \<open>src/src/lib.rs\<close> (\<open>IpRateLimiter\<close>): per source address the recent
  attempts, oldest first, and the end of a ban. The model passes the current instant to every
  operation, as the code does. \<open>limiter_run\<close> executes an arbitrary sequence of the three operations
  for arbitrary addresses and records which attempts were allowed; the lemmas show that a window of
  the configured length never contains as many allowed attempts as the limit, and that a ban lasts
  exactly its duration, whatever other calls come in between.
\<close>

section \<open>State and operations\<close>

datatype rate_limit_decision = Allowed | BannedNow | Banned

record ip_attempt_state =
  attempts :: "instant list"
  banned_until :: "instant option"

record ip_rate_limiter =
  states :: "ipv4 \<Rightarrow> ip_attempt_state option"
  limit :: nat
  window :: duration
  ban_duration :: duration

definition limiter_new :: "nat \<Rightarrow> duration \<Rightarrow> duration \<Rightarrow> ip_rate_limiter" where
  "limiter_new n w b = \<lparr>states = (\<lambda>_. None), limit = max n 1, window = w, ban_duration = b\<rparr>"

text \<open>The loop that pops attempts whose age reached the window.\<close>

definition pop_expired :: "duration \<Rightarrow> instant \<Rightarrow> instant list \<Rightarrow> instant list" where
  "pop_expired w now xs = dropWhile (\<lambda>attempt. w \<le> now - attempt) xs"

definition ban_active :: "instant \<Rightarrow> ip_attempt_state \<Rightarrow> bool" where
  "ban_active now st = (case banned_until st of None \<Rightarrow> False | Some deadline \<Rightarrow> now < deadline)"

definition check_ban :: "ipv4 \<Rightarrow> instant \<Rightarrow> ip_rate_limiter \<Rightarrow> bool \<times> ip_rate_limiter" where
  "check_ban address now l =
     (case states l address of
        None \<Rightarrow> (False, l)
      | Some st \<Rightarrow>
          if ban_active now st then (True, l)
          else (False, l\<lparr>states := (states l)(address \<mapsto>
                 st\<lparr>banned_until := None, attempts := pop_expired (window l) now (attempts st)\<rparr>)\<rparr>))"

definition record_attempt :: "ipv4 \<Rightarrow> instant \<Rightarrow> ip_rate_limiter \<Rightarrow> rate_limit_decision \<times> ip_rate_limiter" where
  "record_attempt address now l =
     (case check_ban address now l of
        (True, l') \<Rightarrow> (Banned, l')
      | (False, l') \<Rightarrow>
          let st = (case states l' address of
                      None \<Rightarrow> \<lparr>attempts = [], banned_until = None\<rparr>
                    | Some st \<Rightarrow> st);
              tried = attempts st @ [now]
          in if limit l' \<le> length tried
             then (BannedNow, l'\<lparr>states := (states l')(address \<mapsto>
                    st\<lparr>attempts := [], banned_until := Some (now + ban_duration l')\<rparr>)\<rparr>)
             else (Allowed, l'\<lparr>states := (states l')(address \<mapsto> st\<lparr>attempts := tried\<rparr>)\<rparr>))"

definition purge_state :: "duration \<Rightarrow> instant \<Rightarrow> ip_attempt_state \<Rightarrow> ip_attempt_state option" where
  "purge_state w now st =
     (let st' = st\<lparr>attempts := pop_expired w now (attempts st)\<rparr>
      in if ban_active now st' \<or> attempts st' \<noteq> [] then Some st' else None)"

definition purge :: "instant \<Rightarrow> ip_rate_limiter \<Rightarrow> ip_rate_limiter" where
  "purge now l =
     l\<lparr>states := (\<lambda>address. case states l address of
                     None \<Rightarrow> None | Some st \<Rightarrow> purge_state (window l) now st)\<rparr>"

section \<open>Runs\<close>

datatype limiter_event = CheckBan ipv4 instant | RecordAttempt ipv4 instant | Purge instant

fun event_time :: "limiter_event \<Rightarrow> instant" where
  "event_time (CheckBan a t) = t"
| "event_time (RecordAttempt a t) = t"
| "event_time (Purge t) = t"

text \<open>One call; the second component extends the list of allowed attempts.\<close>

fun limiter_step :: "ip_rate_limiter \<times> (ipv4 \<times> instant) list \<Rightarrow> limiter_event \<Rightarrow>
    ip_rate_limiter \<times> (ipv4 \<times> instant) list" where
  "limiter_step (l, h) (CheckBan a t) = (snd (check_ban a t l), h)"
| "limiter_step (l, h) (RecordAttempt a t) =
     (snd (record_attempt a t l),
      if fst (record_attempt a t l) = Allowed then h @ [(a, t)] else h)"
| "limiter_step (l, h) (Purge t) = (purge t l, h)"

definition limiter_run :: "ip_rate_limiter \<times> (ipv4 \<times> instant) list \<Rightarrow> limiter_event list \<Rightarrow>
    ip_rate_limiter \<times> (ipv4 \<times> instant) list" where
  "limiter_run lh es = foldl limiter_step lh es"

text \<open>The allowed attempts of one address, oldest first.\<close>

definition allowed_of :: "ipv4 \<Rightarrow> (ipv4 \<times> instant) list \<Rightarrow> instant list" where
  "allowed_of a h = map snd (filter (\<lambda>(x, t). x = a) h)"

definition state_of :: "ip_rate_limiter \<Rightarrow> ipv4 \<Rightarrow> ip_attempt_state" where
  "state_of l a = (case states l a of None \<Rightarrow> \<lparr>attempts = [], banned_until = None\<rparr> | Some st \<Rightarrow> st)"

lemma allowed_of_simps [simp]:
  "allowed_of a [] = []"
  "allowed_of a (h @ [(b, t)]) = (if b = a then allowed_of a h @ [t] else allowed_of a h)"
  by (simp_all add: allowed_of_def)

section \<open>The invariant of one address\<close>

text \<open>
  The recorded attempts are the youngest allowed ones; every older allowed attempt has left the
  window, or is covered by a ban that lasts until it has.
\<close>

definition address_inv :: "nat \<Rightarrow> duration \<Rightarrow> instant \<Rightarrow> ip_attempt_state \<Rightarrow> instant list \<Rightarrow> bool" where
  "address_inv n w now st h \<longleftrightarrow>
     (\<exists>old. h = old @ attempts st
        \<and> (\<forall>t \<in> set old. t + w \<le> now \<or> (\<exists>b. banned_until st = Some b \<and> t + w \<le> b)))
     \<and> length (attempts st) < n \<and> (\<forall>t \<in> set h. t \<le> now) \<and> sorted h
     \<and> (banned_until st \<noteq> None \<longrightarrow> attempts st = [])
     \<and> (\<forall>t0. length (filter (\<lambda>t. t0 \<le> t \<and> t < t0 + w) h) < n)"

lemma pop_expired_split:
  "\<exists>gone. xs = gone @ pop_expired w now xs \<and> (\<forall>t \<in> set gone. w \<le> now - t)"
  unfolding pop_expired_def by (metis set_takeWhileD takeWhile_dropWhile_id)

text \<open>Popping expired attempts keeps the invariant.\<close>

lemma address_inv_pop:
  assumes "address_inv n w now st h"
  shows "address_inv n w now (st\<lparr>attempts := pop_expired w now (attempts st)\<rparr>) h"
proof -
  obtain gone where gone: "attempts st = gone @ pop_expired w now (attempts st)"
    and exp: "\<forall>t \<in> set gone. w \<le> now - t" using pop_expired_split by metis
  obtain old where h: "h = old @ attempts st"
    and old: "\<forall>t \<in> set old. t + w \<le> now \<or> (\<exists>b. banned_until st = Some b \<and> t + w \<le> b)"
    using assms by (auto simp: address_inv_def)
  have le: "\<forall>t \<in> set gone. t \<le> now"
    using assms h gone by (metis UnI1 UnI2 address_inv_def set_append)
  have "h = (old @ gone) @ pop_expired w now (attempts st)" using h gone by simp
  moreover have "\<forall>t \<in> set (old @ gone). t + w \<le> now \<or> (\<exists>b. banned_until st = Some b \<and> t + w \<le> b)"
    using old exp le by fastforce
  moreover have "length (pop_expired w now (attempts st)) \<le> length (attempts st)"
    by (simp add: pop_expired_def length_dropWhile_le)
  moreover have "attempts st = [] \<Longrightarrow> pop_expired w now (attempts st) = []"
    by (simp add: pop_expired_def)
  ultimately show ?thesis using assms unfolding address_inv_def by (auto simp: less_le_trans)
qed

text \<open>An ended ban can be forgotten, and the clock can advance.\<close>

lemma address_inv_unban:
  assumes "address_inv n w now st h" "\<not> ban_active now st"
  shows "address_inv n w now (st\<lparr>banned_until := None\<rparr>) h"
proof -
  have "\<And>b. banned_until st = Some b \<Longrightarrow> b \<le> now" using assms(2) by (simp add: ban_active_def)
  then show ?thesis using assms(1) unfolding address_inv_def by fastforce
qed

lemma address_inv_later:
  "address_inv n w now st h \<Longrightarrow> now \<le> now' \<Longrightarrow> address_inv n w now' st h"
  unfolding address_inv_def by fastforce

lemma filter_none: "\<forall>x \<in> set xs. \<not> P x \<Longrightarrow> filter P xs = []"
  by simp

text \<open>An allowed attempt extends the window without filling it.\<close>

lemma address_inv_allow:
  assumes inv: "address_inv n w now st h" and free: "banned_until st = None"
    and room: "length (attempts st @ [now]) < n"
  shows "address_inv n w now (st\<lparr>attempts := attempts st @ [now]\<rparr>) (h @ [now])"
proof -
  obtain old where h: "h = old @ attempts st" and old: "\<forall>t \<in> set old. t + w \<le> now"
    using inv free by (auto simp: address_inv_def)
  have count: "length (filter (\<lambda>t. t0 \<le> t \<and> t < t0 + w) (h @ [now])) < n" for t0
  proof (cases "t0 \<le> now \<and> now < t0 + w")
    case True
    then have "filter (\<lambda>t. t0 \<le> t \<and> t < t0 + w) old = []" using old by (intro filter_none) auto
    then have "length (filter (\<lambda>t. t0 \<le> t \<and> t < t0 + w) (h @ [now])) \<le> length (attempts st @ [now])"
      using h True by simp
    then show ?thesis using room by simp
  next
    case False
    then show ?thesis using inv by (auto simp: address_inv_def)
  qed
  have "sorted (h @ [now])" using inv by (auto simp: address_inv_def sorted_append)
  then show ?thesis
    using count room h old inv free unfolding address_inv_def by auto
qed

lemma address_inv_ban:
  assumes "address_inv n w now st h" "w \<le> d"
  shows "address_inv n w now (st\<lparr>attempts := [], banned_until := Some (now + d)\<rparr>) h"
  using assms unfolding address_inv_def by (fastforce intro: add_mono)

section \<open>The invariant of the limiter\<close>

definition limiter_inv :: "instant \<Rightarrow> ip_rate_limiter \<times> (ipv4 \<times> instant) list \<Rightarrow> bool" where
  "limiter_inv now lh \<longleftrightarrow>
     (case lh of (l, h) \<Rightarrow> window l \<le> ban_duration l
        \<and> (\<forall>a. address_inv (limit l) (window l) now (state_of l a) (allowed_of a h)))"

lemma state_of_update [simp]:
  "state_of (l\<lparr>states := (states l)(a \<mapsto> st)\<rparr>) b = (if b = a then st else state_of l b)"
  by (simp add: state_of_def)

lemma limiter_fields [simp]:
  "limit (snd (check_ban a t l)) = limit l"
  "window (snd (check_ban a t l)) = window l"
  "ban_duration (snd (check_ban a t l)) = ban_duration l"
  by (simp_all add: check_ban_def split: option.splits)

lemma ban_active_attempts [simp]: "ban_active t (st\<lparr>attempts := x\<rparr>) = ban_active t st"
  by (simp add: ban_active_def)

lemma check_ban_fst: "fst (check_ban a t l) = ban_active t (state_of l a)"
  by (simp add: check_ban_def state_of_def ban_active_def split: option.splits)

lemma check_ban_state:
  "state_of (snd (check_ban a t l)) b =
     (if b = a \<and> \<not> ban_active t (state_of l a)
      then (state_of l a)\<lparr>banned_until := None, attempts := pop_expired (window l) t (attempts (state_of l a))\<rparr>
      else state_of l b)"
  by (simp add: check_ban_def state_of_def ban_active_def pop_expired_def split: option.splits)

lemma check_ban_address_inv:
  assumes "address_inv n w t (state_of l b) h" "w = window l"
  shows "address_inv n w t (state_of (snd (check_ban a t l)) b) h"
proof (cases "b = a \<and> \<not> ban_active t (state_of l a)")
  case True
  then show ?thesis
    using assms address_inv_pop [OF address_inv_unban [OF assms(1)]] by (simp add: check_ban_state)
next
  case False
  then show ?thesis using assms by (simp only: check_ban_state if_False)
qed

lemma record_attempt_cases:
  fixes a t l
  defines "l' \<equiv> snd (check_ban a t l)"
  defines "st \<equiv> state_of l' a"
  obtains (banned) "record_attempt a t l = (Banned, l')" "ban_active t (state_of l a)"
  | (now_banned) "\<not> ban_active t (state_of l a)" "limit l \<le> length (attempts st @ [t])"
      "record_attempt a t l = (BannedNow, l'\<lparr>states := (states l')(a \<mapsto>
         st\<lparr>attempts := [], banned_until := Some (t + ban_duration l)\<rparr>)\<rparr>)"
  | (allowed) "\<not> ban_active t (state_of l a)" "length (attempts st @ [t]) < limit l"
      "record_attempt a t l = (Allowed, l'\<lparr>states := (states l')(a \<mapsto> st\<lparr>attempts := attempts st @ [t]\<rparr>)\<rparr>)"
proof (cases "ban_active t (state_of l a)")
  case True
  then have "check_ban a t l = (True, l')" using check_ban_fst [of a t l] by (simp add: l'_def prod_eq_iff)
  then show ?thesis using True banned by (simp add: record_attempt_def)
next
  case False
  then have c: "check_ban a t l = (False, l')" using check_ban_fst [of a t l] by (simp add: l'_def prod_eq_iff)
  have f: "limit l' = limit l" "ban_duration l' = ban_duration l" by (simp_all add: l'_def)
  have st: "(case states l' a of None \<Rightarrow> \<lparr>attempts = [], banned_until = None\<rparr> | Some st \<Rightarrow> st) = st"
    by (simp add: st_def state_of_def)
  show ?thesis
  proof (cases "limit l \<le> length (attempts st @ [t])")
    case True
    then show ?thesis using False now_banned by (simp add: record_attempt_def c st f Let_def)
  next
    case le: False
    then show ?thesis using False allowed by (simp add: record_attempt_def c st f Let_def)
  qed
qed

lemma check_ban_unbanned:
  "\<not> ban_active t (state_of l a) \<Longrightarrow> banned_until (state_of (snd (check_ban a t l)) a) = None"
  by (simp add: check_ban_state)

lemma purge_state_of:
  "state_of (purge t l) a =
     (case states l a of None \<Rightarrow> state_of l a
      | Some st \<Rightarrow> (case purge_state (window l) t st of
                       None \<Rightarrow> \<lparr>attempts = [], banned_until = None\<rparr> | Some st' \<Rightarrow> st'))"
  by (simp add: purge_def state_of_def split: option.splits)

lemma purge_address_inv:
  assumes "address_inv n w t (state_of l a) h" "w = window l"
  shows "address_inv n w t (state_of (purge t l) a) h"
proof (cases "states l a")
  case None
  then show ?thesis using assms by (simp add: purge_state_of)
next
  case (Some st)
  let ?st = "st\<lparr>attempts := pop_expired w t (attempts st)\<rparr>"
  have inv: "address_inv n w t ?st h" using assms Some by (simp add: address_inv_pop state_of_def)
  show ?thesis
  proof (cases "ban_active t ?st \<or> attempts ?st \<noteq> []")
    case True
    then have "purge_state w t st = Some ?st" by (simp add: purge_state_def Let_def)
    then show ?thesis using inv Some assms(2) by (simp add: purge_state_of)
  next
    case False
    then have "purge_state w t st = None" by (simp add: purge_state_def Let_def)
    moreover have "?st\<lparr>banned_until := None\<rparr> = \<lparr>attempts = [], banned_until = None\<rparr>"
      using False by simp
    ultimately show ?thesis
      using address_inv_unban [OF inv] False Some assms(2) by (simp add: purge_state_of)
  qed
qed

lemma limiter_step_inv:
  assumes inv: "limiter_inv now (l, h)" and later: "now \<le> event_time e"
  shows "limiter_inv (event_time e) (limiter_step (l, h) e)"
proof (cases e)
  case (CheckBan a t)
  have "address_inv (limit l) (window l) t (state_of (snd (check_ban a t l)) b) (allowed_of b h)" for b
    using inv later CheckBan by (intro check_ban_address_inv) (auto simp: limiter_inv_def intro: address_inv_later)
  then show ?thesis using inv CheckBan by (simp add: limiter_inv_def)
next
  case (Purge t)
  have "address_inv (limit l) (window l) t (state_of (purge t l) b) (allowed_of b h)" for b
    using inv later Purge by (intro purge_address_inv) (auto simp: limiter_inv_def intro: address_inv_later)
  then show ?thesis using inv Purge by (simp add: limiter_inv_def purge_def)
next
  case (RecordAttempt a t)
  let ?l' = "snd (check_ban a t l)"
  have base: "address_inv (limit l) (window l) t (state_of ?l' b) (allowed_of b h)" for b
    using inv later RecordAttempt
    by (intro check_ban_address_inv) (auto simp: limiter_inv_def intro: address_inv_later)
  have wb: "window l \<le> ban_duration l" using inv by (simp add: limiter_inv_def)
  show ?thesis
  proof (cases rule: record_attempt_cases [of a t l])
    case banned
    then show ?thesis using base wb RecordAttempt by (simp add: limiter_inv_def)
  next
    case now_banned
    then show ?thesis
      using base wb address_inv_ban [OF base [of a] wb] RecordAttempt by (simp add: limiter_inv_def)
  next
    case allowed
    then show ?thesis
      using base wb address_inv_allow [OF base [of a] check_ban_unbanned] RecordAttempt
      by (simp add: limiter_inv_def)
  qed
qed

text \<open>Runs whose instants never go back.\<close>

fun times_from :: "instant \<Rightarrow> limiter_event list \<Rightarrow> bool" where
  "times_from now [] = True"
| "times_from now (e # es) = (now \<le> event_time e \<and> times_from (event_time e) es)"

lemma limiter_run_inv:
  "limiter_inv now lh \<Longrightarrow> times_from now es \<Longrightarrow> \<exists>now'. limiter_inv now' (limiter_run lh es)"
proof (induction es arbitrary: now lh)
  case Nil
  then show ?case by (auto simp: limiter_run_def)
next
  case (Cons e es)
  obtain l h where lh: "lh = (l, h)" by (cases lh)
  have "limiter_inv (event_time e) (limiter_step lh e)"
    using Cons.prems limiter_step_inv by (simp add: lh)
  then show ?case using Cons.IH Cons.prems(2) by (simp add: limiter_run_def)
qed

lemma limiter_step_limit:
  "limit (fst (limiter_step lh e)) = limit (fst lh) \<and> window (fst (limiter_step lh e)) = window (fst lh)"
proof (cases lh)
  case (Pair l h)
  show ?thesis
  proof (cases e)
    case (RecordAttempt a t)
    then show ?thesis using Pair by (cases rule: record_attempt_cases [of a t l]) simp_all
  qed (simp_all add: Pair purge_def)
qed

lemma limiter_run_limit:
  "limit (fst (limiter_run lh es)) = limit (fst lh) \<and> window (fst (limiter_run lh es)) = window (fst lh)"
  by (induction es arbitrary: lh) (simp_all add: limiter_run_def limiter_step_limit)

lemma limiter_new_inv: "w \<le> b \<Longrightarrow> limiter_inv 0 (limiter_new n w b, [])"
  by (auto simp: limiter_inv_def limiter_new_def state_of_def address_inv_def)

text \<open>A ban survives every call made before its end.\<close>

lemma limiter_step_keeps_ban:
  assumes "banned_until (state_of l a) = Some b" "event_time e < b"
  shows "banned_until (state_of (fst (limiter_step (l, h) e)) a) = Some b"
proof (cases e)
  case (CheckBan a' t)
  have "ban_active t (state_of l a)" using assms CheckBan by (simp add: ban_active_def)
  then show ?thesis using assms CheckBan by (auto simp: check_ban_state)
next
  case (Purge t)
  obtain st where st: "states l a = Some st"
    using assms(1) by (cases "states l a") (simp_all add: state_of_def)
  then have "banned_until st = Some b" using assms(1) by (simp add: state_of_def)
  then show ?thesis
    using assms Purge st by (simp add: purge_state_of purge_state_def ban_active_def Let_def)
next
  case (RecordAttempt a' t)
  have "ban_active t (state_of l a)" using assms RecordAttempt by (simp add: ban_active_def)
  then show ?thesis
    using assms RecordAttempt by (cases rule: record_attempt_cases [of a' t l]) (auto simp: check_ban_state)
qed

lemma limiter_run_keeps_ban:
  assumes "banned_until (state_of (fst lh) a) = Some b" "\<forall>e \<in> set es. event_time e < b"
  shows "banned_until (state_of (fst (limiter_run lh es)) a) = Some b"
  using assms
proof (induction es arbitrary: lh)
  case Nil
  then show ?case by (simp add: limiter_run_def)
next
  case (Cons e es)
  then have "banned_until (state_of (fst (limiter_step lh e)) a) = Some b"
    using limiter_step_keeps_ban [of "fst lh" a b e "snd lh"] by simp
  then show ?case using Cons by (simp add: limiter_run_def)
qed

lemma record_attempt_banned:
  "ban_active t (state_of l a) \<Longrightarrow> fst (record_attempt a t l) = Banned"
  by (cases rule: record_attempt_cases [of a t l]) simp_all

section \<open>Properties\<close>

text \<open>
  C7: In every run of the limiter whose instants never go back, whatever mix of ban checks, attempts
  and purges for whatever addresses, the attempts of one address that were allowed within any
  half-open interval of the window's length are fewer than the limit (at least 1), provided a ban
  lasts at least as long as the window.
\<close>

theorem allowed_attempts_below_limit:
  assumes "w \<le> b" "times_from 0 es"
  shows "length (filter (\<lambda>t. t0 \<le> t \<and> t < t0 + w)
           (allowed_of a (snd (limiter_run (limiter_new n w b, []) es)))) < max n 1"
proof -
  obtain now where "limiter_inv now (limiter_run (limiter_new n w b, []) es)"
    using limiter_run_inv [OF limiter_new_inv [OF assms(1)] assms(2)] by blast
  moreover have "limit (fst (limiter_run (limiter_new n w b, []) es)) = max n 1"
    and "window (fst (limiter_run (limiter_new n w b, []) es)) = w"
    by (simp_all add: limiter_run_limit limiter_new_def)
  ultimately show ?thesis
    by (cases "limiter_run (limiter_new n w b, []) es") (simp add: limiter_inv_def address_inv_def)
qed

theorem allowed_attempts_below_limit_witness:
  "length (filter (\<lambda>t. 0 \<le> t \<and> t < 0 + seconds 60)
     (allowed_of 0x0A000001 (snd (limiter_run (limiter_new 3 (seconds 60) (seconds 600), [])
        [RecordAttempt 0x0A000001 0, RecordAttempt 0x0A000001 5, RecordAttempt 0x0A000001 9,
         Purge 10, RecordAttempt 0x0A000001 11])))) < max 3 1"
  by (rule allowed_attempts_below_limit) (simp_all add: seconds_def)

text \<open>
  The attempt that reaches the limit bans its address for exactly the ban duration: after any
  further calls made before the deadline every check of that address reports the ban and every
  attempt is refused, and at the deadline the check reports no ban.
\<close>

lemma ban_lasts_its_duration:
  assumes "fst (record_attempt a now l) = BannedNow"
    and "\<forall>e \<in> set es. event_time e < now + ban_duration l"
  shows "(t < now + ban_duration l \<longrightarrow>
            fst (check_ban a t (fst (limiter_run (snd (record_attempt a now l), h) es)))
            \<and> fst (record_attempt a t (fst (limiter_run (snd (record_attempt a now l), h) es))) = Banned)
       \<and> (now + ban_duration l \<le> t \<longrightarrow>
            \<not> fst (check_ban a t (fst (limiter_run (snd (record_attempt a now l), h) es))))"
proof -
  have "banned_until (state_of (snd (record_attempt a now l)) a) = Some (now + ban_duration l)"
    using assms(1) by (cases rule: record_attempt_cases [of a now l]) simp_all
  then have ban: "banned_until (state_of (fst (limiter_run (snd (record_attempt a now l), h) es)) a)
      = Some (now + ban_duration l)"
    using limiter_run_keeps_ban [OF _ assms(2)] by simp
  show ?thesis
    using record_attempt_banned by (simp add: ban check_ban_fst ban_active_def)
qed

lemma ban_lasts_its_duration_witness:
  "fst (check_ban 7 9 (fst (limiter_run (snd (record_attempt 7 5 (limiter_new 1 (seconds 60) (seconds 600))), [])
        [Purge 6, CheckBan 7 8])))
   \<and> fst (record_attempt 7 9 (fst (limiter_run (snd (record_attempt 7 5 (limiter_new 1 (seconds 60) (seconds 600))), [])
        [Purge 6, CheckBan 7 8]))) = Banned"
proof -
  let ?l = "limiter_new 1 (seconds 60) (seconds 600)"
  have d: "ban_duration ?l = seconds 600" by (simp add: limiter_new_def)
  have "fst (record_attempt 7 5 ?l) = BannedNow"
    by (simp add: record_attempt_def check_ban_def limiter_new_def)
  moreover have "\<forall>e \<in> set [Purge 6, CheckBan 7 8]. event_time e < 5 + ban_duration ?l"
    unfolding d by (simp add: seconds_def)
  moreover have "(9 :: nat) < 5 + seconds 600" by (simp add: seconds_def)
  ultimately show ?thesis
    using ban_lasts_its_duration [of 7 5 ?l "[Purge 6, CheckBan 7 8]" 9 "[]"] unfolding d by blast
qed

end
