(* ===== verification/Vpn_Server_Decrypt.thy ===== *)
theory Vpn_Server_Decrypt
  imports Vpn_Server_Udp_Write Vpn_Rate_Limit
begin

text \<open>
  The decrypting worker of the server (\<open>src/src/server/decrypt.rs\<close>): reading the established sessions
  into the TUN device, logins, the removal of replaced sessions, the admission of new peers, and
  handshakes with the authorisation of certificates. \<open>decrypt_iteration\<close> is the body of the loop
  of \<open>run\<close>; its inputs are what the other threads, the clock, the TUN device and wolfSSL's context
  provide during that iteration.

  The device is a function from a packet to the result of \<open>write_tun_packet\<close>, which is modelled
  separately on a script of the device's answers; the packets handed to the device are collected. A
  second DTLS object made by \<open>create_stateless_acceptor\<close> during the iteration is an input as well:
  the loop creates at most one. Closures run under \<open>panic_gate\<close> return in the model.
\<close>

section \<open>Writing to the TUN device\<close>

text \<open>
  One turn of \<open>write_tun_packet\<close>: whether the server is still active, what the write returned and
  what polling returned. The script ends where the loop is still running.
\<close>

fun write_tun_packet :: "byte list \<Rightarrow> (bool \<times> nat io_result \<times> unit io_result) list \<Rightarrow> unit io_result option" where
  "write_tun_packet packet [] = None"
| "write_tun_packet packet ((active, r, polled) # script) =
     (if \<not> active then Some (Inl (error_new Interrupted ''server stopping''))
      else case r of
          Inr written \<Rightarrow>
            if written = length packet then Some (Inr ())
            else Some (Inl (error_new WriteZero
              (''partial TUN write: '' @ show_nat written @ ''/'' @ show_nat (length packet))))
        | Inl e \<Rightarrow>
            if kind e = Interrupted then write_tun_packet packet script
            else if kind e = WouldBlock
            then (case polled of Inl e' \<Rightarrow> Some (Inl e') | Inr _ \<Rightarrow> write_tun_packet packet script)
            else Some (Inl e))"

definition create_stateless_acceptor :: "'w wolfssl \<Rightarrow> 'w dtls io_result \<Rightarrow> int \<Rightarrow> byte list \<Rightarrow> 'w dtls io_result" where
  "create_stateless_acceptor W new_dtls fd secret =
     (let zero_peer = \<lparr>sa_family = 0, sa_port = 0, sa_addr = 0, sa_rest = []\<rparr> in
      and_then new_dtls (\<lambda>d.
      case set_socket W fd d of
        (Inl e, _) \<Rightarrow> Inl e
      | (Inr _, d1) \<Rightarrow>
          (case set_io (dtls_io_new zero_peer) (set_nonblocking W True d1) of
             (Inl e, _) \<Rightarrow> Inl e
           | (Inr _, d2) \<Rightarrow>
               (case set_cookie_secret W secret d2 of
                  (Inl e, _) \<Rightarrow> Inl e
                | (Inr _, d3) \<Rightarrow> Inr d3))))"

section \<open>Reading one session\<close>

definition destination_allowed :: "server_config \<Rightarrow> ipv4 \<Rightarrow> bool" where
  "destination_allowed c destination =
     (let broadcast = ipv4_is_broadcast destination (network_address c) (network_prefix c);
          multicast = is_multicast destination
      in (\<not> broadcast \<and> \<not> multicast) \<or> (broadcast \<and> allow_broadcast c) \<or> (multicast \<and> allow_multicast c))"

text \<open>The first packet of a session that is not logged in yet.\<close>

definition handle_login :: "(ipv4 \<Rightarrow> (string \<times> string) option) \<Rightarrow> instant \<Rightarrow> byte list \<Rightarrow> 'w session \<Rightarrow> 'w session" where
  "handle_login logins now packet s =
     (let s1 = s\<lparr>login_attempted := True\<rparr>;
          accepted = (case logins (address s) of
                        None \<Rightarrow> False
                      | Some (name, password) \<Rightarrow> login_matches packet name password)
      in if accepted
         then queue_session_plain now AUTH_OK (s1\<lparr>authenticated := True, last_activity := now\<rparr>)
         else queue_session_plain now AUTH_FAILED s1)"

text \<open>The retry of a datagram that wolfSSL could not take before.\<close>

definition inject_front :: "'w wolfssl \<Rightarrow> 'w session \<Rightarrow> 'w session" where
  "inject_front W s =
     (case pending_inject s of
        [] \<Rightarrow> s
      | packet # rest \<Rightarrow>
          (case inject W packet (conn s) of
             (Inr True, d') \<Rightarrow> s\<lparr>conn := d', pending_inject := rest, drain_pending := True\<rparr>
           | (Inr False, d') \<Rightarrow> s\<lparr>conn := d', drain_pending := True\<rparr>
           | (Inl _, d') \<Rightarrow> s\<lparr>conn := d', pending_inject := rest\<rparr>))"

text \<open>A tunnel packet of a session that is logged in: what is handed to the device, and its error.\<close>

definition handle_packet :: "server_config \<Rightarrow> instant \<Rightarrow> (byte list \<Rightarrow> unit io_result) \<Rightarrow> byte list \<Rightarrow>
    'w session \<Rightarrow> 'w session \<times> byte list list \<times> io_error option" where
  "handle_packet c now tun packet s =
     (case ipv4_packet_addresses packet of
        None \<Rightarrow> (s, [], None)
      | Some (source, destination) \<Rightarrow>
          if source = address s \<and> destination_allowed c destination
          then (let s1 = s\<lparr>bytes_rx := saturating_add (bytes_rx s) (length packet),
                          packets_rx := saturating_add (packets_rx s) 1\<rparr>
                in case tun packet of
                     Inr _ \<Rightarrow> (s1\<lparr>last_activity := now\<rparr>, [packet], None)
                   | Inl e \<Rightarrow> (s1, [packet], Some e))
          else (s, [], None))"

definition READ_BUFFER :: nat where "READ_BUFFER = 2048"

definition read_session :: "'w wolfssl \<Rightarrow> server_config \<Rightarrow> (ipv4 \<Rightarrow> (string \<times> string) option) \<Rightarrow> instant \<Rightarrow>
    (byte list \<Rightarrow> unit io_result) \<Rightarrow> 'w session \<Rightarrow> 'w session \<times> byte list list \<times> io_error option" where
  "read_session W c logins now tun s =
     (if \<not> drain_pending s \<and> pending_inject s = [] then (s, [], None)
      else case read_status W READ_BUFFER (conn s) of
          (Inr (Complete n, packet), d') \<Rightarrow>
            (let s1 = s\<lparr>conn := d'\<rparr> in
             if 0 < n
             then (let s2 = s1\<lparr>drain_pending := True\<rparr> in
                   if \<not> authenticated s2
                   then (if login_attempted s2 then (s2, [], None)
                         else (handle_login logins now packet s2, [], None))
                   else if is_keepalive_packet packet
                   then (queue_session_plain now KEEPALIVE_PACKET (s2\<lparr>last_activity := now\<rparr>), [], None)
                   else case handle_packet c now tun packet s2 of
                       (s3, written, None) \<Rightarrow> (inject_front W s3, written, None)
                     | (s3, written, Some e) \<Rightarrow> (s3, written, Some e))
             else (inject_front W (s1\<lparr>drain_pending := False\<rparr>), [], None))
        | (Inr (WantRead, _), d') \<Rightarrow> (inject_front W (s\<lparr>conn := d', drain_pending := False\<rparr>), [], None)
        | (Inr (WantWrite, _), d') \<Rightarrow> (inject_front W (s\<lparr>conn := d', drain_pending := True\<rparr>), [], None)
        | (Inl _, d') \<Rightarrow> (inject_front W (s\<lparr>conn := d', drain_pending := False\<rparr>), [], None))"

text \<open>The loop over the established sessions; an error of the device ends it.\<close>

fun read_sessions :: "'w wolfssl \<Rightarrow> server_config \<Rightarrow> (ipv4 \<Rightarrow> (string \<times> string) option) \<Rightarrow> instant \<Rightarrow>
    (byte list \<Rightarrow> unit io_result) \<Rightarrow> 'w session list \<Rightarrow> 'w session list \<times> byte list list \<times> io_error option" where
  "read_sessions W c logins now tun [] = ([], [], None)"
| "read_sessions W c logins now tun (s # xs) =
     (if \<not> established s
      then (case read_sessions W c logins now tun xs of (ys, written, e) \<Rightarrow> (s # ys, written, e))
      else case read_session W c logins now tun s of
          (s', written, Some e) \<Rightarrow> (s' # xs, written, Some e)
        | (s', written, None) \<Rightarrow>
            (case read_sessions W c logins now tun xs of
               (ys, later, e) \<Rightarrow> (s' # ys, written @ later, e)))"

definition pending_session_input :: "'w session list \<Rightarrow> bool" where
  "pending_session_input xs = list_ex (\<lambda>s. established s \<and> (drain_pending s \<or> pending_inject s \<noteq> [])) xs"

section \<open>Removing replaced sessions\<close>

fun retain_unseen :: "ipv4 set \<Rightarrow> 'w session list \<Rightarrow> 'w session list" where
  "retain_unseen seen [] = []"
| "retain_unseen seen (s # xs) =
     (if authenticated s \<and> address s \<in> seen then retain_unseen seen xs
      else s # retain_unseen (if authenticated s then insert (address s) seen else seen) xs)"

definition dedupe_sessions :: "'w session list \<Rightarrow> 'w session list" where
  "dedupe_sessions xs = rev (retain_unseen {} (rev xs))"

section \<open>State of the worker\<close>

record 'w decrypt_state =
  acceptor :: "'w dtls"
  session_list :: "'w session list"
  bindings_now :: bindings
  logins_now :: "ipv4 \<Rightarrow> (string \<times> string) option"
  limiter :: ip_rate_limiter

text \<open>An error that ends the worker.\<close>

type_synonym 'w decrypt_result = "io_error option \<times> 'w decrypt_state"

definition MAX_PENDING_PER_IP :: nat where "MAX_PENDING_PER_IP = 2"

text \<open>The acceptor is replaced after it failed.\<close>

definition renew_acceptor :: "'w dtls io_result \<Rightarrow> 'w decrypt_state \<Rightarrow> 'w decrypt_result" where
  "renew_acceptor created st =
     (case created of Inl e \<Rightarrow> (Some e, st) | Inr a \<Rightarrow> (None, st\<lparr>acceptor := a\<rparr>))"

definition drop_pending_of :: "ipv4 \<Rightarrow> 'w session list \<Rightarrow> 'w session list" where
  "drop_pending_of ip xs = filter (\<lambda>s. established s \<or> peer_ipv4 (peer_addr s) \<noteq> Some ip) xs"

definition evict_oldest :: "nat \<Rightarrow> 'w session list \<Rightarrow> 'w session list" where
  "evict_oldest handshakes xs =
     (if handshakes \<le> pending xs
      then (case min_index (\<lambda>s. \<not> established s) last_activity xs of
              None \<Rightarrow> xs | Some i \<Rightarrow> swap_remove i xs)
      else xs)"

section \<open>Admission of a new peer\<close>

text \<open>
  The path for a datagram of an unknown peer: the result is the error that ends the worker, whether a
  session was appended, and the state.
\<close>

definition append_session :: "instant \<Rightarrow> sockaddr \<Rightarrow> 'w dtls io_result \<Rightarrow> 'w decrypt_state \<Rightarrow>
    io_error option \<times> bool \<times> 'w decrypt_state" where
  "append_session now peer created st =
     (case created of
        Inl e \<Rightarrow> (Some e, False, st)
      | Inr replacement \<Rightarrow>
          (case use_queued_send (empty_queue SESSION_TX_QUEUE_CAPACITY) signal_new (acceptor st) of
             (Inl e, _) \<Rightarrow> (Some e, False, st\<lparr>acceptor := replacement\<rparr>)
           | (Inr _, d) \<Rightarrow>
               (None, True, st\<lparr>acceptor := replacement,
                               session_list := session_list st @ [session_new d peer now]\<rparr>)))"

definition admit_counted :: "server_config \<Rightarrow> instant \<Rightarrow> ipv4 \<Rightarrow> sockaddr \<Rightarrow> 'w dtls io_result \<Rightarrow>
    'w decrypt_state \<Rightarrow> io_error option \<times> bool \<times> 'w decrypt_state" where
  "admit_counted c now ip peer created st =
     (let xs = session_list st in
      if max_clients c \<le> count_where established xs then (None, False, st)
      else if MAX_PENDING_PER_IP \<le> count_where (\<lambda>s. \<not> established s \<and> peer_ipv4 (peer_addr s) = Some ip) xs
      then (None, False, st)
      else append_session now peer created
             (st\<lparr>session_list := evict_oldest (max_pending_handshakes c) xs\<rparr>))"

definition admit_peer :: "'w wolfssl \<Rightarrow> server_config \<Rightarrow> instant \<Rightarrow> sockaddr \<Rightarrow> byte list \<Rightarrow> 'w dtls io_result \<Rightarrow>
    'w decrypt_state \<Rightarrow> io_error option \<times> bool \<times> 'w decrypt_state" where
  "admit_peer W c now peer packet created st =
     (case peer_ipv4 peer of
        None \<Rightarrow> (None, False, st)
      | Some ip \<Rightarrow>
          (case check_ban ip now (limiter st) of
             (True, l) \<Rightarrow> (None, False, st\<lparr>limiter := l\<rparr>)
           | (False, l) \<Rightarrow>
               (case set_incoming_peer W peer packet (acceptor st) of
                  (Inl _, a) \<Rightarrow>
                    (case renew_acceptor created (st\<lparr>limiter := l, acceptor := a\<rparr>) of
                       (e, st') \<Rightarrow> (e, False, st'))
                | (Inr _, a) \<Rightarrow>
                    (case accept_stateless W a of
                       (Inl _, a') \<Rightarrow>
                         (case renew_acceptor created (st\<lparr>limiter := l, acceptor := a'\<rparr>) of
                            (e, st') \<Rightarrow> (e, False, st'))
                     | (Inr False, a') \<Rightarrow> (None, False, st\<lparr>limiter := l, acceptor := a'\<rparr>)
                     | (Inr True, a') \<Rightarrow>
                         (case record_attempt ip now l of
                            (Allowed, l') \<Rightarrow>
                              admit_counted c now ip peer created (st\<lparr>limiter := l', acceptor := a'\<rparr>)
                          | (BannedNow, l') \<Rightarrow>
                              (None, False, st\<lparr>limiter := l', acceptor := a',
                                               session_list := drop_pending_of ip (session_list st)\<rparr>)
                          | (Banned, l') \<Rightarrow> (None, False, st\<lparr>limiter := l', acceptor := a'\<rparr>))))))"

section \<open>Handshakes\<close>

text \<open>The certificate of a completed handshake: the address it is authorised for, if any.\<close>

definition authorize :: "'w wolfssl \<Rightarrow> server_config \<Rightarrow> bindings \<Rightarrow> 'w session \<Rightarrow> (ipv4 \<times> string) option" where
  "authorize W c bs s =
     (case dtls_fingerprint W (conn s) of
        Inl _ \<Rightarrow> None
      | Inr f \<Rightarrow>
          (case bound_address bs f of
             None \<Rightarrow> None
           | Some a \<Rightarrow>
               if verify_client_san_ip c \<and> peer_certificate_has_san_ip W a (conn s) \<noteq> Inr True then None
               else case peer_ipv4 (peer_addr s) of
                   None \<Rightarrow> None
                 | Some source \<Rightarrow>
                     if peer_certificate_allows_source_ip W source (conn s) = Inr True
                     then Some (a, f) else None))"

definition establish :: "'w wolfssl \<Rightarrow> (ipv4 \<Rightarrow> (string \<times> string) option) \<Rightarrow> instant \<Rightarrow> ipv4 \<Rightarrow> string \<Rightarrow>
    'w session \<Rightarrow> 'w session" where
  "establish W logins now a f s =
     (let s1 = s\<lparr>address := a, fingerprint := Some f, established := True,
                authenticated := logins a = None, conn := disable_callback_receive W (conn s),
                established_at := Some now, dtls_deadline := None\<rparr>
      in queue_session_plain now (if authenticated s1 then AUTH_OK else AUTH_REQUIRED) s1)"

definition is_duplicate :: "ipv4 \<Rightarrow> sockaddr \<Rightarrow> 'w session \<Rightarrow> bool" where
  "is_duplicate a peer s = (established s \<and> address s = a \<and> \<not> same_peer (peer_addr s) peer)"

function remove_duplicates :: "ipv4 \<Rightarrow> sockaddr \<Rightarrow> nat \<Rightarrow> 'w session list \<Rightarrow> 'w session list" where
  "remove_duplicates a peer i xs =
     (if i < length xs
      then if is_duplicate a peer (xs ! i)
           then remove_duplicates a peer i (swap_remove i xs)
           else remove_duplicates a peer (Suc i) xs
      else xs)"
  by pat_completeness auto
termination
  by (relation "measure (\<lambda>(a, peer, i, xs). length xs - i)") (auto simp: length_swap_remove)

declare remove_duplicates.simps [simp del]

definition finish_handshake :: "'w wolfssl \<Rightarrow> server_config \<Rightarrow> instant \<Rightarrow> nat \<Rightarrow> nat \<Rightarrow> 'w decrypt_state \<Rightarrow>
    'w decrypt_state" where
  "finish_handshake W c now established_before i st =
     (let xs = session_list st; s = xs ! i in
      case authorize W c (bindings_now st) s of
        None \<Rightarrow> st\<lparr>session_list := swap_remove i xs\<rparr>
      | Some (a, f) \<Rightarrow>
          (let s' = establish W (logins_now st) now a f s;
               ys = xs[i := s'];
               replaces_existing = list_ex (is_duplicate a (peer_addr s')) ys
           in if max_clients c \<le> established_before \<and> \<not> replaces_existing
              then st\<lparr>session_list := swap_remove i ys\<rparr>
              else st\<lparr>session_list :=
                     if authenticated s' then remove_duplicates a (peer_addr s') 0 ys else ys\<rparr>))"

definition step_handshake :: "'w wolfssl \<Rightarrow> server_config \<Rightarrow> instant \<Rightarrow> nat \<Rightarrow> nat \<Rightarrow> 'w decrypt_state \<Rightarrow>
    'w decrypt_state" where
  "step_handshake W c now established_before i st =
     (let xs = session_list st; s = xs ! i in
      case handshake W (conn s) of
        (Inl _, d) \<Rightarrow> st\<lparr>session_list := swap_remove i xs\<rparr>
      | (Inr False, d) \<Rightarrow>
          st\<lparr>session_list := xs[i := s\<lparr>conn := d, dtls_deadline := Some (now + current_timeout W d)\<rparr>]\<rparr>
      | (Inr True, d) \<Rightarrow>
          finish_handshake W c now established_before i (st\<lparr>session_list := xs[i := s\<lparr>conn := d\<rparr>]\<rparr>))"

section \<open>One datagram\<close>

text \<open>A datagram of a known peer; the flag is false where the code goes on with the next iteration.\<close>

definition inject_datagram :: "'w wolfssl \<Rightarrow> byte list \<Rightarrow> 'w session \<Rightarrow> bool \<times> 'w session" where
  "inject_datagram W packet s =
     (if pending_inject s \<noteq> []
      then (True, if SESSION_TX_QUEUE_CAPACITY \<le> length (pending_inject s) then s
                  else s\<lparr>pending_inject := pending_inject s @ [packet]\<rparr>)
      else case inject W packet (conn s) of
          (Inr True, d) \<Rightarrow> (True, s\<lparr>conn := d, drain_pending := True\<rparr>)
        | (Inr False, d) \<Rightarrow>
            (True, s\<lparr>conn := d, pending_inject := pending_inject s @ [packet], drain_pending := True\<rparr>)
        | (Inl _, d) \<Rightarrow> (False, s\<lparr>conn := d\<rparr>))"

definition process_session :: "'w wolfssl \<Rightarrow> server_config \<Rightarrow> instant \<Rightarrow> nat \<Rightarrow> 'w decrypt_state \<Rightarrow> 'w decrypt_state" where
  "process_session W c now i st =
     (if established (session_list st ! i) then st
      else step_handshake W c now (count_where established (session_list st)) i st)"

definition handle_datagram :: "'w wolfssl \<Rightarrow> server_config \<Rightarrow> instant \<Rightarrow> sockaddr \<Rightarrow> byte list \<Rightarrow> 'w dtls io_result \<Rightarrow>
    'w decrypt_state \<Rightarrow> 'w decrypt_result" where
  "handle_datagram W c now peer packet created st =
     (case position (\<lambda>s. same_peer (peer_addr s) peer) (session_list st) of
        Some i \<Rightarrow>
          (case inject_datagram W packet (session_list st ! i) of
             (go_on, s') \<Rightarrow>
               let st' = st\<lparr>session_list := (session_list st)[i := s']\<rparr>
               in (None, if go_on then process_session W c now i st' else st'))
      | None \<Rightarrow>
          (case admit_peer W c now peer packet created st of
             (Some e, _, st') \<Rightarrow> (Some e, st')
           | (None, False, st') \<Rightarrow> (None, st')
           | (None, True, st') \<Rightarrow> (None, process_session W c now (length (session_list st') - 1) st')))"

section \<open>The loop\<close>

text \<open>The update sent by the control worker: bindings, logins, a new acceptor.\<close>

type_synonym 'w reload_update = "bindings \<times> (ipv4 \<Rightarrow> (string \<times> string) option) \<times> 'w dtls"

fun apply_updates :: "'w reload_update list \<Rightarrow> 'w decrypt_state \<Rightarrow> 'w decrypt_state" where
  "apply_updates [] st = st"
| "apply_updates ((bs, logins, a) # us) st =
     apply_updates us (st\<lparr>bindings_now := bs, logins_now := logins, acceptor := a\<rparr>)"

record 'w decrypt_input =
  at_instant :: instant
  tun_device :: "byte list \<Rightarrow> unit io_result"
  updates :: "'w reload_update list"
  worker_error :: "io_error option"
  udp_next :: "try_pop_error + sockaddr \<times> byte list"
  created_acceptor :: "'w dtls io_result"

datatype decrypt_status = NextRound | Stopped "unit io_result"

definition decrypt_iteration :: "'w wolfssl \<Rightarrow> server_config \<Rightarrow> 'w decrypt_input \<Rightarrow> 'w decrypt_state \<Rightarrow>
    decrypt_status \<times> byte list list \<times> 'w decrypt_state" where
  "decrypt_iteration W c inp st =
     (case read_sessions W c (logins_now st) (at_instant inp) (tun_device inp) (session_list st) of
        (xs, written, Some e) \<Rightarrow> (Stopped (Inl e), written, st\<lparr>session_list := xs\<rparr>)
      | (xs, written, None) \<Rightarrow>
          (let st1 = apply_updates (updates inp)
                 (st\<lparr>session_list := dedupe_sessions xs, limiter := purge (at_instant inp) (limiter st)\<rparr>)
           in case worker_error inp of
                Some e \<Rightarrow> (Stopped (Inl e), written, st1)
              | None \<Rightarrow>
                  (case udp_next inp of
                     Inl Closed \<Rightarrow> (Stopped (Inr ()), written, st1)
                   | Inl Empty \<Rightarrow> (NextRound, written, st1)
                   | Inr (peer, packet) \<Rightarrow>
                       (case handle_datagram W c (at_instant inp) peer packet (created_acceptor inp) st1 of
                          (Some e, st2) \<Rightarrow> (Stopped (Inl e), written, st2)
                        | (None, st2) \<Rightarrow> (NextRound, written, st2)))))"

end
