(* ===== verification/Vpn_Decrypt_Facts.thy ===== *)
theory Vpn_Decrypt_Facts
  imports Vpn_Server_Decrypt "HOL-Library.Sublist"
begin

text \<open>
  What the decrypting worker guarantees: only packets of logged-in clients with their own source
  address reach the TUN device, a session is logged in only by its first packet or by a certificate
  without a login, only authorised certificates become established sessions, and the invariant of
  the session list survives every iteration.
\<close>

section \<open>Reading\<close>

text \<open>How reading may change a session: a login is the only change to who it is.\<close>

definition read_progress :: "(ipv4 \<Rightarrow> (string \<times> string) option) \<Rightarrow> 'w session \<Rightarrow> 'w session \<Rightarrow> bool" where
  "read_progress logins s s' \<longleftrightarrow>
     peer_addr s' = peer_addr s \<and> address s' = address s \<and> fingerprint s' = fingerprint s
     \<and> established s' = established s \<and> established_at s' = established_at s
     \<and> (login_attempted s \<longrightarrow> login_attempted s') \<and> (authenticated s \<longrightarrow> authenticated s')
     \<and> (authenticated s' \<and> \<not> authenticated s \<longrightarrow>
          established s \<and> \<not> login_attempted s \<and> login_attempted s'
          \<and> (\<exists>packet name password. logins (address s) = Some (name, password) \<and> login_matches packet name password))"

lemma read_progress_refl [simp]: "read_progress logins s s"
  by (simp add: read_progress_def)

lemma queue_session_plain_fields [simp]:
  "peer_addr (queue_session_plain now p s) = peer_addr s"
  "address (queue_session_plain now p s) = address s"
  "fingerprint (queue_session_plain now p s) = fingerprint s"
  "established (queue_session_plain now p s) = established s"
  "authenticated (queue_session_plain now p s) = authenticated s"
  "login_attempted (queue_session_plain now p s) = login_attempted s"
  "established_at (queue_session_plain now p s) = established_at s"
  "last_activity (queue_session_plain now p s) = last_activity s"
  by (simp_all add: queue_session_plain_def)

lemma inject_front_fields [simp]:
  "peer_addr (inject_front W s) = peer_addr s"
  "address (inject_front W s) = address s"
  "fingerprint (inject_front W s) = fingerprint s"
  "established (inject_front W s) = established s"
  "authenticated (inject_front W s) = authenticated s"
  "login_attempted (inject_front W s) = login_attempted s"
  "established_at (inject_front W s) = established_at s"
  by (simp_all add: inject_front_def split: list.splits prod.splits sum.splits bool.splits)

lemma handle_login_progress:
  "\<not> authenticated s \<Longrightarrow> established s \<Longrightarrow> \<not> login_attempted s \<Longrightarrow>
   read_progress logins s (handle_login logins now packet s)"
  by (auto simp: read_progress_def handle_login_def Let_def split: option.splits)

lemma handle_packet_result:
  assumes "handle_packet c now tun packet s = (s', written, e)"
  shows "read_progress logins s s' \<and> authenticated s' = authenticated s \<and> login_attempted s' = login_attempted s
    \<and> (written = [] \<or> written = [packet] \<and> (\<exists>destination. ipv4_packet_addresses packet = Some (address s, destination)
         \<and> destination_allowed c destination))"
  using assms
  by (auto simp: handle_packet_def read_progress_def Let_def split: option.splits if_splits sum.splits)

text \<open>A packet that was read completely from a logged-in session and may go to the device under its address.\<close>

definition own_packet :: "'w wolfssl \<Rightarrow> server_config \<Rightarrow> 'w session \<Rightarrow> byte list \<Rightarrow> bool" where
  "own_packet W c s p \<longleftrightarrow>
     established s \<and> authenticated s
     \<and> (\<exists>n d. read_status W READ_BUFFER (conn s) = (Inr (Complete n, p), d) \<and> 0 < n)
     \<and> (\<exists>destination. ipv4_packet_addresses p = Some (address s, destination) \<and> destination_allowed c destination)"

lemma read_session_result:
  assumes "read_session W c logins now tun s = (s', written, e)" "established s"
  shows "read_progress logins s s'
    \<and> (written = [] \<or> (\<exists>p. written = [p] \<and> own_packet W c s p))"
proof (cases "\<not> drain_pending s \<and> pending_inject s = []")
  case True
  then show ?thesis using assms by (auto simp: read_session_def)
next
  case go: False
  obtain r d where rd: "read_status W READ_BUFFER (conn s) = (r, d)" by (metis surj_pair)
  show ?thesis
  proof (cases "\<exists>n packet. r = Inr (Complete n, packet) \<and> 0 < n")
    case False
    then show ?thesis
      using assms go rd
      by (auto simp: read_session_def read_progress_def split: sum.splits prod.splits dtls_io_result.splits)
  next
    case True
    then obtain n packet where r: "r = Inr (Complete n, packet)" "0 < n" by blast
    let ?s = "s\<lparr>conn := d, drain_pending := True\<rparr>"
    show ?thesis
    proof (cases "authenticated s")
      case False
      then have "(s', written, e) = (if login_attempted s then ?s else handle_login logins now packet ?s, [], None)"
        using assms(1) go rd r by (auto simp: read_session_def)
      then show ?thesis
        using handle_login_progress [of ?s logins now packet] False assms(2)
        by (auto simp: read_progress_def)
    next
      case auth: True
      show ?thesis
      proof (cases "is_keepalive_packet packet")
        case True
        then show ?thesis using assms go rd r auth by (auto simp: read_session_def read_progress_def)
      next
        case False
        obtain s3 w3 e3 where h: "handle_packet c now tun packet ?s = (s3, w3, e3)" by (metis prod_cases3)
        then have "written = w3" "s' = (if e3 = None then inject_front W s3 else s3)"
          using assms(1) go rd r auth False by (auto simp: read_session_def split: option.splits)
        then show ?thesis
          using handle_packet_result [OF h, of logins] auth rd r assms(2) by (auto simp: read_progress_def own_packet_def)
      qed
    qed
  qed
qed

lemma read_session_written:
  assumes "read_session W c logins now tun s = (s', written, e)" "established s"
  shows "address s' = address s"
    and "\<forall>p \<in> set written. \<exists>destination. ipv4_packet_addresses p = Some (address s, destination)
      \<and> destination_allowed c destination"
  using read_session_result [OF assms] by (auto simp: read_progress_def own_packet_def)

lemma read_sessions_result:
  "read_sessions W c logins now tun xs = (ys, written, e) \<Longrightarrow>
     list_all2 (read_progress logins) xs ys
     \<and> (\<exists>senders. subseq senders xs \<and> list_all2 (own_packet W c) senders written)"
proof (induction xs arbitrary: ys written e)
  case Nil
  then show ?case by simp
next
  case (Cons s xs)
  obtain zs w2 e2 where rest: "read_sessions W c logins now tun xs = (zs, w2, e2)" by (metis prod_cases3)
  note IH = Cons.IH [OF rest]
  show ?case
  proof (cases "established s")
    case False
    then show ?thesis using Cons.prems rest IH by (auto intro: subseq_Cons')
  next
    case True
    obtain s' w1 e1 where one: "read_session W c logins now tun s = (s', w1, e1)" by (metis prod_cases3)
    note now = read_session_result [OF one True]
    show ?thesis
    proof (cases e1)
      case None
      then have ys: "ys = s' # zs" "written = w1 @ w2" using Cons.prems True one rest by auto
      obtain senders where senders: "subseq senders xs" "list_all2 (own_packet W c) senders w2" using IH by blast
      from now consider "w1 = []" | p where "w1 = [p]" "own_packet W c s p" by blast
      then have "\<exists>senders. subseq senders (s # xs) \<and> list_all2 (own_packet W c) senders written"
      proof cases
        case 1
        then show ?thesis using ys senders by auto
      next
        case (2 p)
        then have "list_all2 (own_packet W c) (s # senders) written" using ys senders(2) by simp
        then show ?thesis using senders(1) subseq_Cons2 by blast
      qed
      then show ?thesis using ys now IH by simp
    next
      case (Some err)
      then have ys: "ys = s' # xs" "written = w1" using Cons.prems True one by auto
      from now consider "w1 = []" | p where "w1 = [p]" "own_packet W c s p" by blast
      then have "\<exists>senders. subseq senders (s # xs) \<and> list_all2 (own_packet W c) senders written"
      proof cases
        case 1
        then show ?thesis using ys by auto
      next
        case (2 p)
        then have "subseq [s] (s # xs) \<and> list_all2 (own_packet W c) [s] written" using ys by simp
        then show ?thesis by blast
      qed
      then show ?thesis using ys now by (simp add: list.rel_refl)
    qed
  qed
qed

text \<open>
  The life of an established session that is not logged in, as its reads and whatever happens between
  them: the other workers change its connection, queues, deadlines and counters, and the configuration may be reloaded.
\<close>

inductive read_or_between :: "'w wolfssl \<Rightarrow> server_config \<Rightarrow> 'w session \<Rightarrow> 'w session \<Rightarrow> bool" for W c where
  reading: "read_session W c logins now tun s = (t, written, e) \<Longrightarrow> established s \<Longrightarrow> read_or_between W c s t"
| between: "established t = established s \<Longrightarrow> authenticated t = authenticated s \<Longrightarrow>
    login_attempted t = login_attempted s \<Longrightarrow> read_or_between W c s t"

lemma read_of_unauthenticated:
  assumes "read_session W c logins now tun s = (s', written, e)" "\<not> authenticated s"
  shows "(login_attempted s' \<longleftrightarrow> login_attempted s \<or> (\<exists>packet. (drain_pending s \<or> pending_inject s \<noteq> [])
        \<and> (\<exists>n d. read_status W READ_BUFFER (conn s) = (Inr (Complete n, packet), d) \<and> 0 < n)))
    \<and> written = []
    \<and> (authenticated s' \<longleftrightarrow> \<not> login_attempted s
         \<and> (\<exists>packet name password. ((drain_pending s \<or> pending_inject s \<noteq> [])
                \<and> (\<exists>n d. read_status W READ_BUFFER (conn s) = (Inr (Complete n, packet), d) \<and> 0 < n))
              \<and> logins (address s) = Some (name, password) \<and> login_matches packet name password))"
proof (cases "\<not> drain_pending s \<and> pending_inject s = []")
  case True
  then show ?thesis using assms by (auto simp: read_session_def)
next
  case go: False
  obtain r d where rd: "read_status W READ_BUFFER (conn s) = (r, d)" by (metis surj_pair)
  show ?thesis
  proof (cases "\<exists>n packet. r = Inr (Complete n, packet) \<and> 0 < n")
    case False
    then show ?thesis
      using assms go rd
      by (auto simp: read_session_def split: sum.splits prod.splits dtls_io_result.splits if_splits)
  next
    case True
    then obtain n packet where "r = Inr (Complete n, packet)" "0 < n" by blast
    then show ?thesis
      using assms go rd
      by (auto simp: read_session_def handle_login_def Let_def split: option.splits if_splits)
  qed
qed

lemma refused_stays_refused:
  "(read_or_between W c)\<^sup>*\<^sup>* s t \<Longrightarrow> login_attempted s \<and> \<not> authenticated s \<Longrightarrow> login_attempted t \<and> \<not> authenticated t"
proof (induction rule: rtranclp_induct)
  case (step t u)
  then have t: "login_attempted t" "\<not> authenticated t" by auto
  from step(2) show ?case
  proof cases
    case (reading logins now tun written e)
    then show ?thesis using read_of_unauthenticated [OF reading(1) t(2)] t(1) by blast
  qed (use t in simp)
qed

text \<open>Reading keeps the invariant of the list, although a login changes an identity.\<close>

lemma read_progress_fields:
  "list_all2 (read_progress logins) xs ys \<Longrightarrow>
     map peer_addr ys = map peer_addr xs \<and> pending ys = pending xs \<and> length ys = length xs
     \<and> count_where established ys = count_where established xs"
  by (induction rule: list_all2_induct) (auto simp: read_progress_def pending_def)

lemma read_progress_ok: "read_progress logins s s' \<Longrightarrow> ident_ok (identity s) \<Longrightarrow> ident_ok (identity s')"
  by (auto simp: read_progress_def ident_ok_iff)

lemma read_progress_inv:
  assumes "list_all2 (read_progress logins) xs ys" "sessions_inv c h xs"
  shows "sessions_inv c h ys"
proof -
  have "\<forall>s \<in> set ys. ident_ok (identity s)"
    using assms read_progress_ok
    by (fastforce simp: sessions_inv_def list_all2_conv_all_nth in_set_conv_nth)
  then show ?thesis
    using assms(2) read_progress_fields [OF assms(1)] by (simp add: sessions_inv_def)
qed

section \<open>Replaced sessions\<close>

lemma retain_unseen_subset: "mset (retain_unseen seen xs) \<subseteq># mset xs"
proof (induction seen xs rule: retain_unseen.induct)
  case (1 seen)
  then show ?case by simp
next
  case (2 seen s xs)
  then show ?case by (auto simp: subseteq_mset_def intro: le_SucI)
qed

interpretation dedupe: shrinking dedupe_sessions
  by unfold_locales
    (metis dedupe_sessions_def identities_mono mset_rev retain_unseen_subset)

text \<open>The addresses of the sessions that are logged in, in the order of the list.\<close>

definition login_addresses :: "'w session list \<Rightarrow> ipv4 list" where
  "login_addresses xs = map address (filter authenticated xs)"

lemma login_addresses_simps [simp]:
  "login_addresses [] = []"
  "login_addresses (s # xs) = (if authenticated s then address s # login_addresses xs else login_addresses xs)"
  "login_addresses (rev xs) = rev (login_addresses xs)"
  by (simp_all add: login_addresses_def rev_filter rev_map)

lemma retain_unseen_addresses:
  "distinct (login_addresses (retain_unseen seen xs))
   \<and> set (login_addresses (retain_unseen seen xs)) = set (login_addresses xs) - seen
   \<and> filter (\<lambda>s. \<not> authenticated s) (retain_unseen seen xs) = filter (\<lambda>s. \<not> authenticated s) xs"
proof (induction seen xs rule: retain_unseen.induct)
  case (1 seen)
  then show ?case by simp
next
  case (2 seen s xs)
  consider (drop) "authenticated s" "address s \<in> seen" | (new) "authenticated s" "address s \<notin> seen"
    | (other) "\<not> authenticated s" by blast
  then show ?case
  proof cases
    case drop
    then show ?thesis using "2.IH"(1) by auto
  next
    case new
    then show ?thesis using "2.IH"(2) by auto
  next
    case other
    then show ?thesis using "2.IH"(2) by auto
  qed
qed

lemma dedupe_addresses:
  "distinct (login_addresses (dedupe_sessions xs))
   \<and> set (login_addresses (dedupe_sessions xs)) = set (login_addresses xs)
   \<and> filter (\<lambda>s. \<not> authenticated s) (dedupe_sessions xs) = filter (\<lambda>s. \<not> authenticated s) xs"
  using retain_unseen_addresses [of "{}" "rev xs"]
  by (simp add: dedupe_sessions_def rev_filter [symmetric])

section \<open>Admission\<close>

interpretation evict: shrinking "evict_oldest h" for h
  by unfold_locales (auto simp: evict_oldest_def remove_index.shrinks split: option.splits)

lemma evict_oldest_pending:
  assumes "0 < h" "pending xs \<le> h"
  shows "pending (evict_oldest h xs) < h
    \<and> count_where established (evict_oldest h xs) = count_where established xs"
proof (cases "h \<le> pending xs")
  case False
  then show ?thesis by (simp add: evict_oldest_def)
next
  case True
  then have "0 < pending xs" using assms(1) by simp
  then have "\<exists>s \<in> set xs. \<not> established s"
    by (metis count_where_def filter_empty_conv length_greater_0_conv pending_def)
  then obtain i where i: "min_index (\<lambda>s. \<not> established s) last_activity xs = Some i"
    using min_index_None [of "\<lambda>s. \<not> established s" last_activity xs] by (metis not_Some_eq)
  then have "i < length xs" "\<not> established (xs ! i)" using min_index_Some [OF i] by auto
  then show ?thesis
    using True i assms \<open>0 < pending xs\<close>
    by (simp add: evict_oldest_def pending_def count_where_swap_remove)
qed

lemma length_split: "length xs = count_where established xs + pending xs"
  using count_where_split [of established xs] by (simp add: pending_def)

lemma append_session_inv:
  assumes inv: "sessions_inv cl h xs" and h: "0 < h" and room: "count_where established xs < cl"
    and new: "peer \<notin> set (map peer_addr xs)"
  shows "sessions_inv cl h (evict_oldest h xs @ [session_new d peer now])"
proof -
  let ?ys = "evict_oldest h xs"
  have p: "pending ?ys < h" "count_where established ?ys = count_where established xs"
    using evict_oldest_pending [OF h, of xs] inv by (simp_all add: sessions_inv_def)
  have ys: "sessions_inv cl h ?ys" using evict.keeps_inv [OF inv] .
  have "\<forall>s \<in> set xs. ident_peer (identity s) \<noteq> peer" using new by auto
  then have "peer \<notin> set (map peer_addr ?ys)" using evict.all_le [of xs "\<lambda>i. ident_peer i \<noteq> peer" h] by auto
  moreover have "length ?ys + 1 \<le> cl + h - 1" using p(1,2) room length_split [of ?ys] by simp
  moreover have "ident_ok (identity (session_new d peer now))" by (simp add: ident_ok_iff session_new_def)
  moreover have "peer_addr (session_new d peer now) = peer" "\<not> established (session_new d peer now)"
    by (simp_all add: session_new_def)
  ultimately show ?thesis
    using ys p(1) by (simp add: sessions_inv_def pending_def)
qed

interpretation drop_pending: shrinking "drop_pending_of ip" for ip
  unfolding drop_pending_of_def by unfold_locales (rule retain.shrinks)

lemma renew_acceptor_sessions [simp]: "session_list (snd (renew_acceptor created st)) = session_list st"
  by (simp add: renew_acceptor_def split: sum.splits)

lemma admit_counted_inv:
  assumes "sessions_inv (max_clients c) (max_pending_handshakes c) (session_list st)"
    and "0 < max_pending_handshakes c" "peer \<notin> set (map peer_addr (session_list st))"
  shows "sessions_inv (max_clients c) (max_pending_handshakes c)
      (session_list (snd (snd (admit_counted c now ip peer created st))))
    \<and> (fst (snd (admit_counted c now ip peer created st)) \<longrightarrow>
         session_list (snd (snd (admit_counted c now ip peer created st))) \<noteq> [])"
proof -
  let ?xs = "session_list st" and ?h = "max_pending_handshakes c"
  have ev: "sessions_inv (max_clients c) ?h (evict_oldest ?h ?xs)"
    using evict.keeps_inv [OF assms(1)] .
  show ?thesis
    using assms(1) ev append_session_inv [OF assms(1,2) _ assms(3)]
    by (auto simp: admit_counted_def append_session_def Let_def not_le
        split: sum.splits prod.splits if_splits)
qed

lemma admit_peer_inv:
  assumes "sessions_inv (max_clients c) (max_pending_handshakes c) (session_list st)"
    and "0 < max_pending_handshakes c" "peer \<notin> set (map peer_addr (session_list st))"
    and "admit_peer W c now peer packet created st = (e, added, st')"
  shows "sessions_inv (max_clients c) (max_pending_handshakes c) (session_list st')
    \<and> (added \<longrightarrow> session_list st' \<noteq> [])"
proof -
  have counted: "sessions_inv (max_clients c) (max_pending_handshakes c) (session_list u')
      \<and> (b \<longrightarrow> session_list u' \<noteq> [])"
    if "admit_counted c now ip peer created u = (e', b, u')" "session_list u = session_list st" for ip e' b u u'
    using admit_counted_inv [of c u peer now ip created] that assms(1-3) by simp
  have renew: "session_list u' = session_list u" if "renew_acceptor created u = (e', u')" for e' u u'
    using renew_acceptor_sessions [of created u] that by simp
  show ?thesis
    using assms(1,4) drop_pending.keeps_inv [OF assms(1)]
    by (auto simp: admit_peer_def split: option.splits prod.splits bool.splits sum.splits
        rate_limit_decision.splits dest!: counted renew)
qed

section \<open>Handshakes\<close>

lemma remove_duplicates_subset: "mset (remove_duplicates a peer i xs) \<subseteq># mset xs"
proof (induction a peer i xs rule: remove_duplicates.induct)
  case (1 a peer i xs)
  show ?case
  proof (cases "i < length xs \<and> is_duplicate a peer (xs ! i)")
    case True
    then have "mset (remove_duplicates a peer i (swap_remove i xs)) \<subseteq># mset xs"
      using "1.IH"(1) mset_swap_remove_subset [of i xs] by (blast intro: subset_mset.order_trans)
    then show ?thesis using True by (subst remove_duplicates.simps) simp
  next
    case False
    then show ?thesis using "1.IH"(2) by (subst remove_duplicates.simps) simp
  qed
qed

interpretation replace: shrinking "remove_duplicates a peer i" for a peer i
  by unfold_locales (rule identities_mono [OF remove_duplicates_subset])

text \<open>Establishing a pending session.\<close>

lemma sessions_inv_establish:
  assumes inv: "sessions_inv cl h xs" and i: "i < length xs" and pend: "\<not> established (xs ! i)"
    and s: "peer_addr s = peer_addr (xs ! i)" "established s" "ident_ok (identity s)"
  shows "sessions_inv cl h (xs[i := s])"
proof -
  have "map peer_addr (xs[i := s]) = map peer_addr xs"
    using s(1) i by (metis list_update_id map_update nth_map length_map)
  moreover have "pending (xs[i := s]) \<le> pending xs"
    using count_where_update [OF i, of "\<lambda>s. \<not> established s" s] s(2) by (simp add: pending_def)
  moreover have "\<forall>t \<in> set (xs[i := s]). ident_ok (identity t)"
    using inv s(3) set_update_subset_insert [of xs i s] by (auto simp: sessions_inv_def)
  ultimately show ?thesis using inv by (simp add: sessions_inv_def)
qed

lemma establish_fields [simp]:
  "peer_addr (establish W logins now a f s) = peer_addr s"
  "established (establish W logins now a f s)"
  "address (establish W logins now a f s) = a"
  "fingerprint (establish W logins now a f s) = Some f"
  "authenticated (establish W logins now a f s) \<longleftrightarrow> logins a = None"
  "established_at (establish W logins now a f s) = Some now"
  "conn (establish W logins now a f s) = disable_callback_receive W (conn s)"
  by (simp_all add: establish_def Let_def queue_session_plain_def)

lemma establish_ok: "ident_ok (identity (establish W logins now a f s))"
  by (simp add: ident_ok_iff)

lemma finish_handshake_inv:
  assumes inv: "sessions_inv cl h (session_list st)" and i: "i < length (session_list st)"
    and pend: "\<not> established (session_list st ! i)"
  shows "sessions_inv cl h (session_list (finish_handshake W c now n i st))"
proof (cases "authorize W c (bindings_now st) (session_list st ! i)")
  case None
  then show ?thesis using remove_index.keeps_inv [OF inv] by (simp add: finish_handshake_def Let_def)
next
  case (Some af)
  obtain a f where af: "af = (a, f)" by (cases af)
  let ?s = "establish W (logins_now st) now a f (session_list st ! i)"
  have up: "sessions_inv cl h ((session_list st)[i := ?s])"
    by (rule sessions_inv_establish [OF inv i pend]) (simp_all add: establish_ok)
  show ?thesis
    using Some af up remove_index.keeps_inv [OF up] replace.keeps_inv [OF up]
    by (simp add: finish_handshake_def Let_def)
qed

lemma sessions_inv_same:
  assumes "sessions_inv cl h xs" "i < length xs" "identity s = identity (xs ! i)"
  shows "sessions_inv cl h (xs[i := s])"
  using sessions_inv_mono [OF _ assms(1), of "xs[i := s]"] identities_update [OF assms(2,3)] by simp

lemma step_handshake_inv:
  assumes inv: "sessions_inv cl h (session_list st)" and i: "i < length (session_list st)"
    and pend: "\<not> established (session_list st ! i)"
  shows "sessions_inv cl h (session_list (step_handshake W c now n i st))"
proof -
  let ?s = "session_list st ! i"
  have upd: "sessions_inv cl h ((session_list st)[i := ?s\<lparr>conn := d\<rparr>])" for d
    by (rule sessions_inv_same [OF inv i]) simp
  have dead: "sessions_inv cl h ((session_list st)[i := ?s\<lparr>conn := d, dtls_deadline := dl\<rparr>])" for d dl
    by (rule sessions_inv_same [OF inv i]) simp
  have fin: "sessions_inv cl h (session_list (finish_handshake W c now n i
      (st\<lparr>session_list := (session_list st)[i := ?s\<lparr>conn := d\<rparr>]\<rparr>)))" for d
    by (rule finish_handshake_inv) (simp_all add: upd i pend)
  show ?thesis
    using remove_index.keeps_inv [OF inv] dead fin
    by (auto simp: step_handshake_def Let_def split: prod.splits sum.splits bool.splits)
qed

section \<open>Iterations\<close>

lemma identity_inject_datagram [simp]: "identity (snd (inject_datagram W packet s)) = identity s"
  by (simp add: inject_datagram_def split: prod.splits sum.splits bool.splits)

lemma process_session_inv:
  "sessions_inv cl h (session_list st) \<Longrightarrow> i < length (session_list st) \<Longrightarrow>
   sessions_inv cl h (session_list (process_session W c now i st))"
  by (simp add: process_session_def step_handshake_inv)

lemma handle_datagram_inv:
  assumes inv: "sessions_inv (max_clients c) (max_pending_handshakes c) (session_list st)"
    and h: "0 < max_pending_handshakes c"
  shows "sessions_inv (max_clients c) (max_pending_handshakes c)
    (session_list (snd (handle_datagram W c now peer packet created st)))"
proof (cases "position (\<lambda>s. same_peer (peer_addr s) peer) (session_list st)")
  case (Some i)
  then have i: "i < length (session_list st)" using position_Some by blast
  obtain b s' where s': "inject_datagram W packet (session_list st ! i) = (b, s')" by (metis surj_pair)
  then have "identity s' = identity (session_list st ! i)"
    using identity_inject_datagram [of W packet "session_list st ! i"] by simp
  then have "sessions_inv (max_clients c) (max_pending_handshakes c) ((session_list st)[i := s'])"
    by (rule sessions_inv_same [OF inv i])
  then show ?thesis
    using Some s' i process_session_inv [of "max_clients c" "max_pending_handshakes c"
        "st\<lparr>session_list := (session_list st)[i := s']\<rparr>" i]
    by (simp add: handle_datagram_def Let_def)
next
  case None
  then have new: "peer \<notin> set (map peer_addr (session_list st))"
    by (auto simp: position_None same_peer_def)
  obtain e added st' where a: "admit_peer W c now peer packet created st = (e, added, st')" by (metis prod_cases3)
  note ad = admit_peer_inv [OF inv h new a]
  then show ?thesis
    using None a process_session_inv [of _ _ st' "length (session_list st') - 1"]
    by (auto simp: handle_datagram_def split: option.splits bool.splits)
qed

lemma apply_updates_sessions [simp]: "session_list (apply_updates us st) = session_list st"
  by (induction us st rule: apply_updates.induct) simp_all

lemma decrypt_iteration_inv:
  assumes inv: "sessions_inv (max_clients c) (max_pending_handshakes c) (session_list st)"
    and h: "0 < max_pending_handshakes c"
  shows "sessions_inv (max_clients c) (max_pending_handshakes c)
    (session_list (snd (snd (decrypt_iteration W c inp st))))"
proof -
  obtain xs written e where r: "read_sessions W c (logins_now st) (at_instant inp) (tun_device inp) (session_list st)
      = (xs, written, e)" by (metis prod_cases3)
  have xs: "sessions_inv (max_clients c) (max_pending_handshakes c) xs"
    using read_progress_inv [OF _ inv] read_sessions_result [OF r] by blast
  let ?st1 = "apply_updates (updates inp)
      (st\<lparr>session_list := dedupe_sessions xs, limiter := purge (at_instant inp) (limiter st)\<rparr>)"
  have st1: "sessions_inv (max_clients c) (max_pending_handshakes c) (session_list ?st1)"
    using dedupe.keeps_inv [OF xs] by simp
  have "sessions_inv (max_clients c) (max_pending_handshakes c)
      (session_list (snd (handle_datagram W c (at_instant inp) peer packet (created_acceptor inp) ?st1)))"
    for peer packet by (rule handle_datagram_inv [OF st1 h])
  then have "sessions_inv (max_clients c) (max_pending_handshakes c) (session_list st2)"
    if "handle_datagram W c (at_instant inp) peer packet (created_acceptor inp) ?st1 = (e', st2)" for peer packet e' st2
    using that by (metis snd_conv)
  then show ?thesis
    using r xs st1
    by (auto simp: decrypt_iteration_def Let_def split: option.splits sum.splits try_pop_error.splits prod.splits)
qed

section \<open>Authorisation\<close>

text \<open>
  How a session becomes established: the handshake of the pending session completes on its own
  connection, and the certificate of that connection passes every check.
\<close>

definition certificate_checked :: "'w wolfssl \<Rightarrow> server_config \<Rightarrow> bindings \<Rightarrow> sockaddr \<Rightarrow> 'w dtls \<Rightarrow> ipv4 \<Rightarrow> string \<Rightarrow> bool" where
  "certificate_checked W c bs peer d a f \<longleftrightarrow>
     dtls_fingerprint W d = Inr f \<and> (a, f) \<in> set bs
     \<and> (verify_client_san_ip c \<longrightarrow> peer_certificate_has_san_ip W a d = Inr True)
     \<and> (\<exists>source. peer_ipv4 peer = Some source \<and> peer_certificate_allows_source_ip W source d = Inr True)"

definition established_from :: "'w wolfssl \<Rightarrow> server_config \<Rightarrow> bindings \<Rightarrow> (ipv4 \<Rightarrow> (string \<times> string) option) \<Rightarrow>
    instant \<Rightarrow> 'w session \<Rightarrow> 'w session \<Rightarrow> bool" where
  "established_from W c bs logins now s t \<longleftrightarrow>
     \<not> established s
     \<and> (\<exists>d f. handshake W (conn s) = (Inr True, d) \<and> certificate_checked W c bs (peer_addr s) d (address t) f
          \<and> t = establish W logins now (address t) f (s\<lparr>conn := d\<rparr>))"

text \<open>What the list of sessions needs of it.\<close>

definition authorized_session :: "bindings \<Rightarrow> (ipv4 \<Rightarrow> (string \<times> string) option) \<Rightarrow> 'w session \<Rightarrow> bool" where
  "authorized_session bs logins s \<longleftrightarrow>
     (\<exists>f. fingerprint s = Some f \<and> (address s, f) \<in> set bs) \<and> (authenticated s \<longleftrightarrow> logins (address s) = None)"

lemma authorize_Some:
  "authorize W c bs s = Some (a, f) \<Longrightarrow> certificate_checked W c bs (peer_addr s) (conn s) a f"
  by (auto simp: authorize_def certificate_checked_def dest: bound_address_Some split: sum.splits option.splits if_splits)

lemma established_from_fields:
  assumes "established_from W c bs logins now s t"
  shows "authorized_session bs logins t \<and> peer_addr t = peer_addr s"
proof -
  obtain d f where d: "certificate_checked W c bs (peer_addr s) d (address t) f"
    "t = establish W logins now (address t) f (s\<lparr>conn := d\<rparr>)" using assms by (auto simp: established_from_def)
  have "fingerprint t = Some f \<and> (authenticated t \<longleftrightarrow> logins (address t) = None) \<and> peer_addr t = peer_addr s"
    by (subst (1 2 4) d(2)) simp
  then show ?thesis using d(1) by (simp add: authorized_session_def certificate_checked_def)
qed

lemma set_swap_remove_update: "t \<in> set (swap_remove i (xs[i := s])) \<Longrightarrow> t = s \<or> t \<in> set xs"
  using set_swap_remove_subset [of i "xs[i := s]"] set_update_subset_insert [of xs i s] by auto

lemma set_remove_duplicates: "set (remove_duplicates a peer i xs) \<subseteq> set xs"
  using set_mset_mono [OF remove_duplicates_subset [of a peer i xs]] by simp

lemma finish_handshake_new:
  assumes "t \<in> set (session_list (finish_handshake W c now n i st))" "established t"
  shows "t \<in> set (session_list st)
    \<or> (\<exists>f. authorize W c (bindings_now st) (session_list st ! i) = Some (address t, f)
          \<and> t = establish W (logins_now st) now (address t) f (session_list st ! i))"
proof (cases "authorize W c (bindings_now st) (session_list st ! i)")
  case None
  then show ?thesis
    using assms set_swap_remove_subset [of i "session_list st"] by (auto simp: finish_handshake_def Let_def)
next
  case (Some af)
  obtain a f where af: "af = (a, f)" by (cases af)
  let ?s = "establish W (logins_now st) now a f (session_list st ! i)"
  have "t = ?s \<or> t \<in> set (session_list st)"
    using assms(1) Some af set_swap_remove_update [of t i "session_list st" ?s]
      set_remove_duplicates [of a "peer_addr (session_list st ! i)" 0 "(session_list st)[i := ?s]"]
      set_update_subset_insert [of "session_list st" i ?s]
    by (auto simp: finish_handshake_def Let_def split: if_splits)
  then show ?thesis using Some af by auto
qed

lemma step_handshake_new:
  assumes "t \<in> set (session_list (step_handshake W c now n i st))" "established t"
    "\<not> established (session_list st ! i)" "i < length (session_list st)"
  shows "t \<in> set (session_list st)
    \<or> established_from W c (bindings_now st) (logins_now st) now (session_list st ! i) t"
proof -
  let ?s = "session_list st ! i"
  have old: "u \<in> set (session_list st)" if "u \<in> set ((session_list st)[i := v])" "established u" "\<not> established v" for u v
    using that set_update_subset_insert [of "session_list st" i v] by auto
  have fin: "t \<in> set (session_list st) \<or> established_from W c (bindings_now st) (logins_now st) now ?s t"
    if t: "t \<in> set (session_list (finish_handshake W c now n i (st\<lparr>session_list := (session_list st)[i := ?s\<lparr>conn := d\<rparr>]\<rparr>)))"
      and d: "handshake W (conn ?s) = (Inr True, d)" for d
  proof (cases "t \<in> set ((session_list st)[i := ?s\<lparr>conn := d\<rparr>])")
    case True
    then show ?thesis using old [of t "?s\<lparr>conn := d\<rparr>"] assms(2,3) by auto
  next
    case False
    then obtain f where f: "authorize W c (bindings_now st) (?s\<lparr>conn := d\<rparr>) = Some (address t, f)"
      "t = establish W (logins_now st) now (address t) f (?s\<lparr>conn := d\<rparr>)"
      using finish_handshake_new [OF t assms(2)] assms(4) by auto
    then show ?thesis using authorize_Some [OF f(1)] d assms(3) unfolding established_from_def by auto
  qed
  show ?thesis
    using assms fin set_swap_remove_subset [of i "session_list st"] old [OF _ assms(2)]
    by (auto simp: step_handshake_def Let_def split: prod.splits sum.splits bool.splits)
qed

lemma admit_peer_sessions:
  assumes "admit_peer W c now peer packet created st = (e, added, st')" "t \<in> set (session_list st')" "established t"
  shows "t \<in> set (session_list st) \<and> bindings_now st' = bindings_now st \<and> logins_now st' = logins_now st"
proof -
  have ev: "set (evict_oldest h xs) \<subseteq> set xs" for h and xs :: "'a session list"
    by (auto simp: evict_oldest_def split: option.splits dest: subsetD [OF set_swap_remove_subset])
  have dr: "set (drop_pending_of ip xs) \<subseteq> set xs" for ip and xs :: "'a session list"
    by (auto simp: drop_pending_of_def)
  show ?thesis
    using assms ev dr
    by (fastforce simp: admit_peer_def admit_counted_def append_session_def renew_acceptor_def session_new_def Let_def
        split: option.splits prod.splits bool.splits sum.splits rate_limit_decision.splits if_splits)
qed

lemma admit_peer_appends:
  assumes "admit_peer W c now peer packet created st = (e, True, st')"
  shows "\<exists>xs d. session_list st' = xs @ [session_new d peer now]"
  using assms
  by (auto simp: admit_peer_def admit_counted_def append_session_def Let_def
      split: option.splits prod.splits bool.splits sum.splits rate_limit_decision.splits if_splits)

text \<open>The session that a datagram of a peer is for, when its handshake goes on.\<close>

definition datagram_session :: "'w wolfssl \<Rightarrow> instant \<Rightarrow> sockaddr \<Rightarrow> byte list \<Rightarrow> 'w session list \<Rightarrow> 'w session \<Rightarrow> bool" where
  "datagram_session W now peer packet xs s \<longleftrightarrow>
     (\<exists>s0 \<in> set xs. peer_addr s0 = peer \<and> s = snd (inject_datagram W packet s0))
     \<or> peer \<notin> set (map peer_addr xs) \<and> (\<exists>d. s = session_new d peer now)"

lemma datagram_session_peer: "datagram_session W now peer packet xs s \<Longrightarrow> peer_addr s = peer"
proof -
  have "peer_addr (snd (inject_datagram W packet s0)) = peer_addr s0" for s0 :: "'a session"
    using identity_inject_datagram [of W packet s0] by (simp add: identity_def)
  then show "datagram_session W now peer packet xs s \<Longrightarrow> peer_addr s = peer"
    by (auto simp: datagram_session_def session_new_def)
qed

lemma handle_datagram_established:
  assumes "t \<in> set (session_list (snd (handle_datagram W c now peer packet created st)))" "established t"
  shows "identity t \<in> identity ` set (session_list st)
    \<or> (\<exists>s. datagram_session W now peer packet (session_list st) s
          \<and> established_from W c (bindings_now st) (logins_now st) now s t)"
proof (cases "position (\<lambda>s. same_peer (peer_addr s) peer) (session_list st)")
  case (Some i)
  then have i: "i < length (session_list st)" "peer_addr (session_list st ! i) = peer"
    using position_Some [OF Some] by (auto simp: same_peer_def)
  obtain b s' where s': "inject_datagram W packet (session_list st ! i) = (b, s')" by (metis surj_pair)
  then have ids: "identity s' = identity (session_list st ! i)"
    using identity_inject_datagram [of W packet "session_list st ! i"] by simp
  have own: "datagram_session W now peer packet (session_list st) s'"
    unfolding datagram_session_def using s' i by (metis nth_mem snd_conv)
  let ?st = "st\<lparr>session_list := (session_list st)[i := s']\<rparr>"
  have sub: "identity u \<in> identity ` set (session_list st)" if "u \<in> set (session_list ?st)" for u
    using that ids i set_update_subset_insert [of "session_list st" i s'] by fastforce
  have "t \<in> set (session_list ?st) \<or> established_from W c (bindings_now st) (logins_now st) now s' t"
    using assms Some s' step_handshake_new [of t W c now _ i ?st] i
    by (auto simp: handle_datagram_def Let_def process_session_def split: if_splits)
  then show ?thesis using sub own by blast
next
  case None
  then have fresh: "peer \<notin> set (map peer_addr (session_list st))" by (auto simp: position_None same_peer_def)
  obtain e added st' where a: "admit_peer W c now peer packet created st = (e, added, st')" by (metis prod_cases3)
  note old = admit_peer_sessions [OF a]
  have now: "bindings_now st' = bindings_now st \<and> logins_now st' = logins_now st"
    using a by (auto simp: admit_peer_def admit_counted_def append_session_def renew_acceptor_def Let_def
        split: option.splits prod.splits bool.splits sum.splits rate_limit_decision.splits if_splits)
  show ?thesis
  proof (cases "e = None \<and> added")
    case True
    then obtain xs d where xs: "session_list st' = xs @ [session_new d peer now]" using admit_peer_appends [of W c now peer packet created st e st'] a by auto
    let ?s = "session_new d peer now"
    have "t \<in> set (session_list st') \<or> established_from W c (bindings_now st) (logins_now st) now ?s t"
      using assms None a True now xs step_handshake_new [of t W c now _ "length xs" st']
      by (auto simp: handle_datagram_def process_session_def session_new_def split: if_splits)
    moreover have "datagram_session W now peer packet (session_list st) ?s"
      using fresh by (auto simp: datagram_session_def)
    ultimately show ?thesis using old assms(2) by blast
  next
    case False
    then have "t \<in> set (session_list st')"
      using assms(1) None a by (auto simp: handle_datagram_def split: option.splits bool.splits)
    then show ?thesis using old assms(2) by blast
  qed
qed

lemma handle_datagram_new:
  assumes "t \<in> set (session_list (snd (handle_datagram W c now peer packet created st)))" "established t"
  shows "identity t \<in> identity ` set (session_list st) \<or> authorized_session (bindings_now st) (logins_now st) t"
  using handle_datagram_established [OF assms] established_from_fields by blast

section \<open>An example\<close>

text \<open>A server with one client, 10.8.1.2, that logs in with a name and a password.\<close>

definition example_server :: server_config where
  "example_server =
     \<lparr>max_clients = 2, max_pending_handshakes = 16, port = 4433, listen = 0, certificate_file = [],
      private_key_file = [], ca_file = [], crl_file = None, ocsp_url = None, ocsp_enabled = True, mtu = 1200,
      verify_client_san_ip = False, allow_broadcast = False, allow_multicast = False,
      max_session_lifetime = seconds 3600, config_reload_interval = seconds 30, vpn_address = 0x0A080101,
      vpn_network = ''10.8.1.0/24'', network_address = 0x0A080100, network_prefix = 24,
      config_logins = [0x0A080102 \<mapsto> (''alice'', ''pw'')],
      config_bindings = [(0x0A080102, replicate 64 (CHR ''0''))]\<rparr>"

definition example_client_packet :: "byte list" where
  "example_client_packet = [0x45, 0, 0, 20, 0, 0, 0, 0, 64, 17, 0, 0, 10, 8, 1, 2, 10, 8, 1, 9]"

definition example_reader :: "byte list list session" where
  "example_reader = example_session\<lparr>conn := example_dtls\<lparr>ssl := Some [example_client_packet]\<rparr>, drain_pending := True\<rparr>"

definition example_state :: "byte list list decrypt_state" where
  "example_state = \<lparr>acceptor = example_dtls, session_list = [example_reader],
     bindings_now = config_bindings example_server, logins_now = config_logins example_server,
     limiter = limiter_new 30 (seconds 60) (seconds 600)\<rparr>"

definition example_input :: "byte list list decrypt_input" where
  "example_input = \<lparr>at_instant = 9, tun_device = (\<lambda>_. Inr ()), updates = [], worker_error = None,
     udp_next = Inl Empty, created_acceptor = Inr example_dtls\<rparr>"

lemma example_client_addresses:
  "ipv4_packet_addresses example_client_packet = Some (0x0A080102, 0x0A080109)"
  by (simp add: ipv4_packet_addresses_def example_client_packet_def drop_bit_eq_div u16_from_be_def ipv4_new_def)

lemma example_allowed: "destination_allowed example_server 0x0A080109"
  by (simp add: destination_allowed_def example_server_def ipv4_is_broadcast_def ipv4_broadcast_def
      is_multicast_def netmask_def mask_eq_exp_minus_1 Let_def)

lemma example_read_status:
  "read_status example_wolf READ_BUFFER (conn example_reader) =
     (Inr (Complete 20, example_client_packet), example_dtls)"
  by (simp add: read_status_def example_wolf_def example_reader_def example_dtls_def example_client_packet_def Let_def)

lemma example_reader_fields [simp]:
  "established example_reader" "authenticated example_reader" "drain_pending example_reader"
  "address example_reader = 0x0A080102" "peer_addr example_reader = example_peer"
  by (simp_all add: example_reader_def example_session_def session_new_def)

lemma example_written:
  "fst (snd (decrypt_iteration example_wolf example_server example_input example_state)) = [example_client_packet]"
proof -
  have "\<not> is_keepalive_packet example_client_packet"
    by (simp add: is_keepalive_packet_def KEEPALIVE_PACKET_def example_client_packet_def)
  then have "\<exists>s'. read_session example_wolf example_server (config_logins example_server) 9 (\<lambda>_. Inr ()) example_reader
      = (s', [example_client_packet], None)"
    using example_client_addresses example_allowed
    by (simp add: read_session_def example_read_status handle_packet_def Let_def)
  then have "\<exists>xs. read_sessions example_wolf example_server (config_logins example_server) 9 (\<lambda>_. Inr ()) [example_reader]
      = (xs, [example_client_packet], None)"
    by auto
  then show ?thesis
    by (auto simp: decrypt_iteration_def example_input_def example_state_def Let_def
        simp del: read_sessions.simps)
qed

section \<open>Properties\<close>

text \<open>
  C5: No client can inject packets under another address: the packets the decrypting worker hands to
  the TUN device in an iteration come, one for one and in order, from different sessions of the list.
  Each is exactly the packet that was read completely in this iteration from the connection of its own session, that
  session was established and logged in, and the packet is well-formed IPv4 whose source is the VPN address of
  that very session and whose destination is unicast or a kind of broadcast or multicast that the
  configuration allows.
\<close>

theorem only_client_packets_reach_tun:
  assumes "decrypt_iteration W c inp st = (status, written, st')"
  shows "\<exists>senders. subseq senders (session_list st)
    \<and> list_all2 (\<lambda>s p. established s \<and> authenticated s
         \<and> (\<exists>n d. read_status W READ_BUFFER (conn s) = (Inr (Complete n, p), d) \<and> 0 < n)
         \<and> (\<exists>destination. ipv4_packet_addresses p = Some (address s, destination) \<and> destination_allowed c destination))
       senders written"
proof -
  obtain xs w e where r: "read_sessions W c (logins_now st) (at_instant inp) (tun_device inp) (session_list st)
      = (xs, w, e)" by (metis prod_cases3)
  have "written = w"
    using assms r
    by (auto simp: decrypt_iteration_def Let_def split: option.splits sum.splits try_pop_error.splits prod.splits)
  then show ?thesis using read_sessions_result [OF r] unfolding own_packet_def by blast
qed

theorem only_client_packets_reach_tun_witness:
  "\<exists>senders. subseq senders [example_reader]
    \<and> list_all2 (\<lambda>s p. established s \<and> authenticated s
         \<and> (\<exists>n d. read_status example_wolf READ_BUFFER (conn s) = (Inr (Complete n, p), d) \<and> 0 < n)
         \<and> (\<exists>destination. ipv4_packet_addresses p = Some (address s, destination) \<and> destination_allowed example_server destination))
       senders [example_client_packet]"
proof -
  obtain status written st' where
    r: "decrypt_iteration example_wolf example_server example_input example_state = (status, written, st')"
    by (metis prod_cases3)
  then have "written = [example_client_packet]" using example_written by simp
  moreover have "session_list example_state = [example_reader]" by (simp add: example_state_def)
  ultimately show ?thesis using only_client_packets_reach_tun [OF r] by simp
qed

text \<open>
  C6: A packet that an established session without access reads completely is its one attempt to log
  in: the read marks the attempt exactly when such a packet was read, hands nothing to the device, and gives
  access exactly when no attempt was marked before and the packet is the login frame of the name and
  password configured for the session's address. A session whose first packet was anything else stays
  without access for good: however often it is read afterwards, with whatever logins the configuration then has,
  and whatever happens to it between the reads, it is never logged in.
\<close>

theorem login_only_by_first_matching_packet:
  assumes "read_session W c logins now tun s = (s', written, e)" "established s" "\<not> authenticated s"
  defines "first_packet \<equiv> \<lambda>packet. (drain_pending s \<or> pending_inject s \<noteq> [])
    \<and> (\<exists>n d. read_status W READ_BUFFER (conn s) = (Inr (Complete n, packet), d) \<and> 0 < n)"
  shows "(login_attempted s' \<longleftrightarrow> login_attempted s \<or> (\<exists>packet. first_packet packet))
    \<and> written = []
    \<and> (authenticated s' \<longleftrightarrow> \<not> login_attempted s
         \<and> (\<exists>packet name password. first_packet packet
              \<and> logins (address s) = Some (name, password) \<and> login_matches packet name password))
    \<and> (login_attempted s' \<and> \<not> authenticated s' \<longrightarrow> (\<forall>t. (read_or_between W c)\<^sup>*\<^sup>* s' t \<longrightarrow> \<not> authenticated t))"
proof -
  have kept: "established s'" using read_session_result [OF assms(1,2)] assms(2) by (simp add: read_progress_def)
  have now: "(login_attempted s' \<longleftrightarrow> login_attempted s \<or> (\<exists>packet. first_packet packet)) \<and> written = []
    \<and> (authenticated s' \<longleftrightarrow> \<not> login_attempted s
         \<and> (\<exists>packet name password. first_packet packet
              \<and> logins (address s) = Some (name, password) \<and> login_matches packet name password))"
    unfolding first_packet_def by (rule read_of_unauthenticated [OF assms(1,3)])
  show ?thesis using now refused_stays_refused kept by blast
qed

theorem login_only_by_first_matching_packet_witness:
  "\<exists>s' written e. read_session example_wolf example_server (config_logins example_server) 9 (\<lambda>_. Inr ())
      (example_reader\<lparr>authenticated := False\<rparr>) = (s', written, e)
    \<and> login_attempted s' \<and> (\<forall>t. (read_or_between example_wolf example_server)\<^sup>*\<^sup>* s' t \<longrightarrow> \<not> authenticated t)"
proof -
  let ?s = "example_reader\<lparr>authenticated := False\<rparr>"
  obtain s' written e where
    r: "read_session example_wolf example_server (config_logins example_server) 9 (\<lambda>_. Inr ()) ?s = (s', written, e)"
    by (metis prod_cases3)
  have s: "established ?s" "\<not> authenticated ?s" "\<not> login_attempted ?s"
    by (simp_all add: example_reader_def example_session_def session_new_def)
  have packet: "read_status example_wolf READ_BUFFER (conn ?s) = (Inr (Complete 20, example_client_packet), example_dtls)"
    using example_read_status by simp
  have "\<not> login_matches example_client_packet name password" for name password
    by (simp add: login_matches_def AUTH_LOGIN_PREFIX_def example_client_packet_def)
  then show ?thesis
    using login_only_by_first_matching_packet [OF r s(1,2)] packet s(3) r by auto
qed

text \<open>
  C4: Only authorised peers become established: a session found established after a datagram was
  processed either was established before, as the same client, or was a pending session of the very
  peer that sent the datagram (one of the list with the datagram handed to its connection, or one
  that was admitted now because the list had none of that peer). Then the handshake completed on that
  session's own connection, which the established session keeps without its reads through the callback, and the checks were
  passed by the certificate of this connection: its fingerprint is the session's and is bound to exactly
  the address the session got, it carries that address where the configuration demands it, and its
  policy allows the peer's source address. The session has access without a login only if none is
  configured for its address.
\<close>

theorem established_only_if_authorized:
  assumes "t \<in> set (session_list (snd (handle_datagram W c now peer packet created st)))" "established t"
    and "identity t \<notin> identity ` set (session_list st)"
  shows "\<exists>s d f source.
      ((\<exists>s0 \<in> set (session_list st). peer_addr s0 = peer \<and> s = snd (inject_datagram W packet s0))
       \<or> peer \<notin> set (map peer_addr (session_list st)) \<and> (\<exists>a. s = session_new a peer now))
      \<and> \<not> established s \<and> handshake W (conn s) = (Inr True, d)
      \<and> t = establish W (logins_now st) now (address t) f (s\<lparr>conn := d\<rparr>)
      \<and> conn t = disable_callback_receive W d \<and> peer_addr t = peer \<and> fingerprint t = Some f
      \<and> dtls_fingerprint W d = Inr f \<and> (address t, f) \<in> set (bindings_now st)
      \<and> (verify_client_san_ip c \<longrightarrow> peer_certificate_has_san_ip W (address t) d = Inr True)
      \<and> peer_ipv4 peer = Some source \<and> peer_certificate_allows_source_ip W source d = Inr True
      \<and> (authenticated t \<longleftrightarrow> logins_now st (address t) = None)"
proof -
  obtain s where s: "datagram_session W now peer packet (session_list st) s"
    "established_from W c (bindings_now st) (logins_now st) now s t"
    using handle_datagram_established [OF assms(1,2)] assms(3) by blast
  note peer = datagram_session_peer [OF s(1)]
  obtain d f where d: "handshake W (conn s) = (Inr True, d)"
    "certificate_checked W c (bindings_now st) (peer_addr s) d (address t) f"
    "t = establish W (logins_now st) now (address t) f (s\<lparr>conn := d\<rparr>)" "\<not> established s"
    using s(2) unfolding established_from_def by blast
  have t: "conn t = disable_callback_receive W d" "peer_addr t = peer" "fingerprint t = Some f"
    "authenticated t \<longleftrightarrow> logins_now st (address t) = None"
    using peer by (subst d(3), simp)+
  obtain source where checked: "dtls_fingerprint W d = Inr f" "(address t, f) \<in> set (bindings_now st)"
    "verify_client_san_ip c \<longrightarrow> peer_certificate_has_san_ip W (address t) d = Inr True"
    "peer_ipv4 peer = Some source" "peer_certificate_allows_source_ip W source d = Inr True"
    using d(2) unfolding certificate_checked_def peer by blast
  show ?thesis
    by (intro exI [of _ s] exI [of _ d] exI [of _ f] exI [of _ source] conjI)
      (fact s(1) [unfolded datagram_session_def] d t checked)+
qed

text \<open>A client whose pending session completes its handshake with the datagram.\<close>

definition joining_state :: "byte list list decrypt_state" where
  "joining_state = example_state\<lparr>session_list := [session_new example_dtls example_peer 8]\<rparr>"

definition joining_session :: "byte list list session" where
  "joining_session = (session_new example_dtls example_peer 8)
     \<lparr>conn := example_dtls\<lparr>ssl := Some [[1]]\<rparr>, drain_pending := True\<rparr>"

definition joined_session :: "byte list list session" where
  "joined_session =
     establish example_wolf (config_logins example_server) 9 0x0A080102 (replicate 64 (CHR ''0'')) joining_session"

lemma joining_session_fields:
  "inject_datagram example_wolf [1] (session_new example_dtls example_peer 8) = (True, joining_session)"
  "handshake example_wolf (conn joining_session) = (Inr True, conn joining_session)"
  "peer_addr joining_session = example_peer" "\<not> established joining_session"
  by (simp_all add: joining_session_def inject_datagram_def session_new_def inject_def handshake_def example_wolf_def
      example_dtls_def SUCCESS_def)

lemma joining_session_authorized:
  "authorize example_wolf example_server (config_bindings example_server) joining_session
     = Some (0x0A080102, replicate 64 (CHR ''0''))"
proof -
  have "conn joining_session = example_dtls\<lparr>ssl := Some [[1]]\<rparr>" "peer_ipv4 (peer_addr joining_session) = Some 0xC0A80001"
    by (simp_all add: joining_session_def session_new_def peer_ipv4_def AF_INET_def example_peer_def)
  moreover have "peer_certificate_allows_source_ip example_wolf ip (example_dtls\<lparr>ssl := Some [[1]]\<rparr>) = Inr True" for ip
    by (simp add: peer_certificate_allows_source_ip_def example_wolf_def certificate_source_policy_allows_def)
  moreover have "bound_address (config_bindings example_server) (replicate 64 (CHR ''0'')) = Some 0x0A080102"
    "\<not> verify_client_san_ip example_server"
    by (simp_all add: bound_address_def example_server_def)
  ultimately show ?thesis by (simp only: authorize_def example_fingerprint_digest sum.case option.case) simp
qed

lemma joined_session_fields:
  "established joined_session" "\<not> authenticated joined_session" "address joined_session = 0x0A080102"
  by (simp_all add: joined_session_def example_server_def)

lemma joined_session_joins:
  "session_list (snd (handle_datagram example_wolf example_server 9 example_peer [1] (Inr example_dtls) joining_state))
     = [joined_session]"
proof -
  have state: "session_list joining_state = [session_new example_dtls example_peer 8]"
    "bindings_now joining_state = config_bindings example_server" "logins_now joining_state = config_logins example_server"
    "peer_addr (session_new example_dtls example_peer 8) = example_peer" "max_clients example_server = 2"
    by (simp_all add: joining_state_def example_state_def session_new_def example_server_def)
  have same: "joining_session\<lparr>conn := conn joining_session\<rparr> = joining_session" by simp
  have "handle_datagram example_wolf example_server 9 example_peer [1] (Inr example_dtls) joining_state
      = (None, finish_handshake example_wolf example_server 9 0 0 (joining_state\<lparr>session_list := [joining_session]\<rparr>))"
    using joining_session_fields state same
    by (simp add: handle_datagram_def same_peer_def Let_def process_session_def step_handshake_def)
  then show ?thesis
    using joining_session_authorized joined_session_fields(2) state
    by (auto simp: finish_handshake_def Let_def joined_session_def)
qed

theorem established_only_if_authorized_witness:
  "\<exists>d f. conn joined_session = disable_callback_receive example_wolf d \<and> dtls_fingerprint example_wolf d = Inr f
     \<and> fingerprint joined_session = Some f \<and> (address joined_session, f) \<in> set (config_bindings example_server)
     \<and> \<not> authenticated joined_session"
proof -
  have t: "joined_session \<in> set (session_list (snd (handle_datagram example_wolf example_server 9 example_peer [1]
          (Inr example_dtls) joining_state)))" "established joined_session" "address joined_session = 0x0A080102"
    by (simp_all add: joined_session_joins) (simp_all add: joined_session_def)
  have "\<not> established (session_new example_dtls example_peer 8)" by (simp add: session_new_def)
  then have "identity joined_session \<notin> identity ` set (session_list joining_state)"
    using t(2) by (auto simp: joining_state_def identity_def)
  from established_only_if_authorized [OF t(1,2) this] show ?thesis
    using t(3) by (auto simp: joining_state_def example_state_def example_server_def)
qed

text \<open>
  After the removal of replaced sessions at most one logged-in session is left per VPN address,
  every address that had one still has one, and sessions that are not logged in are untouched.
\<close>

lemma one_login_session_per_address:
  "distinct (login_addresses (dedupe_sessions xs))
   \<and> set (login_addresses (dedupe_sessions xs)) = set (login_addresses xs)
   \<and> filter (\<lambda>s. \<not> authenticated s) (dedupe_sessions xs) = filter (\<lambda>s. \<not> authenticated s) xs"
  by (rule dedupe_addresses)

text \<open>
  C39: The removal keeps the session at the later index, not the one that logged in later: when
  another client's session in front was removed by swapping, a client that just logged in on a new
  connection is dropped and its old session survives.
\<close>

theorem replacement_can_drop_the_new_login:
  assumes "authenticated old" "address old = address fresh_login"
    and "logins (address fresh_login) = Some (name, password)" "login_matches packet name password"
  shows "dedupe_sessions ((swap_remove 0 [other, old, fresh_login])
      [0 := handle_login logins now packet fresh_login]) = [old]"
  using assms by (simp add: swap_remove_def dedupe_sessions_def handle_login_def Let_def)

theorem replacement_can_drop_the_new_login_witness:
  "dedupe_sessions ((swap_remove 0 [example_session\<lparr>address := 5\<rparr>, example_session, example_session\<lparr>authenticated := False\<rparr>])
      [0 := handle_login (config_logins example_server) 9
          (login_frame \<lparr>login_id = as_bytes ''alice'', login_password = as_bytes ''pw''\<rparr>)
          (example_session\<lparr>authenticated := False\<rparr>)]) = [example_session]"
proof (rule replacement_can_drop_the_new_login)
  show "authenticated example_session" "address example_session = address (example_session\<lparr>authenticated := False\<rparr>)"
    "config_logins example_server (address (example_session\<lparr>authenticated := False\<rparr>)) = Some (''alice'', ''pw'')"
    by (simp_all add: example_session_def example_server_def)
  show "login_matches (login_frame \<lparr>login_id = as_bytes ''alice'', login_password = as_bytes ''pw''\<rparr>) ''alice'' ''pw''"
    by (subst login_matches_frame) (simp_all add: as_bytes_def code_def)
qed

definition crowded_state :: "byte list list decrypt_state" where
  "crowded_state = example_state\<lparr>session_list :=
     [example_session,
      example_session\<lparr>peer_addr := example_peer\<lparr>sa_port := 1\<rparr>, authenticated := False\<rparr>,
      session_new example_dtls (example_peer\<lparr>sa_port := 2\<rparr>) 8]\<rparr>"

lemma crowded_authorized:
  "authorize example_wolf example_server (config_bindings example_server)
     ((session_list crowded_state ! 2)\<lparr>conn := example_dtls\<rparr>) = Some (0x0A080102, replicate 64 (CHR ''0''))"
proof -
  let ?s = "(session_list crowded_state ! 2)\<lparr>conn := example_dtls\<rparr>"
  have "conn ?s = example_dtls" "peer_ipv4 (peer_addr ?s) = Some 0xC0A80001"
    by (simp_all add: crowded_state_def session_new_def peer_ipv4_def AF_INET_def example_peer_def)
  moreover have "peer_certificate_allows_source_ip example_wolf ip example_dtls = Inr True" for ip
    by (simp add: peer_certificate_allows_source_ip_def example_wolf_def certificate_source_policy_allows_def)
  moreover have "bound_address (config_bindings example_server) (replicate 64 (CHR ''0'')) = Some 0x0A080102"
    "\<not> verify_client_san_ip example_server"
    by (simp_all add: bound_address_def example_server_def)
  ultimately show ?thesis by (simp only: authorize_def example_fingerprint_digest sum.case option.case) simp
qed

text \<open>
  C40: The configured maximum of clients is not a bound on the established sessions: a handshake that
  completes for an address that is already established from another peer and has a login is always
  kept, however many sessions are established, since the limit is waived for a replacement and a
  session that is not logged in yet replaces nothing.
\<close>

theorem unlogged_handshake_ignores_max_clients:
  assumes "i < length (session_list st)" "\<not> established (session_list st ! i)"
    and "handshake W (conn (session_list st ! i)) = (Inr True, d)"
    and "authorize W c (bindings_now st) ((session_list st ! i)\<lparr>conn := d\<rparr>) = Some (a, f)"
    and "logins_now st a \<noteq> None"
    and "j < length (session_list st)" "is_duplicate a (peer_addr (session_list st ! i)) (session_list st ! j)"
  shows "count_where established (session_list (step_handshake W c now n i st)) =
         count_where established (session_list st) + 1"
proof -
  let ?xs = "session_list st" and ?s = "(session_list st ! i)\<lparr>conn := d\<rparr>"
  let ?new = "establish W (logins_now st) now a f ?s"
  have "j \<noteq> i" using assms(2,7) by (auto simp: is_duplicate_def)
  then have "?xs ! j \<in> set (?xs[i := ?new])" using assms(6) by (metis length_list_update nth_list_update_neq nth_mem)
  then have dup: "list_ex (is_duplicate a (peer_addr (?xs ! i))) (?xs[i := ?new])"
    using assms(7) by (auto simp: list_ex_iff)
  have "session_list (step_handshake W c now n i st) = ?xs[i := ?new]"
    using assms(1,3,4,5) dup by (auto simp: step_handshake_def finish_handshake_def Let_def)
  then show ?thesis using count_where_update [OF assms(1), of established ?new] assms(2) by simp
qed

theorem unlogged_handshake_ignores_max_clients_witness:
  "count_where established (session_list (step_handshake example_wolf example_server 9 2 2 crowded_state)) =
     count_where established (session_list crowded_state) + 1
   \<and> count_where established (session_list crowded_state) = max_clients example_server"
proof
  show "count_where established (session_list (step_handshake example_wolf example_server 9 2 2 crowded_state)) =
     count_where established (session_list crowded_state) + 1"
  proof (rule unlogged_handshake_ignores_max_clients [where j = 0])
    show "handshake example_wolf (conn (session_list crowded_state ! 2)) = (Inr True, example_dtls)"
      by (simp add: crowded_state_def session_new_def handshake_def example_wolf_def example_dtls_def SUCCESS_def)
    show "authorize example_wolf example_server (bindings_now crowded_state)
       ((session_list crowded_state ! 2)\<lparr>conn := example_dtls\<rparr>) = Some (0x0A080102, replicate 64 (CHR ''0''))"
      using crowded_authorized by (simp add: crowded_state_def example_state_def)
    show "is_duplicate 0x0A080102 (peer_addr (session_list crowded_state ! 2)) (session_list crowded_state ! 0)"
      by (simp add: is_duplicate_def same_peer_def crowded_state_def example_session_def session_new_def example_peer_def)
  qed (simp_all add: crowded_state_def session_new_def example_state_def example_server_def)
  show "count_where established (session_list crowded_state) = max_clients example_server"
    by (simp add: crowded_state_def example_session_def session_new_def example_server_def)
qed

end
