(* ===== verification/Vpn_Server_Control.thy ===== *)
theory Vpn_Server_Control
  imports Vpn_Decrypt_Facts
begin

text \<open>
  The control worker of the server (\<open>src/src/server/control.rs\<close>): retransmission timers of pending
  handshakes, expiry of sessions, reload of the client bindings, the time of the next wake-up, the
  commands of the control socket and the watchers that receive snapshots.

  Streams are parameters: the results of their reads and writes come from a script, and what a
  stream accepted is collected. A loop whose script has ended is still running (\<open>None\<close>).
\<close>

section \<open>Timers\<close>

function retransmit :: "'w wolfssl \<Rightarrow> instant \<Rightarrow> nat \<Rightarrow> 'w session list \<Rightarrow> 'w session list" where
  "retransmit W now i xs =
     (if i < length xs
      then let s = xs ! i in
        if \<not> established s \<and> (case dtls_deadline s of None \<Rightarrow> False | Some deadline \<Rightarrow> deadline \<le> now)
        then (case handle_timeout W (conn s) of
                (Inl _, _) \<Rightarrow> retransmit W now i (swap_remove i xs)
              | (Inr _, d) \<Rightarrow>
                  retransmit W now (Suc i)
                    (xs[i := s\<lparr>conn := d, dtls_deadline := Some (now + current_timeout W d)\<rparr>]))
        else retransmit W now (Suc i) xs
      else xs)"
  by pat_completeness auto
termination
  by (relation "measure (\<lambda>(W, now, i, xs). length xs - i)") (auto simp: length_swap_remove)

declare retransmit.simps [simp del]

definition idle_limit :: "'w session \<Rightarrow> duration" where
  "idle_limit s =
     (if authenticated s then SESSION_IDLE_TIMEOUT
      else if established s then seconds 120 else HANDSHAKE_TIMEOUT)"

definition idle_valid :: "instant \<Rightarrow> 'w session \<Rightarrow> bool" where
  "idle_valid now s = (now - last_activity s < idle_limit s)"

definition lifetime_valid :: "duration \<Rightarrow> instant \<Rightarrow> 'w session \<Rightarrow> bool" where
  "lifetime_valid lifetime now s =
     (case established_at s of None \<Rightarrow> True | Some started \<Rightarrow> \<not> lifetime \<le> now - started)"

text \<open>The reason an expired session is logged with; \<open>None\<close> leaves the reason it had.\<close>

definition expiry_reason :: "duration \<Rightarrow> instant \<Rightarrow> 'w session \<Rightarrow> string option" where
  "expiry_reason lifetime now s =
     (if \<not> idle_valid now s \<and> established s then Some ''idle_timeout''
      else if idle_valid now s \<and> \<not> lifetime_valid lifetime now s then Some ''max_session_lifetime''
      else None)"

definition expire_sessions :: "duration \<Rightarrow> instant \<Rightarrow> 'w session list \<Rightarrow> 'w session list" where
  "expire_sessions lifetime now xs = filter (\<lambda>s. idle_valid now s \<and> lifetime_valid lifetime now s) xs"

text \<open>The instants at which something has to be done for a session, and the next wake-up.\<close>

definition session_deadlines :: "duration \<Rightarrow> 'w session \<Rightarrow> instant list" where
  "session_deadlines lifetime s =
     opt_list (dtls_deadline s) @ [last_activity s + idle_limit s]
     @ opt_list (map_option (\<lambda>started. started + lifetime) (established_at s))"

fun earliest :: "instant list \<Rightarrow> instant \<Rightarrow> instant" where
  "earliest [] t = t"
| "earliest (x # xs) t = earliest xs (min x t)"

definition next_wake :: "duration \<Rightarrow> instant \<Rightarrow> instant list \<Rightarrow> 'w session list \<Rightarrow> instant" where
  "next_wake lifetime next_reload command_times xs =
     earliest (map (\<lambda>t. t + seconds 3) command_times)
       (earliest (concat (map (session_deadlines lifetime) xs)) next_reload)"

section \<open>Reload\<close>

definition reload_config :: "file_system \<Rightarrow> string \<Rightarrow> ipv4 \<Rightarrow> string \<Rightarrow>
    (bindings \<times> (ipv4 \<Rightarrow> (string \<times> string) option)) io_result" where
  "reload_config fs path vpn network =
     and_then (parse_ini_entries fs path ''client'') (\<lambda>entries.
     and_then (client_logins entries) (\<lambda>logins.
     and_then (validate_client_bindings entries vpn network) (\<lambda>bs. Inr (bs, logins))))"

definition still_authorized :: "bindings \<Rightarrow> (ipv4 \<Rightarrow> (string \<times> string) option) \<Rightarrow>
    (ipv4 \<Rightarrow> (string \<times> string) option) \<Rightarrow> 'w session \<Rightarrow> bool" where
  "still_authorized new_bindings logins new_logins s =
     (established s
      \<and> (case fingerprint s of None \<Rightarrow> False | Some actual \<Rightarrow> binding_of new_bindings (address s) = Some actual)
      \<and> logins (address s) = new_logins (address s))"

record control_state =
  known_bindings :: bindings
  known_logins :: "ipv4 \<Rightarrow> (string \<times> string) option"
  next_config_reload :: instant

text \<open>
  The reload step: on success the sessions that lost their authorisation and all pending ones go, and
  an update is sent to the decrypting worker; on any error nothing changes. The next reload is
  scheduled in both cases.
\<close>

definition reload_step :: "file_system \<Rightarrow> string \<Rightarrow> server_config \<Rightarrow> instant \<Rightarrow> 'w dtls io_result \<Rightarrow>
    control_state \<Rightarrow> 'w session list \<Rightarrow> 'w reload_update option \<times> control_state \<times> 'w session list" where
  "reload_step fs path c now created ctl xs =
     (let ctl' = ctl\<lparr>next_config_reload := now + config_reload_interval c\<rparr> in
      case and_then (reload_config fs path (vpn_address c) (vpn_network c))
             (\<lambda>(bs, logins). and_then created (\<lambda>a. Inr (bs, logins, a))) of
        Inl _ \<Rightarrow> (None, ctl', xs)
      | Inr (bs, logins, a) \<Rightarrow>
          (Some (bs, logins, a), ctl'\<lparr>known_bindings := bs, known_logins := logins\<rparr>,
           filter (still_authorized bs (known_logins ctl) logins) xs))"

section \<open>Snapshots\<close>

definition quote_char :: char where "quote_char = char_of (34 :: nat)"

definition quoted :: "string \<Rightarrow> string" where
  "quoted s = quote_char # s @ [quote_char]"

definition client_ip :: "'w session \<Rightarrow> string" where
  "client_ip s = (case peer_ipv4 (peer_addr s) of None \<Rightarrow> [] | Some ip \<Rightarrow> show_ipv4 ip)"

definition fingerprint_text :: "'w session \<Rightarrow> string" where
  "fingerprint_text s = (case fingerprint s of None \<Rightarrow> [] | Some f \<Rightarrow> f)"

definition write_session_identity :: "'w session list \<Rightarrow> string" where
  "write_session_identity xs =
     concat (map (\<lambda>s. show_ipv4 (address s) @ '':'' @ fingerprint_text s @ '':'' @ client_ip s @ ''|'')
       (filter authenticated xs))"

definition snapshot_entry :: "instant \<Rightarrow> 'w session \<Rightarrow> string" where
  "snapshot_entry now s =
     ''{'' @ quoted ''vpnAddress'' @ '':'' @ quoted (show_ipv4 (address s))
     @ '','' @ quoted ''fingerprint'' @ '':'' @ quoted (fingerprint_text s)
     @ '','' @ quoted ''clientIp'' @ '':'' @ quoted (client_ip s)
     @ '','' @ quoted ''connectedSeconds'' @ '':'' @ show_nat (elapsed_seconds now (established_at s))
     @ '','' @ quoted ''bytesTx'' @ '':'' @ show_nat (bytes_tx s)
     @ '','' @ quoted ''bytesRx'' @ '':'' @ show_nat (bytes_rx s)
     @ '','' @ quoted ''packetsTx'' @ '':'' @ show_nat (packets_tx s)
     @ '','' @ quoted ''packetsRx'' @ '':'' @ show_nat (packets_rx s) @ ''}''"

fun join_commas :: "string list \<Rightarrow> string" where
  "join_commas [] = []"
| "join_commas [x] = x"
| "join_commas (x # xs) = x @ CHR '','' # join_commas xs"

definition session_snapshot :: "instant \<Rightarrow> 'w session list \<Rightarrow> string" where
  "session_snapshot now xs =
     ''{'' @ quoted ''type'' @ '':'' @ quoted ''sessions'' @ '','' @ quoted ''sessions'' @ '':[''
     @ join_commas (map (snapshot_entry now) (filter authenticated xs)) @ '']}''"

section \<open>Watchers\<close>

text \<open>A watcher, with the bytes its stream has accepted.\<close>

record watcher =
  out_pending :: "byte list"
  out_written :: nat
  out_next :: "byte list option"
  out_stream :: "byte list"

definition watcher_new :: "byte list \<Rightarrow> watcher" where
  "watcher_new snapshot = \<lparr>out_pending = snapshot, out_written = 0, out_next = None, out_stream = []\<rparr>"

definition enqueue_latest :: "byte list \<Rightarrow> watcher \<Rightarrow> watcher" where
  "enqueue_latest snapshot w =
     (if out_pending w = [] then w\<lparr>out_pending := snapshot, out_written := 0\<rparr>
      else w\<lparr>out_next := Some snapshot\<rparr>)"

text \<open>
  \<open>flush\<close>: whether the watcher is kept. Before each write the next snapshot is taken up if the current
  one is complete; a script entry is what the write returned, at most what was offered.
\<close>

definition take_next :: "watcher \<Rightarrow> watcher option" where
  "take_next w =
     (if out_written w = length (out_pending w)
      then (case out_next w of
              Some n \<Rightarrow> Some (w\<lparr>out_pending := n, out_written := 0, out_next := None\<rparr>)
            | None \<Rightarrow> None)
      else Some w)"

definition accept_bytes :: "nat \<Rightarrow> watcher \<Rightarrow> watcher" where
  "accept_bytes n w =
     w\<lparr>out_written := out_written w + min n (length (out_pending w) - out_written w),
       out_stream := out_stream w @ take n (drop (out_written w) (out_pending w))\<rparr>"

fun watcher_flush :: "nat io_result list \<Rightarrow> watcher \<Rightarrow> (bool \<times> watcher) option" where
  "watcher_flush script w =
     (case take_next w of
        None \<Rightarrow> Some (True, w\<lparr>out_pending := [], out_written := 0\<rparr>)
      | Some w1 \<Rightarrow>
          (case script of
             [] \<Rightarrow> None
           | Inr n # rest \<Rightarrow> if n = 0 then Some (False, w1) else watcher_flush rest (accept_bytes n w1)
           | Inl e # rest \<Rightarrow> Some (kind e = WouldBlock, w1)))"

declare watcher_flush.simps [simp del]

text \<open>\<open>publish_if_changed\<close>: the flush of every watcher, each with its own script.\<close>

fun flush_all :: "nat io_result list list \<Rightarrow> watcher list \<Rightarrow> watcher list option" where
  "flush_all (script # scripts) (w # ws) =
     (case watcher_flush script w of
        None \<Rightarrow> None
      | Some (keep, w') \<Rightarrow> map_option (\<lambda>ws'. if keep then w' # ws' else ws') (flush_all scripts ws))"
| "flush_all scripts [] = Some []"
| "flush_all [] (w # ws) = None"

definition publish_if_changed :: "instant \<Rightarrow> nat io_result list list \<Rightarrow> 'w session list \<Rightarrow> string \<Rightarrow> watcher list \<Rightarrow>
    (string \<times> watcher list) option" where
  "publish_if_changed now scripts xs last_identity ws =
     (let current = write_session_identity xs;
          message = as_bytes (session_snapshot now xs @ [newline]);
          ws' = (if current \<noteq> last_identity then map (enqueue_latest message) ws else ws)
      in map_option (\<lambda>kept. (current, kept)) (flush_all scripts ws'))"

section \<open>Commands\<close>

datatype control_reply = Reply string | NewWatcher "byte list" | ReloadQueued

definition json_error :: "string \<Rightarrow> string" where
  "json_error e = ''{'' @ quoted ''ok'' @ '':false,'' @ quoted ''error'' @ '':'' @ quoted e @ ''}'' @ [newline]"

definition disconnect_sessions :: "ipv4 \<Rightarrow> 'w session list \<Rightarrow> 'w session list" where
  "disconnect_sessions a xs = filter (\<lambda>s. \<not> (established s \<and> address s = a)) xs"

definition handle_command :: "instant \<Rightarrow> string \<Rightarrow> 'w session list \<Rightarrow> control_reply \<times> 'w session list" where
  "handle_command now command xs =
     (if command = ''WATCH'' then (NewWatcher (as_bytes (session_snapshot now xs @ [newline])), xs)
      else if command = ''STATUS'' then (Reply (session_snapshot now xs @ [newline]), xs)
      else if command = ''RELOAD'' then (ReloadQueued, xs)
      else case strip_prefix ''DISCONNECT '' command of
          Some a \<Rightarrow>
            (case parse_ipv4 a of
               None \<Rightarrow> (Reply (json_error ''invalid_vpn_address''), xs)
             | Some ip \<Rightarrow>
                 (let ys = disconnect_sessions ip xs in
                  (Reply (''{'' @ quoted ''ok'' @ '':true,'' @ quoted ''disconnected'' @ '':''
                     @ show_nat (length xs - length ys) @ ''}'' @ [newline]), ys)))
        | None \<Rightarrow> (Reply (json_error ''invalid_command''), xs))"

record pending_command =
  command_bytes :: string
  command_at :: instant

definition COMMAND_BUFFER :: nat where "COMMAND_BUFFER = 256"

definition MAX_PENDING_COMMANDS :: nat where "MAX_PENDING_COMMANDS = 64"

definition accept_command :: "instant \<Rightarrow> pending_command list \<Rightarrow> pending_command list" where
  "accept_command now cs =
     (if length cs < MAX_PENDING_COMMANDS then cs @ [\<lparr>command_bytes = [], command_at = now\<rparr>] else cs)"

text \<open>Reading a command: whether it is complete, and its bytes; an empty read is the end of the stream.\<close>

fun read_command :: "string io_result list \<Rightarrow> string \<Rightarrow> (bool \<times> string) option" where
  "read_command script bytes =
     (if length bytes = COMMAND_BUFFER then Some (True, bytes)
      else case script of
          [] \<Rightarrow> None
        | Inr [] # rest \<Rightarrow> Some (True, bytes)
        | Inr data # rest \<Rightarrow>
            (let bytes' = bytes @ take (COMMAND_BUFFER - length bytes) data in
             if newline \<in> set bytes' then Some (True, bytes') else read_command rest bytes')
        | Inl e # rest \<Rightarrow> Some (kind e \<noteq> WouldBlock, bytes))"

declare read_command.simps [simp del]

text \<open>
  The loop over the pending commands: replies, commands that stay pending, sessions. A command that
  waited three seconds is dropped without a reply.
\<close>

fun process_commands :: "instant \<Rightarrow> (pending_command \<times> string io_result list) list \<Rightarrow> 'w session list \<Rightarrow>
    (control_reply list \<times> pending_command list \<times> 'w session list) option" where
  "process_commands now [] xs = Some ([], [], xs)"
| "process_commands now ((p, script) # ps) xs =
     (if seconds 3 \<le> now - command_at p then process_commands now ps xs
      else case read_command script (command_bytes p) of
          None \<Rightarrow> None
        | Some (True, bytes) \<Rightarrow>
            (case handle_command now (trim bytes) xs of
               (r, ys) \<Rightarrow> map_option (\<lambda>(rs, kept, zs). (r # rs, kept, zs)) (process_commands now ps ys))
        | Some (False, bytes) \<Rightarrow>
            map_option (\<lambda>(rs, kept, zs). (rs, p\<lparr>command_bytes := bytes\<rparr> # kept, zs)) (process_commands now ps xs))"

section \<open>The session list\<close>

interpretation expire: shrinking "expire_sessions lifetime now" for lifetime now
  unfolding expire_sessions_def by unfold_locales (rule retain.shrinks)

interpretation disconnect: shrinking "disconnect_sessions a" for a
  unfolding disconnect_sessions_def by unfold_locales (rule retain.shrinks)

interpretation reloaded: shrinking "\<lambda>xs. snd (snd (reload_step fs path c now created ctl xs))"
  for fs path c now created ctl
  by unfold_locales
    (auto simp: reload_step_def Let_def split: sum.splits prod.splits intro: retain.shrinks)

lemma handle_command_shrinks: "identities (snd (handle_command now command xs)) \<subseteq># identities xs"
  using disconnect.shrinks [of _ xs]
  by (auto simp: handle_command_def Let_def split: option.splits)

lemma process_commands_shrinks:
  "process_commands now ps xs = Some (rs, kept, zs) \<Longrightarrow> identities zs \<subseteq># identities xs"
proof (induction now ps xs arbitrary: rs kept zs rule: process_commands.induct)
  case (1 now xs)
  then show ?case by simp
next
  case (2 now p script ps xs)
  show ?case
  proof (cases "seconds 3 \<le> now - command_at p")
    case True
    then show ?thesis using "2.IH"(1) "2.prems" by simp
  next
    case False
    obtain complete bytes where r: "read_command script (command_bytes p) = Some (complete, bytes)"
      using "2.prems" False by (auto split: option.splits)
    obtain reply ys where h: "handle_command now (trim bytes) xs = (reply, ys)" by (metis surj_pair)
    have ys: "identities ys \<subseteq># identities xs" using handle_command_shrinks [of now "trim bytes" xs] h by simp
    show ?thesis
    proof (cases complete)
      case True
      then obtain rs' where "process_commands now ps ys = Some (rs', kept, zs)"
        using "2.prems" False r h by auto
      from "2.IH"(2) [OF False r refl eqTrueI [OF True] h [symmetric] this] ys show ?thesis
        by (rule subset_mset.order_trans)
    next
      case incomplete: False
      then obtain kept' where "process_commands now ps xs = Some (rs, kept', zs)"
        using "2.prems" False r by auto
      from "2.IH"(3) [OF False r refl iffD2 [OF eq_False incomplete] this] show ?thesis .
    qed
  qed
qed

lemma retransmit_shrinks: "identities (retransmit W now i xs) \<subseteq># identities xs"
proof (induction W now i xs rule: retransmit.induct)
  case (1 W now i xs)
  show ?case
  proof (cases "i < length xs \<and> \<not> established (xs ! i)
      \<and> (case dtls_deadline (xs ! i) of None \<Rightarrow> False | Some deadline \<Rightarrow> deadline \<le> now)")
    case False
    then show ?thesis using "1.IH"(3) by (subst retransmit.simps) (auto simp: Let_def split: option.splits)
  next
    case True
    then have i: "i < length xs" by simp
    obtain r d where h: "handle_timeout W (conn (xs ! i)) = (r, d)" by (metis surj_pair)
    let ?s = "(xs ! i)\<lparr>conn := d, dtls_deadline := Some (now + current_timeout W d)\<rparr>"
    have same: "identities (xs[i := ?s]) = identities xs" by (rule identities_update [OF i]) simp
    show ?thesis
    proof (cases r)
      case (Inl e)
      then have "retransmit W now i xs = retransmit W now i (swap_remove i xs)"
        using True h by (subst retransmit.simps) (simp add: Let_def)
      then show ?thesis
        using "1.IH"(1) [OF i refl _ h [symmetric] Inl] True remove_index.shrinks [of i xs]
        by (auto intro: subset_mset.order_trans)
    next
      case (Inr u)
      then have "retransmit W now i xs = retransmit W now (Suc i) (xs[i := ?s])"
        using True h by (subst retransmit.simps) (simp add: Let_def)
      then show ?thesis using "1.IH"(2) [OF i refl _ h [symmetric] Inr] True same by auto
    qed
  qed
qed

interpretation retransmission: shrinking "retransmit W now 0" for W now
  by unfold_locales (rule retransmit_shrinks)

section \<open>Wake-ups\<close>

lemma earliest_le: "earliest xs t \<le> t \<and> (\<forall>x \<in> set xs. earliest xs t \<le> x)"
  by (induction xs t rule: earliest.induct) (auto intro: order.trans)

lemma earliest_in: "earliest xs t = t \<or> earliest xs t \<in> set xs"
  by (induction xs t rule: earliest.induct) (auto simp: min_def split: if_splits)

lemma session_alive_until:
  "now < last_activity s + idle_limit s \<Longrightarrow> 0 < idle_limit s \<Longrightarrow> idle_valid now s"
  by (auto simp: idle_valid_def)

lemma idle_limit_pos: "0 < idle_limit s"
  by (simp add: idle_limit_def SESSION_IDLE_TIMEOUT_def HANDSHAKE_TIMEOUT_def seconds_def)

section \<open>Frames of a watcher\<close>

text \<open>
  The snapshots a watcher was given are \<open>frames\<close>. What its stream accepted is a sequence of whole
  frames followed by a prefix of the current one; no frame is reordered, a frame may be skipped.
\<close>

definition watcher_inv :: "byte list list \<Rightarrow> watcher \<Rightarrow> bool" where
  "watcher_inv frames w \<longleftrightarrow>
     out_written w \<le> length (out_pending w) \<and> (out_pending w = [] \<longrightarrow> out_next w = None)
     \<and> (\<exists>sent. out_stream w = concat sent @ take (out_written w) (out_pending w)
          \<and> subseq (sent @ (if out_pending w = [] then [] else [out_pending w]) @ opt_list (out_next w)) frames)"

lemma watcher_new_inv: "snapshot \<noteq> [] \<Longrightarrow> watcher_inv [snapshot] (watcher_new snapshot)"
  by (auto simp: watcher_inv_def watcher_new_def intro!: exI [of _ "[]"])

lemma subseq_replace_last: "subseq (xs @ opt_list v) frames \<Longrightarrow> subseq (xs @ [z]) (frames @ [z])"
  by (simp add: subseq_take_left)

lemma enqueue_latest_inv:
  assumes "watcher_inv frames w" "snapshot \<noteq> []"
  shows "watcher_inv (frames @ [snapshot]) (enqueue_latest snapshot w)"
proof -
  obtain sent where st: "out_stream w = concat sent @ take (out_written w) (out_pending w)"
    and sub: "subseq ((sent @ (if out_pending w = [] then [] else [out_pending w])) @ opt_list (out_next w)) frames"
    using assms(1) by (auto simp: watcher_inv_def)
  note new = subseq_replace_last [OF sub, of snapshot]
  show ?thesis
    using assms st new by (auto simp: watcher_inv_def enqueue_latest_def intro!: exI [of _ sent] split: if_splits)
qed

lemma take_next_inv:
  assumes inv: "watcher_inv frames w" and t: "take_next w = Some w'"
    and ne: "\<forall>n. out_next w = Some n \<longrightarrow> n \<noteq> []"
  shows "watcher_inv frames w' \<and> out_pending w' \<noteq> [] \<and> (\<forall>n. out_next w' = Some n \<longrightarrow> n \<noteq> [])"
proof (cases "out_written w = length (out_pending w)")
  case True
  then obtain n where n: "out_next w = Some n" "w' = w\<lparr>out_pending := n, out_written := 0, out_next := None\<rparr>"
    using t by (auto simp: take_next_def split: option.splits)
  then have p: "out_pending w \<noteq> []" using inv by (auto simp: watcher_inv_def)
  obtain sent where "out_stream w = concat sent @ out_pending w" "subseq (sent @ [out_pending w] @ [n]) frames"
    using inv True n p by (auto simp: watcher_inv_def)
  then show ?thesis using n ne by (auto simp: watcher_inv_def intro!: exI [of _ "sent @ [out_pending w]"])
next
  case False
  then show ?thesis using assms by (auto simp: take_next_def watcher_inv_def)
qed

lemma accept_bytes_inv:
  assumes "watcher_inv frames w" "out_pending w \<noteq> []"
  shows "watcher_inv frames (accept_bytes n w)"
proof -
  obtain sent where st: "out_stream w = concat sent @ take (out_written w) (out_pending w)"
    and sub: "subseq (sent @ [out_pending w] @ opt_list (out_next w)) frames"
    and le: "out_written w \<le> length (out_pending w)"
    using assms by (auto simp: watcher_inv_def)
  have "take (out_written w) (out_pending w) @ take n (drop (out_written w) (out_pending w))
      = take (out_written w + min n (length (out_pending w) - out_written w)) (out_pending w)"
    by (cases "n \<le> length (out_pending w) - out_written w") (simp_all add: take_add min_def le)
  then show ?thesis using assms(2) st sub le by (auto simp: watcher_inv_def accept_bytes_def intro!: exI [of _ sent])
qed

lemma watcher_flush_inv:
  assumes "watcher_flush script w = Some (keep, w')" "watcher_inv frames w"
    and "\<forall>n. out_next w = Some n \<longrightarrow> n \<noteq> []"
  shows "watcher_inv frames w' \<and> (\<forall>n. out_next w' = Some n \<longrightarrow> n \<noteq> [])"
  using assms
proof (induction script arbitrary: w)
  case Nil
  show ?case
  proof (cases "take_next w")
    case None
    then show ?thesis
      using Nil by (auto simp: watcher_flush.simps take_next_def watcher_inv_def split: if_splits option.splits
          intro!: exI)
  qed (use Nil in \<open>simp add: watcher_flush.simps\<close>)
next
  case (Cons r script)
  show ?case
  proof (cases "take_next w")
    case None
    then obtain sent where "w' = w\<lparr>out_pending := [], out_written := 0\<rparr>" "out_next w = None"
      "out_stream w = concat sent @ out_pending w"
      "subseq (sent @ (if out_pending w = [] then [] else [out_pending w])) frames"
      using Cons.prems by (auto simp: watcher_flush.simps take_next_def watcher_inv_def split: if_splits option.splits)
    then show ?thesis
      by (auto simp: watcher_inv_def intro!: exI [of _ "sent @ (if out_pending w = [] then [] else [out_pending w])"])
  next
    case (Some w1)
    note w1 = take_next_inv [OF Cons.prems(2) Some Cons.prems(3)]
    show ?thesis
    proof (cases "\<exists>n. r = Inr n \<and> n \<noteq> 0")
      case True
      then obtain n where n: "r = Inr n" "n \<noteq> 0" by blast
      then have "watcher_flush script (accept_bytes n w1) = Some (keep, w')"
        using Cons.prems(1) Some by (simp add: watcher_flush.simps [of "Inr n # script"])
      moreover have "watcher_inv frames (accept_bytes n w1)" using accept_bytes_inv w1 by blast
      moreover have "\<forall>m. out_next (accept_bytes n w1) = Some m \<longrightarrow> m \<noteq> []"
        using w1 by (simp add: accept_bytes_def)
      ultimately show ?thesis by (rule Cons.IH)
    next
      case False
      then have "w' = w1" using Cons.prems(1) Some
        by (auto simp: watcher_flush.simps [of "r # script"] split: sum.splits if_splits)
      then show ?thesis using w1 by simp
    qed
  qed
qed

text \<open>The life of a watcher that is kept: snapshots arrive, and the stream is written.\<close>

datatype watcher_op = Enqueue "byte list" | Flush "nat io_result list"

fun watcher_run :: "watcher_op list \<Rightarrow> watcher \<Rightarrow> watcher option" where
  "watcher_run [] w = Some w"
| "watcher_run (Enqueue snapshot # ops) w = watcher_run ops (enqueue_latest snapshot w)"
| "watcher_run (Flush script # ops) w =
     (case watcher_flush script w of Some (True, w') \<Rightarrow> watcher_run ops w' | _ \<Rightarrow> None)"

fun op_frames :: "watcher_op list \<Rightarrow> byte list list" where
  "op_frames [] = []"
| "op_frames (Enqueue snapshot # ops) = snapshot # op_frames ops"
| "op_frames (Flush script # ops) = op_frames ops"

lemma watcher_run_inv:
  "watcher_run ops w = Some w' \<Longrightarrow> watcher_inv frames w \<Longrightarrow> \<forall>n. out_next w = Some n \<longrightarrow> n \<noteq> [] \<Longrightarrow>
   [] \<notin> set (op_frames ops) \<Longrightarrow> watcher_inv (frames @ op_frames ops) w'"
proof (induction ops w arbitrary: frames rule: watcher_run.induct)
  case (1 w)
  then show ?case by simp
next
  case (2 snapshot ops w)
  have "\<forall>n. out_next (enqueue_latest snapshot w) = Some n \<longrightarrow> n \<noteq> []"
    using "2.prems"(3,4) by (auto simp: enqueue_latest_def)
  moreover have "watcher_run ops (enqueue_latest snapshot w) = Some w'" "[] \<notin> set (op_frames ops)"
    "watcher_inv (frames @ [snapshot]) (enqueue_latest snapshot w)"
    using "2.prems" enqueue_latest_inv [of frames w snapshot] by (simp_all add: eq_commute [of "[]"])
  ultimately have "watcher_inv ((frames @ [snapshot]) @ op_frames ops) w'" by (intro "2.IH")
  then show ?case by simp
next
  case (3 script ops w)
  from "3.prems"(1) obtain w1 where f: "watcher_flush script w = Some (True, w1)" and r: "watcher_run ops w1 = Some w'"
    by (auto split: option.splits prod.splits bool.splits)
  note w1 = watcher_flush_inv [OF f "3.prems"(2,3)]
  from "3.IH" [OF f refl eqTrueI [OF TrueI] r] w1 "3.prems"(4) show ?case by simp
qed

section \<open>Properties\<close>

lemma retransmit_idle:
  "\<forall>s \<in> set xs. established s \<or> (case dtls_deadline s of None \<Rightarrow> True | Some t \<Rightarrow> now < t) \<Longrightarrow>
   retransmit W now i xs = xs"
proof (induction W now i xs rule: retransmit.induct)
  case (1 W now i xs)
  show ?case
  proof (cases "i < length xs")
    case True
    then have "xs ! i \<in> set xs" by simp
    then have "\<not> (\<not> established (xs ! i) \<and> (case dtls_deadline (xs ! i) of None \<Rightarrow> False | Some t \<Rightarrow> t \<le> now))"
      using "1.prems" by (fastforce split: option.splits)
    then show ?thesis
      using True "1.IH"(3) [OF True refl] "1.prems" by (subst retransmit.simps) (auto simp: Let_def)
  next
    case False
    then show ?thesis by (subst retransmit.simps) simp
  qed
qed

lemma next_wake_le:
  assumes "s \<in> set xs" "t \<in> set (session_deadlines lifetime s)"
  shows "next_wake lifetime next_reload cmds xs \<le> t"
proof -
  let ?inner = "earliest (concat (map (session_deadlines lifetime) xs)) next_reload"
  have "?inner \<le> t" using earliest_le [of "concat (map (session_deadlines lifetime) xs)" next_reload] assms by auto
  then show ?thesis using earliest_le [of "map (\<lambda>t. t + seconds 3) cmds" ?inner] by (simp add: next_wake_def)
qed

lemma next_wake_le_others:
  "next_wake lifetime next_reload cmds xs \<le> next_reload
   \<and> (\<forall>t \<in> set cmds. next_wake lifetime next_reload cmds xs \<le> t + seconds 3)"
proof -
  let ?inner = "earliest (concat (map (session_deadlines lifetime) xs)) next_reload"
  have "?inner \<le> next_reload" using earliest_le [of "concat (map (session_deadlines lifetime) xs)"] by simp
  then show ?thesis using earliest_le [of "map (\<lambda>t. t + seconds 3) cmds" ?inner] by (simp add: next_wake_def)
qed

text \<open>
  C33: The control worker sleeps neither too long nor too short. Before the instant it computes as its
  next wake-up nothing is due: no session has expired, no handshake is to be retransmitted, no
  configuration reload and no pending command is overdue; and that instant is one of the deadlines
  of the sessions, of the pending commands or of the reload.
\<close>

theorem next_wake_is_first_deadline:
  assumes "now < next_wake lifetime next_reload cmds xs" "0 < lifetime"
  shows "expire_sessions lifetime now xs = xs \<and> retransmit W now 0 xs = xs
    \<and> now < next_reload \<and> (\<forall>t \<in> set cmds. now - t < seconds 3)
    \<and> next_wake lifetime next_reload cmds xs \<in>
        {next_reload} \<union> (\<lambda>t. t + seconds 3) ` set cmds \<union> (\<Union>s \<in> set xs. set (session_deadlines lifetime s))"
proof -
  have due: "now < t" if "s \<in> set xs" "t \<in> set (session_deadlines lifetime s)" for s t
    using next_wake_le [OF that, of next_reload cmds] assms(1) by simp
  have "idle_valid now s \<and> lifetime_valid lifetime now s" if "s \<in> set xs" for s
    using due [OF that] session_alive_until [of now s] idle_limit_pos [of s] assms(2)
    by (fastforce simp: session_deadlines_def lifetime_valid_def split: option.splits)
  then have "expire_sessions lifetime now xs = xs" by (simp add: expire_sessions_def filter_id_conv)
  moreover have "retransmit W now 0 xs = xs"
    by (rule retransmit_idle) (use due in \<open>auto simp: session_deadlines_def split: option.splits\<close>)
  moreover have "now < next_reload" "\<forall>t \<in> set cmds. now - t < seconds 3"
    using next_wake_le_others [of lifetime next_reload cmds xs] assms(1) by (fastforce simp: seconds_def)+
  moreover have "next_wake lifetime next_reload cmds xs \<in>
        {next_reload} \<union> (\<lambda>t. t + seconds 3) ` set cmds \<union> (\<Union>s \<in> set xs. set (session_deadlines lifetime s))"
    using earliest_in [of "map (\<lambda>t. t + seconds 3) cmds" "earliest (concat (map (session_deadlines lifetime) xs)) next_reload"]
      earliest_in [of "concat (map (session_deadlines lifetime) xs)" next_reload]
    by (auto simp: next_wake_def)
  ultimately show ?thesis by blast
qed

theorem next_wake_is_first_deadline_witness:
  "expire_sessions (seconds 3600) 7 [example_session] = [example_session]
   \<and> retransmit example_wolf 7 0 [example_session] = [example_session]"
proof -
  have "(7 :: nat) < next_wake (seconds 3600) (seconds 30) [4] [example_session]"
    by (simp add: next_wake_def session_deadlines_def example_session_def session_new_def idle_limit_def
        SESSION_IDLE_TIMEOUT_def seconds_def)
  from next_wake_is_first_deadline [OF this, of example_wolf] show ?thesis by (simp add: seconds_def)
qed

text \<open>
  C10: A reload that succeeds leaves exactly the sessions that are still authorised: established, with
  the fingerprint that the new bindings bind to their address and to no other, and with an unchanged
  login; every such session is kept, in order, and the new bindings are valid. A reload that fails
  changes neither the sessions nor the bindings and logins in force.
\<close>

theorem reload_keeps_exactly_the_authorized:
  assumes "reload_step fs path c now created ctl xs = (update, ctl', ys)"
  shows "(case update of
      None \<Rightarrow> ys = xs \<and> known_bindings ctl' = known_bindings ctl \<and> known_logins ctl' = known_logins ctl
    | Some (bs, logins, a) \<Rightarrow>
        known_bindings ctl' = bs \<and> known_logins ctl' = logins \<and> created = Inr a
        \<and> (\<exists>cidr. bindings_ok (vpn_address c) cidr bs)
        \<and> ys = filter (\<lambda>s. established s \<and> logins (address s) = known_logins ctl (address s)
             \<and> (\<exists>f. fingerprint s = Some f \<and> bound_address bs f = Some (address s))) xs)"
proof (cases update)
  case None
  then show ?thesis
    using assms by (auto simp: reload_step_def Let_def split: sum.splits prod.splits)
next
  case (Some u)
  obtain bs logins a where u: "u = (bs, logins, a)" by (metis prod_cases3)
  then have r: "reload_config fs path (vpn_address c) (vpn_network c) = Inr (bs, logins)" "created = Inr a"
    and ys: "ys = filter (still_authorized bs (known_logins ctl) logins) xs"
    and ctl': "known_bindings ctl' = bs" "known_logins ctl' = logins"
    using assms Some by (auto simp: reload_step_def Let_def and_then_eq_Inr split: sum.splits prod.splits)
  obtain entries where "validate_client_bindings entries (vpn_address c) (vpn_network c) = Inr bs"
    using r(1) by (auto simp: reload_config_def and_then_eq_Inr)
  then have ok: "\<exists>cidr. bindings_ok (vpn_address c) cidr bs" using validate_ok by blast
  then have d: "distinct (map fst bs)" "distinct (map snd bs)" by (auto simp: bindings_ok_def)
  have "still_authorized bs (known_logins ctl) logins s \<longleftrightarrow>
      established s \<and> logins (address s) = known_logins ctl (address s)
        \<and> (\<exists>f. fingerprint s = Some f \<and> bound_address bs f = Some (address s))" for s :: "'a session"
    using binding_of_bound [OF d] by (auto simp: still_authorized_def split: option.splits)
  then have "ys = filter (\<lambda>s. established s \<and> logins (address s) = known_logins ctl (address s)
      \<and> (\<exists>f. fingerprint s = Some f \<and> bound_address bs f = Some (address s))) xs"
    unfolding ys by (intro filter_cong) simp_all
  then show ?thesis using Some u ctl' r(2) ok by simp
qed

theorem reload_keeps_exactly_the_authorized_witness:
  "snd (snd (reload_step (\<lambda>_. Inl (error_from_kind NotFound)) ''vpn.ini'' example_server 9 (Inr example_dtls)
      \<lparr>known_bindings = [], known_logins = Map.empty, next_config_reload = 5\<rparr> [example_session])) = [example_session]"
proof -
  let ?ctl = "\<lparr>known_bindings = [], known_logins = Map.empty, next_config_reload = 5\<rparr>"
  obtain update ctl' ys where r: "reload_step (\<lambda>_. Inl (error_from_kind NotFound)) ''vpn.ini'' example_server 9
      (Inr example_dtls) ?ctl [example_session] = (update, ctl', ys)" by (metis prod_cases3)
  moreover have "update = None" using r by (simp add: reload_step_def Let_def reload_config_def parse_ini_entries_def)
  ultimately show ?thesis using reload_keeps_exactly_the_authorized [OF r] by simp
qed

text \<open>
  C34: What a watcher receives over its stream, however the writes are split and delayed, is a sequence
  of whole snapshots followed by a part of one more, in the order in which they were published:
  a slow watcher skips snapshots but never receives a torn or reordered one.
\<close>

theorem watcher_receives_whole_snapshots:
  assumes "watcher_run ops (watcher_new snapshot) = Some w" "[] \<notin> set (snapshot # op_frames ops)"
  shows "\<exists>sent part. out_stream w = concat sent @ part
    \<and> (part = [] \<and> subseq sent (snapshot # op_frames ops)
       \<or> (\<exists>rest. subseq (sent @ [part @ rest]) (snapshot # op_frames ops)))"
proof -
  have "watcher_inv ([snapshot] @ op_frames ops) w"
    by (rule watcher_run_inv [OF assms(1) watcher_new_inv]) (use assms(2) in \<open>auto simp: watcher_new_def\<close>)
  then obtain sent where st: "out_stream w = concat sent @ take (out_written w) (out_pending w)"
    and sub: "subseq (sent @ (if out_pending w = [] then [] else [out_pending w]) @ opt_list (out_next w))
        (snapshot # op_frames ops)"
    by (auto simp: watcher_inv_def)
  have "subseq (sent @ (if out_pending w = [] then [] else [out_pending w])) (snapshot # op_frames ops)"
    using sub subseq_take_left [of "sent @ (if out_pending w = [] then [] else [out_pending w])"] by simp
  then show ?thesis
    using st by (intro exI [of _ sent] exI [of _ "take (out_written w) (out_pending w)"])
      (auto split: if_splits intro: exI [of _ "drop (out_written w) (out_pending w)"])
qed

theorem watcher_receives_whole_snapshots_witness:
  "\<exists>w sent part. watcher_run [Flush [Inr 1, Inl (error_from_kind WouldBlock)], Enqueue [3], Enqueue [4, 5], Flush [Inr 1, Inr 2]]
      (watcher_new [1, 2]) = Some w
    \<and> out_stream w = concat sent @ part
    \<and> (part = [] \<and> subseq sent ([1, 2] # [[3], [4, 5]]) \<or> (\<exists>rest. subseq (sent @ [part @ rest]) ([1, 2] # [[3], [4, 5]])))"
proof -
  let ?ops = "[Flush [Inr 1, Inl (error_from_kind WouldBlock)], Enqueue [3], Enqueue [4, 5], Flush [Inr 1, Inr 2]]"
  obtain w where w: "watcher_run ?ops (watcher_new [1, 2]) = Some w"
    by (simp add: watcher_new_def watcher_flush.simps take_next_def accept_bytes_def enqueue_latest_def)
  from watcher_receives_whole_snapshots [OF w] w show ?thesis by auto
qed

text \<open>
  The command \<open>DISCONNECT\<close> with an address removes exactly the established sessions of that address,
  keeps all others in order and reports how many were removed; the other commands leave the sessions
  alone.
\<close>

lemma disconnect_removes_exactly_the_address:
  "handle_command now (''DISCONNECT '' @ show_ipv4 a) xs =
     (Reply (''{'' @ quoted ''ok'' @ '':true,'' @ quoted ''disconnected'' @ '':''
        @ show_nat (count_where (\<lambda>s. established s \<and> address s = a) xs) @ ''}'' @ [newline]),
      filter (\<lambda>s. \<not> (established s \<and> address s = a)) xs)"
proof -
  have "length xs - length (filter (\<lambda>s. \<not> (established s \<and> address s = a)) xs)
      = count_where (\<lambda>s. established s \<and> address s = a) xs"
    using sum_length_filter_compl [of "\<lambda>s. established s \<and> address s = a" xs] by (simp add: count_where_def)
  moreover have "strip_prefix ''DISCONNECT '' (''DISCONNECT '' @ show_ipv4 a) = Some (show_ipv4 a)"
    by (rule strip_prefix_append)
  ultimately show ?thesis
    by (simp add: handle_command_def parse_show_ipv4 disconnect_sessions_def Let_def)
qed

end
