(* ===== verification/Vpn_Server.thy ===== *)
theory Vpn_Server
  imports Vpn_Server_Control
begin

text \<open>
  The running server (\<open>run\<close> of \<open>src/src/server.rs\<close>): the workers share the session list behind one
  mutex and the control worker sends reloaded bindings to the decrypting worker through a channel.
  A step is one critical section of one worker (or one receipt from the channel), so the reachable
  states are those of every interleaving of the workers. What the environment decides (the clock,
  datagrams, the TUN device, the socket, the contents of the configuration file) varies freely
  from step to step.
\<close>

section \<open>State\<close>

record 'w server =
  decrypting :: "'w decrypt_state"
  controlling :: control_state
  reload_channel :: "'w reload_update list"

definition sessions_of :: "'w server \<Rightarrow> 'w session list" where
  "sessions_of s = session_list (decrypting s)"

definition with_sessions :: "'w session list \<Rightarrow> 'w server \<Rightarrow> 'w server" where
  "with_sessions xs s = s\<lparr>decrypting := decrypting s\<lparr>session_list := xs\<rparr>\<rparr>"

definition server_start :: "server_config \<Rightarrow> 'w dtls \<Rightarrow> instant \<Rightarrow> 'w server" where
  "server_start c stateless_acceptor now =
     \<lparr>decrypting = \<lparr>acceptor = stateless_acceptor, session_list = [], bindings_now = config_bindings c,
                    logins_now = config_logins c, limiter = limiter_new 30 (seconds 60) (seconds 600)\<rparr>,
      controlling = \<lparr>known_bindings = config_bindings c, known_logins = config_logins c,
                     next_config_reload = now + config_reload_interval c\<rparr>,
      reload_channel = []\<rparr>"

text \<open>The critical section of the control worker: commands, retransmissions, expiry.\<close>

definition control_section :: "'w wolfssl \<Rightarrow> server_config \<Rightarrow> instant \<Rightarrow>
    (pending_command \<times> string io_result list) list \<Rightarrow> 'w session list \<Rightarrow>
    (control_reply list \<times> pending_command list \<times> 'w session list) option" where
  "control_section W c now commands xs =
     map_option (\<lambda>(replies, kept, ys).
         (replies, kept, expire_sessions (max_session_lifetime c) now (retransmit W now 0 ys)))
       (process_commands now commands xs)"

text \<open>
  The result of \<open>run\<close> after the workers have been joined, in the order of the \<open>and\<close> chain: the first error.
\<close>

fun first_error :: "unit io_result list \<Rightarrow> unit io_result" where
  "first_error [] = Inr ()"
| "first_error (Inl e # rs) = Inl e"
| "first_error (Inr _ # rs) = first_error rs"

section \<open>Steps\<close>

text \<open>The contents the configuration file has while the server runs are \<open>contents\<close>.\<close>

inductive server_step :: "'w wolfssl \<Rightarrow> 's udp_socket \<Rightarrow> server_config \<Rightarrow> string \<Rightarrow> file_system set \<Rightarrow> 'w server \<Rightarrow> 'w server \<Rightarrow> bool"
  for W send c path contents where
  read_established:
    "read_sessions W c (logins_now (decrypting s)) now tun (sessions_of s) = (xs, written, e) \<Longrightarrow>
     server_step W send c path contents s (with_sessions xs s)"
| remove_replaced:
    "server_step W send c path contents s (with_sessions (dedupe_sessions (sessions_of s)) s)"
| purge_limiter:
    "server_step W send c path contents s
       (s\<lparr>decrypting := decrypting s\<lparr>limiter := purge now (limiter (decrypting s))\<rparr>\<rparr>)"
| receive_update:
    "reload_channel s = u # us \<Longrightarrow>
     server_step W send c path contents s (s\<lparr>decrypting := apply_updates [u] (decrypting s), reload_channel := us\<rparr>)"
| datagram:
    "handle_datagram W c now peer packet created (decrypting s) = (e, st) \<Longrightarrow>
     server_step W send c path contents s (s\<lparr>decrypting := st\<rparr>)"
| encrypt_packet:
    "server_step W send c path contents s (with_sessions (route_packet W rt now packet (sessions_of s)) s)"
| encrypt_flush:
    "server_step W send c path contents s (with_sessions (flush_pending W now (sessions_of s)) s)"
| udp_send:
    "server_step W send c path contents s (with_sessions (fst (udp_write_pass send now sock (sessions_of s))) s)"
| control_work:
    "control_section W c now commands (sessions_of s) = Some (replies, kept, xs) \<Longrightarrow>
     server_step W send c path contents s (with_sessions xs s)"
| control_reload:
    "fs \<in> contents \<Longrightarrow>
     reload_step fs path c now created (controlling s) (sessions_of s) = (update, ctl, xs) \<Longrightarrow>
     server_step W send c path contents s
       (with_sessions xs s\<lparr>controlling := ctl, reload_channel := reload_channel s @ opt_list update\<rparr>)"

lemma server_simps [simp]:
  "sessions_of (with_sessions xs s) = xs"
  "bindings_now (decrypting (with_sessions xs s)) = bindings_now (decrypting s)"
  "logins_now (decrypting (with_sessions xs s)) = logins_now (decrypting s)"
  "controlling (with_sessions xs s) = controlling s"
  "reload_channel (with_sessions xs s) = reload_channel s"
  "sessions_of (s\<lparr>controlling := ctl\<rparr>) = sessions_of s"
  "sessions_of (s\<lparr>reload_channel := us\<rparr>) = sessions_of s"
  "sessions_of (s\<lparr>decrypting := st\<rparr>) = session_list st"
  by (simp_all add: sessions_of_def with_sessions_def)

section \<open>The invariant\<close>

text \<open>A client that is established is bound to its address by bindings of a set \<open>B\<close>.\<close>

definition ident_bound :: "bindings set \<Rightarrow> ident \<Rightarrow> bool" where
  "ident_bound B i = (case i of (p, a, f, e, u, t) \<Rightarrow>
     e \<longrightarrow> (\<exists>bs \<in> B. \<exists>g. f = Some g \<and> (a, g) \<in> set bs))"

lemma ident_bound_iff:
  "ident_bound B (identity s) \<longleftrightarrow>
     (established s \<longrightarrow> (\<exists>bs \<in> B. \<exists>g. fingerprint s = Some g \<and> (address s, g) \<in> set bs))"
  by (simp add: ident_bound_def identity_def)

definition server_inv :: "server_config \<Rightarrow> bindings set \<Rightarrow> 'w server \<Rightarrow> bool" where
  "server_inv c B s \<longleftrightarrow>
     sessions_inv (max_clients c) (max_pending_handshakes c) (sessions_of s)
     \<and> (\<forall>t \<in> set (sessions_of s). ident_bound B (identity t))
     \<and> bindings_now (decrypting s) \<in> B \<and> known_bindings (controlling s) \<in> B
     \<and> (\<forall>(bs, logins, a) \<in> set (reload_channel s). bs \<in> B)"

text \<open>The bindings that may be in force: those of the start and those a reload accepts.\<close>

definition possible_bindings :: "server_config \<Rightarrow> string \<Rightarrow> file_system set \<Rightarrow> bindings set" where
  "possible_bindings c path contents =
     insert (config_bindings c)
       {bs. \<exists>fs \<in> contents. \<exists>logins. reload_config fs path (vpn_address c) (vpn_network c) = Inr (bs, logins)}"

text \<open>The steps that only work inside sessions or remove some of them.\<close>

lemma server_inv_shrink:
  assumes "server_inv c B s" "identities xs \<subseteq># identities (sessions_of s)"
  shows "server_inv c B (with_sessions xs s)"
proof -
  have "\<forall>i \<in># identities (sessions_of s). ident_bound B i"
    using assms(1) by (simp add: server_inv_def identities_def)
  then have "\<forall>i \<in># identities xs. ident_bound B i" using assms(2) by (meson mset_subset_eqD)
  then have "\<forall>t \<in> set xs. ident_bound B (identity t)" by (simp add: identities_def)
  then show ?thesis
    using assms sessions_inv_mono [OF assms(2)] by (simp add: server_inv_def)
qed

lemma control_section_shrinks:
  assumes "control_section W c now commands xs = Some (replies, kept, zs)"
  shows "identities zs \<subseteq># identities xs"
proof -
  obtain ys where "process_commands now commands xs = Some (replies, kept, ys)"
    and zs: "zs = expire_sessions (max_session_lifetime c) now (retransmit W now 0 ys)"
    using assms by (auto simp: control_section_def)
  then have "identities ys \<subseteq># identities xs" by (intro process_commands_shrinks)
  moreover have "identities zs \<subseteq># identities (retransmit W now 0 ys)" unfolding zs by (rule expire.shrinks)
  ultimately show ?thesis using retransmission.shrinks [of W now ys] by (meson subset_mset.order_trans)
qed

lemma read_step_inv:
  assumes "read_sessions W c logins now tun (sessions_of s) = (xs, written, e)" "server_inv c B s"
  shows "server_inv c B (with_sessions xs s)"
proof -
  have rp: "list_all2 (read_progress logins) (sessions_of s) xs" using read_sessions_result [OF assms(1)] by blast
  have "\<forall>t \<in> set xs. ident_bound B (identity t)"
  proof
    fix t assume "t \<in> set xs"
    then obtain u where u: "u \<in> set (sessions_of s)" "read_progress logins u t"
      using rp by (metis list_all2_conv_all_nth in_set_conv_nth)
    then have "ident_bound B (identity u)" using assms(2) by (simp add: server_inv_def)
    then show "ident_bound B (identity t)" using u(2) by (simp add: ident_bound_iff read_progress_def)
  qed
  then show ?thesis using assms(2) read_progress_inv [OF rp] by (simp add: server_inv_def)
qed

lemma handle_datagram_bindings:
  assumes "handle_datagram W c now peer packet created st = (e, st')"
  shows "bindings_now st' = bindings_now st"
proof -
  have fin: "bindings_now (process_session W c now i u) = bindings_now u" for i u
    by (simp add: process_session_def step_handshake_def finish_handshake_def Let_def
        split: prod.splits sum.splits bool.splits option.splits)
  have ad: "bindings_now u = bindings_now st" if "admit_peer W c now peer packet created st = (e', b, u)" for e' b u
    using that by (auto simp: admit_peer_def admit_counted_def append_session_def renew_acceptor_def Let_def
        split: option.splits prod.splits bool.splits sum.splits rate_limit_decision.splits if_splits)
  show ?thesis
    using assms by (auto simp: handle_datagram_def Let_def fin dest!: ad
        split: option.splits prod.splits bool.splits if_splits)
qed

lemma datagram_step_inv:
  assumes h: "handle_datagram W c now peer packet created (decrypting s) = (e, st)"
    and inv: "server_inv c B s" and pos: "0 < max_pending_handshakes c"
  shows "server_inv c B (s\<lparr>decrypting := st\<rparr>)"
proof -
  have "sessions_inv (max_clients c) (max_pending_handshakes c) (session_list st)"
    using handle_datagram_inv [OF _ pos, of "decrypting s" W now peer packet created] h inv
    by (simp add: server_inv_def sessions_of_def)
  moreover have "\<forall>t \<in> set (session_list st). ident_bound B (identity t)"
  proof
    fix t assume t: "t \<in> set (session_list st)"
    show "ident_bound B (identity t)"
    proof (cases "established t")
      case True
      then consider "identity t \<in> identity ` set (sessions_of s)"
        | "authorized_session (bindings_now (decrypting s)) (logins_now (decrypting s)) t"
        using handle_datagram_new [of t W c now peer packet created "decrypting s"] t h
        by (auto simp: sessions_of_def)
      then show ?thesis
      proof cases
        case 1
        then show ?thesis using inv by (auto simp: server_inv_def)
      next
        case 2
        then show ?thesis using inv by (auto simp: authorized_session_def ident_bound_iff server_inv_def)
      qed
    qed (simp add: ident_bound_iff)
  qed
  ultimately show ?thesis
    using inv handle_datagram_bindings [OF h] by (simp add: server_inv_def)
qed

lemma reload_step_inv:
  assumes fs: "fs \<in> contents"
    and r: "reload_step fs path c now created (controlling s) (sessions_of s) = (update, ctl, xs)"
    and inv: "server_inv c (possible_bindings c path contents) s"
  shows "server_inv c (possible_bindings c path contents)
    (with_sessions xs s\<lparr>controlling := ctl, reload_channel := reload_channel s @ opt_list update\<rparr>)"
proof -
  have "server_inv c (possible_bindings c path contents) (with_sessions xs s)"
    using server_inv_shrink [OF inv, of xs] reloaded.shrinks [of fs path c now created "controlling s" "sessions_of s"] r
    by simp
  moreover have "known_bindings ctl \<in> possible_bindings c path contents
      \<and> (\<forall>(bs, logins, a) \<in> set (opt_list update). bs \<in> possible_bindings c path contents)"
  proof (cases update)
    case None
    then have "known_bindings ctl = known_bindings (controlling s)"
      using r by (auto simp: reload_step_def Let_def split: sum.splits prod.splits)
    then show ?thesis using None inv by (simp add: server_inv_def)
  next
    case (Some u)
    obtain bs logins a where u: "u = (bs, logins, a)" by (metis prod_cases3)
    then have "reload_config fs path (vpn_address c) (vpn_network c) = Inr (bs, logins)" "known_bindings ctl = bs"
      using r Some by (auto simp: reload_step_def Let_def and_then_eq_Inr split: sum.splits prod.splits)
    then show ?thesis using fs Some u by (auto simp: possible_bindings_def)
  qed
  ultimately show ?thesis by (auto simp: server_inv_def)
qed

lemma server_step_inv:
  assumes "server_step W send c path contents s t" "server_inv c (possible_bindings c path contents) s"
    and "0 < max_pending_handshakes c"
  shows "server_inv c (possible_bindings c path contents) t"
  using assms(1,2)
proof cases
  case (read_established now tun xs written e)
  then show ?thesis using read_step_inv assms(2) by blast
next
  case remove_replaced
  then show ?thesis using server_inv_shrink [OF assms(2) dedupe.shrinks] by simp
next
  case (purge_limiter now)
  then show ?thesis using assms(2) by (simp add: server_inv_def sessions_of_def)
next
  case (receive_update u us)
  then show ?thesis using assms(2) by (cases u) (auto simp: server_inv_def sessions_of_def)
next
  case (datagram now peer packet created e st)
  then show ?thesis using datagram_step_inv [OF _ assms(2,3)] by blast
next
  case (encrypt_packet rt now packet)
  then show ?thesis using server_inv_shrink [OF assms(2)] by simp
next
  case (encrypt_flush now)
  then show ?thesis using server_inv_shrink [OF assms(2)] by simp
next
  case (udp_send now sock)
  then show ?thesis using server_inv_shrink [OF assms(2) udp_writer.shrinks] by simp
next
  case (control_work now commands replies kept xs)
  then show ?thesis using server_inv_shrink [OF assms(2) control_section_shrinks] by blast
next
  case (control_reload fs now created update ctl xs)
  then show ?thesis using reload_step_inv [OF _ _ assms(2)] by blast
qed


interpretation running_server: step_invariant "server_step W send c path contents"
    "\<lambda>s. 0 < max_pending_handshakes c \<longrightarrow> server_inv c (possible_bindings c path contents) s"
  for W send c path contents
  by unfold_locales (use server_step_inv in blast)

lemma server_start_inv: "server_inv c (possible_bindings c path contents) (server_start c a now)"
  by (simp add: server_inv_def server_start_def sessions_of_def sessions_inv_def pending_def possible_bindings_def)

lemma possible_bindings_ok:
  assumes "load_server_config bind_control bind_udp server clients = Inr c"
    and "bs \<in> possible_bindings c path contents"
  shows "bindings_ok (vpn_address c) (network_address c, network_prefix c) bs"
proof -
  note parts = load_server_config_parts [OF assms(1)]
  have net: "parse_ipv4_cidr (vpn_network c) = Inr (network_address c, network_prefix c)"
    using server_network_parsed [OF parts(4)] by blast
  obtain entries where "validate_client_bindings entries (vpn_address c) (vpn_network c) = Inr bs"
    using assms(2) parts(6) by (auto simp: possible_bindings_def reload_config_def and_then_eq_Inr)
  then show ?thesis using validate_ok net by fastforce
qed

section \<open>Properties\<close>

text \<open>
  C1: Whatever the workers do and in whatever order, from the start of a server with a valid
  configuration on: no two sessions have the same peer, at most the configured number of handshakes
  is pending, the list is shorter than the two limits together, a logged-in session is established,
  and an established session has an address inside the VPN network, different from the server's,
  that the configuration in force at the start or accepted by some reload binds to its
  certificate's fingerprint.
\<close>

theorem sessions_consistent_in_every_interleaving:
  assumes "load_server_config bind_control bind_udp server clients = Inr c"
    and "(server_step W send c path contents)\<^sup>*\<^sup>* (server_start c a now) s"
  shows "distinct (map peer_addr (sessions_of s))
    \<and> count_where (\<lambda>t. \<not> established t) (sessions_of s) \<le> max_pending_handshakes c
    \<and> length (sessions_of s) < max_clients c + max_pending_handshakes c
    \<and> (\<forall>t \<in> set (sessions_of s). authenticated t \<longrightarrow> established t)
    \<and> (\<forall>t \<in> set (sessions_of s). established t \<longrightarrow>
         ipv4_in_cidr (address t) (network_address c) (network_prefix c) \<and> address t \<noteq> vpn_address c
         \<and> (\<exists>bs \<in> possible_bindings c path contents. \<exists>f. fingerprint t = Some f \<and> (address t, f) \<in> set bs))"
proof -
  have lim: "0 < max_clients c" "0 < max_pending_handshakes c"
    using server_limits_range [OF load_server_config_parts(2) [OF assms(1)]] by simp_all
  have inv: "server_inv c (possible_bindings c path contents) s"
    using running_server.steps_preserve [OF assms(2)] server_start_inv lim(2) by blast
  then have si: "sessions_inv (max_clients c) (max_pending_handshakes c) (sessions_of s)"
    and b: "\<forall>t \<in> set (sessions_of s). ident_bound (possible_bindings c path contents) (identity t)"
    by (simp_all add: server_inv_def)
  have "ipv4_in_cidr (address t) (network_address c) (network_prefix c) \<and> address t \<noteq> vpn_address c
      \<and> (\<exists>bs \<in> possible_bindings c path contents. \<exists>f. fingerprint t = Some f \<and> (address t, f) \<in> set bs)"
    if t: "t \<in> set (sessions_of s)" "established t" for t
  proof -
    obtain bs f where bs: "bs \<in> possible_bindings c path contents" "fingerprint t = Some f" "(address t, f) \<in> set bs"
      using b t by (auto simp: ident_bound_iff)
    then show ?thesis using possible_bindings_ok [OF assms(1) bs(1)] by (fastforce simp: bindings_ok_def)
  qed
  then show ?thesis using si lim by (auto simp: sessions_inv_def pending_def ident_ok_iff)
qed

theorem sessions_consistent_in_every_interleaving_witness:
  "\<exists>c s. load_server_config (\<lambda>_ _. Inr ()) (\<lambda>_ _. Inr ()) example_settings [(''10.8.1.2'', example_fingerprint)] = Inr c
     \<and> s = (server_start c example_dtls 0)\<lparr>decrypting :=
             snd (handle_datagram example_wolf c 1 example_peer [1] (Inr example_dtls)
                    (decrypting (server_start c example_dtls 0)))\<rparr>
     \<and> length (sessions_of s) < max_clients c + max_pending_handshakes c
     \<and> distinct (map peer_addr (sessions_of s))"
proof -
  obtain c where c: "load_server_config (\<lambda>_ _. Inr ()) (\<lambda>_ _. Inr ()) example_settings
         [(''10.8.1.2'', example_fingerprint)] = Inr c"
    using example_config by blast
  let ?start = "server_start c example_dtls 0"
  let ?s = "?start\<lparr>decrypting := snd (handle_datagram example_wolf c 1 example_peer [1] (Inr example_dtls) (decrypting ?start))\<rparr>"
  have "server_step example_wolf (\<lambda>st _ _. (Inr 0, st)) c ''vpn.ini'' {} ?start ?s"
    by (rule server_step.datagram) (rule surjective_pairing)
  then have "(server_step example_wolf (\<lambda>st _ _. (Inr 0, st :: unit)) c ''vpn.ini'' {})\<^sup>*\<^sup>* ?start ?s" by blast
  from sessions_consistent_in_every_interleaving [OF c this] c show ?thesis by blast
qed


text \<open>
  A server that starts with a client and reads an empty configuration; the client connects after
  its binding was revoked and before the decrypting worker has received the update.
\<close>

definition race_config :: server_config where
  "race_config = example_server\<lparr>config_logins := Map.empty\<rparr>"

definition race_acceptor :: "byte list list dtls" where
  "race_acceptor = example_dtls\<lparr>callback_io := Some (dtls_io_new example_peer)\<rparr>"

definition race_session :: "byte list list session" where
  "race_session = session_new (example_dtls\<lparr>callback_io := Some (io_use_queued_send
      (empty_queue SESSION_TX_QUEUE_CAPACITY) signal_new ((dtls_io_new example_peer)\<lparr>incoming := [[1]]\<rparr>))\<rparr>) example_peer 1"

lemma race_network: "parse_ipv4_cidr ''10.8.1.0/24'' = Inr (0x0A080100, 24)"
  by (simp add: ipv4_eval)

lemma race_reload:
  "reload_config (\<lambda>_. Inr []) path (vpn_address race_config) (vpn_network race_config) = Inr ([], Map.empty)"
  by (simp add: reload_config_def parse_ini_entries_def parse_ini_text_def lines_def client_logins_def
      validate_client_bindings_def race_config_def example_server_def race_network)

lemma race_admit:
  "\<exists>l. admit_peer example_wolf race_config 1 example_peer [1] (Inr example_dtls)
     (decrypting (server_start race_config race_acceptor 0)) =
   (None, True, (decrypting (server_start race_config race_acceptor 0))
      \<lparr>limiter := l, acceptor := example_dtls, session_list := [race_session]\<rparr>)"
  by (simp add: admit_peer_def peer_ipv4_def AF_INET_def server_start_def check_ban_def limiter_new_def
      set_incoming_peer_def set_peer_def peer_check_def accept_stateless_def record_attempt_def admit_counted_def append_session_def
      with_io_def use_queued_send_def evict_oldest_def pending_def race_session_def race_acceptor_def race_config_def
      example_server_def example_dtls_def example_wolf_def SUCCESS_def dtls_io_new_def MAX_PENDING_PER_IP_def Let_def)
     (simp add: example_peer_def)


lemma race_authorized:
  "authorize example_wolf race_config (config_bindings race_config) race_session
     = Some (0x0A080102, replicate 64 (CHR ''0''))"
proof -
  have "peer_ipv4 (peer_addr race_session) = Some 0xC0A80001"
    by (simp add: race_session_def session_new_def peer_ipv4_def AF_INET_def example_peer_def)
  moreover have "peer_certificate_allows_source_ip example_wolf ip (conn race_session) = Inr True" for ip
    by (simp add: peer_certificate_allows_source_ip_def example_wolf_def certificate_source_policy_allows_def)
  moreover have "bound_address (config_bindings race_config) (replicate 64 (CHR ''0'')) = Some 0x0A080102"
    "\<not> verify_client_san_ip race_config"
    by (simp_all add: bound_address_def race_config_def example_server_def)
  ultimately show ?thesis by (simp only: authorize_def example_fingerprint_digest sum.case option.case) simp
qed

lemma race_handshake: "handshake example_wolf (conn race_session) = (Inr True, conn race_session)"
  by (simp add: race_session_def session_new_def handshake_def example_wolf_def example_dtls_def SUCCESS_def)

lemma race_datagram:
  "\<exists>l. handle_datagram example_wolf race_config 1 example_peer [1] (Inr example_dtls)
     (decrypting (server_start race_config race_acceptor 0)) =
   (None, (decrypting (server_start race_config race_acceptor 0))
      \<lparr>limiter := l, acceptor := example_dtls,
       session_list := [establish example_wolf Map.empty 1 0x0A080102 (replicate 64 (CHR ''0'')) race_session]\<rparr>)"
proof -
  let ?st = "decrypting (server_start race_config race_acceptor 0)"
  let ?new = "establish example_wolf Map.empty 1 0x0A080102 (replicate 64 (CHR ''0'')) race_session"
  obtain l where a: "admit_peer example_wolf race_config 1 example_peer [1] (Inr example_dtls) ?st =
    (None, True, ?st\<lparr>limiter := l, acceptor := example_dtls, session_list := [race_session]\<rparr>)"
    using race_admit by blast
  have s: "session_list ?st = []" "bindings_now ?st = config_bindings race_config" "logins_now ?st = Map.empty"
    by (simp_all add: server_start_def race_config_def)
  have self: "\<not> is_duplicate 0x0A080102 (peer_addr ?new) ?new" by (simp add: is_duplicate_def same_peer_def)
  have e: "\<not> established race_session" by (simp add: race_session_def session_new_def)
  have "remove_duplicates 0x0A080102 (peer_addr ?new) 0 [?new] = [?new]"
    using self by (simp add: remove_duplicates.simps)
  then have "finish_handshake example_wolf race_config 1 0 0
      (?st\<lparr>limiter := l, acceptor := example_dtls, session_list := [race_session]\<rparr>) =
    ?st\<lparr>limiter := l, acceptor := example_dtls, session_list := [?new]\<rparr>"
    using race_authorized s self
    by (simp add: finish_handshake_def Let_def) (simp add: race_config_def example_server_def)
  moreover have "race_session\<lparr>conn := conn race_session\<rparr> = race_session" by simp
  ultimately show ?thesis
    using a s e race_handshake
    by (intro exI [of _ l]) (simp add: handle_datagram_def process_session_def step_handshake_def Let_def)
qed

text \<open>
  C37: Revoking a binding does not always end the client's access: the control worker removes revoked
  sessions before it sends the new bindings, and the decrypting worker may complete a handshake
  under the old ones in between. A server can reach a state in which nothing is left to be
  delivered, both workers know the new bindings, and a logged-in session exists whose fingerprint
  they do not contain; it lives until the next reload.
\<close>

theorem revoked_client_can_stay_logged_in:
  "\<exists>s. (server_step example_wolf send race_config path {\<lambda>_. Inr []})\<^sup>*\<^sup>* (server_start race_config race_acceptor 0) s
     \<and> reload_channel s = [] \<and> bindings_now (decrypting s) = known_bindings (controlling s)
     \<and> (\<exists>t f. t \<in> set (sessions_of s) \<and> authenticated t \<and> fingerprint t = Some f
           \<and> bound_address (known_bindings (controlling s)) f = None)"
proof -
  let ?step = "server_step example_wolf send race_config path {\<lambda>_. Inr []}"
  let ?s0 = "server_start race_config race_acceptor 0"
  let ?new = "establish example_wolf Map.empty 1 0x0A080102 (replicate 64 (CHR ''0'')) race_session"
  obtain ctl where r: "reload_step (\<lambda>_. Inr []) path race_config 1 (Inr race_acceptor) (controlling ?s0) (sessions_of ?s0)
      = (Some ([], Map.empty, race_acceptor), ctl, [])" and ctl: "known_bindings ctl = []"
    using race_reload [of path] by (simp add: reload_step_def Let_def server_start_def sessions_of_def)
  let ?s1 = "with_sessions [] ?s0\<lparr>controlling := ctl, reload_channel := reload_channel ?s0 @ opt_list (Some ([], Map.empty, race_acceptor))\<rparr>"
  have 1: "?step ?s0 ?s1" by (rule server_step.control_reload [OF _ r]) simp
  have d1: "decrypting ?s1 = decrypting ?s0" by (simp add: with_sessions_def server_start_def)
  obtain l where h: "handle_datagram example_wolf race_config 1 example_peer [1] (Inr example_dtls) (decrypting ?s0)
      = (None, (decrypting ?s0)\<lparr>limiter := l, acceptor := example_dtls, session_list := [?new]\<rparr>)"
    using race_datagram by blast
  let ?s2 = "?s1\<lparr>decrypting := (decrypting ?s0)\<lparr>limiter := l, acceptor := example_dtls, session_list := [?new]\<rparr>\<rparr>"
  have 2: "?step ?s1 ?s2" by (rule server_step.datagram) (use h d1 in simp)
  let ?s3 = "?s2\<lparr>decrypting := apply_updates [([], Map.empty, race_acceptor)] (decrypting ?s2), reload_channel := []\<rparr>"
  have 3: "?step ?s2 ?s3" by (rule server_step.receive_update) (simp add: server_start_def)
  have "?step\<^sup>*\<^sup>* ?s0 ?s3" 
    by (rule converse_rtranclp_into_rtranclp [of ?step, OF 1])
      (rule converse_rtranclp_into_rtranclp [of ?step, OF 2 r_into_rtranclp [of ?step, OF 3]])
  moreover have "sessions_of ?s3 = [?new]" "authenticated ?new" "fingerprint ?new = Some (replicate 64 (CHR ''0''))"
    by (simp_all add: sessions_of_def establish_def Let_def)
  moreover have "bindings_now (decrypting ?s3) = []" "controlling ?s3 = ctl" "reload_channel ?s3 = []" by simp_all
  moreover have "bound_address [] f = None" for f by (simp add: bound_address_def)
  ultimately show ?thesis using ctl by (intro exI [of _ ?s3]) auto
qed

end
