(* ===== verification/Vpn_Control_Socket.thy ===== *)
theory Vpn_Control_Socket
  imports Vpn_Server
begin

text \<open>
  The control socket of the server (\<open>ControlSocket\<close> of \<open>src/src/server/control.rs\<close>) and one turn of
  the control worker's loop, built from the operations of \<open>Vpn_Server_Control\<close>.

  A stream is a number the model gives it when it is accepted; what its reads and writes return is
  read from scripts, and every answer handed to it is recorded (\<open>sock_replies\<close>; errors of these writes are ignored), so that the
  lemmas can say who was answered, how often and with what. A loop whose script has ended is still
  running (\<open>None\<close>).
\<close>

section \<open>Creating the socket\<close>

text \<open>
  What the operating system answers while \<open>bind\<close> runs, and what \<open>bind\<close> does to the file system.
\<close>

record socket_environment =
  connect_result :: "unit io_result"
  path_exists :: bool
  remove_result :: "unit io_result"
  listen_result :: "unit io_result"
  group_id :: "string \<Rightarrow> nat option"
  chown_result :: "nat \<Rightarrow> unit io_result"
  chmod_result :: "nat \<Rightarrow> unit io_result"
  nonblocking_result :: "unit io_result"
  pair_result :: "unit io_result"
  pair_nonblocking_result :: "unit io_result \<times> unit io_result"

datatype file_action = RemoveFile | Listen | ChangeGroup nat | ChangeMode nat

text \<open>An action followed by the rest, if it succeeds; the actions are recorded in order.\<close>

definition act :: "file_action \<Rightarrow> unit io_result \<Rightarrow> unit io_result \<times> file_action list \<Rightarrow> unit io_result \<times> file_action list" where
  "act a r rest = (case r of Inl e \<Rightarrow> (Inl e, [a]) | Inr _ \<Rightarrow> (fst rest, a # snd rest))"

definition finish_bind :: "socket_environment \<Rightarrow> unit io_result \<times> file_action list" where
  "finish_bind env =
     act (ChangeMode 432) (chmod_result env 432)
       (and_then (nonblocking_result env) (\<lambda>_. and_then (pair_result env) (\<lambda>_.
          and_then (fst (pair_nonblocking_result env)) (\<lambda>_. snd (pair_nonblocking_result env)))), [])"

definition listen_and_finish :: "socket_environment \<Rightarrow> string \<Rightarrow> string option \<Rightarrow> unit io_result \<times> file_action list" where
  "listen_and_finish env path group_name =
     act Listen (listen_result env)
       (case group_name of
          None \<Rightarrow> finish_bind env
        | Some g \<Rightarrow>
            if \<not> is_ok (c_string g) then (Inl (error_new InvalidInput ''invalid control_socket_group''), [])
            else case group_id env g of
                None \<Rightarrow> (Inl (error_new InvalidInput ''control_socket_group not found''), [])
              | Some gid \<Rightarrow>
                  if \<not> is_ok (c_string path) then (Inl (error_new InvalidInput ''invalid control_socket path''), [])
                  else act (ChangeGroup gid) (chown_result env gid) (finish_bind env))"

definition control_bind :: "socket_environment \<Rightarrow> string \<Rightarrow> string option \<Rightarrow> unit io_result \<times> file_action list" where
  "control_bind env path group_name =
     (case connect_result env of
        Inr _ \<Rightarrow> (Inl (error_new AddrInUse ''control socket is already active''), [])
      | Inl e \<Rightarrow>
          if kind e = ConnectionRefused \<or> kind e = NotFound
          then (if path_exists env then act RemoveFile (remove_result env) (listen_and_finish env path group_name)
                else listen_and_finish env path group_name)
          else (Inl e, []))"

section \<open>State\<close>

record control_socket =
  sock_pending :: "(nat \<times> pending_command) list"
  sock_watchers :: "(nat \<times> watcher) list"
  reload_requested :: bool
  reload_responses :: "nat list"
  last_identity :: string
  sock_replies :: "(nat \<times> string) list"

definition control_socket_new :: control_socket where
  "control_socket_new =
     \<lparr>sock_pending = [], sock_watchers = [], reload_requested = False, reload_responses = [],
      last_identity = [], sock_replies = []\<rparr>"

text \<open>What the environment does in one turn: new streams, and the scripts of reads and writes.\<close>

record socket_io =
  accepted :: "(nat \<times> unit io_result) io_result list"
  read_script :: "nat \<Rightarrow> string io_result list"
  first_write :: "nat \<Rightarrow> nat io_result list"
  publish_script :: "nat \<Rightarrow> nat \<Rightarrow> nat io_result list"

section \<open>Processing\<close>

text \<open>
  The accept loop. An entry is a stream with what making it non-blocking returned; a stream beyond the
  limit is closed at once.
\<close>

definition accept_stream :: "instant \<Rightarrow> nat \<Rightarrow> control_socket \<Rightarrow> control_socket" where
  "accept_stream now i s =
     (if length (sock_pending s) < MAX_PENDING_COMMANDS
      then s\<lparr>sock_pending := sock_pending s @ [(i, \<lparr>command_bytes = [], command_at = now\<rparr>)]\<rparr> else s)"

fun accept_loop :: "instant \<Rightarrow> (nat \<times> unit io_result) io_result list \<Rightarrow> control_socket \<Rightarrow>
    (unit io_result \<times> control_socket) option" where
  "accept_loop now [] s = None"
| "accept_loop now (Inl e # script) s = Some (if kind e = WouldBlock then Inr () else Inl e, s)"
| "accept_loop now (Inr (i, Inl e) # script) s = Some (Inl e, s)"
| "accept_loop now (Inr (i, Inr _) # script) s = accept_loop now script (accept_stream now i s)"

definition reply :: "nat \<Rightarrow> string \<Rightarrow> control_socket \<Rightarrow> control_socket" where
  "reply i text s = s\<lparr>sock_replies := sock_replies s @ [(i, text)]\<rparr>"

text \<open>\<open>handle_command\<close> with the stream: a watcher is kept only if its first write went well.\<close>

definition socket_command :: "socket_io \<Rightarrow> instant \<Rightarrow> nat \<Rightarrow> string \<Rightarrow> 'w session list \<times> control_socket \<Rightarrow>
    ('w session list \<times> control_socket) option" where
  "socket_command io now i command st =
     (case handle_command now command (fst st) of
        (Reply text, ys) \<Rightarrow> Some (ys, reply i text (snd st))
      | (NewWatcher snapshot, ys) \<Rightarrow>
          map_option (\<lambda>(keep, w).
              (ys, if keep then (snd st)\<lparr>sock_watchers := sock_watchers (snd st) @ [(i, w)]\<rparr> else snd st))
            (watcher_flush (first_write io i) (watcher_new snapshot))
      | (ReloadQueued, ys) \<Rightarrow>
          Some (ys, (snd st)\<lparr>reload_requested := True, reload_responses := reload_responses (snd st) @ [i]\<rparr>))"

fun process_pending :: "socket_io \<Rightarrow> instant \<Rightarrow> (nat \<times> pending_command) list \<Rightarrow>
    'w session list \<times> control_socket \<Rightarrow> ('w session list \<times> control_socket) option" where
  "process_pending io now [] st = Some st"
| "process_pending io now ((i, p) # ps) st =
     (if seconds 3 \<le> now - command_at p then process_pending io now ps st
      else case read_command (read_script io i) (command_bytes p) of
          None \<Rightarrow> None
        | Some (True, bytes) \<Rightarrow>
            (case socket_command io now i (trim bytes) st of
               None \<Rightarrow> None
             | Some st' \<Rightarrow> process_pending io now ps st')
        | Some (False, bytes) \<Rightarrow>
            process_pending io now ps
              (fst st, (snd st)\<lparr>sock_pending := sock_pending (snd st) @ [(i, p\<lparr>command_bytes := bytes\<rparr>)]\<rparr>))"

text \<open>\<open>publish_if_changed\<close>, the watchers with their streams; \<open>round\<close> counts the calls of a turn.\<close>

fun flush_watchers :: "(nat \<Rightarrow> nat io_result list) \<Rightarrow> (nat \<times> watcher) list \<Rightarrow> (nat \<times> watcher) list option" where
  "flush_watchers script [] = Some []"
| "flush_watchers script ((i, w) # ws) =
     (case watcher_flush (script i) w of
        None \<Rightarrow> None
      | Some (keep, w') \<Rightarrow>
          map_option (\<lambda>ws'. if keep then (i, w') # ws' else ws') (flush_watchers script ws))"

definition socket_publish :: "socket_io \<Rightarrow> nat \<Rightarrow> instant \<Rightarrow> 'w session list \<Rightarrow> control_socket \<Rightarrow> control_socket option" where
  "socket_publish io round now xs s =
     (let current = write_session_identity xs;
          message = as_bytes (session_snapshot now xs @ [newline]);
          ws = (if current \<noteq> last_identity s
                then map (\<lambda>(i, w). (i, enqueue_latest message w)) (sock_watchers s) else sock_watchers s)
      in map_option (\<lambda>ws'. s\<lparr>sock_watchers := ws', last_identity := current\<rparr>)
           (flush_watchers (publish_script io round) ws))"

definition socket_process :: "socket_io \<Rightarrow> instant \<Rightarrow> 'w session list \<Rightarrow> control_socket \<Rightarrow>
    (unit io_result \<times> 'w session list \<times> control_socket) option" where
  "socket_process io now xs s =
     (case accept_loop now (accepted io) s of
        None \<Rightarrow> None
      | Some (Inl e, s1) \<Rightarrow> Some (Inl e, xs, s1)
      | Some (Inr _, s1) \<Rightarrow>
          (case process_pending io now (sock_pending s1) (xs, s1\<lparr>sock_pending := []\<rparr>) of
             None \<Rightarrow> None
           | Some (ys, s2) \<Rightarrow> map_option (\<lambda>s3. (Inr (), ys, s3)) (socket_publish io 0 now ys s2)))"

definition reload_answer :: "bool \<Rightarrow> string" where
  "reload_answer success =
     (if success then ''{'' @ quoted ''ok'' @ '':true}'' @ [newline] else json_error ''reload_failed'')"

definition respond_reload :: "bool \<Rightarrow> control_socket \<Rightarrow> control_socket" where
  "respond_reload success s =
     s\<lparr>sock_replies := sock_replies s @ map (\<lambda>i. (i, reload_answer success)) (reload_responses s),
       reload_responses := []\<rparr>"

section \<open>A turn of the worker\<close>

text \<open>
  One pass through the loop of \<open>run\<close> up to the wait: how it ends, the update sent to the decrypting
  worker, the sessions, the socket and the configuration. \<open>receiver_alive\<close> is whether the decrypting worker
  still receives, \<open>confirmed\<close> whether it confirmed the update within two seconds.
\<close>

datatype turn_end = Continue | Ended "unit io_result"

definition control_turn :: "'w wolfssl \<Rightarrow> server_config \<Rightarrow> file_system \<Rightarrow> string \<Rightarrow> instant \<Rightarrow> socket_io \<Rightarrow>
    'w dtls io_result \<Rightarrow> bool \<Rightarrow> bool \<Rightarrow> 'w session list \<Rightarrow> control_socket \<Rightarrow> control_state \<Rightarrow>
    (turn_end \<times> 'w reload_update option \<times> 'w session list \<times> control_socket \<times> control_state) option" where
  "control_turn W c fs path now io created receiver_alive confirmed xs s ctl =
     (case socket_process io now xs s of
        None \<Rightarrow> None
      | Some (Inl e, ys, s1) \<Rightarrow> Some (Ended (Inl e), None, ys, s1, ctl)
      | Some (Inr _, ys, s1) \<Rightarrow>
          (let zs = expire_sessions (max_session_lifetime c) now (retransmit W now 0 ys) in
           case socket_publish io 1 now zs s1 of
             None \<Rightarrow> None
           | Some s2 \<Rightarrow>
               (let requested = reload_requested s2; s3 = s2\<lparr>reload_requested := False\<rparr> in
                if next_config_reload ctl \<le> now \<or> requested
                then case reload_step fs path c now created ctl zs of
                    (None, ctl', zs') \<Rightarrow> Some (Continue, None, zs', respond_reload False s3, ctl')
                  | (Some u, ctl', zs') \<Rightarrow>
                      (case socket_publish io 2 now zs' s3 of
                         None \<Rightarrow> None
                       | Some s4 \<Rightarrow>
                           if \<not> receiver_alive
                           then Some (Ended (Inr ()), None, zs', s4,
                                  ctl'\<lparr>next_config_reload := next_config_reload ctl\<rparr>)
                           else Some (Continue, Some u, zs',
                                  if requested then respond_reload confirmed s4 else s4, ctl'))
                else Some (Continue, None, zs, s3, ctl))))"

text \<open>
  The wait: pending streams are polled for reading, watchers for writing while they have something to
  write; watchers whose stream failed are removed.
\<close>

definition polled_streams :: "control_socket \<Rightarrow> (nat \<times> bool \<times> bool) list" where
  "polled_streams s =
     map (\<lambda>(i, p). (i, True, False)) (sock_pending s)
     @ map (\<lambda>(i, w). (i, False, out_pending w \<noteq> [])) (sock_watchers s)"

definition drop_failed_watchers :: "(nat \<Rightarrow> bool) \<Rightarrow> control_socket \<Rightarrow> control_socket" where
  "drop_failed_watchers failed s = s\<lparr>sock_watchers := filter (\<lambda>(i, w). \<not> failed i) (sock_watchers s)\<rparr>"

section \<open>Refinement of the critical sections\<close>

text \<open>With the streams forgotten, the commands are processed as \<open>process_commands\<close> says.\<close>

lemma socket_command_sessions:
  "socket_command io now i command (xs, s) = Some (ys, s') \<Longrightarrow>
   ys = snd (handle_command now command xs) \<and> sock_pending s' = sock_pending s"
  by (auto simp: socket_command_def reply_def split: prod.splits control_reply.splits if_splits)

lemma process_pending_commands:
  "process_pending io now ps (xs, s) = Some (ys, s') \<Longrightarrow>
   \<exists>replies kept. process_commands now (map (\<lambda>(i, p). (p, read_script io i)) ps) xs = Some (replies, kept, ys)
     \<and> map snd (sock_pending s') = map snd (sock_pending s) @ kept"
proof (induction ps arbitrary: xs s)
  case Nil
  then show ?case by simp
next
  case (Cons q ps)
  obtain i p where q: "q = (i, p)" by (metis surj_pair)
  show ?case
  proof (cases "seconds 3 \<le> now - command_at p")
    case True
    then show ?thesis using Cons.IH [of xs s] Cons.prems q by simp
  next
    case False
    then obtain complete bytes where r: "read_command (read_script io i) (command_bytes p) = Some (complete, bytes)"
      using Cons.prems q by (auto split: option.splits)
    show ?thesis
    proof (cases complete)
      case True
      then obtain ys1 s1 where c: "socket_command io now i (trim bytes) (xs, s) = Some (ys1, s1)"
        and rest: "process_pending io now ps (ys1, s1) = Some (ys, s')"
        using Cons.prems q False r by (auto split: option.splits)
      obtain answer where h: "handle_command now (trim bytes) xs = (answer, ys1)"
        using socket_command_sessions [OF c] by (metis prod.collapse)
      obtain replies kept where "process_commands now (map (\<lambda>(i, p). (p, read_script io i)) ps) ys1 = Some (replies, kept, ys)"
        "map snd (sock_pending s') = map snd (sock_pending s1) @ kept"
        using Cons.IH [OF rest] by blast
      then show ?thesis using conjunct2 [OF socket_command_sessions [OF c]] True False q r h by simp
    next
      case incomplete: False
      then have "process_pending io now ps
          (xs, s\<lparr>sock_pending := sock_pending s @ [(i, p\<lparr>command_bytes := bytes\<rparr>)]\<rparr>) = Some (ys, s')"
        using Cons.prems q False r by simp
      from Cons.IH [OF this] obtain replies kept where
        "process_commands now (map (\<lambda>(i, p). (p, read_script io i)) ps) xs = Some (replies, kept, ys)"
        "map snd (sock_pending s') = map snd (sock_pending s) @ p\<lparr>command_bytes := bytes\<rparr> # kept"
        by auto
      then show ?thesis using incomplete False q r by simp
    qed
  qed
qed

lemma socket_publish_fields:
  "socket_publish io k now xs s = Some s' \<Longrightarrow>
   sock_pending s' = sock_pending s \<and> reload_requested s' = reload_requested s
   \<and> reload_responses s' = reload_responses s \<and> sock_replies s' = sock_replies s"
  by (auto simp: socket_publish_def Let_def)

lemma control_turn_section:
  assumes "control_turn W c fs path now io created receiver_alive confirmed xs s ctl = Some (Continue, update, zs, s', ctl')"
  obtains commands replies kept ys where
    "control_section W c now commands xs = Some (replies, kept, ys)"
    "(update, ctl', zs) = reload_step fs path c now created ctl ys \<or> update = None \<and> ctl' = ctl \<and> zs = ys"
proof -
  obtain ys s1 where p: "socket_process io now xs s = Some (Inr (), ys, s1)"
    using assms by (auto simp: control_turn_def split: option.splits sum.splits)
  then obtain s0 s2 where "process_pending io now (sock_pending s0) (xs, s0\<lparr>sock_pending := []\<rparr>) = Some (ys, s2)"
    by (auto simp: socket_process_def split: option.splits sum.splits)
  from process_pending_commands [OF this] obtain commands replies kept
    where c: "process_commands now commands xs = Some (replies, kept, ys)" by blast
  let ?zs = "expire_sessions (max_session_lifetime c) now (retransmit W now 0 ys)"
  have "control_section W c now commands xs = Some (replies, kept, ?zs)" using c by (simp add: control_section_def)
  moreover have "(update, ctl', zs) = reload_step fs path c now created ctl ?zs \<or> update = None \<and> ctl' = ctl \<and> zs = ?zs"
    using assms p
    by (auto simp: control_turn_def Let_def split: option.splits prod.splits if_splits)
  ultimately show ?thesis by (rule that)
qed

section \<open>Streams\<close>

text \<open>Every stream that is pending, watching, waiting for a reload, or was answered.\<close>

definition streams :: "control_socket \<Rightarrow> nat list" where
  "streams s =
     map fst (sock_pending s) @ map fst (sock_watchers s) @ reload_responses s @ map fst (sock_replies s)"

fun new_streams :: "(nat \<times> unit io_result) io_result list \<Rightarrow> nat list" where
  "new_streams (Inr (i, Inr _) # script) = i # new_streams script"
| "new_streams script = []"

lemma distinct_mset_subset: "mset xs \<subseteq># mset ys \<Longrightarrow> distinct ys \<Longrightarrow> distinct xs"
proof -
  assume sub: "mset xs \<subseteq># mset ys" and "distinct ys"
  then have le: "count (mset xs) x \<le> 1" for x
    by (metis distinct_count_atmost_1 le_trans mset_subset_eq_count order_refl zero_le_one)
  show ?thesis unfolding distinct_count_atmost_1
    using le by (metis One_nat_def count_greater_zero_iff le_antisym less_eq_Suc_le not_gr_zero set_mset_mset count_eq_zero_iff)
qed

lemma accept_stream_streams: "mset (streams (accept_stream now i s)) \<subseteq># add_mset i (mset (streams s))"
  by (simp add: accept_stream_def streams_def)

lemma accept_loop_streams:
  "accept_loop now script s = Some (r, s') \<Longrightarrow>
   mset (streams s') \<subseteq># mset (streams s) + mset (new_streams script)
   \<and> sock_replies s' = sock_replies s \<and> reload_requested s' = reload_requested s
   \<and> reload_responses s' = reload_responses s
   \<and> (length (sock_pending s) \<le> MAX_PENDING_COMMANDS \<longrightarrow> length (sock_pending s') \<le> MAX_PENDING_COMMANDS)"
proof (induction now script s rule: accept_loop.induct)
  case (4 now i u script s)
  then have IH: "mset (streams s') \<subseteq># mset (streams (accept_stream now i s)) + mset (new_streams script)"
    by simp
  also have "\<dots> \<subseteq># add_mset i (mset (streams s)) + mset (new_streams script)"
    by (rule subset_mset.add_right_mono [OF accept_stream_streams])
  finally have "mset (streams s') \<subseteq># mset (streams s) + mset (new_streams (Inr (i, Inr u) # script))" by simp
  moreover have "sock_replies (accept_stream now i s) = sock_replies s"
      "reload_requested (accept_stream now i s) = reload_requested s"
      "reload_responses (accept_stream now i s) = reload_responses s"
      "length (sock_pending s) \<le> MAX_PENDING_COMMANDS \<Longrightarrow>
       length (sock_pending (accept_stream now i s)) \<le> MAX_PENDING_COMMANDS"
    by (simp_all add: accept_stream_def)
  ultimately show ?case using 4 by simp
qed auto

text \<open>No answer to a command is the answer to a successful reload.\<close>

lemma reload_answer_differs: "handle_command now command xs = (Reply text, ys) \<Longrightarrow> text \<noteq> reload_answer True"
  by (auto simp: handle_command_def reload_answer_def json_error_def session_snapshot_def quoted_def Let_def
      split: option.splits if_splits)

definition replies_grow :: "control_socket \<Rightarrow> control_socket \<Rightarrow> bool" where
  "replies_grow s s' \<longleftrightarrow>
     (\<exists>new. sock_replies s' = sock_replies s @ new \<and> (\<forall>(i, text) \<in> set new. text \<noteq> reload_answer True))"

lemma replies_grow_refl: "sock_replies s' = sock_replies s \<Longrightarrow> replies_grow s s'"
  by (simp add: replies_grow_def)

lemma replies_grow_trans: "replies_grow s t \<Longrightarrow> replies_grow t u \<Longrightarrow> replies_grow s u"
  by (fastforce simp: replies_grow_def)

lemma socket_command_streams:
  assumes "socket_command io now i command (xs, s) = Some (ys, s')"
  shows "mset (streams s') \<subseteq># add_mset i (mset (streams s)) \<and> replies_grow s s'
    \<and> (reload_requested s = (reload_responses s \<noteq> []) \<longrightarrow> reload_requested s' = (reload_responses s' \<noteq> []))"
proof (cases "handle_command now command xs")
  case (Pair answer zs)
  show ?thesis
  proof (cases answer)
    case (Reply answer_text)
    then show ?thesis using assms Pair reload_answer_differs [of now command xs answer_text zs]
      by (auto simp: socket_command_def reply_def streams_def replies_grow_def)
  next
    case (NewWatcher snapshot)
    then show ?thesis using assms Pair
      by (auto simp: socket_command_def streams_def replies_grow_def split: if_splits)
  next
    case ReloadQueued
    then show ?thesis using assms Pair
      by (auto simp: socket_command_def streams_def replies_grow_def)
  qed
qed

text \<open>What the loop over the pending commands leaves: at most the commands it was given, each younger than three seconds.\<close>

definition young :: "instant \<Rightarrow> nat \<times> pending_command \<Rightarrow> bool" where
  "young now q = (now - command_at (snd q) < seconds 3)"

lemma process_pending_streams:
  "process_pending io now ps (xs, s) = Some (ys, s') \<Longrightarrow>
   mset (streams s') \<subseteq># mset (map fst ps) + mset (streams s) \<and> replies_grow s s'
   \<and> (reload_requested s = (reload_responses s \<noteq> []) \<longrightarrow> reload_requested s' = (reload_responses s' \<noteq> []))
   \<and> length (sock_pending s') \<le> length (sock_pending s) + length ps
   \<and> (list_all (young now) (sock_pending s) \<longrightarrow> list_all (young now) (sock_pending s'))"
proof (induction ps arbitrary: xs s)
  case Nil
  then show ?case by (simp add: replies_grow_refl)
next
  case (Cons q ps)
  obtain i p where q: "q = (i, p)" by (metis surj_pair)
  show ?case
  proof (cases "seconds 3 \<le> now - command_at p")
    case True
    then show ?thesis using Cons.IH [of xs s] Cons.prems q by (auto intro: subset_mset.order_trans)
  next
    case False
    then obtain complete bytes where r: "read_command (read_script io i) (command_bytes p) = Some (complete, bytes)"
      using Cons.prems q by (auto split: option.splits)
    show ?thesis
    proof (cases complete)
      case True
      then obtain ys1 s1 where c: "socket_command io now i (trim bytes) (xs, s) = Some (ys1, s1)"
        and rest: "process_pending io now ps (ys1, s1) = Some (ys, s')"
        using Cons.prems q False r by (auto split: option.splits)
      note IH = Cons.IH [OF rest] and c' = socket_command_streams [OF c] conjunct2 [OF socket_command_sessions [OF c]]
      have "mset (streams s') \<subseteq># mset (map fst ps) + add_mset i (mset (streams s))"
        using IH c'(1) by (meson subset_mset.add_left_mono subset_mset.order_trans)
      then show ?thesis using IH c' q by (auto intro: replies_grow_trans)
    next
      case incomplete: False
      let ?s = "s\<lparr>sock_pending := sock_pending s @ [(i, p\<lparr>command_bytes := bytes\<rparr>)]\<rparr>"
      have "process_pending io now ps (xs, ?s) = Some (ys, s')"
        using Cons.prems q False r incomplete by simp
      note IH = Cons.IH [OF this]
      have "replies_grow s s'" using IH replies_grow_refl [of ?s s] replies_grow_trans [of s ?s s'] by simp
      then show ?thesis using IH q False by (auto simp: streams_def young_def)
    qed
  qed
qed

lemma flush_watchers_streams:
  "flush_watchers script ws = Some ws' \<Longrightarrow> mset (map fst ws') \<subseteq># mset (map fst ws)"
proof (induction ws arbitrary: ws')
  case Nil
  then show ?case by simp
next
  case (Cons q ws)
  then show ?case by (cases q) (auto split: option.splits prod.splits if_splits intro: subset_mset.order_trans)
qed

lemma socket_publish_streams:
  assumes "socket_publish io k now xs s = Some s'"
  shows "mset (streams s') \<subseteq># mset (streams s)"
proof -
  obtain ws where ws: "flush_watchers (publish_script io k) ws = Some (sock_watchers s')"
    "map fst ws = map fst (sock_watchers s)"
    using assms by (auto simp: socket_publish_def Let_def case_prod_unfold split: if_splits)
  show ?thesis
    using flush_watchers_streams [OF ws(1)] socket_publish_fields [OF assms] ws(2)
    by (simp add: streams_def)
qed

section \<open>Answers\<close>

text \<open>
  Between the turns: no stream has two roles, at most \<open>MAX_PENDING_COMMANDS\<close> commands are pending, and
  a reload is requested exactly if a stream waits for its result.
\<close>

definition socket_inv :: "control_socket \<Rightarrow> bool" where
  "socket_inv s \<longleftrightarrow>
     distinct (streams s) \<and> length (sock_pending s) \<le> MAX_PENDING_COMMANDS
     \<and> reload_requested s = (reload_responses s \<noteq> [])"

lemma socket_process_result:
  assumes inv: "socket_inv s" and p: "socket_process io now xs s = Some (Inr (), ys, s1)"
  shows "mset (streams s1) \<subseteq># mset (streams s) + mset (new_streams (accepted io)) \<and> replies_grow s s1
    \<and> reload_requested s1 = (reload_responses s1 \<noteq> []) \<and> length (sock_pending s1) \<le> MAX_PENDING_COMMANDS
    \<and> list_all (young now) (sock_pending s1)"
proof -
  obtain s0 s2 where a: "accept_loop now (accepted io) s = Some (Inr (), s0)"
    and q: "process_pending io now (sock_pending s0) (xs, s0\<lparr>sock_pending := []\<rparr>) = Some (ys, s2)"
    and pub: "socket_publish io 0 now ys s2 = Some s1"
    using p by (auto simp: socket_process_def split: option.splits sum.splits)
  note A = accept_loop_streams [OF a] and Q = process_pending_streams [OF q]
    and P = socket_publish_fields [OF pub] socket_publish_streams [OF pub]
  have "mset (streams s2) \<subseteq># mset (streams s0)" using Q by (simp add: streams_def ac_simps)
  then have "mset (streams s1) \<subseteq># mset (streams s) + mset (new_streams (accepted io))"
    using A P(2) by (meson subset_mset.order_trans)
  moreover have "replies_grow s s1"
    using A Q P(1) by (simp add: replies_grow_def)
  ultimately show ?thesis using A Q P(1) inv by (simp add: socket_inv_def)
qed

lemma respond_reload_streams: "mset (streams (respond_reload success s)) = mset (streams s)"
  by (simp add: respond_reload_def streams_def comp_def)

lemma respond_reload_nobody: "reload_responses s = [] \<Longrightarrow> respond_reload success s = s"
  by (simp add: respond_reload_def)

lemma control_turn_final:
  assumes turn: "control_turn W c fs path now io created receiver_alive confirmed xs s ctl =
      Some (Continue, update, zs, s', ctl')"
    and p: "socket_process io now xs s = Some (Inr (), ys, s1)"
    and requested: "reload_requested s1 = (reload_responses s1 \<noteq> [])"
  obtains s2 where "s' = respond_reload (update \<noteq> None \<and> confirmed) s2"
    "mset (streams s2) \<subseteq># mset (streams s1)" "sock_pending s2 = sock_pending s1"
    "sock_replies s2 = sock_replies s1" "reload_responses s2 = reload_responses s1" "\<not> reload_requested s2"
proof -
  define vs where "vs = expire_sessions (max_session_lifetime c) now (retransmit W now 0 ys)"
  obtain s2 where pub: "socket_publish io 1 now vs s1 = Some s2"
    using turn p by (auto simp: control_turn_def vs_def Let_def split: option.splits)
  let ?s3 = "s2\<lparr>reload_requested := False\<rparr>"
  have s3: "mset (streams ?s3) \<subseteq># mset (streams s1)" "sock_pending ?s3 = sock_pending s1"
      "sock_replies ?s3 = sock_replies s1" "reload_responses ?s3 = reload_responses s1" "\<not> reload_requested ?s3"
    using socket_publish_streams [OF pub] socket_publish_fields [OF pub] by (simp_all add: streams_def)
  have r2: "reload_requested s2 = (reload_responses s1 \<noteq> [])" using requested socket_publish_fields [OF pub] by simp
  show ?thesis
  proof (cases "next_config_reload ctl \<le> now \<or> reload_requested s2")
    case False
    then have "update = None" "s' = ?s3" using turn p pub by (simp_all add: control_turn_def vs_def Let_def)
    then show ?thesis using that [of ?s3] False r2 s3 by (simp add: respond_reload_nobody)
  next
    case True
    obtain u cf ws where r: "reload_step fs path c now created ctl vs = (u, cf, ws)" by (metis prod_cases3)
    show ?thesis
    proof (cases u)
      case None
      then have "update = None" "s' = respond_reload False ?s3"
        using turn p pub True r by (auto simp: control_turn_def vs_def Let_def)
      then show ?thesis using that [of ?s3] s3 by simp
    next
      case (Some v)
      obtain s4 where pub': "socket_publish io 2 now ws ?s3 = Some s4"
        using turn p pub True r Some by (auto simp: control_turn_def vs_def Let_def split: option.splits)
      have s4: "mset (streams s4) \<subseteq># mset (streams s1)" "sock_pending s4 = sock_pending s1"
          "sock_replies s4 = sock_replies s1" "reload_responses s4 = reload_responses s1" "\<not> reload_requested s4"
        using socket_publish_streams [OF pub'] socket_publish_fields [OF pub'] s3
        by (auto intro: subset_mset.order_trans)
      have "update = Some v" "s' = (if reload_requested s2 then respond_reload confirmed s4 else s4)"
        using turn p pub True r Some pub' by (auto simp: control_turn_def vs_def Let_def split: if_splits)
      then have "s' = respond_reload (update \<noteq> None \<and> confirmed) s4"
        using r2 s4(4) by (auto simp: respond_reload_nobody)
      then show ?thesis using that [of s4] s4 by simp
    qed
  qed
qed

text \<open>
  C13: Every client of the control socket gets at most one answer, and the truth about its reload. A turn
  keeps: no stream has two roles (waiting, watching, answered), and at most 64 commands are pending.
  After a turn every pending command is younger than three seconds, no client waits for a reload, and
  each client that asked for one was told it succeeded exactly if the new bindings were sent to the
  decrypting worker and confirmed; nobody else receives that answer.
\<close>

theorem control_answers_each_client_once:
  assumes inv: "socket_inv s" and fresh: "distinct (streams s @ new_streams (accepted io))"
    and p: "socket_process io now xs s = Some (Inr (), ys, s1)"
    and turn: "control_turn W c fs path now io created receiver_alive confirmed xs s ctl =
      Some (Continue, update, zs, s', ctl')"
  shows "socket_inv s' \<and> reload_responses s' = [] \<and> list_all (young now) (sock_pending s')
    \<and> (\<forall>i \<in> set (reload_responses s1). (i, reload_answer (update \<noteq> None \<and> confirmed)) \<in> set (sock_replies s'))
    \<and> (\<exists>new. sock_replies s' = sock_replies s @ new
         \<and> (\<forall>(i, text) \<in> set new. text = reload_answer True \<longrightarrow> i \<in> set (reload_responses s1) \<and> update \<noteq> None \<and> confirmed))"
proof -
  note P = socket_process_result [OF inv p]
  obtain s2 where s2: "s' = respond_reload (update \<noteq> None \<and> confirmed) s2"
    "mset (streams s2) \<subseteq># mset (streams s1)" "sock_pending s2 = sock_pending s1"
    "sock_replies s2 = sock_replies s1" "reload_responses s2 = reload_responses s1" "\<not> reload_requested s2"
    using control_turn_final [OF turn p] P by blast
  have "mset (streams s') \<subseteq># mset (streams s1)" using s2(1,2) by (simp add: respond_reload_streams)
  then have "mset (streams s') \<subseteq># mset (streams s @ new_streams (accepted io))"
    using P by (auto intro: subset_mset.order_trans)
  then have d: "distinct (streams s')" using fresh by (rule distinct_mset_subset)
  obtain new where new: "sock_replies s1 = sock_replies s @ new" "\<forall>(i, text) \<in> set new. text \<noteq> reload_answer True"
    using P by (auto simp: replies_grow_def)
  have differ: "reload_answer False \<noteq> reload_answer True" by (simp add: reload_answer_def json_error_def quoted_def)
  define ok where "ok = (update \<noteq> None \<and> confirmed)"
  let ?reloads = "map (\<lambda>i. (i, reload_answer ok)) (reload_responses s1)"
  have replies: "sock_replies s' = sock_replies s @ (new @ ?reloads)"
    using s2 new(1) by (simp add: respond_reload_def ok_def)
  have rest: "sock_pending s' = sock_pending s1" "reload_responses s' = []" "\<not> reload_requested s'"
    using s2 by (simp_all add: respond_reload_def)
  have "\<forall>(i, text) \<in> set (new @ ?reloads). text = reload_answer True \<longrightarrow> i \<in> set (reload_responses s1) \<and> ok"
    using new(2) differ by (cases ok) auto
  then have "\<exists>new. sock_replies s' = sock_replies s @ new
      \<and> (\<forall>(i, text) \<in> set new. text = reload_answer True \<longrightarrow> i \<in> set (reload_responses s1) \<and> ok)"
    using replies by blast
  moreover have "\<forall>i \<in> set (reload_responses s1). (i, reload_answer ok) \<in> set (sock_replies s')"
    using replies by auto
  moreover have "socket_inv s'" using d rest P by (simp add: socket_inv_def)
  moreover have "list_all (young now) (sock_pending s')" using rest(1) P by simp
  ultimately show ?thesis using rest(2) unfolding ok_def by blast
qed

text \<open>A client that asks for a reload while a second one connects.\<close>

definition example_io :: socket_io where
  "example_io =
     \<lparr>accepted = [Inr (1, Inr ()), Inl (error_from_kind WouldBlock)],
      read_script = (\<lambda>i. if i = 0 then [Inr (''RELOAD'' @ [newline])] else [Inl (error_from_kind WouldBlock)]),
      first_write = (\<lambda>_. []), publish_script = (\<lambda>_ _. [])\<rparr>"

definition example_socket :: control_socket where
  "example_socket = control_socket_new\<lparr>sock_pending := [(0, \<lparr>command_bytes = [], command_at = 0\<rparr>)]\<rparr>"

lemma trim_reload: "trim (''RELOAD'' @ [newline]) = ''RELOAD''"
  by (simp add: trim_def trim_start.simps trim_end_def trim_rev.simps ascii_ws_def ws2_def ws3_def newline_def code_def)

lemma example_process:
  "socket_process example_io 1 ([] :: 'w session list) example_socket =
     Some (Inr (), [], control_socket_new\<lparr>sock_pending := [(1, \<lparr>command_bytes = [], command_at = 1\<rparr>)],
       reload_requested := True, reload_responses := [0]\<rparr>)"
proof -
  have "read_command (read_script example_io 0) [] = Some (True, ''RELOAD'' @ [newline])"
    by (simp add: example_io_def read_command.simps COMMAND_BUFFER_def)
  moreover have "read_command (read_script example_io 1) [] = Some (False, [])"
    by (simp add: example_io_def read_command.simps COMMAND_BUFFER_def)
  moreover have "accept_loop 1 (accepted example_io) example_socket = Some (Inr (), control_socket_new
      \<lparr>sock_pending := [(0, \<lparr>command_bytes = [], command_at = 0\<rparr>), (1, \<lparr>command_bytes = [], command_at = 1\<rparr>)]\<rparr>)"
    by (simp add: example_io_def example_socket_def control_socket_new_def accept_stream_def MAX_PENDING_COMMANDS_def)
  ultimately show ?thesis
    by (simp add: socket_process_def trim_reload [simplified] socket_command_def handle_command_def socket_publish_def
        write_session_identity_def control_socket_new_def seconds_def Let_def)
qed

lemma example_turn:
  "\<exists>s' ctl'. control_turn example_wolf race_config (\<lambda>_. Inr []) path 1 example_io (Inr race_acceptor) True True []
      example_socket (controlling (server_start race_config race_acceptor 0)) =
    Some (Continue, Some ([], Map.empty, race_acceptor), [], s', ctl')"
proof -
  obtain ctl' where r: "reload_step (\<lambda>_. Inr []) path race_config 1 (Inr race_acceptor)
      (controlling (server_start race_config race_acceptor 0)) [] = (Some ([], Map.empty, race_acceptor), ctl', [])"
    using race_reload [of path] by (simp add: reload_step_def Let_def)
  have p: "socket_publish example_io k 1 ([] :: byte list list session list) s = Some s"
    if "sock_watchers s = []" "last_identity s = []" for k s
    using that by (simp add: socket_publish_def write_session_identity_def Let_def)
  define s1 where "s1 = control_socket_new\<lparr>sock_pending := [(1, \<lparr>command_bytes = [], command_at = 1\<rparr>)],
    reload_requested := True, reload_responses := [0]\<rparr>"
  let ?s3 = "s1\<lparr>reload_requested := False\<rparr>"
  have s1: "sock_watchers s1 = []" "last_identity s1 = []" "reload_requested s1"
    by (simp_all add: s1_def control_socket_new_def)
  have sessions: "expire_sessions d 1 (retransmit example_wolf 1 0 []) = []" for d
    by (simp add: expire_sessions_def retransmit.simps)
  have "socket_publish example_io 1 1 ([] :: byte list list session list) s1 = Some s1"
    "socket_publish example_io 2 1 ([] :: byte list list session list) ?s3 = Some ?s3"
    using s1 p [of s1 1] p [of ?s3 2] by simp_all
  then show ?thesis
    unfolding control_turn_def example_process s1_def [symmetric]
    by (simp only: option.case sum.case prod.case Let_def sessions r s1(3) simp_thms if_True if_False) blast
qed

theorem control_answers_each_client_once_witness:
  "\<exists>s' ctl'. control_turn example_wolf race_config (\<lambda>_. Inr []) ''vpn.ini'' 1 example_io (Inr race_acceptor) True True []
        example_socket (controlling (server_start race_config race_acceptor 0)) =
      Some (Continue, Some ([], Map.empty, race_acceptor), [], s', ctl')
    \<and> socket_inv s' \<and> reload_responses s' = [] \<and> (0, reload_answer True) \<in> set (sock_replies s')"
proof -
  obtain s' ctl' where t: "control_turn example_wolf race_config (\<lambda>_. Inr []) ''vpn.ini'' 1 example_io (Inr race_acceptor) True True []
      example_socket (controlling (server_start race_config race_acceptor 0)) =
    Some (Continue, Some ([], Map.empty, race_acceptor), [], s', ctl')"
    using example_turn by blast
  have "socket_inv example_socket" "distinct (streams example_socket @ new_streams (accepted example_io))"
    by (simp_all add: socket_inv_def streams_def example_socket_def control_socket_new_def example_io_def
        MAX_PENDING_COMMANDS_def)
  from control_answers_each_client_once [OF this example_process t] t show ?thesis by (simp add: control_socket_new_def)
qed

section \<open>The turn and the running server\<close>

text \<open>
  C12: The loop of the control worker implements the abstract server: what a turn that goes on does to
  the sessions, the configuration and the reload channel is one or two steps of \<open>server_step\<close>, so
  every property of the reachable states holds for the server with the socket.
\<close>

theorem control_turn_refines_server:
  assumes fs: "fs \<in> contents"
    and turn: "control_turn W c fs path now io created receiver_alive confirmed (sessions_of st) s (controlling st) =
      Some (Continue, update, zs, s', ctl')"
  shows "(server_step W send c path contents)\<^sup>*\<^sup>* st
    (with_sessions zs st\<lparr>controlling := ctl', reload_channel := reload_channel st @ opt_list update\<rparr>)"
proof -
  let ?step = "server_step W send c path contents"
  obtain commands replies kept ys where
    critical: "control_section W c now commands (sessions_of st) = Some (replies, kept, ys)"
    and after: "(update, ctl', zs) = reload_step fs path c now created (controlling st) ys
      \<or> update = None \<and> ctl' = controlling st \<and> zs = ys"
    using control_turn_section [OF turn] by blast
  have work: "?step st (with_sessions ys st)" by (rule server_step.control_work [OF critical])
  show ?thesis
    using after
  proof
    assume "(update, ctl', zs) = reload_step fs path c now created (controlling st) ys"
    then have "reload_step fs path c now created (controlling (with_sessions ys st)) (sessions_of (with_sessions ys st))
        = (update, ctl', zs)" by simp
    from server_step.control_reload [OF fs this]
    have "?step (with_sessions ys st)
        (with_sessions zs st\<lparr>controlling := ctl', reload_channel := reload_channel st @ opt_list update\<rparr>)"
      by (simp add: with_sessions_def)
    with work show ?thesis by (meson r_into_rtranclp rtranclp.rtrancl_into_rtrancl)
  next
    assume "update = None \<and> ctl' = controlling st \<and> zs = ys"
    then have "with_sessions zs st\<lparr>controlling := ctl', reload_channel := reload_channel st @ opt_list update\<rparr>
        = with_sessions ys st"
      by (simp add: with_sessions_def opt_list_def)
    with work show ?thesis by (simp add: r_into_rtranclp)
  qed
qed

theorem control_turn_refines_server_witness:
  "\<exists>s' ctl' t. control_turn example_wolf race_config (\<lambda>_. Inr []) ''vpn.ini'' 1 example_io (Inr race_acceptor) True True []
        example_socket (controlling (server_start race_config race_acceptor 0)) =
      Some (Continue, Some ([], Map.empty, race_acceptor), [], s', ctl')
    \<and> (server_step example_wolf (\<lambda>st _ _. (Inr 0, st :: unit)) race_config ''vpn.ini'' {\<lambda>_. Inr []})\<^sup>*\<^sup>* (server_start race_config race_acceptor 0) t
    \<and> reload_channel t = [([], Map.empty, race_acceptor)]"
proof -
  obtain s' ctl' where t: "control_turn example_wolf race_config (\<lambda>_. Inr []) ''vpn.ini'' 1 example_io (Inr race_acceptor) True True []
      example_socket (controlling (server_start race_config race_acceptor 0)) =
    Some (Continue, Some ([], Map.empty, race_acceptor), [], s', ctl')"
    using example_turn by blast
  have s: "sessions_of (server_start race_config race_acceptor 0) = []" "reload_channel (server_start race_config race_acceptor 0) = []"
    by (simp_all add: server_start_def sessions_of_def)
  let ?t = "with_sessions [] (server_start race_config race_acceptor 0)\<lparr>controlling := ctl',
      reload_channel := reload_channel (server_start race_config race_acceptor 0) @ opt_list (Some ([], Map.empty, race_acceptor))\<rparr>"
  have "(server_step example_wolf (\<lambda>st _ _. (Inr 0, st :: unit)) race_config ''vpn.ini'' {\<lambda>_. Inr []})\<^sup>*\<^sup>* (server_start race_config race_acceptor 0) ?t"
  proof (rule control_turn_refines_server)
    show "control_turn example_wolf race_config (\<lambda>_. Inr []) ''vpn.ini'' 1 example_io (Inr race_acceptor) True True
        (sessions_of (server_start race_config race_acceptor 0)) example_socket
        (controlling (server_start race_config race_acceptor 0)) =
      Some (Continue, Some ([], Map.empty, race_acceptor), [], s', ctl')"
      unfolding s(1) by (rule t)
  qed simp
  moreover have "reload_channel ?t = [([], Map.empty, race_acceptor)]" using s(2) by (simp add: opt_list_def)
  ultimately show ?thesis using t by blast
qed

section \<open>The socket file\<close>

text \<open>A socket some other server listens on is left alone, and a path is only removed after it was found stale.\<close>

lemma bind_leaves_active_socket:
  "connect_result env = Inr u \<Longrightarrow> control_bind env path group_name = (Inl (error_new AddrInUse ''control socket is already active''), [])"
  by (simp add: control_bind_def)

lemma bind_removes_only_stale:
  assumes "RemoveFile \<in> set (snd (control_bind env path group_name))"
  shows "\<exists>e. connect_result env = Inl e \<and> (kind e = ConnectionRefused \<or> kind e = NotFound) \<and> path_exists env"
  using assms
  by (auto simp: control_bind_def listen_and_finish_def finish_bind_def act_def split: sum.splits if_splits option.splits)

lemma bind_success_modes:
  assumes "fst (control_bind env path group_name) = Inr ()"
  shows "last (snd (control_bind env path group_name)) = ChangeMode 432"
  using assms
  by (auto simp: control_bind_def listen_and_finish_def finish_bind_def act_def split: sum.splits if_splits option.splits)

end
