(* ===== verification/Vpn_System.thy ===== *)
theory Vpn_System
  imports Vpn_Ipv4 "HOL-Library.Monad_Syntax"
begin

text \<open>
  The parts of \<open>src/src/lib.rs\<close> that configure the operating system by running its commands: opening
  and configuring the TUN device (\<open>Tun\<close>), the forwarding rule of the server (\<open>ForwardingGuard\<close>) and
  the DNS settings of the client (\<open>DnsGuard\<close>), each with what its \<open>Drop\<close> does.

  A command is a parameter: it maps a program, its arguments and a state of the system to what
  \<open>Command\<close> returned and the next state. The output is the text \<open>from_utf8_lossy\<close> makes of it. Which
  branch is compiled is the platform, an argument. The lemmas show what is left on the system when
  a guard is dropped or when setting it up fails; what they rely on is written as predicates on
  the parameter (\<open>lawful_iptables\<close>, \<open>lawful_networksetup\<close>).
\<close>

section \<open>Commands\<close>

datatype platform = Linux | MacOS | Windows | OtherPlatform

record command_output =
  exit_success :: bool
  exit_status :: string
  command_stdout :: string

type_synonym 'os commands = "string \<Rightarrow> string list \<Rightarrow> 'os \<Rightarrow> command_output io_result \<times> 'os"

definition run_command :: "'os commands \<Rightarrow> string \<Rightarrow> string list \<Rightarrow> 'os \<Rightarrow> unit io_result \<times> 'os" where
  "run_command exec program arguments os =
     (case exec program arguments os of
        (Inl e, os') \<Rightarrow> (Inl e, os')
      | (Inr out, os') \<Rightarrow>
          (if exit_success out then Inr ()
           else Inl (error_other (program @ '' failed with status '' @ exit_status out)), os'))"

text \<open>\<open>status().is_ok_and(|status| status.success())\<close>.\<close>

definition command_succeeds :: "'os commands \<Rightarrow> string \<Rightarrow> string list \<Rightarrow> 'os \<Rightarrow> bool \<times> 'os" where
  "command_succeeds exec program arguments os =
     (case exec program arguments os of
        (Inl e, os') \<Rightarrow> (False, os')
      | (Inr out, os') \<Rightarrow> (exit_success out, os'))"

text \<open>The question mark operator between steps that change the system.\<close>

definition then_run :: "'a io_result \<times> 'os \<Rightarrow> ('a \<Rightarrow> 'os \<Rightarrow> 'b io_result \<times> 'os) \<Rightarrow> 'b io_result \<times> 'os" where
  "then_run r f = (case r of (Inl e, os) \<Rightarrow> (Inl e, os) | (Inr x, os) \<Rightarrow> f x os)"

lemma then_run_simps [simp, result_simps]:
  "then_run (Inl e, os) f = (Inl e, os)"
  "then_run (Inr x, os) f = f x os"
  by (simp_all add: then_run_def)

lemma run_command_result:
  "run_command exec program arguments os = (r, os') \<Longrightarrow>
   command_succeeds exec program arguments os = (is_ok r, os')"
  by (auto simp: run_command_def command_succeeds_def split: prod.splits sum.splits if_splits)

lemma is_ok_run_command:
  "is_ok (fst (run_command exec program arguments os)) = fst (command_succeeds exec program arguments os)"
  by (simp add: run_command_def command_succeeds_def split: prod.splits sum.splits)

lemma snd_run_command:
  "snd (run_command exec program arguments os) = snd (command_succeeds exec program arguments os)"
  by (simp add: run_command_def command_succeeds_def split: prod.splits sum.splits)

section \<open>The TUN device\<close>

text \<open>
  \<open>open_linux\<close>: the result with the descriptors that were closed again. The name goes into a field of
  \<open>IFNAMSIZ\<close> bytes, which the kernel replaces by the name it chose.
\<close>

record tun_device =
  tun_fd :: int
  tun_macos_header :: bool
  tun_name :: string

definition IFNAMSIZ :: nat where "IFNAMSIZ = 16"

definition nul :: char where "nul = char_of (0 :: nat)"

definition interface_field :: "string \<Rightarrow> string" where
  "interface_field requested =
     take IFNAMSIZ requested @ replicate (IFNAMSIZ - length requested) nul"

definition trim_nul :: "string \<Rightarrow> string" where
  "trim_nul s = rev (dropWhile (\<lambda>c. c = nul) (rev s))"

definition open_linux :: "int io_result \<Rightarrow> (int \<Rightarrow> string \<Rightarrow> string io_result) \<Rightarrow> string \<Rightarrow>
    tun_device io_result \<times> int list" where
  "open_linux opened tunsetiff requested_name =
     (case opened of
        Inl e \<Rightarrow> (Inl e, [])
      | Inr fd \<Rightarrow>
          (case tunsetiff fd (interface_field requested_name) of
             Inl e \<Rightarrow> (Inl e, [fd])
           | Inr field \<Rightarrow> (Inr \<lparr>tun_fd = fd, tun_macos_header = False, tun_name = trim_nul field\<rparr>, [])))"

text \<open>\<open>open_utun\<close>: three calls on the socket, each of which closes it when it fails.\<close>

definition utun_name :: "string \<Rightarrow> string" where
  "utun_name field = (if nul \<in> set field then takeWhile (\<lambda>c. c \<noteq> nul) field else ''utun'')"

definition open_utun :: "int io_result \<Rightarrow> (int \<Rightarrow> nat io_result) \<Rightarrow> (int \<Rightarrow> nat \<Rightarrow> unit io_result) \<Rightarrow>
    (int \<Rightarrow> string io_result) \<Rightarrow> tun_device io_result \<times> int list" where
  "open_utun opened ctl_info connect_ctl name_option =
     (case opened of
        Inl e \<Rightarrow> (Inl e, [])
      | Inr fd \<Rightarrow>
          (case ctl_info fd of
             Inl e \<Rightarrow> (Inl e, [fd])
           | Inr ctl_id \<Rightarrow>
               (case connect_ctl fd ctl_id of
                  Inl e \<Rightarrow> (Inl e, [fd])
                | Inr _ \<Rightarrow>
                    (case name_option fd of
                       Inl e \<Rightarrow> (Inl e, [fd])
                     | Inr field \<Rightarrow>
                         (Inr \<lparr>tun_fd = fd, tun_macos_header = True, tun_name = utun_name field\<rparr>, [])))))"

definition configure_mtu :: "platform \<Rightarrow> 'os commands \<Rightarrow> string \<Rightarrow> nat \<Rightarrow> 'os \<Rightarrow> unit io_result \<times> 'os" where
  "configure_mtu pf exec name mtu os =
     then_run (validate_mtu mtu, os) (\<lambda>_ os.
       case pf of
         MacOS \<Rightarrow> run_command exec ''ifconfig'' [name, ''mtu'', show_nat mtu] os
       | Linux \<Rightarrow> run_command exec ''ip'' [''link'', ''set'', ''dev'', name, ''mtu'', show_nat mtu] os
       | Windows \<Rightarrow>
           run_command exec ''netsh''
             [''interface'', ''ipv4'', ''set'', ''subinterface'', name, ''mtu='' @ show_nat mtu, ''store=active''] os
       | OtherPlatform \<Rightarrow> (Inl (error_other ''TUN MTU configuration is unsupported on this platform''), os))"

definition check_ipv4_configuration :: "string \<Rightarrow> string \<Rightarrow> string \<Rightarrow> (string \<times> nat) io_result" where
  "check_ipv4_configuration address peer network =
     and_then (ok_or (error_new InvalidInput ''network must be CIDR'') (split_once (CHR ''/'') network))
       (\<lambda>(network_address, prefix_text).
     and_then (ok_or (error_new InvalidInput ''invalid network prefix'') (parse_unsigned 255 prefix_text)) (\<lambda>prefix.
       if 32 < prefix \<or> parse_ipv4 address = None \<or> parse_ipv4 peer = None \<or> parse_ipv4 network_address = None
       then Inl (error_new InvalidInput ''invalid IPv4 TUN configuration'')
       else Inr (network_address, prefix)))"

definition configure_ipv4 :: "platform \<Rightarrow> 'os commands \<Rightarrow> string \<Rightarrow> string \<Rightarrow> string \<Rightarrow> string \<Rightarrow> 'os \<Rightarrow>
    unit io_result \<times> 'os" where
  "configure_ipv4 pf exec name address peer network os =
     then_run (check_ipv4_configuration address peer network, os) (\<lambda>(network_address, prefix) os.
       case pf of
         MacOS \<Rightarrow>
           (let mask_text = show_ipv4 (netmask prefix) in
            then_run (run_command exec ''ifconfig'' [name, address, peer, ''netmask'', mask_text, ''up''] os) (\<lambda>_.
            run_command exec ''route''
              [''-n'', ''add'', ''-net'', network_address, ''-netmask'', mask_text, ''-interface'', name]))
       | Linux \<Rightarrow>
           then_run (run_command exec ''ip''
              [''addr'', ''replace'', address @ ''/'' @ show_nat prefix, ''dev'', name] os) (\<lambda>_ os.
           then_run (run_command exec ''ip'' [''link'', ''set'', ''dev'', name, ''up''] os) (\<lambda>_.
           run_command exec ''ip'' [''route'', ''replace'', network, ''dev'', name]))
       | Windows \<Rightarrow>
           run_command exec ''netsh''
             [''interface'', ''ip'', ''set'', ''address'', ''name='' @ name, ''static'', address,
              show_ipv4 (netmask prefix), ''none'', ''store=active''] os
       | OtherPlatform \<Rightarrow> (Inl (error_other ''TUN configuration is unsupported on this platform''), os))"

section \<open>Forwarding\<close>

record forwarding_guard =
  guard_interface :: string
  guard_network :: string

definition forward_rule :: "string \<Rightarrow> string \<Rightarrow> string list" where
  "forward_rule interface network =
     [''-i'', interface, ''-o'', interface, ''-s'', network, ''-d'', network,
      ''-m'', ''comment'', ''--comment'', ''autobricks-vpn-client-forward'', ''-j'', ''ACCEPT'']"

text \<open>\<open>remove_rule\<close>: check and delete until the rule is gone or deleting it failed.\<close>

partial_function (option) remove_rule :: "'os commands \<Rightarrow> forwarding_guard \<Rightarrow> 'os \<Rightarrow> 'os option" where
  "remove_rule exec g os =
     (let rule = forward_rule (guard_interface g) (guard_network g);
          (exists, os1) = command_succeeds exec ''iptables'' (''-C'' # ''FORWARD'' # rule) os
      in if \<not> exists then Some os1
         else let (removed, os2) = command_succeeds exec ''iptables'' (''-D'' # ''FORWARD'' # rule) os1
              in if \<not> removed then Some os2 else remove_rule exec g os2)"

text \<open>\<open>Drop\<close> of the guard.\<close>

definition forwarding_drop :: "platform \<Rightarrow> 'os commands \<Rightarrow> forwarding_guard \<Rightarrow> 'os \<Rightarrow> 'os option" where
  "forwarding_drop pf exec g os = (if pf = Linux then remove_rule exec g os else Some os)"

text \<open>
  \<open>enable\<close>: once the guard exists, an error drops it. \<open>None\<close> is a removal that does not end.
\<close>

definition forwarding_enable :: "platform \<Rightarrow> 'os commands \<Rightarrow> string \<Rightarrow> string \<Rightarrow> 'os \<Rightarrow>
    (forwarding_guard io_result \<times> 'os) option" where
  "forwarding_enable pf exec interface network os =
     (if pf \<noteq> Linux then Some (Inr \<lparr>guard_interface = interface, guard_network = network\<rparr>, os)
      else case then_run (run_command exec ''sysctl'' [''-w'', ''net.ipv4.ip_forward=1''] os) (\<lambda>_.
             run_command exec ''sysctl'' [''-w'', ''net.ipv4.conf.'' @ interface @ ''.send_redirects=0'']) of
        (Inl e, os1) \<Rightarrow> Some (Inl e, os1)
      | (Inr _, os1) \<Rightarrow>
          (let g = \<lparr>guard_interface = interface, guard_network = network\<rparr> in
           remove_rule exec g os1 \<bind> (\<lambda>os2.
             case run_command exec ''iptables'' (''-I'' # ''FORWARD'' # ''1'' # forward_rule interface network) os2 of
               (Inr _, os3) \<Rightarrow> Some (Inr g, os3)
             | (Inl e, os3) \<Rightarrow> map_option (\<lambda>os4. (Inl e, os4)) (forwarding_drop pf exec g os3))))"

section \<open>DNS\<close>

record dns_guard =
  dns_interface :: string
  dns_services :: "(string \<times> string list) list"
  nrpt_comment :: string

definition apostrophe :: char where "apostrophe = char_of (39 :: nat)"

definition single_quoted :: "string \<Rightarrow> string" where
  "single_quoted s = apostrophe # s @ [apostrophe]"

text \<open>\<open>str::contains\<close>.\<close>

fun contains :: "string \<Rightarrow> string \<Rightarrow> bool" where
  "contains p [] = (p = [])"
| "contains p (c # s) = (starts_with p (c # s) \<or> contains p s)"

definition NO_DNS_SERVERS :: string where
  "NO_DNS_SERVERS = ''aren'' @ apostrophe # ''t any DNS Servers''"

text \<open>The services of the listing: not its first line, not the disabled ones.\<close>

definition active_services :: "string \<Rightarrow> string list" where
  "active_services listing =
     filter (\<lambda>service. service \<noteq> [] \<and> \<not> starts_with ''*'' service) (drop 1 (lines listing))"

definition previous_servers :: "string \<Rightarrow> string list" where
  "previous_servers output = (if contains NO_DNS_SERVERS output then [] else lines output)"

text \<open>The loop over the services: the guard so far is returned with an error too, to be dropped.\<close>

fun set_services :: "'os commands \<Rightarrow> string \<Rightarrow> string list \<Rightarrow> (string \<times> string list) list \<Rightarrow> 'os \<Rightarrow>
    unit io_result \<times> (string \<times> string list) list \<times> 'os" where
  "set_services exec server [] saved os = (Inr (), saved, os)"
| "set_services exec server (service # services) saved os =
     (case exec ''networksetup'' [''-getdnsservers'', service] os of
        (Inl e, os1) \<Rightarrow> (Inl e, saved, os1)
      | (Inr old, os1) \<Rightarrow>
          if \<not> exit_success old
          then (Inl (error_other (''unable to read DNS settings for '' @ service)), saved, os1)
          else let saved' = saved @ [(service, previous_servers (command_stdout old))] in
            (case run_command exec ''networksetup'' [''-setdnsservers'', service, server] os1 of
               (Inl e, os2) \<Rightarrow> (Inl e, saved', os2)
             | (Inr _, os2) \<Rightarrow> set_services exec server services saved' os2))"

definition restore_arguments :: "string list \<Rightarrow> string list" where
  "restore_arguments servers = (if servers = [] then [''Empty''] else servers)"

definition restore_service :: "'os commands \<Rightarrow> string \<times> string list \<Rightarrow> 'os \<Rightarrow> 'os" where
  "restore_service exec entry os =
     snd (exec ''networksetup'' (''-setdnsservers'' # fst entry # restore_arguments (snd entry)) os)"

text \<open>\<open>Drop\<close> of the guard: on macOS the settings are restored in reverse order.\<close>

definition nrpt_command :: "string \<Rightarrow> string list" where
  "nrpt_command text = [''-NoProfile'', ''-NonInteractive'', ''-Command'', text]"

definition dns_drop :: "platform \<Rightarrow> 'os commands \<Rightarrow> dns_guard \<Rightarrow> 'os \<Rightarrow> 'os" where
  "dns_drop pf exec g os =
     (case pf of
        Linux \<Rightarrow> snd (exec ''resolvectl'' [''revert'', dns_interface g] os)
      | MacOS \<Rightarrow> fold (restore_service exec) (rev (dns_services g)) os
      | Windows \<Rightarrow>
          snd (exec ''powershell.exe'' (nrpt_command (''Get-DnsClientNrptRule | Where-Object Comment -EQ ''
            @ single_quoted (nrpt_comment g) @ '' | Remove-DnsClientNrptRule -Force'')) os)
      | OtherPlatform \<Rightarrow> os)"

definition dns_apply_linux :: "'os commands \<Rightarrow> string \<Rightarrow> string \<Rightarrow> 'os \<Rightarrow> dns_guard io_result \<times> 'os" where
  "dns_apply_linux exec interface server os =
     then_run (run_command exec ''resolvectl'' [''dns'', interface, server] os) (\<lambda>_ os1.
       case run_command exec ''resolvectl'' [''domain'', interface, ''~.''] os1 of
         (Inl e, os2) \<Rightarrow> (Inl e, snd (exec ''resolvectl'' [''revert'', interface] os2))
       | (Inr _, os2) \<Rightarrow> (Inr \<lparr>dns_interface = interface, dns_services = [], nrpt_comment = []\<rparr>, os2))"

definition dns_apply_macos :: "'os commands \<Rightarrow> string \<Rightarrow> 'os \<Rightarrow> dns_guard io_result \<times> 'os" where
  "dns_apply_macos exec server os =
     then_run (exec ''networksetup'' [''-listallnetworkservices''] os) (\<lambda>out os1.
       if \<not> exit_success out then (Inl (error_other ''unable to list macOS network services''), os1)
       else case set_services exec server (active_services (command_stdout out)) [] os1 of
           (r, saved, os2) \<Rightarrow>
             (let g = \<lparr>dns_interface = [], dns_services = saved, nrpt_comment = []\<rparr> in
              case r of Inl e \<Rightarrow> (Inl e, dns_drop MacOS exec g os2) | Inr _ \<Rightarrow> (Inr g, os2)))"

definition dns_apply_windows :: "'os commands \<Rightarrow> nat \<Rightarrow> string \<Rightarrow> string \<Rightarrow> 'os \<Rightarrow> dns_guard io_result \<times> 'os" where
  "dns_apply_windows exec process_id interface server os =
     (let comment = ''autobricks-vpn-'' @ show_nat process_id in
      then_run (run_command exec ''powershell.exe''
          (nrpt_command (''Add-DnsClientNrptRule -Namespace '' @ single_quoted ''.'' @ '' -NameServers ''
             @ single_quoted server @ '' -Comment '' @ single_quoted comment)) os)
        (\<lambda>_ os1. (Inr \<lparr>dns_interface = interface, dns_services = [], nrpt_comment = comment\<rparr>, os1)))"

definition dns_apply :: "platform \<Rightarrow> 'os commands \<Rightarrow> nat \<Rightarrow> string \<Rightarrow> ipv4 \<Rightarrow> 'os \<Rightarrow> dns_guard io_result \<times> 'os" where
  "dns_apply pf exec process_id interface server os =
     (case pf of
        Linux \<Rightarrow> dns_apply_linux exec interface (show_ipv4 server) os
      | MacOS \<Rightarrow> dns_apply_macos exec (show_ipv4 server) os
      | Windows \<Rightarrow> dns_apply_windows exec process_id interface (show_ipv4 server) os
      | OtherPlatform \<Rightarrow> (Inl (error_other ''DNS configuration is unsupported''), os))"

section \<open>The device\<close>

text \<open>A descriptor is closed again exactly when the device cannot be set up.\<close>

lemma open_linux_closes:
  "open_linux (Inr fd) tunsetiff name = (r, closed) \<Longrightarrow>
   closed = (case r of Inl _ \<Rightarrow> [fd] | Inr d \<Rightarrow> []) \<and> (\<forall>d. r = Inr d \<longrightarrow> tun_fd d = fd)"
  by (auto simp: open_linux_def split: sum.splits)

lemma open_utun_closes:
  "open_utun (Inr fd) ctl_info connect_ctl name_option = (r, closed) \<Longrightarrow>
   closed = (case r of Inl _ \<Rightarrow> [fd] | Inr d \<Rightarrow> []) \<and> (\<forall>d. r = Inr d \<longrightarrow> tun_fd d = fd)"
  by (auto simp: open_utun_def split: sum.splits)

lemma length_interface_field: "length (interface_field name) = IFNAMSIZ"
  by (simp add: interface_field_def)

lemma dropWhile_replicate_append:
  "dropWhile (\<lambda>c. c = x) (replicate n x @ ys) = dropWhile (\<lambda>c. c = x) ys"
  by (induction n) simp_all

lemma trim_interface_field:
  assumes "length name \<le> IFNAMSIZ" "nul \<notin> set name"
  shows "trim_nul (interface_field name) = name"
proof -
  have "dropWhile (\<lambda>c. c = nul) (rev name) = rev name"
    using assms(2) by (cases name rule: rev_cases) auto
  then show ?thesis
    using assms(1) by (simp add: trim_nul_def interface_field_def dropWhile_replicate_append)
qed

text \<open>A kernel that keeps the requested name: the device has it.\<close>

lemma open_linux_name:
  assumes "\<And>field. tunsetiff fd field = Inr field" "length name \<le> IFNAMSIZ" "nul \<notin> set name"
  shows "open_linux (Inr fd) tunsetiff name = (Inr \<lparr>tun_fd = fd, tun_macos_header = False, tun_name = name\<rparr>, [])"
  using assms by (simp add: open_linux_def trim_interface_field)

lemma configure_ipv4_rejects:
  "check_ipv4_configuration address peer network = Inl e \<Longrightarrow>
   configure_ipv4 pf exec name address peer network os = (Inl e, os)"
  by (simp add: configure_ipv4_def)

section \<open>The forwarding rule\<close>

text \<open>
  What the guard relies on: \<open>rules\<close> is the FORWARD chain; checking changes nothing and finds only
  rules that are there, deleting removes the first occurrence, inserting at 1 puts the rule first,
  other programs leave the chain alone. Any of them may fail. They are reliable if checking finds a rule
  that is there and a rule that is there can be deleted.
\<close>

definition lawful_iptables :: "'os commands \<Rightarrow> ('os \<Rightarrow> string list list) \<Rightarrow> bool" where
  "lawful_iptables exec rules \<longleftrightarrow>
     (\<forall>rule os ok os'. command_succeeds exec ''iptables'' (''-C'' # ''FORWARD'' # rule) os = (ok, os') \<longrightarrow>
        (ok \<longrightarrow> rule \<in> set (rules os)) \<and> rules os' = rules os)
     \<and> (\<forall>rule os ok os'. command_succeeds exec ''iptables'' (''-D'' # ''FORWARD'' # rule) os = (ok, os') \<longrightarrow>
        rules os' = (if ok then remove1 rule (rules os) else rules os) \<and> (ok \<longrightarrow> rule \<in> set (rules os)))
     \<and> (\<forall>rule os ok os'. command_succeeds exec ''iptables'' (''-I'' # ''FORWARD'' # ''1'' # rule) os = (ok, os') \<longrightarrow>
        rules os' = (if ok then rule # rules os else rules os))
     \<and> (\<forall>program arguments os. program \<noteq> ''iptables'' \<longrightarrow> rules (snd (exec program arguments os)) = rules os)"

definition reliable_iptables :: "'os commands \<Rightarrow> ('os \<Rightarrow> string list list) \<Rightarrow> bool" where
  "reliable_iptables exec rules \<longleftrightarrow>
     (\<forall>rule os. rule \<in> set (rules os) \<longrightarrow>
        fst (command_succeeds exec ''iptables'' (''-C'' # ''FORWARD'' # rule) os)
        \<and> fst (command_succeeds exec ''iptables'' (''-D'' # ''FORWARD'' # rule) os))"

lemma check_law:
  "lawful_iptables exec rules \<Longrightarrow>
   command_succeeds exec ''iptables'' (''-C'' # ''FORWARD'' # rule) os = (ok, os') \<Longrightarrow>
   (ok \<longrightarrow> rule \<in> set (rules os)) \<and> rules os' = rules os"
  by (rule iffD1 [OF lawful_iptables_def, THEN conjunct1, rule_format])

lemma delete_law:
  "lawful_iptables exec rules \<Longrightarrow>
   command_succeeds exec ''iptables'' (''-D'' # ''FORWARD'' # rule) os = (ok, os') \<Longrightarrow>
   rules os' = (if ok then remove1 rule (rules os) else rules os) \<and> (ok \<longrightarrow> rule \<in> set (rules os))"
  by (rule iffD1 [OF lawful_iptables_def, THEN conjunct2, THEN conjunct1, rule_format])

lemma insert_law:
  "lawful_iptables exec rules \<Longrightarrow>
   command_succeeds exec ''iptables'' (''-I'' # ''FORWARD'' # ''1'' # rule) os = (ok, os') \<Longrightarrow>
   rules os' = (if ok then rule # rules os else rules os)"
  by (rule iffD1 [OF lawful_iptables_def, THEN conjunct2, THEN conjunct2, THEN conjunct1, rule_format])

lemma other_program_keeps_rules:
  assumes "lawful_iptables exec rules" "program \<noteq> ''iptables''"
  shows "rules (snd (run_command exec program arguments os)) = rules os"
proof -
  have "rules (snd (exec program arguments os)) = rules os"
    by (rule iffD1 [OF lawful_iptables_def assms(1), THEN conjunct2, THEN conjunct2, THEN conjunct2, rule_format, OF assms(2)])
  then show ?thesis by (auto simp: run_command_def split: prod.splits sum.splits)
qed

definition rule_of :: "forwarding_guard \<Rightarrow> string list" where
  "rule_of g = forward_rule (guard_interface g) (guard_network g)"

definition without :: "'a \<Rightarrow> 'a list \<Rightarrow> 'a list" where
  "without x xs = filter (\<lambda>y. y \<noteq> x) xs"

lemma without_simps [simp]:
  "without x (remove1 x xs) = without x xs"
  "without x (x # xs) = without x xs"
  "without x (without x xs) = without x xs"
  by (induction xs) (simp_all add: without_def)

lemma without_id: "x \<notin> set xs \<Longrightarrow> without x xs = xs"
  by (auto simp: without_def intro: filter_True)

lemma remove_rule_ends:
  assumes "lawful_iptables exec rules"
  shows "\<exists>os'. remove_rule exec g os = Some os' \<and> without (rule_of g) (rules os') = without (rule_of g) (rules os)
    \<and> (reliable_iptables exec rules \<longrightarrow> rules os' = without (rule_of g) (rules os))"
proof (induction "length (rules os)" arbitrary: os rule: less_induct)
  case less
  let ?rule = "forward_rule (guard_interface g) (guard_network g)"
  have rule: "rule_of g = ?rule" by (simp add: rule_of_def)
  obtain exists os1 where c: "command_succeeds exec ''iptables'' (''-C'' # ''FORWARD'' # ?rule) os = (exists, os1)"
    by (metis surj_pair)
  then have c': "exists \<longrightarrow> ?rule \<in> set (rules os)" "rules os1 = rules os"
    using check_law [OF assms c] by simp_all
  obtain removed os2 where d: "command_succeeds exec ''iptables'' (''-D'' # ''FORWARD'' # ?rule) os1 = (removed, os2)"
    by (metis surj_pair)
  then have d': "rules os2 = (if removed then remove1 ?rule (rules os1) else rules os1)"
      "removed \<longrightarrow> ?rule \<in> set (rules os1)"
    using delete_law [OF assms d] by simp_all
  have reliable: "exists \<and> removed" if "reliable_iptables exec rules" "?rule \<in> set (rules os)"
    using that c d c'(2) unfolding reliable_iptables_def by (metis fst_conv)
  consider "\<not> exists" | "exists" "\<not> removed" | "exists" "removed" by blast
  then show ?case
  proof cases
    case 1
    then have "rules os1 = without (rule_of g) (rules os)" if "reliable_iptables exec rules"
      using that reliable c'(2) rule by (metis without_id)
    then show ?thesis using 1 c c'(2) rule by (subst remove_rule.simps) (simp add: Let_def)
  next
    case 2
    then show ?thesis using c c' d d'(1) reliable rule
      by (subst remove_rule.simps) (auto simp: Let_def)
  next
    case 3
    then have m: "?rule \<in> set (rules os)" using c' by simp
    then have "length (rules os2) < length (rules os)"
      using d' c'(2) 3 length_pos_if_in_set [OF m] by (simp add: length_remove1)
    from less.hyps [OF this] show ?thesis using 3 c c'(2) d d'(1) rule
      by (subst remove_rule.simps) (simp add: Let_def)
  qed
qed

text \<open>A system with a chain of rules and working commands, for the witness.\<close>

definition example_iptables :: "string list list commands" where
  "example_iptables program arguments rules =
     (let ok = Inr \<lparr>exit_success = True, exit_status = ''0'', command_stdout = []\<rparr>;
          fail = Inr \<lparr>exit_success = False, exit_status = ''1'', command_stdout = []\<rparr> in
      if program = ''iptables'' then
        (case arguments of
           operation # chain # rule \<Rightarrow>
             if operation = ''-C'' then (if rule \<in> set rules then (ok, rules) else (fail, rules))
             else if operation = ''-D'' then (if rule \<in> set rules then (ok, remove1 rule rules) else (fail, rules))
             else if operation = ''-I'' then (ok, tl rule # rules)
             else (fail, rules)
         | _ \<Rightarrow> (fail, rules))
      else (ok, rules))"

lemma example_iptables_laws:
  "lawful_iptables example_iptables id" "reliable_iptables example_iptables id"
  by (auto simp: lawful_iptables_def reliable_iptables_def command_succeeds_def example_iptables_def Let_def
      split: if_splits)

text \<open>
  Enabling and disabling the rule always ends and never touches another rule: with a working
  \<open>iptables\<close>, \<open>enable\<close> leaves exactly one copy of the rule, in the first place, however many stale
  copies there were; dropping the guard removes every copy; when enabling fails no new copy is left.
\<close>

lemma forwarding_enable_result:
  fixes interface network :: string
  assumes laws: "lawful_iptables exec rules" and reliable: "reliable_iptables exec rules"
  defines "rule \<equiv> forward_rule interface network"
  shows "\<exists>r os1. forwarding_enable Linux exec interface network os = Some (r, os1)
    \<and> (case r of
         Inl _ \<Rightarrow> rules os1 = rules os \<or> rules os1 = without rule (rules os)
       | Inr g \<Rightarrow> rules os1 = rule # without rule (rules os)
           \<and> (\<exists>os2. forwarding_drop Linux exec g os1 = Some os2 \<and> rules os2 = without rule (rules os)))"
proof -
  let ?g = "\<lparr>guard_interface = interface, guard_network = network\<rparr>"
  have g: "rule_of ?g = rule" by (simp add: rule_of_def rule_def)
  have sysctl: "rules (snd (run_command exec ''sysctl'' arguments os)) = rules os" for arguments os
    using other_program_keeps_rules [OF laws] by simp
  define prep where "prep = then_run (run_command exec ''sysctl'' [''-w'', ''net.ipv4.ip_forward=1''] os) (\<lambda>_.
    run_command exec ''sysctl'' [''-w'', ''net.ipv4.conf.'' @ interface @ ''.send_redirects=0''])"
  obtain p os1 where p: "prep = (p, os1)" by (metis surj_pair)
  have os1: "rules os1 = rules os"
    using p sysctl unfolding prep_def
    by (simp add: then_run_def split: prod.splits sum.splits) (metis snd_conv)+
  obtain os2 where rm: "remove_rule exec ?g os1 = Some os2" "rules os2 = without rule (rules os)"
    using remove_rule_ends [OF laws, of ?g os1] reliable os1 g by auto
  obtain i os3 where i: "run_command exec ''iptables'' (''-I'' # ''FORWARD'' # ''1'' # rule) os2 = (i, os3)"
    by (metis surj_pair)
  have os3: "rules os3 = (if is_ok i then rule # rules os2 else rules os2)"
    by (rule insert_law [OF laws run_command_result [OF i]])
  obtain os4 where rm': "remove_rule exec ?g os3 = Some os4" "rules os4 = without rule (rules os3)"
    using remove_rule_ends [OF laws, of ?g os3] reliable g by auto
  have os4: "rules os4 = without rule (rules os)"
    using os3 rm(2) rm'(2) by (auto split: if_splits)
  have enable: "forwarding_enable Linux exec interface network os =
      (case prep of (Inl e, os1) \<Rightarrow> Some (Inl e, os1)
       | (Inr _, os1) \<Rightarrow> remove_rule exec ?g os1 \<bind> (\<lambda>os2.
           case run_command exec ''iptables'' (''-I'' # ''FORWARD'' # ''1'' # rule) os2 of
             (Inr _, os3) \<Rightarrow> Some (Inr ?g, os3)
           | (Inl e, os3) \<Rightarrow> map_option (\<lambda>os4. (Inl e, os4)) (forwarding_drop Linux exec ?g os3)))"
    by (simp only: forwarding_enable_def prep_def rule_def Let_def simp_thms if_False)
  show ?thesis
    unfolding enable using p os1 rm i os3 rm'(1) os4
    by (cases p; cases i) (auto simp: forwarding_drop_def)
qed

section \<open>The DNS settings of macOS\<close>

text \<open>
  What the guard relies on: the servers of every service are \<open>servers_of\<close>; \<open>networksetup\<close> prints a
  fixed list of distinct services and the servers of one of them in its documented form, and
  changes the servers of the named service, or nothing when it fails.
\<close>

definition servers_text :: "string \<Rightarrow> string list \<Rightarrow> string" where
  "servers_text service servers =
     (if servers = [] then ''There '' @ NO_DNS_SERVERS @ '' set on '' @ service @ ''.'' @ [newline]
      else concat (map (\<lambda>v. v @ [newline]) servers))"

definition lawful_networksetup :: "'os commands \<Rightarrow> string list \<Rightarrow> ('os \<Rightarrow> string \<Rightarrow> string list) \<Rightarrow> bool" where
  "lawful_networksetup exec services servers_of \<longleftrightarrow>
     distinct services
     \<and> (\<forall>os r os'. exec ''networksetup'' [''-listallnetworkservices''] os = (r, os') \<longrightarrow>
          servers_of os' = servers_of os
          \<and> (\<forall>out. r = Inr out \<and> exit_success out \<longrightarrow> active_services (command_stdout out) = services))
     \<and> (\<forall>service os r os'. exec ''networksetup'' [''-getdnsservers'', service] os = (r, os') \<longrightarrow>
          servers_of os' = servers_of os
          \<and> (\<forall>out. r = Inr out \<and> exit_success out \<longrightarrow>
               command_stdout out = servers_text service (servers_of os service)))
     \<and> (\<forall>service setting os ok os'.
          command_succeeds exec ''networksetup'' (''-setdnsservers'' # service # setting) os = (ok, os') \<longrightarrow>
          servers_of os' =
            (if ok then (servers_of os)(service := if setting = [''Empty''] then [] else setting) else servers_of os))"

text \<open>
  The settings in force can be set again: they are texts of addresses, and setting them does not fail.
\<close>

definition plain_server :: "string \<Rightarrow> bool" where
  "plain_server v = (newline \<notin> set v \<and> carriage_return \<notin> set v \<and> apostrophe \<notin> set v \<and> v \<noteq> ''Empty'')"

definition restorable :: "'os commands \<Rightarrow> (string \<Rightarrow> string list) \<Rightarrow> bool" where
  "restorable exec settings \<longleftrightarrow>
     (\<forall>service. list_all plain_server (settings service)
        \<and> (\<forall>os. fst (command_succeeds exec ''networksetup''
             (''-setdnsservers'' # service # restore_arguments (settings service)) os)))"

lemma list_law:
  "lawful_networksetup exec services servers_of \<Longrightarrow>
   exec ''networksetup'' [''-listallnetworkservices''] os = (r, os') \<Longrightarrow>
   servers_of os' = servers_of os
   \<and> (\<forall>out. r = Inr out \<and> exit_success out \<longrightarrow> active_services (command_stdout out) = services)"
  by (rule iffD1 [OF lawful_networksetup_def, THEN conjunct2, THEN conjunct1, rule_format])

lemma get_law:
  "lawful_networksetup exec services servers_of \<Longrightarrow>
   exec ''networksetup'' [''-getdnsservers'', service] os = (r, os') \<Longrightarrow>
   servers_of os' = servers_of os
   \<and> (\<forall>out. r = Inr out \<and> exit_success out \<longrightarrow>
        command_stdout out = servers_text service (servers_of os service))"
  by (rule iffD1 [OF lawful_networksetup_def, THEN conjunct2, THEN conjunct2, THEN conjunct1, rule_format])

lemma set_law:
  "lawful_networksetup exec services servers_of \<Longrightarrow>
   command_succeeds exec ''networksetup'' (''-setdnsservers'' # service # setting) os = (ok, os') \<Longrightarrow>
   servers_of os' =
     (if ok then (servers_of os)(service := if setting = [''Empty''] then [] else setting) else servers_of os)"
  by (rule iffD1 [OF lawful_networksetup_def, THEN conjunct2, THEN conjunct2, THEN conjunct2, rule_format])

lemma contains_set: "contains p s \<Longrightarrow> set p \<subseteq> set s"
proof (induction s)
  case Nil
  then show ?case by simp
next
  case (Cons c s)
  show ?case
  proof (cases "starts_with p (c # s)")
    case True
    then obtain r where "c # s = p @ r" by (auto simp: starts_with_iff)
    then show ?thesis by simp
  next
    case False
    then show ?thesis using Cons by auto
  qed
qed

lemma contains_append: "contains p (p @ s)"
proof (cases "p @ s")
  case Nil
  then show ?thesis by simp
next
  case (Cons c t)
  have "starts_with p (p @ s)" by (simp add: starts_with_iff)
  then show ?thesis unfolding Cons by simp
qed

lemma contains_prepend: "contains p s \<Longrightarrow> contains p (t @ s)"
  by (induction t) auto

lemma lines_servers: "list_all plain_server vs \<Longrightarrow> lines (concat (map (\<lambda>v. v @ [newline]) vs)) = vs"
proof (induction vs)
  case Nil
  then show ?case by simp
next
  case (Cons v vs)
  then have "newline \<notin> set v" "v = [] \<or> last v \<noteq> carriage_return"
    by (auto simp: plain_server_def dest: last_in_set)
  then show ?case using Cons by (simp add: lines_line)
qed

text \<open>Reading the settings of a service gives back what was set.\<close>

lemma previous_servers_text:
  assumes "list_all plain_server servers"
  shows "previous_servers (servers_text service servers) = servers"
proof (cases "servers = []")
  case True
  have "contains NO_DNS_SERVERS (NO_DNS_SERVERS @ '' set on '' @ service @ ''.'' @ [newline])"
    by (rule contains_append)
  then have "contains NO_DNS_SERVERS (''There '' @ NO_DNS_SERVERS @ '' set on '' @ service @ ''.'' @ [newline])"
    by (rule contains_prepend)
  then show ?thesis using True by (simp only: previous_servers_def servers_text_def simp_thms if_True)
next
  case False
  have "apostrophe \<notin> set (concat (map (\<lambda>v. v @ [newline]) servers))"
    using assms by (auto simp: list_all_iff plain_server_def newline_def apostrophe_def char_of_eq_iff)
  then have "\<not> contains NO_DNS_SERVERS (concat (map (\<lambda>v. v @ [newline]) servers))"
    using contains_set by (fastforce simp: NO_DNS_SERVERS_def)
  then show ?thesis using False assms by (simp add: previous_servers_def servers_text_def lines_servers)
qed

text \<open>
  The journal of the guard: it holds the settings \<open>V\<close> its services had, and the other services still
  have theirs.
\<close>

definition journal :: "(string \<Rightarrow> string list) \<Rightarrow> (string \<times> string list) list \<Rightarrow> (string \<Rightarrow> string list) \<Rightarrow> bool" where
  "journal V saved now_set \<longleftrightarrow>
     (\<forall>(service, old) \<in> set saved. old = V service) \<and> (\<forall>service. service \<notin> fst ` set saved \<longrightarrow> now_set service = V service)"

lemma set_services_journal:
  assumes laws: "lawful_networksetup exec listed servers_of" and plain: "\<forall>service. list_all plain_server (V service)"
  shows "set_services exec server services saved os = (r, saved', os') \<Longrightarrow> journal V saved (servers_of os) \<Longrightarrow>
    distinct services \<Longrightarrow> set services \<inter> fst ` set saved = {} \<Longrightarrow>
    (\<forall>service \<in> fst ` set saved. servers_of os service = [server]) \<Longrightarrow> server \<noteq> ''Empty'' \<Longrightarrow>
    journal V saved' (servers_of os')
    \<and> (is_ok r \<longrightarrow> map fst saved' = map fst saved @ services
         \<and> (\<forall>service \<in> fst ` set saved'. servers_of os' service = [server]))"
proof (induction services arbitrary: saved os)
  case Nil
  then show ?case by simp
next
  case (Cons service services)
  obtain g os1 where g: "exec ''networksetup'' [''-getdnsservers'', service] os = (g, os1)" by (metis surj_pair)
  then have os1: "servers_of os1 = servers_of os"
    and out: "\<And>out. g = Inr out \<Longrightarrow> exit_success out \<Longrightarrow>
      command_stdout out = servers_text service (servers_of os service)"
    using get_law [OF laws g] by blast+
  have v: "servers_of os service = V service" using Cons.prems(2,4) by (auto simp: journal_def)
  show ?case
  proof (cases "\<exists>out. g = Inr out \<and> exit_success out")
    case False
    then have "r = r \<and> \<not> is_ok r \<and> saved' = saved \<and> os' = os1"
      using Cons.prems(1) g by (auto split: sum.splits if_splits)
    then show ?thesis using Cons.prems(2) os1 by simp
  next
    case True
    then obtain old where old: "g = Inr old" "exit_success old" by blast
    let ?saved = "saved @ [(service, V service)]"
    have prev: "previous_servers (command_stdout old) = V service"
      using out [OF old] v plain by (simp add: previous_servers_text)
    obtain w os2 where w: "run_command exec ''networksetup'' [''-setdnsservers'', service, server] os1 = (w, os2)"
      by (metis surj_pair)
    then have "command_succeeds exec ''networksetup'' [''-setdnsservers'', service, server] os1 = (is_ok w, os2)"
      by (rule run_command_result)
    from set_law [OF laws this]
    have os2: "servers_of os2 = (if is_ok w then (servers_of os1)(service := [server]) else servers_of os1)"
      using Cons.prems(6) by simp
    have j: "journal V ?saved (servers_of os2)"
      using Cons.prems(2) os1 os2 by (auto simp: journal_def split: if_splits)
    show ?thesis
    proof (cases w)
      case (Inl e)
      then show ?thesis using Cons.prems(1) g old prev w j by auto
    next
      case (Inr u)
      then have "set_services exec server services ?saved os2 = (r, saved', os')"
        using Cons.prems(1) g old prev w by (simp add: Let_def)
      from Cons.IH [OF this j] show ?thesis
        using Cons.prems(3-6) os1 os2 Inr by (auto split: if_splits)
    qed
  qed
qed

lemma restore_service_effect:
  assumes laws: "lawful_networksetup exec listed servers_of" and "restorable exec V"
  shows "servers_of (restore_service exec (service, V service) os) = (servers_of os)(service := V service)"
proof -
  let ?setting = "restore_arguments (V service)"
  obtain ok os' where c: "command_succeeds exec ''networksetup'' (''-setdnsservers'' # service # ?setting) os = (ok, os')"
    by (metis surj_pair)
  then have ok: "ok" using assms(2) by (metis restorable_def fst_conv)
  have "list_all plain_server (V service)" using assms(2) by (simp add: restorable_def)
  then have "V service \<noteq> [''Empty'']" by (auto simp: plain_server_def)
  then have "(if ?setting = [''Empty''] then [] else ?setting) = V service" by (auto simp: restore_arguments_def)
  then have "servers_of os' = (servers_of os)(service := V service)"
    using set_law [OF laws c] ok by simp
  moreover have "restore_service exec (service, V service) os = os'"
    using c by (auto simp: restore_service_def command_succeeds_def split: prod.splits sum.splits)
  ultimately show ?thesis by simp
qed

lemma restore_all:
  assumes laws: "lawful_networksetup exec listed servers_of" "restorable exec V"
  shows "\<forall>(service, old) \<in> set saved. old = V service \<Longrightarrow>
    servers_of (fold (restore_service exec) saved os) =
      (\<lambda>service. if service \<in> fst ` set saved then V service else servers_of os service)"
proof (induction saved arbitrary: os)
  case Nil
  then show ?case by simp
next
  case (Cons entry saved)
  then obtain service where "entry = (service, V service)" by auto
  then show ?case using Cons restore_service_effect [OF laws] by auto
qed

lemma journal_restored:
  assumes "lawful_networksetup exec listed servers_of" "restorable exec V" "journal V saved (servers_of os)"
  shows "servers_of (dns_drop MacOS exec \<lparr>dns_interface = i, dns_services = saved, nrpt_comment = c\<rparr> os) = V"
  using restore_all [OF assms(1,2), of "rev saved"] assms(3) by (auto simp: dns_drop_def journal_def)

text \<open>A system with two services and one that is disabled, for the witness.\<close>

definition example_networksetup :: "(string \<Rightarrow> string list) commands" where
  "example_networksetup program arguments settings =
     (let out = (\<lambda>text. Inr \<lparr>exit_success = True, exit_status = ''0'', command_stdout = text\<rparr>) in
      case arguments of
        [] \<Rightarrow> (out [], settings)
      | operation # rest \<Rightarrow>
          if operation = ''-listallnetworkservices''
          then (out (''services'' @ newline # ''Wi-Fi'' @ newline # ''*Old'' @ newline # ''Ethernet'' @ newline # []), settings)
          else case rest of
              [] \<Rightarrow> (out [], settings)
            | service # setting \<Rightarrow>
                if operation = ''-getdnsservers'' then (out (servers_text service (settings service)), settings)
                else (out [], settings(service := if setting = [''Empty''] then [] else setting)))"

lemma example_services:
  "active_services (''services'' @ newline # ''Wi-Fi'' @ newline # ''*Old'' @ newline # ''Ethernet'' @ newline # [])
     = [''Wi-Fi'', ''Ethernet'']"
proof -
  have line: "lines (l @ newline # t) = l # lines t" if "list_all (\<lambda>c. 32 \<le> code c) l" for l t
  proof (rule lines_line)
    show "newline \<notin> set l" using that by (auto simp: list_all_iff newline_def code_char_of)
    show "l = [] \<or> last l \<noteq> carriage_return"
      using that by (cases l rule: rev_cases) (auto simp: carriage_return_def code_char_of)
  qed
  have "list_all (\<lambda>c. 32 \<le> code c) l" if "l \<in> {''services'', ''Wi-Fi'', ''*Old'', ''Ethernet''}" for l
    using that by (auto simp: code_def)
  then have "lines (''services'' @ newline # ''Wi-Fi'' @ newline # ''*Old'' @ newline # ''Ethernet'' @ newline # [])
      = [''services'', ''Wi-Fi'', ''*Old'', ''Ethernet'']"
    by (simp only: line insert_iff simp_thms lines_Nil)
  then show ?thesis unfolding active_services_def by (simp add: starts_with_def)
qed

lemma example_networksetup_list:
  "example_networksetup program [''-listallnetworkservices''] V =
     (Inr \<lparr>exit_success = True, exit_status = ''0'',
        command_stdout = ''services'' @ newline # ''Wi-Fi'' @ newline # ''*Old'' @ newline # ''Ethernet'' @ newline # []\<rparr>, V)"
  by (simp add: example_networksetup_def Let_def)

lemma example_networksetup_get:
  "example_networksetup program [''-getdnsservers'', service] V =
     (Inr \<lparr>exit_success = True, exit_status = ''0'', command_stdout = servers_text service (V service)\<rparr>, V)"
  by (simp add: example_networksetup_def Let_def)

lemma example_networksetup_set:
  "command_succeeds example_networksetup program (''-setdnsservers'' # service # setting) V =
     (True, V(service := if setting = [''Empty''] then [] else setting))"
  by (simp add: example_networksetup_def command_succeeds_def Let_def)

lemma example_networksetup_lawful: "lawful_networksetup example_networksetup [''Wi-Fi'', ''Ethernet''] (\<lambda>V. V)"
  unfolding lawful_networksetup_def example_networksetup_list example_networksetup_get example_networksetup_set
  using example_services by simp

lemma example_networksetup_restorable:
  "restorable example_networksetup (\<lambda>service. if service = ''Ethernet'' then [''9.9.9.9'', ''1.1.1.1''] else [])"
  unfolding restorable_def example_networksetup_set
  by (simp add: plain_server_def newline_def carriage_return_def apostrophe_def char_of_eq_iff)

lemma show_ipv4_not_Empty: "show_ipv4 server \<noteq> ''Empty''"
proof
  assume "show_ipv4 server = ''Empty''"
  then have "parse_ipv4 ''Empty'' = Some server" using parse_show_ipv4 [of server] by simp
  then show False by (simp add: parse_ipv4_def)
qed

text \<open>
  C15: The client leaves the DNS settings of a Mac as it found them. With a working \<open>networksetup\<close>: after
  \<open>DnsGuard::apply\<close> every listed service asks the VPN's server and every other service has the servers
  it had; dropping the guard restores the servers of every service; and if applying fails half-way,
  the settings are those of before.
\<close>

theorem dns_settings_restored:
  assumes laws: "lawful_networksetup exec services servers_of" and restorable: "restorable exec (servers_of os)"
    and applied: "dns_apply MacOS exec process_id interface server os = (r, os1)"
  shows "case r of
      Inl _ \<Rightarrow> servers_of os1 = servers_of os
    | Inr g \<Rightarrow>
        servers_of os1 = (\<lambda>s. if s \<in> set services then [show_ipv4 server] else servers_of os s)
        \<and> servers_of (dns_drop MacOS exec g os1) = servers_of os"
proof -
  obtain l osl where l: "exec ''networksetup'' [''-listallnetworkservices''] os = (l, osl)" by (metis surj_pair)
  note listed = list_law [OF laws l]
  show ?thesis
  proof (cases "\<exists>out. l = Inr out \<and> exit_success out")
    case False
    then have "\<not> is_ok r \<and> os1 = osl"
      using applied l by (cases l) (auto simp: dns_apply_def dns_apply_macos_def)
    then show ?thesis using listed by (auto split: sum.splits)
  next
    case True
    then obtain out where out: "l = Inr out" "exit_success out" by blast
    obtain e saved os2 where s: "set_services exec (show_ipv4 server) services [] osl = (e, saved, os2)"
      by (metis surj_pair)
    let ?g = "\<lparr>dns_interface = [], dns_services = saved, nrpt_comment = []\<rparr>"
    have r: "(r, os1) = (case e of Inl x \<Rightarrow> (Inl x, dns_drop MacOS exec ?g os2) | Inr _ \<Rightarrow> (Inr ?g, os2))"
      using applied l out listed s by (simp add: dns_apply_def dns_apply_macos_def Let_def)
    have "distinct services" using laws by (simp add: lawful_networksetup_def)
    moreover have "\<forall>service. list_all plain_server (servers_of os service)" using restorable by (simp add: restorable_def)
    moreover have "journal (servers_of os) [] (servers_of osl)" using listed by (simp add: journal_def)
    ultimately have j: "journal (servers_of os) saved (servers_of os2)"
      and finished: "is_ok e \<longrightarrow> map fst saved = services \<and> (\<forall>service \<in> fst ` set saved. servers_of os2 service = [show_ipv4 server])"
      using set_services_journal [OF laws _ s] show_ipv4_not_Empty by auto
    have restored: "servers_of (dns_drop MacOS exec ?g os2) = servers_of os"
      by (rule journal_restored [OF laws restorable j])
    show ?thesis
    proof (cases e)
      case (Inl x)
      then show ?thesis using r restored by simp
    next
      case (Inr u)
      then have "set services = fst ` set saved"
        "\<forall>service \<in> fst ` set saved. servers_of os2 service = [show_ipv4 server]"
        using finished unfolding Inr is_ok_simps by (metis list.set_map)+
      moreover have "\<forall>service. service \<notin> fst ` set saved \<longrightarrow> servers_of os2 service = servers_of os service"
        using j by (simp add: journal_def)
      ultimately have "servers_of os2 = (\<lambda>s. if s \<in> set services then [show_ipv4 server] else servers_of os s)"
        by (intro ext) metis
      then show ?thesis using Inr r restored by simp
    qed
  qed
qed

theorem dns_settings_restored_witness:
  "\<exists>g os1. dns_apply MacOS example_networksetup 1 ''utun3'' 0x0A080101
        (\<lambda>service. if service = ''Ethernet'' then [''9.9.9.9'', ''1.1.1.1''] else []) = (Inr g, os1)
    \<and> os1 ''Wi-Fi'' = [''10.8.1.1''] \<and> os1 ''Ethernet'' = [''10.8.1.1''] \<and> os1 ''Old'' = []
    \<and> dns_drop MacOS example_networksetup g os1 ''Wi-Fi'' = []
    \<and> dns_drop MacOS example_networksetup g os1 ''Ethernet'' = [''9.9.9.9'', ''1.1.1.1'']"
proof -
  let ?V = "\<lambda>service. if service = ''Ethernet'' then [''9.9.9.9'', ''1.1.1.1''] else []"
  obtain g os1 where a: "dns_apply MacOS example_networksetup 1 ''utun3'' 0x0A080101 ?V = (Inr g, os1)"
    using example_services
    by (simp add: dns_apply_def dns_apply_macos_def example_networksetup_def run_command_def Let_def)
  have ip: "show_ipv4 0x0A080101 = ''10.8.1.1''"
    by (simp add: show_ipv4_def show_octets_def octets_def show_nat.simps char_of_eq_iff)
  have result: "os1 = (\<lambda>s. if s \<in> set [''Wi-Fi'', ''Ethernet''] then [show_ipv4 0x0A080101] else ?V s)
      \<and> dns_drop MacOS example_networksetup g os1 = ?V"
    using dns_settings_restored [OF example_networksetup_lawful example_networksetup_restorable a]
    unfolding sum.case .
  have "os1 ''Wi-Fi'' = [''10.8.1.1''] \<and> os1 ''Ethernet'' = [''10.8.1.1''] \<and> os1 ''Old'' = []"
    using conjunct1 [OF result] ip by simp
  moreover have "dns_drop MacOS example_networksetup g os1 ''Wi-Fi'' = []"
      "dns_drop MacOS example_networksetup g os1 ''Ethernet'' = [''9.9.9.9'', ''1.1.1.1'']"
    unfolding conjunct2 [OF result] by simp_all
  ultimately show ?thesis using a by blast
qed

end
