(* ===== verification/Vpn_Tun.thy ===== *)
theory Vpn_Tun
  imports Vpn_Ipv4 Vpn_Queue
begin

text \<open>
  The TUN device and the two reading threads of the server: the classification of device errors, the
  frames with the four-byte header of macOS, the local answer to ICMP echo requests, and the threads
  that move packets from the device and datagrams from the socket into the bounded queues
  (\<open>src/src/lib.rs\<close>, \<open>src/src/server/tun_read.rs\<close>, \<open>src/src/server/udp_read.rs\<close>,
  \<open>src/src/server/queues.rs\<close>). The operating system's calls are parameters; \<open>ENOBUFS\<close>, whose number
  differs between systems, is one too.
\<close>

section \<open>Errors and panics\<close>

datatype tun_error_action = Retry | DropPacket | Fatal

definition classify_tun_error :: "int \<Rightarrow> io_error \<Rightarrow> tun_error_action" where
  "classify_tun_error enobufs e =
     (if kind e = WouldBlock \<or> kind e = Interrupted then Retry
      else if raw_os_error e = Some enobufs then DropPacket
      else Fatal)"

text \<open>How a Rust closure ends: it returns, or it unwinds with a payload that may carry a message.\<close>

datatype 'a outcome = Returned "'a io_result" | Panicked "string option"

definition panic_gate :: "string \<Rightarrow> 'a outcome \<Rightarrow> 'a io_result" where
  "panic_gate label operation =
     (case operation of
        Returned r \<Rightarrow> r
      | Panicked payload \<Rightarrow>
          Inl (error_other (label @ '' panicked: ''
            @ (case payload of None \<Rightarrow> ''unknown panic'' | Some m \<Rightarrow> m))))"

section \<open>Frames\<close>

definition TUN_BUFFER :: nat where "TUN_BUFFER = 2048"

text \<open>\<open>os_read n\<close> is what \<open>read\<close> returns for a buffer of \<open>n\<close> bytes.\<close>

definition read_packet :: "bool \<Rightarrow> (nat \<Rightarrow> byte list io_result) \<Rightarrow> nat \<Rightarrow> byte list io_result" where
  "read_packet macos_header os_read buffer_len =
     and_then (os_read (if macos_header then TUN_BUFFER else buffer_len)) (\<lambda>packet.
       if macos_header
       then if length packet \<le> 4 \<or> buffer_len < length packet - 4
            then Inl (error_other ''TUN packet too large'')
            else Inr (drop 4 packet)
       else Inr packet)"

text \<open>The big-endian protocol family before a packet.\<close>

definition family_header :: "byte list \<Rightarrow> byte list" where
  "family_header packet =
     [0, 0, 0, if packet \<noteq> [] \<and> drop_bit 4 (hd packet) = 6 then 30 else 2]"

definition write_packet :: "bool \<Rightarrow> (byte list \<Rightarrow> nat io_result) \<Rightarrow> byte list \<Rightarrow> nat io_result" where
  "write_packet macos_header os_write packet =
     (if macos_header
      then if TUN_BUFFER - 4 < length packet
           then Inl (error_new InvalidData ''TUN packet exceeds internal buffer'')
           else and_then (os_write (family_header packet @ packet)) (\<lambda>n. Inr (n - 4))
      else os_write packet)"

section \<open>Echo replies\<close>

text \<open>
  The sum over chunks of two bytes. The source adds in a \<open>u32\<close>; \<open>chunk_sum_bound\<close> shows that this
  cannot overflow for a packet of IPv4, so the sum is kept as a natural number.
\<close>

fun chunk_sum :: "byte list \<Rightarrow> nat" where
  "chunk_sum [] = 0"
| "chunk_sum [a] = unat a * 256"
| "chunk_sum (a # b # rest) = unat a * 256 + unat b + chunk_sum rest"

lemma carry_less: "0 < n div (65536 :: nat) \<Longrightarrow> n mod 65536 + n div 65536 < n"
proof -
  assume "0 < n div 65536"
  moreover have "n = 65536 * (n div 65536) + n mod 65536" by simp
  ultimately show ?thesis by linarith
qed

function fold_carry :: "nat \<Rightarrow> nat" where
  "fold_carry n = (if n div 65536 \<noteq> 0 then fold_carry (n mod 65536 + n div 65536) else n)"
  by pat_completeness auto
termination
  by (relation "measure id") (auto simp: carry_less)

declare fold_carry.simps [simp del]

definition internet_checksum :: "byte list \<Rightarrow> nat" where
  "internet_checksum bytes = 65535 - fold_carry (chunk_sum bytes)"

definition u16_to_be :: "nat \<Rightarrow> byte list" where
  "u16_to_be n = [word_of_nat (n div 256), word_of_nat (n mod 256)]"

definition local_echo_reply :: "byte list \<Rightarrow> ipv4 \<Rightarrow> byte list option" where
  "local_echo_reply packet address =
     (if length packet < 28 \<or> drop_bit 4 (packet ! 0) \<noteq> 4 \<or> packet ! 9 \<noteq> 1 then None
      else let header_len = unat (packet ! 0 AND 0x0F) * 4;
               total_len = u16_from_be (packet ! 2) (packet ! 3)
        in if header_len < 20 \<or> total_len < header_len + 8 \<or> length packet < total_len then None
           else if u16_from_be (packet ! 6) (packet ! 7) mod 2 ^ 14 \<noteq> 0 then None
           else if take 4 (drop 12 packet) \<noteq> octets address \<or> take 4 (drop 16 packet) \<noteq> octets address
             \<or> packet ! header_len \<noteq> 8 \<or> packet ! (header_len + 1) \<noteq> 0 then None
           else let reply = (take total_len packet)[header_len := 0, header_len + 2 := 0, header_len + 3 := 0];
                    checksum = u16_to_be (internet_checksum (drop header_len reply))
             in Some (reply[header_len + 2 := checksum ! 0, header_len + 3 := checksum ! 1]))"

section \<open>The reading threads\<close>

text \<open>What a reading thread shares with others: its queue, the counter of dropped items, the flag, and the errors it sent.\<close>

record 'a reader =
  reader_queue :: "'a queue"
  reader_drops :: nat
  reader_active :: bool
  reader_errors :: "io_error list"

text \<open>Pushing an item: an evicted item is counted; a closed queue ends the thread (the flag).\<close>

definition reader_push :: "'a \<Rightarrow> 'a reader \<Rightarrow> bool \<times> 'a reader" where
  "reader_push x r =
     (case push x (reader_queue r) of
        (Inr (Some _), q) \<Rightarrow> (True, r\<lparr>reader_queue := q, reader_drops := reader_drops r + 1\<rparr>)
      | (Inr None, q) \<Rightarrow> (True, r\<lparr>reader_queue := q\<rparr>)
      | (Inl _, q) \<Rightarrow> (False, r\<lparr>reader_queue := q\<rparr>))"

definition reader_fail :: "io_error \<Rightarrow> 'a reader \<Rightarrow> 'a reader" where
  "reader_fail e r =
     r\<lparr>reader_active := False, reader_errors := reader_errors r @ [e], reader_queue := close (reader_queue r)\<rparr>"

text \<open>One turn of the loop: what polling returned (an error, or the flags) and what reading returned.\<close>

record poll_events =
  poll_invalid :: bool
  poll_failed :: bool
  poll_readable :: bool

definition tun_read_turn :: "int \<Rightarrow> ipv4 option \<Rightarrow> poll_events io_result \<Rightarrow> byte list io_result \<Rightarrow>
    byte list reader \<Rightarrow> bool \<times> byte list option \<times> byte list reader" where
  "tun_read_turn enobufs echo_address polled packet r =
     (case polled of
        Inl e \<Rightarrow> (False, None, reader_fail e r)
      | Inr events \<Rightarrow>
          if poll_invalid events \<or> poll_failed events
          then (False, None, reader_fail (error_new BrokenPipe ''TUN device reported a permanent poll error'') r)
          else if \<not> poll_readable events then (True, None, r)
          else case packet of
              Inr [] \<Rightarrow> (True, None, r)
            | Inr p \<Rightarrow>
                (case (case echo_address of None \<Rightarrow> None | Some a \<Rightarrow> local_echo_reply p a) of
                   Some reply \<Rightarrow> (True, Some reply, r)
                 | None \<Rightarrow> (case reader_push p r of (go_on, r') \<Rightarrow> (go_on, None, r')))
            | Inl e \<Rightarrow>
                (case classify_tun_error enobufs e of
                   Fatal \<Rightarrow> (False, None, reader_fail e r)
                 | _ \<Rightarrow> (True, None, r)))"

text \<open>
  The inner loop of the UDP reader: it receives until the socket would block. The result tells whether
  the outer loop goes on (\<open>None\<close>) or what \<open>run\<close> returns; an exhausted script is a loop that still runs.
\<close>

fun udp_receive_loop :: "'a io_result list \<Rightarrow> 'a reader \<Rightarrow> (unit io_result option \<times> 'a reader) option" where
  "udp_receive_loop [] r = None"
| "udp_receive_loop (Inr x # script) r =
     (case reader_push x r of
        (True, r') \<Rightarrow> udp_receive_loop script r'
      | (False, r') \<Rightarrow> Some (Some (Inr ()), r'))"
| "udp_receive_loop (Inl e # script) r =
     (if kind e = WouldBlock \<or> kind e = Interrupted then Some (None, r) else Some (Some (Inl e), r))"

definition SERVER_QUEUE_CAPACITY :: nat where "SERVER_QUEUE_CAPACITY = 4096"

record 'd server_queues =
  udp_rx_queue :: "'d queue"
  tun_read_queue :: "byte list queue"

definition server_queue_new :: "'a queue io_result" where
  "server_queue_new =
     (case queue_new SERVER_QUEUE_CAPACITY of
        Inl _ \<Rightarrow> Inl (error_other ''queue capacity must be greater than zero'') | Inr q \<Rightarrow> Inr q)"

definition server_queues_new :: "'d server_queues io_result" where
  "server_queues_new =
     and_then server_queue_new (\<lambda>u. and_then server_queue_new (\<lambda>t. Inr \<lparr>udp_rx_queue = u, tun_read_queue = t\<rparr>))"

definition server_queues_close :: "'d server_queues \<Rightarrow> 'd server_queues" where
  "server_queues_close qs = qs\<lparr>udp_rx_queue := close (udp_rx_queue qs), tun_read_queue := close (tun_read_queue qs)\<rparr>"

section \<open>Sums\<close>

lemma chunk_sum_bound: "length bytes \<le> 65535 \<Longrightarrow> chunk_sum bytes < 2 ^ 32"
proof -
  have "chunk_sum bytes \<le> 65535 * length bytes"
  proof (induction bytes rule: chunk_sum.induct)
    case (2 a)
    then show ?case using unat_byte [of a] by simp
  next
    case (3 a b rest)
    then show ?case using unat_byte [of a] unat_byte [of b] by simp
  qed simp
  then show "length bytes \<le> 65535 \<Longrightarrow> chunk_sum bytes < 2 ^ 32" by simp
qed

lemma fold_carry_props:
  "fold_carry n < 65536 \<and> fold_carry n mod 65535 = n mod 65535 \<and> (0 < n \<longrightarrow> 0 < fold_carry n)"
proof (induction n rule: fold_carry.induct)
  case (1 n)
  show ?case
  proof (cases "n div 65536 = 0")
    case True
    then show ?thesis by (simp add: fold_carry.simps [of n] div_eq_0_iff)
  next
    case False
    let ?m = "n mod 65536 + n div 65536"
    have "n = ?m + 65535 * (n div 65536)" by simp
    then have "n mod 65535 = ?m mod 65535" by (metis mod_mult_self2)
    then show ?thesis using "1.IH" [OF False] False by (simp add: fold_carry.simps [of n])
  qed
qed


lemma fold_carry_full:
  assumes "0 < n" "n mod 65535 = 0"
  shows "fold_carry n = 65535"
proof -
  have k: "fold_carry n mod 65535 = 0" "0 < fold_carry n" "fold_carry n < 65536"
    using fold_carry_props [of n] assms by simp_all
  then obtain j where j: "fold_carry n = 65535 * j" by (metis dvdE mod_0_imp_dvd)
  then have "0 < j" "j < 2" using k(2,3) by simp_all
  then have "j = 1" by simp
  then show ?thesis using j by simp
qed

text \<open>A sum whose checksum field was zero, with the checksum filled in.\<close>

lemma checksum_filled:
  assumes "m = n + (65535 - fold_carry n)"
  shows "fold_carry m = 65535"
proof (rule fold_carry_full)
  have p: "fold_carry n < 65536" "fold_carry n mod 65535 = n mod 65535" "0 < n \<longrightarrow> 0 < fold_carry n"
    using fold_carry_props by blast+
  have zero: "fold_carry 0 = 0" by (simp add: fold_carry.simps [of 0])
  show "0 < m" using assms zero by (cases "n = 0") simp_all
  have "(m + fold_carry n) mod 65535 = (n + 65535) mod 65535" using assms p(1) by simp
  then have "(m + fold_carry n) mod 65535 = fold_carry n mod 65535" using p(2) by simp
  then have "65535 dvd (m + fold_carry n) - fold_carry n" using mod_eq_dvd_iff_nat le_add2 by blast
  then show "m mod 65535 = 0" by simp
qed

lemma u16_to_be_sum:
  "n < 65536 \<Longrightarrow> unat (u16_to_be n ! 0) * 256 + unat (u16_to_be n ! 1) = n"
  by (simp add: u16_to_be_def unat_of_nat take_bit_eq_mod)

lemma drop_four:
  assumes "h + 4 \<le> length bytes"
  shows "drop h bytes = bytes ! h # bytes ! (h + 1) # bytes ! (h + 2) # bytes ! (h + 3) # drop (h + 4) bytes"
  using assms by (simp add: Cons_nth_drop_Suc [symmetric] numeral_eq_Suc)

lemma chunk_sum_filled:
  assumes "h + 4 \<le> length bytes" "bytes ! (h + 2) = 0" "bytes ! (h + 3) = 0" "n < 65536"
  shows "chunk_sum (drop h (bytes[h + 2 := u16_to_be n ! 0, h + 3 := u16_to_be n ! 1])) = chunk_sum (drop h bytes) + n"
proof -
  let ?new = "bytes[h + 2 := u16_to_be n ! 0, h + 3 := u16_to_be n ! 1]"
  have "drop h ?new = bytes ! h # bytes ! (h + 1) # u16_to_be n ! 0 # u16_to_be n ! 1 # drop (h + 4) bytes"
    using assms(1) drop_four [of h ?new] by (simp add: drop_update_cancel)
  then show ?thesis using drop_four [OF assms(1)] assms(2,3) u16_to_be_sum [OF assms(4)] by simp
qed

lemma internet_checksum_filled:
  assumes "h + 4 \<le> length bytes" "bytes ! (h + 2) = 0" "bytes ! (h + 3) = 0"
    and "n = internet_checksum (drop h bytes)"
  shows "internet_checksum (drop h (bytes[h + 2 := u16_to_be n ! 0, h + 3 := u16_to_be n ! 1])) = 0"
proof -
  have "n < 65536" using assms(4) by (simp add: internet_checksum_def)
  then have "chunk_sum (drop h (bytes[h + 2 := u16_to_be n ! 0, h + 3 := u16_to_be n ! 1]))
      = chunk_sum (drop h bytes) + (65535 - fold_carry (chunk_sum (drop h bytes)))"
    using chunk_sum_filled [OF assms(1-3)] assms(4) by (simp add: internet_checksum_def)
  from checksum_filled [OF this] show ?thesis by (simp add: internet_checksum_def)
qed

section \<open>Pushing many items\<close>

fun reader_push_all :: "'a list \<Rightarrow> 'a reader \<Rightarrow> 'a reader" where
  "reader_push_all [] r = r"
| "reader_push_all (x # xs) r = reader_push_all xs (snd (reader_push x r))"

text \<open>The queue keeps the newest items; every item that had to make room is counted.\<close>

lemma reader_push_result:
  assumes "queue_inv (reader_queue r)" "\<not> closed (reader_queue r)"
  shows "\<exists>r'. reader_push x r = (True, r') \<and> queue_inv (reader_queue r') \<and> \<not> closed (reader_queue r')
    \<and> capacity (reader_queue r') = capacity (reader_queue r)
    \<and> items (reader_queue r') = drop (length (items (reader_queue r)) + 1 - capacity (reader_queue r))
        (items (reader_queue r) @ [x])
    \<and> reader_drops r' = reader_drops r + (length (items (reader_queue r)) + 1 - capacity (reader_queue r))
    \<and> reader_active r' = reader_active r \<and> reader_errors r' = reader_errors r"
proof -
  have inv: "queue_inv (snd (push x (reader_queue r)))" using assms(1) by (rule push_inv)
  show ?thesis
  proof (cases "items (reader_queue r)")
    case Nil
    then show ?thesis using assms inv by (auto simp: reader_push_def push_def queue_inv_def pop_front_def Let_def)
  next
    case (Cons y ys)
    then show ?thesis using assms inv by (auto simp: reader_push_def push_def queue_inv_def pop_front_def Let_def)
  qed
qed


lemma reader_push_all_result:
  assumes "queue_inv (reader_queue r)" "\<not> closed (reader_queue r)"
  shows "queue_inv (reader_queue (reader_push_all xs r)) \<and> \<not> closed (reader_queue (reader_push_all xs r))
    \<and> items (reader_queue (reader_push_all xs r)) =
        drop (length (items (reader_queue r)) + length xs - capacity (reader_queue r)) (items (reader_queue r) @ xs)
    \<and> reader_drops (reader_push_all xs r) =
        reader_drops r + (length (items (reader_queue r)) + length xs - capacity (reader_queue r))"
  using assms
proof (induction xs arbitrary: r)
  case Nil
  then show ?case by (simp add: queue_inv_def)
next
  case (Cons x xs)
  obtain r' where r': "reader_push x r = (True, r')" "queue_inv (reader_queue r')" "\<not> closed (reader_queue r')"
    and cap: "capacity (reader_queue r') = capacity (reader_queue r)"
    and it: "items (reader_queue r') = drop (length (items (reader_queue r)) + 1 - capacity (reader_queue r))
        (items (reader_queue r) @ [x])"
    and dr: "reader_drops r' = reader_drops r + (length (items (reader_queue r)) + 1 - capacity (reader_queue r))"
    using reader_push_result [OF Cons.prems, of x] by blast
  have "length (items (reader_queue r)) \<le> capacity (reader_queue r)"
    using Cons.prems(1) by (simp add: queue_inv_def)
  then consider "length (items (reader_queue r)) < capacity (reader_queue r)"
    | "length (items (reader_queue r)) = capacity (reader_queue r)" "0 < capacity (reader_queue r)"
    using Cons.prems(1) by (fastforce simp: queue_inv_def)
  then show ?case
    using Cons.IH [OF r'(2,3)] r'(1) cap it dr by cases auto
qed

lemma udp_receive_loop_received:
  assumes "queue_inv (reader_queue r)" "\<not> closed (reader_queue r)" "kind e \<in> {WouldBlock, Interrupted}"
  shows "udp_receive_loop (map Inr xs @ Inl e # script) r = Some (None, reader_push_all xs r)"
  using assms(1,2)
proof (induction xs arbitrary: r)
  case Nil
  then show ?case using assms(3) by auto
next
  case (Cons x xs)
  obtain r' where "reader_push x r = (True, r')" "queue_inv (reader_queue r')" "\<not> closed (reader_queue r')"
    using reader_push_result [OF Cons.prems, of x] by blast
  then show ?case using Cons.IH by simp
qed

section \<open>An example\<close>

definition example_echo :: "byte list" where
  "example_echo = [0x45, 0, 0, 29, 0, 0, 0, 0, 64, 1, 0, 0, 10, 8, 1, 1, 10, 8, 1, 1, 8, 0, 0x12, 0x34, 0, 7, 0, 1, 255, 9]"

lemma example_echo_reply: "\<exists>reply. local_echo_reply example_echo 0x0A080101 = Some reply"
  by (simp add: local_echo_reply_def example_echo_def drop_bit_eq_div u16_from_be_def octets_def Let_def)

section \<open>Properties\<close>

lemma unfragmented_iff: "u16_from_be a b mod 2 ^ 14 = 0 \<longleftrightarrow> unat a mod 64 = 0 \<and> b = 0"
proof -
  have "unat b < 256" using unsigned_less [of b] by simp
  then have "(unat a * 256 + unat b) mod (256 * 64) = 256 * (unat a mod 64) + unat b" by (simp only: mod_mult2_eq) simp
  then have "(unat a * 256 + unat b) mod 16384 = 256 * (unat a mod 64) + unat b" by simp
  then show ?thesis by (simp add: u16_from_be_def unat_eq_0)
qed

text \<open>
  C36: An answer is given exactly for an echo request from and to the server's own address: an IPv4 packet of at least
  28 octets whose protocol is ICMP, whose header is at least 20 octets and whose announced length
  holds header and ICMP header and was received, which is not a fragment (neither the flag of more fragments nor an
  offset is set in octets 6 and 7), with both addresses the server's, type 8 and code 0. The answer is a valid ICMP
  message: its checksum verifies (the one's complement sum over the message is zero), its type is echo reply, it
  has the length the IP header announces, and outside the type and the checksum it equals the request.
\<close>

theorem echo_reply_is_valid:
  defines "header \<equiv> \<lambda>packet. unat (packet ! 0 AND 0x0F) * 4"
    and "announced \<equiv> \<lambda>packet. u16_from_be (packet ! 2) (packet ! 3)"
  shows "(local_echo_reply packet address \<noteq> None \<longleftrightarrow>
      28 \<le> length packet \<and> drop_bit 4 (packet ! 0) = 4 \<and> packet ! 9 = 1
      \<and> 20 \<le> header packet \<and> header packet + 8 \<le> announced packet \<and> announced packet \<le> length packet
      \<and> unat (packet ! 6) mod 64 = 0 \<and> packet ! 7 = 0
      \<and> take 4 (drop 12 packet) = octets address \<and> take 4 (drop 16 packet) = octets address
      \<and> packet ! header packet = 8 \<and> packet ! (header packet + 1) = 0)
    \<and> (\<forall>reply. local_echo_reply packet address = Some reply \<longrightarrow>
        length reply = announced packet \<and> internet_checksum (drop (header packet) reply) = 0
        \<and> reply ! header packet = 0
        \<and> (\<forall>i < length reply. i \<notin> {header packet, header packet + 2, header packet + 3} \<longrightarrow> reply ! i = packet ! i))"
proof (intro conjI allI impI)
  show "local_echo_reply packet address \<noteq> None \<longleftrightarrow>
      28 \<le> length packet \<and> drop_bit 4 (packet ! 0) = 4 \<and> packet ! 9 = 1
      \<and> 20 \<le> header packet \<and> header packet + 8 \<le> announced packet \<and> announced packet \<le> length packet
      \<and> unat (packet ! 6) mod 64 = 0 \<and> packet ! 7 = 0
      \<and> take 4 (drop 12 packet) = octets address \<and> take 4 (drop 16 packet) = octets address
      \<and> packet ! header packet = 8 \<and> packet ! (header packet + 1) = 0"
    unfolding header_def announced_def local_echo_reply_def Let_def unfragmented_iff by auto
next
  fix reply assume r: "local_echo_reply packet address = Some reply"
  let ?h = "header packet" and ?n = "announced packet"
  let ?z = "(take ?n packet)[?h := 0, ?h + 2 := 0, ?h + 3 := 0]"
  let ?c = "internet_checksum (drop ?h ?z)"
  have g: "?h + 8 \<le> ?n" "?n \<le> length packet"
    and reply: "reply = ?z[?h + 2 := u16_to_be ?c ! 0, ?h + 3 := u16_to_be ?c ! 1]"
    using r unfolding header_def announced_def by (auto simp: local_echo_reply_def Let_def split: if_splits)
  show "internet_checksum (drop ?h reply) = 0"
    unfolding reply using g by (intro internet_checksum_filled) simp_all
  show "reply ! ?h = 0" "length reply = ?n" unfolding reply using g by simp_all
  show "reply ! i = packet ! i" if "i < length reply" "i \<notin> {?h, ?h + 2, ?h + 3}" for i
    using that unfolding reply by simp
qed

theorem echo_reply_is_valid_witness:
  "(\<exists>reply. local_echo_reply example_echo 0x0A080101 = Some reply \<and> length reply = 29
     \<and> internet_checksum (drop 20 reply) = 0 \<and> reply ! 20 = 0)
   \<and> local_echo_reply (example_echo[6 := 0x20]) 0x0A080101 = None"
proof
  obtain reply where r: "local_echo_reply example_echo 0x0A080101 = Some reply" using example_echo_reply by blast
  have "unat (example_echo ! 0 AND 0x0F) * 4 = 20" "u16_from_be (example_echo ! 2) (example_echo ! 3) = 29"
    by (simp_all add: example_echo_def u16_from_be_def)
  then show "\<exists>reply. local_echo_reply example_echo 0x0A080101 = Some reply \<and> length reply = 29
     \<and> internet_checksum (drop 20 reply) = 0 \<and> reply ! 20 = 0"
    using echo_reply_is_valid [where packet = example_echo and address = "0x0A080101"] r by auto
  have "example_echo[6 := 0x20] ! 6 = 0x20" by (simp add: example_echo_def)
  then show "local_echo_reply (example_echo[6 := 0x20]) 0x0A080101 = None"
    using echo_reply_is_valid [where packet = "example_echo[6 := 0x20]" and address = "0x0A080101"] by auto
qed

text \<open>
  A packet survives the header of macOS: what \<open>write_packet\<close> hands to the device for a non-empty
  packet that fits, \<open>read_packet\<close> gives back unchanged, and the number of bytes reported for a
  complete write is the length of the packet itself.
\<close>

lemma tun_header_round_trip:
  assumes "packet \<noteq> []" "length packet \<le> 2044" "length packet \<le> buffer_len"
  shows "\<exists>frame. write_packet True (\<lambda>bytes. if bytes = frame then Inr (length bytes) else Inl e) packet = Inr (length packet)
    \<and> read_packet True (\<lambda>_. Inr frame) buffer_len = Inr packet"
  using assms by (intro exI [of _ "family_header packet @ packet"])
    (simp add: write_packet_def read_packet_def TUN_BUFFER_def family_header_def)

lemma tun_header_round_trip_witness:
  "\<exists>frame. write_packet True (\<lambda>bytes. if bytes = frame then Inr (length bytes) else Inl (error_from_kind BrokenPipe)) [0x45, 0]
       = Inr 2
     \<and> read_packet True (\<lambda>_. Inr frame) 2048 = Inr [0x45, 0]"
  using tun_header_round_trip [of "[0x45, 0]" 2048 "error_from_kind BrokenPipe"] by (simp add: numeral_2_eq_2)

text \<open>
  The UDP reader loses nothing silently: when it receives datagrams until the socket would block,
  its queue holds the newest datagrams, in order and as many as fit, and the drop counter grew by
  exactly the number of datagrams that had to make room.
\<close>

lemma udp_reader_keeps_newest_and_counts:
  assumes "queue_inv (reader_queue r)" "\<not> closed (reader_queue r)" "kind e \<in> {WouldBlock, Interrupted}"
  shows "\<exists>r'. udp_receive_loop (map Inr datagrams @ Inl e # script) r = Some (None, r')
    \<and> items (reader_queue r') =
        drop (length (items (reader_queue r)) + length datagrams - capacity (reader_queue r))
          (items (reader_queue r) @ datagrams)
    \<and> reader_drops r' =
        reader_drops r + (length (items (reader_queue r)) + length datagrams - capacity (reader_queue r))"
  using udp_receive_loop_received [OF assms] reader_push_all_result [OF assms(1,2)] by blast

lemma udp_reader_keeps_newest_and_counts_witness:
  "\<exists>r'. udp_receive_loop [Inr 1, Inr 2, Inr (3 :: nat), Inl (error_from_kind WouldBlock)]
      \<lparr>reader_queue = \<lparr>capacity = 2, items = [], closed = False, generation = 0\<rparr>, reader_drops = 0,
       reader_active = True, reader_errors = []\<rparr> = Some (None, r')
    \<and> items (reader_queue r') = [2, 3] \<and> reader_drops r' = 1"
  using udp_reader_keeps_newest_and_counts [of "\<lparr>reader_queue = \<lparr>capacity = 2, items = [], closed = False, generation = 0\<rparr>,
       reader_drops = 0, reader_active = True, reader_errors = []\<rparr>" "error_from_kind WouldBlock" "[1, 2, 3 :: nat]" "[]"]
  by (simp add: queue_inv_def)

text \<open>
  The TUN reader ends exactly on a permanent failure. A turn in which polling and reading raise
  nothing worse than a transient error keeps the thread, the errors and the flag as they are; a
  failed poll, a broken device or a fatal read error clears the flag, closes the queue and reports
  one error.
\<close>

lemma tun_reader_stops_only_on_failure:
  assumes "\<not> closed (reader_queue r)"
    and "tun_read_turn enobufs echo_address polled packet r = (go_on, reply, r')"
  shows "if (case polled of Inl _ \<Rightarrow> True
             | Inr events \<Rightarrow> poll_invalid events \<or> poll_failed events
                 \<or> (poll_readable events \<and> (\<exists>e. packet = Inl e \<and> classify_tun_error enobufs e = Fatal)))
         then \<not> go_on \<and> \<not> reader_active r' \<and> closed (reader_queue r') \<and> items (reader_queue r') = []
           \<and> (\<exists>e. reader_errors r' = reader_errors r @ [e])
         else go_on \<and> reader_active r' = reader_active r \<and> \<not> closed (reader_queue r') \<and> reader_errors r' = reader_errors r"
proof -
  have fail: "closed (reader_queue (reader_fail e r)) \<and> items (reader_queue (reader_fail e r)) = []
      \<and> \<not> reader_active (reader_fail e r) \<and> reader_errors (reader_fail e r) = reader_errors r @ [e]" for e
    using assms(1) by (simp add: reader_fail_def close_def)
  have ok: "\<exists>r''. reader_push p r = (True, r'') \<and> \<not> closed (reader_queue r'') \<and> reader_active r'' = reader_active r
      \<and> reader_errors r'' = reader_errors r" for p
    using assms(1) by (auto simp: reader_push_def push_def Let_def split: option.splits prod.splits)
  show ?thesis
  proof (cases polled)
    case (Inl e)
    then show ?thesis using assms(2) fail by (auto simp: tun_read_turn_def)
  next
    case (Inr events)
    show ?thesis
    proof (cases packet)
      case (Inl e)
      then show ?thesis using assms Inr fail
        by (cases "classify_tun_error enobufs e") (auto simp: tun_read_turn_def split: if_splits)
    next
      case p: (Inr p)
      then show ?thesis using assms Inr fail ok [of p]
        by (cases p) (auto simp: tun_read_turn_def split: if_splits option.splits prod.splits)
    qed
  qed
qed

lemma tun_reader_stops_only_on_failure_witness:
  "\<not> reader_active (snd (snd (tun_read_turn 105 None
      (Inr \<lparr>poll_invalid = False, poll_failed = False, poll_readable = True\<rparr>) (Inl (error_from_kind BrokenPipe))
      \<lparr>reader_queue = \<lparr>capacity = 2, items = [], closed = False, generation = 0\<rparr>, reader_drops = 0,
       reader_active = True, reader_errors = []\<rparr>)))"
proof -
  let ?r = "\<lparr>reader_queue = \<lparr>capacity = 2, items = [], closed = False, generation = 0\<rparr>, reader_drops = 0,
       reader_active = True, reader_errors = []\<rparr> :: byte list reader"
  let ?p = "Inr \<lparr>poll_invalid = False, poll_failed = False, poll_readable = True\<rparr>"
  obtain go_on reply r' where t: "tun_read_turn 105 None ?p (Inl (error_from_kind BrokenPipe)) ?r = (go_on, reply, r')"
    by (metis prod_cases3)
  have "classify_tun_error 105 (error_from_kind BrokenPipe) = Fatal" by (simp add: classify_tun_error_def)
  then show ?thesis using tun_reader_stops_only_on_failure [OF _ t] t by simp
qed

end
