(* ===== verification/Vpn_Server_Run.thy ===== *)
theory Vpn_Server_Run
  imports Vpn_Server Vpn_System Vpn_Tun
begin

text \<open>
  The life of the server process around its workers: \<open>run\<close> of \<open>src/src/server.rs\<close> from the opening of
  the TUN device to its result, with the forwarding guard that is dropped on every way out; the poll
  call of \<open>server/socket.rs\<close>; the loop of the main thread (\<open>server/udp_read.rs\<close>).
\<close>

section \<open>Polling\<close>

text \<open>
  The wait in milliseconds, at most \<open>i32::MAX\<close>, and the result of \<open>poll\<close>: an interrupted call is no
  error, and the events are then those of before the call, none.
\<close>

definition poll_timeout_ms :: "duration \<Rightarrow> nat" where
  "poll_timeout_ms timeout = min (timeout div 1000000) (2 ^ 31 - 1)"

definition socket_poll :: "(nat \<Rightarrow> 'ev io_result) \<Rightarrow> 'ev \<Rightarrow> duration \<Rightarrow> 'ev io_result" where
  "socket_poll os_poll none timeout =
     (case os_poll (poll_timeout_ms timeout) of
        Inl e \<Rightarrow> if kind e = Interrupted then Inr none else Inl e
      | Inr events \<Rightarrow> Inr events)"

section \<open>The main thread\<close>

text \<open>
  One script entry per turn: whether the server still runs, what \<open>poll\<close> answered (readable or not),
  and the script of the receiving loop.
\<close>

fun udp_read_run :: "(bool \<times> (nat \<Rightarrow> bool io_result) \<times> 'a io_result list) list \<Rightarrow> 'a reader \<Rightarrow>
    (unit io_result \<times> 'a reader) option" where
  "udp_read_run [] r = None"
| "udp_read_run ((running, os_poll, received) # turns) r =
     (if \<not> running then Some (Inr (), r)
      else case socket_poll os_poll False (millis 100) of
          Inl e \<Rightarrow> Some (Inl e, r)
        | Inr readable \<Rightarrow>
            if \<not> readable then udp_read_run turns r
            else case udp_receive_loop received r of
                None \<Rightarrow> None
              | Some (Some result, r') \<Rightarrow> Some (result, r')
              | Some (None, r') \<Rightarrow> udp_read_run turns r')"

section \<open>Life cycle\<close>

text \<open>
  \<open>run\<close> after the configuration was read: the device is opened and configured, forwarding is enabled,
  the steps of \<open>prepared\<close> follow in order (checking the credentials, the cookie secret, the stateless
  acceptor, the queues, the threads), and the results of the threads are combined. The guard is
  dropped when \<open>run\<close> returns.
\<close>

definition server_device :: "platform \<Rightarrow> 'os commands \<Rightarrow> string \<Rightarrow> string \<Rightarrow> server_config \<Rightarrow> 'os \<Rightarrow> unit io_result \<times> 'os" where
  "server_device pf exec name address_text c os =
     then_run (configure_mtu pf exec name (mtu c) os) (\<lambda>_.
     configure_ipv4 pf exec name address_text address_text (vpn_network c))"

definition server_result :: "unit io_result list \<Rightarrow> unit io_result list \<Rightarrow> unit io_result" where
  "server_result prepared joined = and_then (first_error prepared) (\<lambda>_. first_error joined)"

definition server_run :: "platform \<Rightarrow> 'os commands \<Rightarrow> tun_device io_result \<Rightarrow> string \<Rightarrow> server_config \<Rightarrow>
    unit io_result list \<Rightarrow> unit io_result list \<Rightarrow> 'os \<Rightarrow> (unit io_result \<times> 'os) option" where
  "server_run pf exec opened address_text c prepared joined os =
     (case opened of
        Inl e \<Rightarrow> Some (Inl e, os)
      | Inr tun \<Rightarrow>
          (case server_device pf exec (tun_name tun) address_text c os of
             (Inl e, os1) \<Rightarrow> Some (Inl e, os1)
           | (Inr _, os1) \<Rightarrow>
               (case forwarding_enable pf exec (tun_name tun) (vpn_network c) os1 of
                  None \<Rightarrow> None
                | Some (Inl e, os2) \<Rightarrow> Some (Inl e, os2)
                | Some (Inr g, os2) \<Rightarrow>
                    map_option (\<lambda>os3. (server_result prepared joined, os3)) (forwarding_drop pf exec g os2))))"

section \<open>Lemmas\<close>

lemma first_error_ok: "first_error rs = Inr () \<longleftrightarrow> (\<forall>r \<in> set rs. is_ok r)"
  by (induction rs rule: first_error.induct) auto

lemma first_error_in: "first_error rs = Inl e \<Longrightarrow> Inl e \<in> set rs"
  by (induction rs rule: first_error.induct) auto

text \<open>The main thread reports an error only if polling or receiving failed with one.\<close>

lemma udp_receive_loop_error:
  "udp_receive_loop script r = Some (Some (Inl e), r') \<Longrightarrow> Inl e \<in> set script \<and> kind e \<notin> {WouldBlock, Interrupted}"
  by (induction script r rule: udp_receive_loop.induct) (auto split: prod.splits bool.splits if_splits)

lemma udp_read_run_error:
  "udp_read_run turns r = Some (Inl e, r') \<Longrightarrow>
   \<exists>(running, os_poll, received) \<in> set turns. running
     \<and> (os_poll 100 = Inl e \<and> kind e \<noteq> Interrupted \<or> Inl e \<in> set received \<and> kind e \<notin> {WouldBlock, Interrupted})"
proof (induction turns r rule: udp_read_run.induct)
  case (1 r)
  then show ?case by simp
next
  case (2 running os_poll received turns r)
  let ?turn = "(running, os_poll, received)"
  have ms: "poll_timeout_ms (millis 100) = 100" by (simp add: poll_timeout_ms_def millis_def)
  have running: "running" using "2.prems" by (simp split: if_splits)
  have later: ?case if "udp_read_run turns r2 = Some (Inl e, r')"
    and "udp_read_run turns r2 = Some (Inl e, r') \<Longrightarrow>
      \<exists>(running, os_poll, received) \<in> set turns. running
        \<and> (os_poll 100 = Inl e \<and> kind e \<noteq> Interrupted \<or> Inl e \<in> set received \<and> kind e \<notin> {WouldBlock, Interrupted})" for r2
    using that(2) [OF that(1)] by auto
  show ?case
  proof (cases "socket_poll os_poll False (millis 100)")
    case (Inl x)
    then have "x = e" using "2.prems" running by simp
    then have "os_poll 100 = Inl e \<and> kind e \<noteq> Interrupted"
      using Inl ms by (simp add: socket_poll_def split: sum.splits if_splits)
    then show ?thesis using running by auto
  next
    case (Inr readable)
    show ?thesis
    proof (cases readable)
      case False
      then show ?thesis using later [of r] "2.IH"(1) [OF _ Inr] "2.prems" running Inr by simp
    next
      case True
      then obtain stop r2 where l: "udp_receive_loop received r = Some (stop, r2)"
        using "2.prems" running Inr by (auto split: option.splits)
      show ?thesis
      proof (cases stop)
        case None
        then show ?thesis using later [of r2] "2.IH"(2) [OF _ Inr _ l refl None] "2.prems" running Inr True l by simp
      next
        case (Some result)
        then have "result = Inl e" using "2.prems" running Inr True l by simp
        then show ?thesis using udp_receive_loop_error [of received r e r2] l Some running by auto
      qed
    qed
  qed
qed

lemma configure_keeps_rules:
  assumes laws: "lawful_iptables exec rules"
  shows "rules (snd (configure_mtu pf exec name m os)) = rules os"
    and "rules (snd (configure_ipv4 pf exec name a p n os)) = rules os"
proof -
  have keep: "rules os' = rules os" if "run_command exec program arguments os = (r, os')" "program \<noteq> ''iptables''"
    for program arguments r os os'
    using other_program_keeps_rules [OF laws that(2), of arguments os] that(1) by simp
  show "rules (snd (configure_mtu pf exec name m os)) = rules os"
    using other_program_keeps_rules [OF laws]
    by (cases pf) (simp_all add: configure_mtu_def then_run_def split: sum.splits)
  show "rules (snd (configure_ipv4 pf exec name a p n os)) = rules os"
    by (cases pf)
      (auto simp: configure_ipv4_def then_run_def Let_def other_program_keeps_rules [OF laws] dest!: keep
        split: sum.splits prod.splits)
qed

lemma server_device_keeps_rules:
  assumes "lawful_iptables exec rules"
  shows "rules (snd (server_device pf exec name address_text c os)) = rules os"
  using configure_keeps_rules [OF assms]
  by (auto simp: server_device_def then_run_def split: sum.splits prod.splits) (metis snd_conv)+

section \<open>Properties\<close>

text \<open>
  C14: The server leaves no forwarding rule behind. With a working \<open>iptables\<close>, \<open>run\<close> never hangs on the
  rule, and however it ends (the device cannot be configured, enabling fails, a step of the start
  fails, a thread reports an error, or an orderly stop) the FORWARD chain is afterwards the one of
  before, possibly without the stale copies of its own rule; after an orderly stop it is without them.
\<close>

theorem server_leaves_no_forwarding_rule:
  assumes laws: "lawful_iptables exec rules" and reliable: "reliable_iptables exec rules"
  shows "\<exists>r os'. server_run Linux exec (Inr tun) address_text c prepared joined os = Some (r, os')
    \<and> (rules os' = rules os \<or> rules os' = without (forward_rule (tun_name tun) (vpn_network c)) (rules os))
    \<and> (r = Inr () \<longrightarrow> rules os' = without (forward_rule (tun_name tun) (vpn_network c)) (rules os))"
proof -
  obtain d os1 where d: "server_device Linux exec (tun_name tun) address_text c os = (d, os1)" by (metis surj_pair)
  then have os1: "rules os1 = rules os"
    using server_device_keeps_rules [OF laws, of Linux "tun_name tun" address_text c os] by simp
  show ?thesis
  proof (cases d)
    case (Inl e)
    then show ?thesis using d os1 by (simp add: server_run_def)
  next
    case (Inr u)
    let ?rule = "forward_rule (tun_name tun) (vpn_network c)"
    obtain f os2 where f: "forwarding_enable Linux exec (tun_name tun) (vpn_network c) os1 = Some (f, os2)"
      and after: "case f of
         Inl _ \<Rightarrow> rules os2 = rules os1 \<or> rules os2 = without ?rule (rules os1)
       | Inr g \<Rightarrow> rules os2 = ?rule # without ?rule (rules os1)
           \<and> (\<exists>os3. forwarding_drop Linux exec g os2 = Some os3 \<and> rules os3 = without ?rule (rules os1))"
      using forwarding_enable_result [OF laws reliable] by blast
    show ?thesis
    proof (cases f)
      case (Inl e)
      then show ?thesis using d Inr f after os1 by (simp add: server_run_def)
    next
      case (Inr g)
      then obtain os3 where "forwarding_drop Linux exec g os2 = Some os3" "rules os3 = without ?rule (rules os1)"
        using after by auto
      then show ?thesis using d \<open>d = Inr u\<close> f Inr os1 by (simp add: server_run_def)
    qed
  qed
qed

theorem server_leaves_no_forwarding_rule_witness:
  "\<exists>r os'. server_run Linux example_iptables (Inr \<lparr>tun_fd = 3, tun_macos_header = False, tun_name = ''tun0''\<rparr>)
        ''10.8.1.1'' race_config [Inr ()] [Inr (), Inl (error_from_kind BrokenPipe)]
        [forward_rule ''tun0'' (vpn_network race_config), [''-j'', ''DROP'']] = Some (r, os')
    \<and> [''-j'', ''DROP''] \<in> set os'"
proof -
  have "without (forward_rule ''tun0'' n) [forward_rule ''tun0'' n, [''-j'', ''DROP'']] = [[''-j'', ''DROP'']]" for n
    by (simp add: without_def forward_rule_def)
  then show ?thesis
    using server_leaves_no_forwarding_rule [OF example_iptables_laws,
      of "\<lparr>tun_fd = 3, tun_macos_header = False, tun_name = ''tun0''\<rparr>" "''10.8.1.1''" race_config "[Inr ()]"
         "[Inr (), Inl (error_from_kind BrokenPipe)]" "[forward_rule ''tun0'' (vpn_network race_config), [''-j'', ''DROP'']]"]
    by (force simp del: without_simps)
qed

end
