(* ===== verification/Vpn_Launcher.thy ===== *)
theory Vpn_Launcher
  imports Vpn_Dtls Vpn_Tun
begin

text \<open>
  The launchers \<open>vpn-client\<close> and \<open>vpn-server\<close> (\<open>src/src/bin/common/mod.rs\<close>) and the C interface of the
  library they load (\<open>run_from_ffi\<close> and the exported functions of \<open>src/src/lib.rs\<close>): command line,
  lookup of the library and its symbols, status codes. The environment, the dynamic loader, the
  check for UTF-8 and the runtime itself are parameters.
\<close>

section \<open>Command line\<close>

datatype command = Help | RunWith string "string option" "string option"

record launch_args =
  arg_config :: "string option"
  arg_user :: "string option"
  arg_password :: "string option"

definition finish_arguments :: "bool \<Rightarrow> launch_args \<Rightarrow> string + command" where
  "finish_arguments client st =
     (if (arg_user st = None) \<noteq> (arg_password st = None)
      then Inl ''--user and --pass must be provided together''
      else case arg_config st of
          Some config \<Rightarrow> Inr (RunWith config (arg_user st) (arg_password st))
        | None \<Rightarrow>
            if client then Inr (RunWith ''config/client.ini'' (arg_user st) (arg_password st))
            else Inl ''missing required option: --config <FILE>'')"

text \<open>One field set by an option: at most once, and not to the empty string.\<close>

definition set_config :: "string \<Rightarrow> launch_args \<Rightarrow> string + launch_args" where
  "set_config v st =
     (if v = [] then Inl ''--config path must not be empty'' else Inr (st\<lparr>arg_config := Some v\<rparr>))"

definition set_login :: "string \<Rightarrow> string \<Rightarrow> launch_args \<Rightarrow> string + launch_args" where
  "set_login option v st =
     (if v = [] then Inl (option @ '' must not be empty'')
      else if (if option = ''--user'' then arg_user st else arg_password st) \<noteq> None
      then Inl (option @ '' may only be specified once'')
      else Inr (if option = ''--user'' then st\<lparr>arg_user := Some v\<rparr> else st\<lparr>arg_password := Some v\<rparr>))"

text \<open>The same options with \<open>=\<close>: here the repetition is checked before the value.\<close>

definition set_login_inline :: "string \<Rightarrow> string \<Rightarrow> launch_args \<Rightarrow> string + launch_args" where
  "set_login_inline option argument st =
     (if (if option = ''--user'' then arg_user st else arg_password st) \<noteq> None
      then Inl (option @ '' may only be specified once'')
      else set_login option (trim_start_matches (option @ ''='') argument) st)"

text \<open>
  One option: the error, the request for help, or the state and the arguments that are left.
\<close>

definition keep_rest :: "string list \<Rightarrow> string + launch_args \<Rightarrow> string + (launch_args \<times> string list) option" where
  "keep_rest rest r = (case r of Inl e \<Rightarrow> Inl e | Inr st \<Rightarrow> Inr (Some (st, rest)))"

definition option_step :: "bool \<Rightarrow> launch_args \<Rightarrow> string \<Rightarrow> string list \<Rightarrow>
    string + (launch_args \<times> string list) option" where
  "option_step client st argument rest =
     (if argument = ''-h'' \<or> argument = ''--help'' then Inr None
      else if argument = ''-c'' \<or> argument = ''--config''
      then if arg_config st \<noteq> None then Inl ''--config may only be specified once''
           else case rest of
               [] \<Rightarrow> Inl (argument @ '' requires a file path'')
             | v # rest' \<Rightarrow> keep_rest rest' (set_config v st)
      else if starts_with ''--config='' argument
      then if arg_config st \<noteq> None then Inl ''--config may only be specified once''
           else keep_rest rest (set_config (trim_start_matches ''--config='' argument) st)
      else if client \<and> (argument = ''--user'' \<or> argument = ''--pass'')
      then (case rest of
              [] \<Rightarrow> Inl (argument @ '' requires a value'')
            | v # rest' \<Rightarrow> keep_rest rest' (set_login argument v st))
      else if client \<and> starts_with ''--user='' argument
      then keep_rest rest (set_login_inline ''--user'' argument st)
      else if client \<and> starts_with ''--pass='' argument
      then keep_rest rest (set_login_inline ''--pass'' argument st)
      else Inl (''unknown argument: '' @ argument))"

lemma keep_rest_Some: "keep_rest rest r = Inr (Some (st, left)) \<longleftrightarrow> r = Inr st \<and> left = rest"
  by (auto simp: keep_rest_def split: sum.splits)

lemma option_step_shorter: "option_step client st argument rest = Inr (Some (st', left)) \<Longrightarrow> length left \<le> length rest"
  by (auto simp: option_step_def keep_rest_Some split: if_split_asm list.split_asm)

function parse_loop :: "bool \<Rightarrow> launch_args \<Rightarrow> string list \<Rightarrow> string + command" where
  "parse_loop client st [] = finish_arguments client st"
| "parse_loop client st (argument # rest) =
     (case option_step client st argument rest of
        Inl e \<Rightarrow> Inl e
      | Inr None \<Rightarrow> Inr Help
      | Inr (Some (st', left)) \<Rightarrow> parse_loop client st' left)"
  by pat_completeness auto
termination
  by (relation "measure (\<lambda>(client, st, args). length args)") (auto dest: option_step_shorter)

definition no_args :: launch_args where
  "no_args = \<lparr>arg_config = None, arg_user = None, arg_password = None\<rparr>"

definition parse_arguments :: "string list \<Rightarrow> bool \<Rightarrow> string + command" where
  "parse_arguments arguments client = parse_loop client no_args arguments"

section \<open>The library\<close>

text \<open>
  Where the library is looked for: the environment variable, or beside the executable. \<open>exe\<close> is the
  directory of the executable, if it has one.
\<close>

definition library_path :: "string option \<Rightarrow> string option io_result \<Rightarrow> string \<Rightarrow> string io_result" where
  "library_path variable exe name =
     (case variable of
        Some path \<Rightarrow> Inr path
      | None \<Rightarrow>
          and_then exe (\<lambda>parent.
          and_then (ok_or (error_other ''launcher executable has no parent directory'') parent) (\<lambda>directory.
          Inr (directory @ ''/'' @ name))))"

record loader =
  open_library :: "string \<Rightarrow> unit io_result"
  run_symbol :: "string \<Rightarrow> (string \<Rightarrow> int) io_result"
  login_symbol :: "string \<Rightarrow> (string \<Rightarrow> string \<Rightarrow> string \<Rightarrow> int) io_result"

text \<open>\<open>CString::new\<close> with the message of the call.\<close>

definition c_string_or :: "string \<Rightarrow> string \<Rightarrow> string io_result" where
  "c_string_or m s = (if is_ok (c_string s) then Inr s else Inl (error_new InvalidInput m))"

definition run_library :: "loader \<Rightarrow> string io_result \<Rightarrow> string \<Rightarrow> string \<Rightarrow> (string \<times> string) option \<Rightarrow> unit io_result" where
  "run_library l path symbol config login =
     and_then path (\<lambda>p.
     and_then (open_library l p) (\<lambda>_.
     and_then (c_string_or ''config path contains NUL'' config) (\<lambda>cfg.
     and_then
       (case login of
          Some (user, password) \<Rightarrow>
            and_then (login_symbol l ''autobricks_vpn_client_run_with_login'') (\<lambda>f.
            and_then (c_string_or ''login ID contains NUL'' user) (\<lambda>u.
            and_then (c_string_or ''password contains NUL'' password) (\<lambda>pw.
            Inr (f cfg u pw))))
        | None \<Rightarrow> and_then (run_symbol l symbol) (\<lambda>f. Inr (f cfg)))
       (\<lambda>status. if status = 0 then Inr ()
                 else Inl (error_other (''VPN library returned status '' @ show_int status))))))"

text \<open>The exit code of a launcher: success, failure, wrong usage.\<close>

definition zip_option :: "'a option \<Rightarrow> 'b option \<Rightarrow> ('a \<times> 'b) option" where
  "zip_option a b = (case (a, b) of (Some x, Some y) \<Rightarrow> Some (x, y) | _ \<Rightarrow> None)"

definition launch :: "loader \<Rightarrow> string io_result \<Rightarrow> string \<Rightarrow> string \<Rightarrow> string list \<Rightarrow> nat" where
  "launch l path program symbol arguments =
     (case parse_arguments arguments (program = ''vpn-client'') of
        Inr Help \<Rightarrow> 0
      | Inr (RunWith config user password) \<Rightarrow>
          (case run_library l path symbol config (zip_option user password) of Inr _ \<Rightarrow> 0 | Inl _ \<Rightarrow> 1)
      | Inl _ \<Rightarrow> 2)"

definition client_main :: "loader \<Rightarrow> string io_result \<Rightarrow> string list \<Rightarrow> nat" where
  "client_main l path arguments = launch l path ''vpn-client'' ''autobricks_vpn_client_run'' arguments"

definition server_main :: "loader \<Rightarrow> string io_result \<Rightarrow> string list \<Rightarrow> nat" where
  "server_main l path arguments = launch l path ''vpn-server'' ''autobricks_vpn_server_run'' arguments"

section \<open>The exported functions\<close>

text \<open>A C string argument is \<open>None\<close> for the null pointer; \<open>utf8\<close> tells which byte sequences are UTF-8.\<close>

definition run_from_ffi :: "(string \<Rightarrow> bool) \<Rightarrow> string option \<Rightarrow> (string \<Rightarrow> unit outcome) \<Rightarrow> int" where
  "run_from_ffi utf8 config_path runner =
     (case config_path of
        None \<Rightarrow> 2
      | Some path \<Rightarrow>
          if utf8 path \<and> path \<noteq> []
          then (case runner path of Returned (Inr _) \<Rightarrow> 0 | Returned (Inl _) \<Rightarrow> 1 | Panicked _ \<Rightarrow> 3)
          else 2)"

definition autobricks_vpn_client_run_with_login :: "(string \<Rightarrow> bool) \<Rightarrow>
    (string \<Rightarrow> (string \<times> string) option \<Rightarrow> unit outcome) \<Rightarrow> string option \<Rightarrow> string option \<Rightarrow> string option \<Rightarrow> int" where
  "autobricks_vpn_client_run_with_login utf8 run_with_login config_path user password =
     (case (user, password) of
        (Some u, Some p) \<Rightarrow>
          if utf8 u \<and> utf8 p then run_from_ffi utf8 config_path (\<lambda>path. run_with_login path (Some (u, p)))
          else 2
      | _ \<Rightarrow> 2)"

definition autobricks_vpn_client_run :: "(string \<Rightarrow> bool) \<Rightarrow>
    (string \<Rightarrow> (string \<times> string) option \<Rightarrow> unit outcome) \<Rightarrow> string option \<Rightarrow> int" where
  "autobricks_vpn_client_run utf8 run_with_login config_path =
     run_from_ffi utf8 config_path (\<lambda>path. run_with_login path None)"

definition autobricks_vpn_server_run :: "bool \<Rightarrow> (string \<Rightarrow> bool) \<Rightarrow> (string \<Rightarrow> unit outcome) \<Rightarrow> string option \<Rightarrow> int" where
  "autobricks_vpn_server_run supported utf8 server_run config_path =
     (if supported then run_from_ffi utf8 config_path server_run else 4)"

text \<open>A loader that finds the client library.\<close>

definition client_loader :: "(string \<Rightarrow> bool) \<Rightarrow> (string \<Rightarrow> (string \<times> string) option \<Rightarrow> unit outcome) \<Rightarrow> loader" where
  "client_loader utf8 run_with_login =
     \<lparr>open_library = (\<lambda>_. Inr ()),
      run_symbol = (\<lambda>symbol. if symbol = ''autobricks_vpn_client_run''
         then Inr (\<lambda>cfg. autobricks_vpn_client_run utf8 run_with_login (Some cfg))
         else Inl (error_other symbol)),
      login_symbol = (\<lambda>_. Inr (\<lambda>cfg u p.
         autobricks_vpn_client_run_with_login utf8 run_with_login (Some cfg) (Some u) (Some p)))\<rparr>"

section \<open>Accepted command lines\<close>

text \<open>What a partly read command line guarantees, and the canonical form of an accepted one.\<close>

definition args_ok :: "bool \<Rightarrow> launch_args \<Rightarrow> bool" where
  "args_ok client st \<longleftrightarrow>
     arg_config st \<noteq> Some [] \<and> arg_user st \<noteq> Some [] \<and> arg_password st \<noteq> Some []
     \<and> (\<not> client \<longrightarrow> arg_user st = None \<and> arg_password st = None)"

definition render_arguments :: "string \<Rightarrow> string option \<Rightarrow> string option \<Rightarrow> string list" where
  "render_arguments config user password =
     [''--config'', config]
     @ (case user of None \<Rightarrow> [] | Some u \<Rightarrow> [''--user'', u])
     @ (case password of None \<Rightarrow> [] | Some p \<Rightarrow> [''--pass'', p])"

lemma set_config_ok: "set_config v st = Inr st' \<Longrightarrow> args_ok client st \<Longrightarrow> args_ok client st'"
  by (auto simp: set_config_def args_ok_def split: if_splits)

lemma set_login_ok: "set_login option v st = Inr st' \<Longrightarrow> args_ok True st \<Longrightarrow> args_ok True st'"
  by (auto simp: set_login_def args_ok_def split: if_splits)

lemma set_login_inline_ok: "set_login_inline option v st = Inr st' \<Longrightarrow> args_ok True st \<Longrightarrow> args_ok True st'"
  by (auto simp: set_login_inline_def split: if_splits dest: set_login_ok)

lemma option_step_ok:
  "option_step client st argument rest = Inr (Some (st', left)) \<Longrightarrow> args_ok client st \<Longrightarrow> args_ok client st'"
  using set_config_ok [of _ st st' client] set_login_ok [of _ _ st st'] set_login_inline_ok [of _ _ st st']
  by (auto simp: option_step_def keep_rest_Some split: if_split_asm list.split_asm)

lemma finish_ok:
  "finish_arguments client st = Inr (RunWith c u p) \<Longrightarrow> args_ok client st \<Longrightarrow>
   args_ok client \<lparr>arg_config = Some c, arg_user = u, arg_password = p\<rparr> \<and> (u = None \<longleftrightarrow> p = None)"
  by (auto simp: finish_arguments_def args_ok_def split: if_splits option.splits)

lemma parse_loop_ok:
  "parse_loop client st args = Inr (RunWith c u p) \<Longrightarrow> args_ok client st \<Longrightarrow>
   args_ok client \<lparr>arg_config = Some c, arg_user = u, arg_password = p\<rparr> \<and> (u = None \<longleftrightarrow> p = None)"
proof (induction client st args rule: parse_loop.induct)
  case (1 client st)
  then show ?case using finish_ok by simp
next
  case (2 client st argument rest)
  then obtain st' left where s: "option_step client st argument rest = Inr (Some (st', left))"
    by (auto split: sum.split_asm option.split_asm)
  then show ?case using 2 option_step_ok by simp
qed

lemma parse_render:
  assumes "args_ok client \<lparr>arg_config = Some c, arg_user = u, arg_password = p\<rparr>" "u = None \<longleftrightarrow> p = None"
  shows "parse_arguments (render_arguments c u p) client = Inr (RunWith c u p)"
  using assms
  by (auto simp: parse_arguments_def render_arguments_def no_args_def option_step_def keep_rest_def set_config_def
      set_login_def finish_arguments_def args_ok_def starts_with_def split: option.splits)

section \<open>Properties\<close>

text \<open>
  Every command line a launcher accepts has a meaning: a non-empty configuration path, a login
  name and a password both given and non-empty or both absent, and no login for the server. It
  means the same as its canonical form with one separate value per option, which is accepted too.
\<close>

lemma accepted_arguments_are_canonical:
  assumes "parse_arguments arguments client = Inr (RunWith c u p)"
  shows "c \<noteq> [] \<and> u \<noteq> Some [] \<and> p \<noteq> Some [] \<and> (u = None \<longleftrightarrow> p = None) \<and> (u \<noteq> None \<longrightarrow> client)
    \<and> parse_arguments (render_arguments c u p) client = Inr (RunWith c u p)"
proof -
  have "args_ok client no_args" by (simp add: args_ok_def no_args_def)
  then have ok: "args_ok client \<lparr>arg_config = Some c, arg_user = u, arg_password = p\<rparr>" "u = None \<longleftrightarrow> p = None"
    using parse_loop_ok assms unfolding parse_arguments_def by blast+
  from parse_render [OF this] ok show ?thesis by (auto simp: args_ok_def)
qed

lemma accepted_arguments_are_canonical_witness:
  "parse_arguments (render_arguments ''a.ini'' (Some ''u'') (Some ''p'')) True = Inr (RunWith ''a.ini'' (Some ''u'') (Some ''p''))"
proof -
  have "trim_start_matches ''--pass='' ''--pass=p'' = ''p''"
    using trim_start_matches_once [of "''--pass=''" "''p''"] by (simp add: starts_with_def)
  then have "parse_arguments [''--pass=p'', ''-c'', ''a.ini'', ''--user'', ''u''] True = Inr (RunWith ''a.ini'' (Some ''u'') (Some ''p''))"
    by (simp add: parse_arguments_def no_args_def option_step_def keep_rest_def set_config_def set_login_def
        set_login_inline_def finish_arguments_def starts_with_def)
  from accepted_arguments_are_canonical [OF this] show ?thesis by blast
qed

text \<open>
  An option given with \<open>=\<close> does not always keep its value: a value that itself begins with the
  option's prefix loses every repetition of it, so \<open>--config=--config=x\<close> opens the file \<open>x\<close>, while the
  same value given as a separate argument is kept.
\<close>

lemma inline_value_loses_repeated_prefix:
  "parse_arguments [''--config='' @ ''--config=x''] client = Inr (RunWith ''x'' None None)
   \<and> parse_arguments [''--config'', ''--config=x''] client = Inr (RunWith ''--config=x'' None None)"
proof -
  have "trim_start_matches ''--config='' ''--config=--config=x'' = ''x''"
    by (simp add: trim_start_matches.simps)
  then show ?thesis
    by (simp add: parse_arguments_def no_args_def option_step_def keep_rest_def set_config_def finish_arguments_def
        starts_with_def)
qed

text \<open>
  The exit code of the client reflects what happened through the C interface: with the library in
  place it is 2 exactly for a refused command line, 0 exactly if help was asked for or the runtime was
  called with the parsed path and login and returned normally, and 1 otherwise; a panic of the
  runtime does not cross the interface.
\<close>

lemma client_exit_code:
  assumes "\<forall>v. utf8 v"
  shows "client_main (client_loader utf8 run_with_login) (Inr path) arguments =
    (case parse_arguments arguments True of
       Inl _ \<Rightarrow> 2
     | Inr Help \<Rightarrow> 0
     | Inr (RunWith c u p) \<Rightarrow>
         if is_ok (c_string c) \<and> (\<forall>v \<in> set_option u \<union> set_option p. is_ok (c_string v))
            \<and> run_with_login c (zip_option u p) = Returned (Inr ()) then 0 else 1)"
proof (cases "parse_arguments arguments True")
  case (Inr cmd)
  show ?thesis
  proof (cases cmd)
    case (RunWith c u p)
    have "args_ok True no_args" by (simp add: args_ok_def no_args_def)
    then have c: "c \<noteq> []" "u = None \<longleftrightarrow> p = None"
      using parse_loop_ok [of True no_args arguments c u p] Inr RunWith by (auto simp: parse_arguments_def args_ok_def)
    show ?thesis
      using assms c Inr RunWith
      by (cases u; cases p; cases "run_with_login c (zip_option u p)")
        (auto simp: client_main_def launch_def run_library_def client_loader_def c_string_or_def zip_option_def
          autobricks_vpn_client_run_def autobricks_vpn_client_run_with_login_def run_from_ffi_def
          split: outcome.splits sum.splits)
  qed (use Inr in \<open>simp add: client_main_def launch_def\<close>)
qed (simp add: client_main_def launch_def)

lemma client_exit_code_witness:
  "client_main (client_loader (\<lambda>_. True) (\<lambda>path login. Panicked None)) (Inr ''lib'') [''-c'', ''a.ini''] = 1"
proof -
  have "parse_arguments [''-c'', ''a.ini''] True = Inr (RunWith ''a.ini'' None None)"
    by (simp add: parse_arguments_def no_args_def option_step_def keep_rest_def set_config_def finish_arguments_def)
  then show ?thesis
    using client_exit_code [of "\<lambda>_. True" "\<lambda>path login. Panicked None" "''lib''" "[''-c'', ''a.ini'']"] by simp
qed

end
