(* ===== verification/Vpn_Loader.thy ===== *)
theory Vpn_Loader
  imports Vpn_Launcher
begin

text \<open>
  \<open>DynamicLibrary\<close> of \<open>src/src/bin/common/mod.rs\<close> on Unix and Windows: opening the library, looking up
  a symbol, unloading, and the run of a launcher on top of them with the library's handle. The
  functions of the dynamic loader are parameters; a symbol is the function it is cast to.
\<close>

section \<open>Unix\<close>

text \<open>\<open>dlopen\<close> gives a handle or the text of \<open>dlerror\<close>, which may be missing.\<close>

definition dynamic_loader_error :: "string option \<Rightarrow> string" where
  "dynamic_loader_error m = (case m of None \<Rightarrow> ''dynamic loader error'' | Some t \<Rightarrow> t)"

definition open_unix :: "(string \<Rightarrow> string option + 'lib) \<Rightarrow> string \<Rightarrow> 'lib io_result" where
  "open_unix dlopen path =
     and_then (c_string_or ''library path contains NUL'' path) (\<lambda>p.
       case dlopen p of Inl m \<Rightarrow> Inl (error_other (dynamic_loader_error m)) | Inr h \<Rightarrow> Inr h)"

text \<open>\<open>dlsym\<close>: the text of \<open>dlerror\<close> afterwards and the address, \<open>None\<close> for null.\<close>

definition symbol_unix :: "('lib \<Rightarrow> string \<Rightarrow> string option \<times> 'sym option) \<Rightarrow> 'lib \<Rightarrow> string \<Rightarrow> 'sym io_result" where
  "symbol_unix dlsym library name =
     and_then (c_string_or ''symbol contains NUL'' name) (\<lambda>n.
       case dlsym library n of
         (Some m, _) \<Rightarrow> Inl (error_other m)
       | (None, None) \<Rightarrow> Inl (error_other ''dynamic symbol address is null'')
       | (None, Some s) \<Rightarrow> Inr s)"

section \<open>Windows\<close>

text \<open>The path is terminated by the first zero; errors are those of the system.\<close>

definition open_library_windows :: "(string \<Rightarrow> 'lib io_result) \<Rightarrow> string \<Rightarrow> 'lib io_result" where
  "open_library_windows load_library path = load_library (takeWhile (\<lambda>c. c \<noteq> char_of (0 :: nat)) path)"

definition symbol_windows :: "('lib \<Rightarrow> string \<Rightarrow> 'sym io_result) \<Rightarrow> 'lib \<Rightarrow> string \<Rightarrow> 'sym io_result" where
  "symbol_windows get_proc_address library name =
     and_then (c_string_or ''symbol contains NUL'' name) (get_proc_address library)"

section \<open>Running the library\<close>

text \<open>
  What a launcher does with the library, in order. An early return drops the handle, which unloads the
  library; once the entry was called the handle is forgotten, so that installed handlers never
  dangle.
\<close>

datatype 'lib library_event = Opened 'lib | CalledEntry string | Unloaded 'lib

definition call_entry :: "(string \<Rightarrow> (string \<Rightarrow> int) io_result) \<Rightarrow> (string \<Rightarrow> (string \<Rightarrow> string \<Rightarrow> string \<Rightarrow> int) io_result) \<Rightarrow>
    string \<Rightarrow> string \<Rightarrow> (string \<times> string) option \<Rightarrow> (string \<times> int) io_result" where
  "call_entry run_sym login_sym symbol config login =
     and_then (c_string_or ''config path contains NUL'' config) (\<lambda>cfg.
       case login of
         Some (user, password) \<Rightarrow>
           and_then (login_sym ''autobricks_vpn_client_run_with_login'') (\<lambda>f.
           and_then (c_string_or ''login ID contains NUL'' user) (\<lambda>u.
           and_then (c_string_or ''password contains NUL'' password) (\<lambda>pw.
           Inr (''autobricks_vpn_client_run_with_login'', f cfg u pw))))
       | None \<Rightarrow> and_then (run_sym symbol) (\<lambda>f. Inr (symbol, f cfg)))"

definition run_with_library :: "(string \<Rightarrow> 'lib io_result) \<Rightarrow> ('lib \<Rightarrow> string \<Rightarrow> (string \<Rightarrow> int) io_result) \<Rightarrow>
    ('lib \<Rightarrow> string \<Rightarrow> (string \<Rightarrow> string \<Rightarrow> string \<Rightarrow> int) io_result) \<Rightarrow> string io_result \<Rightarrow> string \<Rightarrow> string \<Rightarrow>
    (string \<times> string) option \<Rightarrow> unit io_result \<times> 'lib library_event list" where
  "run_with_library open_lib run_sym login_sym path symbol config login =
     (case and_then path open_lib of
        Inl e \<Rightarrow> (Inl e, [])
      | Inr library \<Rightarrow>
          (case call_entry (run_sym library) (login_sym library) symbol config login of
             Inl e \<Rightarrow> (Inl e, [Opened library, Unloaded library])
           | Inr (entry, status) \<Rightarrow>
               (if status = 0 then Inr ()
                else Inl (error_other (''VPN library returned status '' @ show_int status)),
                [Opened library, CalledEntry entry])))"

section \<open>Output\<close>

definition unlines :: "string list \<Rightarrow> string" where
  "unlines ls = concat (map (\<lambda>l. l @ [newline]) (butlast ls)) @ last ls"

definition usage :: "string \<Rightarrow> string" where
  "usage program =
     (if program = ''vpn-client''
      then unlines
        [''autobricks-vpn '' @ program, [], ''Usage:'',
         ''  '' @ program @ '' [--config <FILE>] [--user <ID> --pass <PASSWORD>]'', [], ''Options:'',
         ''  -c, --config <FILE>  VPN configuration file (default: config/client.ini)'',
         ''  --user <ID>         Login ID; use with --pass'', ''  --pass <PASSWORD>   Login password; use with --user'',
         ''  -h, --help          Show this help and exit'', [],
         ''Without --user and --pass, credentials are requested when the server requires login.'', [],
         ''Environment:'', ''  AUTOBRICKS_VPN_LIBRARY  Override the dynamic library path'']
      else unlines
        [''autobricks-vpn '' @ program, [], ''Usage:'', ''  '' @ program @ '' --config <FILE>'', [], ''Options:'',
         ''  -c, --config <FILE>  Path to the VPN configuration file'',
         ''  -h, --help           Show this help and exit'', [],
         ''Environment:'', ''  AUTOBRICKS_VPN_LIBRARY  Override the dynamic library path''])"

text \<open>
  What a launcher prints on standard output and on standard error, given what the library's run
  returned. The contents of the file \<open>VERSION\<close>, the copyright line and the rendering of errors are
  arguments.
\<close>

definition launch_output :: "(io_error \<Rightarrow> string) \<Rightarrow> string \<Rightarrow> string \<Rightarrow> string \<Rightarrow> string + command \<Rightarrow> unit io_result \<Rightarrow>
    string list \<times> string list" where
  "launch_output display version copyright program parsed result =
     (let banner = ''Autobricks VPN '' @ trim version @ [newline] @ copyright in
      case parsed of
        Inr Help \<Rightarrow> ([banner, usage program], [])
      | Inr (RunWith config user password) \<Rightarrow>
          (case result of Inr _ \<Rightarrow> ([banner], []) | Inl e \<Rightarrow> ([banner], [program @ '': '' @ display e]))
      | Inl m \<Rightarrow> ([banner], [unlines [program @ '': '' @ m, [], usage program]]))"

section \<open>Lemmas\<close>

text \<open>Standard error is empty exactly when the launcher exits with 0.\<close>

lemma stderr_empty_iff_success:
  "snd (launch_output display version copyright program (parse_arguments arguments (program = ''vpn-client'')) result) = []
     \<longleftrightarrow> launch l path program symbol arguments = 0"
  if "\<And>config user password. parse_arguments arguments (program = ''vpn-client'') = Inr (RunWith config user password) \<Longrightarrow>
        result = run_library l path symbol config (zip_option user password)"
  using that by (auto simp: launch_output_def launch_def Let_def split: sum.splits command.splits)

text \<open>The launcher's model on a loader is this run on a library that is always the same.\<close>

lemma run_library_refines:
  assumes "\<And>p. open_library l p = and_then (open_lib p) (\<lambda>_. Inr ())"
    and "\<And>p h. open_lib p = Inr h \<Longrightarrow> run_symbol l = run_sym h \<and> login_symbol l = login_sym h"
  shows "run_library l path symbol config login = fst (run_with_library open_lib run_sym login_sym path symbol config login)"
proof (cases "and_then path open_lib")
  case (Inl e)
  then have "and_then path (\<lambda>p. and_then (and_then (open_lib p) (\<lambda>_. Inr ())) g) = Inl e" for g :: "unit \<Rightarrow> unit io_result"
    by (auto simp: and_then_def split: sum.splits)
  then show ?thesis by (simp add: run_library_def run_with_library_def Inl assms(1))
next
  case (Inr h)
  then obtain p where p: "path = Inr p" "open_lib p = Inr h" by (auto simp: and_then_eq_Inr)
  then show ?thesis
    using assms(2) [OF p(2)]
    by (auto simp: run_library_def run_with_library_def assms(1) call_entry_def and_then_def split: option.splits sum.splits)
qed

text \<open>
  The library is unloaded exactly when it was opened and its entry not called, and nothing is called
  after it was unloaded.
\<close>

lemma library_unloaded_iff_not_called:
  assumes "run_with_library open_lib run_sym login_sym path symbol config login = (r, events)"
  shows "(\<exists>h. events = [Opened h, Unloaded h] \<and> \<not> is_ok r) \<or> (\<exists>h entry. events = [Opened h, CalledEntry entry])
    \<or> events = [] \<and> \<not> is_ok r"
  using assms by (auto simp: run_with_library_def split: sum.splits if_splits)

text \<open>The symbols the launchers ask for contain no zero, so a lookup only fails for the loader's reasons.\<close>

lemma launcher_symbols_have_no_nul:
  "symbol_unix dlsym h ''autobricks_vpn_client_run'' =
     (case dlsym h ''autobricks_vpn_client_run'' of
        (Some m, _) \<Rightarrow> Inl (error_other m)
      | (None, None) \<Rightarrow> Inl (error_other ''dynamic symbol address is null'')
      | (None, Some s) \<Rightarrow> Inr s)"
  by (simp add: symbol_unix_def c_string_or_def c_string_def char_of_def)

end
