(* ===== verification/Vpn_Client_Workers.thy ===== *)
theory Vpn_Client_Workers
  imports Vpn_Session Vpn_Tun
begin

text \<open>
  The six worker threads of the client (\<open>src/src/client/{queues,encrypt,decrypt,tun_read,tun_write,
  udp_read,udp_write}.rs\<close>). Each definition is one turn of a thread's loop over what the threads
  share; the operating system's answers are arguments. The counters of \<open>ClientDiagnostics\<close>, which
  nothing reads but the diagnostic output, are in \<open>Vpn_Client_Diagnostics\<close>.
\<close>

section \<open>Shared state\<close>

definition QUEUE_CAPACITY :: nat where "QUEUE_CAPACITY = 512"

record client_queues =
  encrypted_rx :: "byte list queue"
  raw_tx :: "byte list queue"
  tun_write :: "byte list queue"
  enc_tx :: "encrypted_datagram queue"

definition client_queue_new :: "'a queue io_result" where
  "client_queue_new =
     (case queue_new QUEUE_CAPACITY of
        Inl _ \<Rightarrow> Inl (error_other ''queue capacity must be greater than zero'') | Inr q \<Rightarrow> Inr q)"

definition client_queues_new :: "client_queues io_result" where
  "client_queues_new =
     and_then client_queue_new (\<lambda>a. and_then client_queue_new (\<lambda>b. and_then client_queue_new (\<lambda>c.
     and_then client_queue_new (\<lambda>d. Inr \<lparr>encrypted_rx = a, raw_tx = b, tun_write = c, enc_tx = d\<rparr>))))"

definition client_queues_close :: "client_queues \<Rightarrow> client_queues" where
  "client_queues_close qs =
     \<lparr>encrypted_rx = close (encrypted_rx qs), raw_tx = close (raw_tx qs), tun_write = close (tun_write qs),
      enc_tx = close (enc_tx qs)\<rparr>"

record 'w client =
  link :: "'w dtls"
  queues :: client_queues
  active :: bool
  activity :: instant
  progress :: worker_signal
  sent_errors :: "io_error list"

text \<open>The end of a thread: it clears the flag and sends its error.\<close>

definition client_fail :: "io_error \<Rightarrow> 'w client \<Rightarrow> 'w client" where
  "client_fail e s = s\<lparr>active := False, sent_errors := sent_errors s @ [e]\<rparr>"

text \<open>How a turn ends: the loop goes on, the thread waits first, or it ends.\<close>

datatype turn = GoOn | WaitFirst | EndThread

section \<open>Encryption\<close>

text \<open>The closure of the worker: whether the packet is done with.\<close>

definition client_encrypt :: "'w wolfssl \<Rightarrow> byte list \<Rightarrow> 'w client \<Rightarrow> bool \<times> 'w client" where
  "client_encrypt W packet s =
     (if \<not> active s then (True, s)
      else case write_status W packet (link s) of
          (Inr (Complete _), d) \<Rightarrow> (True, s\<lparr>link := d\<rparr>)
        | (Inr _, d) \<Rightarrow> (False, s\<lparr>link := d\<rparr>)
        | (Inl e, d) \<Rightarrow>
            (True, (client_fail e (s\<lparr>link := d\<rparr>))
               \<lparr>queues := (queues s)\<lparr>encrypted_rx := close (encrypted_rx (queues s))\<rparr>\<rparr>))"

section \<open>Decryption\<close>

record decrypt_local =
  waiting :: "byte list option"
  drain :: bool

definition DECRYPT_BUFFER :: nat where "DECRYPT_BUFFER = 2048"

text \<open>A record that was read: the packet for the TUN device, if it is one.\<close>

definition tun_packet :: "byte list \<Rightarrow> byte list option" where
  "tun_packet plain =
     (if is_keepalive_packet plain then None
      else if ipv4_packet_addresses plain = None then None else Some plain)"

definition deliver :: "byte list \<Rightarrow> 'w client \<Rightarrow> turn \<times> 'w client" where
  "deliver plain s =
     (case tun_packet plain of
        None \<Rightarrow> (GoOn, s)
      | Some p \<Rightarrow>
          (case push p (tun_write (queues s)) of
             (Inl _, q) \<Rightarrow> (EndThread, s)
           | (Inr _, q) \<Rightarrow> (GoOn, s\<lparr>queues := (queues s)\<lparr>tun_write := q\<rparr>\<rparr>)))"

text \<open>The second half of a turn: the datagram that waits, or the next one, goes to wolfSSL.\<close>

definition inject_next :: "'w wolfssl \<Rightarrow> decrypt_local \<Rightarrow> 'w client \<Rightarrow> turn \<times> decrypt_local \<times> 'w client" where
  "inject_next W l s =
     (case (case waiting l of
              Some packet \<Rightarrow> (Inr packet, encrypted_rx (queues s))
            | None \<Rightarrow> try_pop (encrypted_rx (queues s))) of
        (Inl Closed, q) \<Rightarrow> (EndThread, l, s)
      | (Inl Empty, q) \<Rightarrow> (WaitFirst, l, s)
      | (Inr packet, q) \<Rightarrow>
          (let s1 = s\<lparr>queues := (queues s)\<lparr>encrypted_rx := q\<rparr>\<rparr> in
           case inject W packet (link s) of
             (Inr True, d) \<Rightarrow> (GoOn, \<lparr>waiting = None, drain = True\<rparr>, s1\<lparr>link := d\<rparr>)
           | (Inr False, d) \<Rightarrow> (GoOn, \<lparr>waiting = Some packet, drain = True\<rparr>, s1\<lparr>link := d\<rparr>)
           | (Inl e, d) \<Rightarrow> (EndThread, l\<lparr>waiting := Some packet\<rparr>, client_fail e (s1\<lparr>link := d\<rparr>))))"

definition client_decrypt_turn :: "'w wolfssl \<Rightarrow> instant \<Rightarrow> decrypt_local \<Rightarrow> 'w client \<Rightarrow>
    turn \<times> decrypt_local \<times> 'w client" where
  "client_decrypt_turn W now l s =
     (if \<not> drain l then inject_next W l s
      else case read_status W DECRYPT_BUFFER (link s) of
          (Inr (Complete n, plain), d) \<Rightarrow>
            if 0 < n
            then (case deliver plain (s\<lparr>link := d, activity := now\<rparr>) of (t, s') \<Rightarrow> (t, l, s'))
            else inject_next W (l\<lparr>drain := False\<rparr>) (s\<lparr>link := d, progress := signal_notify (progress s)\<rparr>)
        | (Inr (WantRead, _), d) \<Rightarrow>
            inject_next W (l\<lparr>drain := False\<rparr>) (s\<lparr>link := d, progress := signal_notify (progress s)\<rparr>)
        | (Inr (WantWrite, _), d) \<Rightarrow> (WaitFirst, l, s\<lparr>link := d\<rparr>)
        | (Inl e, d) \<Rightarrow> (EndThread, l, client_fail e (s\<lparr>link := d\<rparr>)))"

section \<open>Reading and writing the TUN device\<close>

text \<open>Polling returned: nothing to read, something, or an error.\<close>

definition client_tun_read_turn :: "bool io_result \<Rightarrow> byte list io_result \<Rightarrow> byte list reader \<Rightarrow> bool \<times> byte list reader" where
  "client_tun_read_turn polled packet r =
     (case polled of
        Inr False \<Rightarrow> (True, r)
      | Inl e \<Rightarrow> if kind e = Interrupted then (True, r) else (False, reader_fail e r)
      | Inr True \<Rightarrow>
          (case packet of
             Inr [] \<Rightarrow> (True, r)
           | Inr p \<Rightarrow> reader_push p r
           | Inl e \<Rightarrow>
               if kind e = WouldBlock \<or> kind e = Interrupted then (True, r) else (False, reader_fail e r)))"

text \<open>
  Writing the reserved front: committed, restored, or the end of the thread; \<open>None\<close> while the queue
  is empty and open. \<open>still\<close> is what the thread reads of the two stop flags after the wait.
\<close>

definition client_tun_write_turn :: "bool \<Rightarrow> nat io_result \<Rightarrow> 'w client \<Rightarrow> (turn \<times> 'w client) option" where
  "client_tun_write_turn still wrote s =
     (case peek (tun_write (queues s)) of
        None \<Rightarrow> None
      | Some (None, _) \<Rightarrow> Some (EndThread, s)
      | Some (Some front, rest) \<Rightarrow>
          (let popped = s\<lparr>queues := (queues s)\<lparr>tun_write := rest\<rparr>\<rparr>;
               restored = s\<lparr>queues := (queues s)\<lparr>tun_write := front_drop front rest\<rparr>\<rparr> in
           if \<not> still then Some (EndThread, restored)
           else case wrote of
               Inr n \<Rightarrow>
                 if n = length front then Some (GoOn, popped)
                 else Some (EndThread, client_fail (error_new WriteZero (''partial TUN write: '' @ show_nat n @ ''/''
                        @ show_nat (length front) @ '' bytes'')) restored)
             | Inl e \<Rightarrow>
                 if kind e = Interrupted then Some (GoOn, restored)
                 else if kind e = WouldBlock then Some (WaitFirst, restored)
                 else Some (EndThread, client_fail e restored)))"

section \<open>Reading and writing the socket\<close>

definition wait_for_udp :: "int io_result \<Rightarrow> bool \<Rightarrow> bool io_result" where
  "wait_for_udp polled readable =
     (case polled of
        Inl e \<Rightarrow> if kind e = Interrupted then Inr True else Inl e
      | Inr _ \<Rightarrow> Inr readable)"

fun client_receive_loop :: "byte list io_result list \<Rightarrow> byte list reader \<Rightarrow> (bool \<times> byte list reader) option" where
  "client_receive_loop [] r = None"
| "client_receive_loop (Inr p # script) r =
     (case reader_push p r of
        (True, r') \<Rightarrow> client_receive_loop script r'
      | (False, r') \<Rightarrow> Some (False, r'))"
| "client_receive_loop (Inl e # script) r =
     (if kind e = WouldBlock then Some (True, r)
      else if kind e = Interrupted then client_receive_loop script r
      else Some (False, reader_fail e r))"

definition client_udp_read_turn :: "bool io_result \<Rightarrow> byte list io_result list \<Rightarrow> byte list reader \<Rightarrow>
    (bool \<times> byte list reader) option" where
  "client_udp_read_turn waited script r =
     (case waited of
        Inr False \<Rightarrow> Some (True, r)
      | Inr True \<Rightarrow> client_receive_loop script r
      | Inl e \<Rightarrow> Some (False, reader_fail e r))"

text \<open>
  The queue of encrypted datagrams is the one wolfSSL's send callback fills, so it is passed on its own.
\<close>

definition client_udp_write_turn :: "instant \<Rightarrow> bool \<Rightarrow> nat io_result \<Rightarrow> encrypted_datagram queue \<Rightarrow> 'w client \<Rightarrow>
    (turn \<times> encrypted_datagram queue \<times> 'w client) option" where
  "client_udp_write_turn now still sent q s =
     (case peek q of
        None \<Rightarrow> None
      | Some (None, _) \<Rightarrow> Some (EndThread, q, s)
      | Some (Some front, rest) \<Rightarrow>
          (let noted = s\<lparr>progress := signal_notify (progress s)\<rparr>; size_of = length (datagram_bytes front) in
           if \<not> still then Some (EndThread, front_drop front rest, s)
           else if seconds 2 \<le> now - enqueued_at front then Some (GoOn, rest, noted)
           else case sent of
               Inr n \<Rightarrow>
                 if n = size_of then Some (GoOn, rest, noted)
                 else Some (EndThread, front_drop front rest,
                        client_fail (error_new WriteZero (''partial UDP datagram write: '' @ show_nat n @ ''/''
                          @ show_nat size_of @ '' bytes'')) s)
             | Inl e \<Rightarrow>
                 if kind e = Interrupted then Some (GoOn, front_drop front rest, s)
                 else if kind e = WouldBlock then Some (WaitFirst, front_drop front rest, s)
                 else Some (EndThread, front_drop front rest, client_fail e s)))"

section \<open>Runs of the decrypting worker\<close>

text \<open>
  A run of turns, with what happened on the way: the datagrams wolfSSL took and the records it returned.
\<close>

record decrypt_log =
  injected :: "byte list list"
  records :: "byte list list"

definition turn_injected :: "'w wolfssl \<Rightarrow> decrypt_local \<Rightarrow> 'w client \<Rightarrow> byte list list" where
  "turn_injected W l s =
     (case (case waiting l of Some p \<Rightarrow> Inr p | None \<Rightarrow> fst (try_pop (encrypted_rx (queues s)))) of
        Inl _ \<Rightarrow> []
      | Inr p \<Rightarrow> if fst (inject W p (link s)) = Inr True then [p] else [])"

definition turn_log :: "'w wolfssl \<Rightarrow> decrypt_local \<Rightarrow> 'w client \<Rightarrow> decrypt_log" where
  "turn_log W l s =
     (if \<not> drain l then \<lparr>injected = turn_injected W l s, records = []\<rparr>
      else case read_status W DECRYPT_BUFFER (link s) of
          (Inr (Complete n, plain), d) \<Rightarrow>
            if 0 < n then \<lparr>injected = [], records = [plain]\<rparr>
            else \<lparr>injected = turn_injected W l (s\<lparr>link := d\<rparr>), records = []\<rparr>
        | (Inr (WantRead, _), d) \<Rightarrow> \<lparr>injected = turn_injected W l (s\<lparr>link := d\<rparr>), records = []\<rparr>
        | (Inr (WantWrite, _), d) \<Rightarrow> \<lparr>injected = [], records = []\<rparr>
        | (Inl _, d) \<Rightarrow> \<lparr>injected = [], records = []\<rparr>)"

fun decrypt_run :: "'w wolfssl \<Rightarrow> instant list \<Rightarrow> decrypt_local \<Rightarrow> 'w client \<Rightarrow>
    decrypt_log \<times> turn \<times> decrypt_local \<times> 'w client" where
  "decrypt_run W [] l s = (\<lparr>injected = [], records = []\<rparr>, GoOn, l, s)"
| "decrypt_run W (now # ticks) l s =
     (case client_decrypt_turn W now l s of
        (EndThread, l', s') \<Rightarrow> (turn_log W l s, EndThread, l', s')
      | (_, l', s') \<Rightarrow>
          (case decrypt_run W ticks l' s' of
             (g, t, l'', s'') \<Rightarrow>
               (\<lparr>injected = injected (turn_log W l s) @ injected g, records = records (turn_log W l s) @ records g\<rparr>,
                t, l'', s'')))"

section \<open>The decrypting worker\<close>

definition tun_packets :: "byte list list \<Rightarrow> byte list list" where
  "tun_packets rs = concat (map (\<lambda>r. opt_list (tun_packet r)) rs)"

lemma tun_packets_append [simp]: "tun_packets (xs @ ys) = tun_packets xs @ tun_packets ys"
  by (simp add: tun_packets_def)

lemma tun_packets_sound: "p \<in> set (tun_packets rs) \<Longrightarrow> p \<in> set rs \<and> ipv4_packet_addresses p \<noteq> None"
  by (auto simp: tun_packets_def tun_packet_def split: if_splits)

definition datagrams_left :: "decrypt_local \<Rightarrow> 'w client \<Rightarrow> byte list list" where
  "datagrams_left l s = opt_list (waiting l) @ items (encrypted_rx (queues s))"

lemma inject_next_conserves:
  assumes "inject_next W l s = (t, l', s')"
  shows "turn_injected W l s @ datagrams_left l' s' = datagrams_left l s
    \<and> tun_write (queues s') = tun_write (queues s) \<and> activity s' = activity s"
proof (cases "waiting l")
  case (Some p)
  then show ?thesis
    using assms
    by (auto simp: inject_next_def turn_injected_def datagrams_left_def client_fail_def Let_def
        split: prod.splits sum.splits bool.splits if_splits)
next
  case None
  obtain r q where pop: "try_pop (encrypted_rx (queues s)) = (r, q)" by (metis surj_pair)
  show ?thesis
  proof (cases r)
    case (Inl e)
    then show ?thesis
      using assms None pop by (cases e) (auto simp: inject_next_def turn_injected_def datagrams_left_def)
  next
    case (Inr p)
    then have "items (encrypted_rx (queues s)) = p # items q" using pop try_pop_delivered by simp
    then show ?thesis
      using assms None pop Inr
      by (auto simp: inject_next_def turn_injected_def datagrams_left_def client_fail_def Let_def
          split: prod.splits sum.splits bool.splits if_splits)
  qed
qed


text \<open>What is left of a list when a queue keeps its newest entries.\<close>

definition newest :: "nat \<Rightarrow> 'a list \<Rightarrow> 'a list" where
  "newest n xs = drop (length xs - n) xs"

lemma newest_append: "newest n (newest n xs @ ys) = newest n (xs @ ys)"
proof (cases "length xs \<le> n")
  case True
  then show ?thesis by (simp add: newest_def)
next
  case False
  then have "length (newest n xs) = n" by (simp add: newest_def)
  moreover have "length xs + length ys - n = (length xs - n) + length ys" using False by simp
  ultimately show ?thesis using False by (simp add: newest_def drop_append add.commute)
qed

lemma push_newest:
  assumes "queue_inv q" "\<not> closed q"
  shows "\<exists>r q'. push x q = (Inr r, q') \<and> queue_inv q' \<and> \<not> closed q' \<and> capacity q' = capacity q
    \<and> items q' = newest (capacity q) (items q @ [x])"
  using assms push_inv [OF assms(1), of x]
  by (cases "items q") (auto simp: push_def queue_inv_def newest_def Let_def)

text \<open>One turn: datagrams are conserved and records are delivered.\<close>

definition tun_open :: "'w client \<Rightarrow> bool" where
  "tun_open s \<longleftrightarrow> queue_inv (tun_write (queues s)) \<and> \<not> closed (tun_write (queues s))"

lemma deliver_result:
  assumes "tun_open s" "deliver plain s = (t, s')"
  shows "t = GoOn \<and> tun_open s' \<and> capacity (tun_write (queues s')) = capacity (tun_write (queues s))
    \<and> items (tun_write (queues s')) = newest (capacity (tun_write (queues s)))
        (items (tun_write (queues s)) @ opt_list (tun_packet plain))
    \<and> encrypted_rx (queues s') = encrypted_rx (queues s) \<and> activity s' = activity s"
proof (cases "tun_packet plain")
  case None
  then show ?thesis using assms by (auto simp: deliver_def tun_open_def newest_def queue_inv_def)
next
  case (Some p)
  then show ?thesis
    using assms push_newest [of "tun_write (queues s)" p] by (auto simp: deliver_def tun_open_def)
qed

lemma inject_next_tun:
  "inject_next W l s = (t, l', s') \<Longrightarrow> tun_open s \<Longrightarrow> tun_open s'
   \<and> capacity (tun_write (queues s')) = capacity (tun_write (queues s))
   \<and> items (tun_write (queues s')) = newest (capacity (tun_write (queues s))) (items (tun_write (queues s)))"
  using inject_next_conserves [of W l s t l' s'] by (simp add: tun_open_def newest_def queue_inv_def)

lemma datagrams_left_simps [simp]:
  "datagrams_left (l\<lparr>drain := b\<rparr>) s = datagrams_left l s"
  "datagrams_left l (s\<lparr>link := d\<rparr>) = datagrams_left l s"
  "datagrams_left l (s\<lparr>progress := g\<rparr>) = datagrams_left l s"
  "datagrams_left l (s\<lparr>activity := now\<rparr>) = datagrams_left l s"
  "datagrams_left l (client_fail e s) = datagrams_left l s"
  by (simp_all add: datagrams_left_def client_fail_def)

lemma tun_open_simps [simp]:
  "tun_open (s\<lparr>link := d\<rparr>) = tun_open s"
  "tun_open (s\<lparr>progress := g\<rparr>) = tun_open s"
  "tun_open (s\<lparr>activity := now\<rparr>) = tun_open s"
  "tun_open (client_fail e s) = tun_open s"
  "queues (client_fail e s) = queues s"
  "activity (client_fail e s) = activity s"
  by (simp_all add: tun_open_def client_fail_def)

lemma decrypt_turn_result:
  assumes turn: "client_decrypt_turn W now l s = (t, l', s')" and op: "tun_open s"
  shows "injected (turn_log W l s) @ datagrams_left l' s' = datagrams_left l s
    \<and> tun_open s' \<and> capacity (tun_write (queues s')) = capacity (tun_write (queues s))
    \<and> items (tun_write (queues s')) = newest (capacity (tun_write (queues s)))
        (items (tun_write (queues s)) @ tun_packets (records (turn_log W l s)))
    \<and> activity s' = (if records (turn_log W l s) = [] then activity s else now)"
proof (cases "drain l")
  case False
  then show ?thesis
    using turn inject_next_conserves [of W l s t l' s'] inject_next_tun [of W l s t l' s'] op
    by (simp add: client_decrypt_turn_def turn_log_def tun_packets_def)
next
  case True
  obtain r d where r: "read_status W DECRYPT_BUFFER (link s) = (r, d)" by (metis surj_pair)
  let ?s = "s\<lparr>link := d, progress := signal_notify (progress s)\<rparr>"
  note next1 = inject_next_conserves [of W "l\<lparr>drain := False\<rparr>" ?s t l' s']
    and next2 = inject_next_tun [of W "l\<lparr>drain := False\<rparr>" ?s t l' s']
  have same: "turn_injected W (l\<lparr>drain := False\<rparr>) ?s = turn_injected W l (s\<lparr>link := d\<rparr>)"
    by (cases "waiting l") (auto simp: turn_injected_def split: sum.splits)
  have keep: "items (tun_write (queues s)) = newest (capacity (tun_write (queues s))) (items (tun_write (queues s)))"
    using op by (simp add: tun_open_def queue_inv_def newest_def)
  show ?thesis
  proof (cases r)
    case (Inl e)
    then show ?thesis
      using turn r True op keep by (auto simp: client_decrypt_turn_def turn_log_def tun_packets_def)
  next
    case (Inr res)
    obtain x plain where x: "res = (x, plain)" by (metis surj_pair)
    show ?thesis
    proof (cases "\<exists>n. x = Complete n \<and> 0 < n")
      case record_read: True
      then obtain n where n: "x = Complete n" "0 < n" by blast
      obtain t1 s1 where dl: "deliver plain (s\<lparr>link := d, activity := now\<rparr>) = (t1, s1)" by (metis surj_pair)
      then have "t = t1" "l' = l" "s' = s1"
        using turn r True Inr x n by (auto simp: client_decrypt_turn_def)
      moreover have "turn_log W l s = \<lparr>injected = [], records = [plain]\<rparr>"
        using r True Inr x n by (simp add: turn_log_def)
      ultimately show ?thesis
        using deliver_result [OF _ dl] op by (simp add: datagrams_left_def tun_packets_def)
    next
      case False
      then show ?thesis
        using turn r True Inr x op next1 next2 same keep
        by (cases x) (auto simp: client_decrypt_turn_def turn_log_def tun_packets_def datagrams_left_def [of l])
    qed
  qed
qed


lemma decrypt_run_result:
  assumes "decrypt_run W ticks l s = (g, t, l', s')" "tun_open s"
  shows "injected g @ datagrams_left l' s' = datagrams_left l s
    \<and> capacity (tun_write (queues s')) = capacity (tun_write (queues s))
    \<and> items (tun_write (queues s')) = newest (capacity (tun_write (queues s)))
        (items (tun_write (queues s)) @ tun_packets (records g))
    \<and> activity s' \<in> insert (activity s) (set ticks)"
  using assms
proof (induction W ticks l s arbitrary: g t l' s' rule: decrypt_run.induct)
  case (1 W l s)
  then show ?case by (auto simp: tun_packets_def newest_def tun_open_def queue_inv_def)
next
  case (2 W now ticks l s)
  obtain t1 l1 s1 where turn: "client_decrypt_turn W now l s = (t1, l1, s1)" by (metis prod_cases3)
  note one = decrypt_turn_result [OF turn "2.prems"(2)]
  show ?case
  proof (cases "t1 = EndThread")
    case True
    then show ?thesis using "2.prems"(1) turn one by auto
  next
    case False
    obtain g2 t2 l2 s2 where run: "decrypt_run W ticks l1 s1 = (g2, t2, l2, s2)" by (metis prod_cases4)
    then have eqs: "g = \<lparr>injected = injected (turn_log W l s) @ injected g2, records = records (turn_log W l s) @ records g2\<rparr>"
      "l' = l2" "s' = s2"
      using "2.prems"(1) turn False by (auto split: turn.splits)
    have IH: "injected g2 @ datagrams_left l2 s2 = datagrams_left l1 s1
        \<and> capacity (tun_write (queues s2)) = capacity (tun_write (queues s1))
        \<and> items (tun_write (queues s2)) = newest (capacity (tun_write (queues s1)))
            (items (tun_write (queues s1)) @ tun_packets (records g2))
        \<and> activity s2 \<in> insert (activity s1) (set ticks)"
      using False "2.IH"(1) [OF turn [symmetric] _ refl run] "2.IH"(2) [OF turn [symmetric] _ refl run] one
      by (cases t1) simp_all
    then show ?thesis using one eqs by (auto simp: newest_append split: if_splits)
  qed
qed

section \<open>Properties\<close>

text \<open>
  C27: The decrypting worker of the client handles every datagram once and in order and never gives the
  device anything but IPv4 packets. Over any number of turns, the datagrams wolfSSL has taken,
  followed by the one that waits and those in the queue, are the datagrams there were; the queue of
  the TUN writer gains, in order, exactly those records that are well-formed IPv4 packets and no
  keepalives (the newest of them, should it overflow).
\<close>

theorem client_decrypts_in_order:
  assumes "decrypt_run W ticks l s = (g, t, l', s')"
    and "queue_inv (tun_write (queues s))" "\<not> closed (tun_write (queues s))"
  shows "injected g @ opt_list (waiting l') @ items (encrypted_rx (queues s')) =
           opt_list (waiting l) @ items (encrypted_rx (queues s))
    \<and> items (tun_write (queues s')) = newest (capacity (tun_write (queues s)))
        (items (tun_write (queues s)) @
           filter (\<lambda>p. \<not> is_keepalive_packet p \<and> ipv4_packet_addresses p \<noteq> None) (records g))"
proof -
  have "tun_packets rs = filter (\<lambda>p. \<not> is_keepalive_packet p \<and> ipv4_packet_addresses p \<noteq> None) rs" for rs
    by (induction rs) (simp_all add: tun_packets_def tun_packet_def)
  then show ?thesis
    using decrypt_run_result [OF assms(1)] assms(2,3) by (simp add: datagrams_left_def tun_open_def)
qed

definition example_client :: "byte list list client" where
  "example_client =
     \<lparr>link = example_dtls\<lparr>ssl := Some [[0]]\<rparr>,
      queues = \<lparr>encrypted_rx = \<lparr>capacity = 2, items = [[7], [8]], closed = False, generation = 0\<rparr>,
        raw_tx = empty_queue 2, tun_write = empty_queue 2, enc_tx = empty_queue 2\<rparr>,
      active = True, activity = 0, progress = 0, sent_errors = []\<rparr>"

theorem client_decrypts_in_order_witness:
  "\<exists>g t l' s'. decrypt_run example_wolf [1, 2, 3] \<lparr>waiting = None, drain = False\<rparr> example_client = (g, t, l', s')
     \<and> injected g @ opt_list (waiting l') @ items (encrypted_rx (queues s')) = [[7], [8]]"
proof -
  obtain g t l' s' where r: "decrypt_run example_wolf [1, 2, 3] \<lparr>waiting = None, drain = False\<rparr> example_client = (g, t, l', s')"
    by (metis prod_cases4)
  have "queue_inv (tun_write (queues example_client))" "\<not> closed (tun_write (queues example_client))"
    by (simp_all add: example_client_def queue_inv_def empty_queue_def)
  from client_decrypts_in_order [OF r this] r show ?thesis by (simp add: example_client_def)
qed

end
