(* ===== verification/Vpn_Client.thy ===== *)
theory Vpn_Client
  imports Vpn_Client_Workers
begin

text \<open>
  The client (\<open>src/src/client/mod.rs\<close>): its configuration, the connection with the handshake and the
  checks of the server, the loop that sends keepalives and probes a silent server, and the loop that
  reconnects. A turn of a loop happens at one instant; the clock, the stop flag, polling and what the
  workers report are arguments, one entry of a script per turn, and a loop whose script has ended is
  still running (\<open>None\<close>).
\<close>

section \<open>Constants and configuration\<close>

definition SERVER_LIVENESS_TIMEOUT :: duration where "SERVER_LIVENESS_TIMEOUT = seconds 23"
definition HEALTH_PROBE_INTERVAL :: duration where "HEALTH_PROBE_INTERVAL = seconds 20"
definition HEALTH_PROBE_RETRY_INTERVAL :: duration where "HEALTH_PROBE_RETRY_INTERVAL = seconds 1"
definition RETRY_DELAY :: duration where "RETRY_DELAY = seconds 3"

definition effective_keepalive_interval :: "duration \<Rightarrow> duration" where
  "effective_keepalive_interval configured = min configured HEALTH_PROBE_INTERVAL"

definition reconnect_delay :: "io_error \<Rightarrow> duration" where
  "reconnect_delay e = (if kind e = TimedOut then 0 else RETRY_DELAY)"

text \<open>\<open>SocketAddr\<close>; the storage of an IPv6 address stays zeroed.\<close>

datatype socket_addr = V4 ipv4 nat | V6 "byte list" nat

definition socket_addr_storage :: "socket_addr \<Rightarrow> sockaddr" where
  "socket_addr_storage a =
     (case a of
        V4 ip p \<Rightarrow> \<lparr>sa_family = AF_INET, sa_port = p, sa_addr = ip, sa_rest = []\<rparr>
      | V6 _ _ \<Rightarrow> \<lparr>sa_family = 0, sa_port = 0, sa_addr = 0, sa_rest = []\<rparr>)"

record client_config =
  server_ip :: ipv4
  server_port :: nat
  keepalive_interval :: duration
  verify_server_san_ip :: bool
  force_dns :: bool
  dns_ip :: ipv4
  tls_settings :: tls_config

definition keepalive_value :: "settings \<Rightarrow> duration io_result" where
  "keepalive_value values =
     and_then (number_value u64_max values ''keepalive_interval'' ''30'') (\<lambda>n.
       if n < 5 \<or> 90 < n then Inl (error_other ''keepalive_interval must be between 5 and 90 seconds'')
       else Inr (seconds n))"

definition load_client_config :: "settings \<Rightarrow> client_config io_result" where
  "load_client_config values =
     and_then (address_value (error_other ''invalid server_address'') values ''server_address'' ''127.0.0.1'') (\<lambda>ip.
     and_then (number_value 65535 values ''port'' ''4433'') (\<lambda>p.
     and_then (keepalive_value values) (\<lambda>interval.
     and_then (boolean_value values ''verify_server_san_ip'' True) (\<lambda>san.
     and_then (boolean_value values ''force_dns'' False) (\<lambda>dns.
     and_then (address_value (error_new InvalidInput ''invalid dns_server'') values ''dns_server'' ''10.8.1.1'') (\<lambda>dns_address.
     and_then (required_value values ''ca_file'') (\<lambda>ca.
     and_then (boolean_value values ''ocsp_enabled'' True) (\<lambda>ocsp.
     and_then (number_value 65535 values ''mtu'' ''1200'') (\<lambda>mtu_value.
       Inr \<lparr>server_ip = ip, server_port = p, keepalive_interval = interval, verify_server_san_ip = san,
            force_dns = dns, dns_ip = dns_address,
            tls_settings = \<lparr>as_server = False,
              cert_path = config_value values ''certificate_file'' ''client-cert.pem'',
              key_path = config_value values ''private_key_file'' ''client-key.pem'',
              ca_path = Some ca, crl_path = option_filter non_blank (values ''crl_file''), use_ocsp = ocsp,
              ocsp_override = option_filter non_blank (values ''ocsp_url''), tun_mtu = mtu_value\<rparr>\<rparr>)))))))))"

section \<open>Connecting\<close>

text \<open>
  A turn of the handshake loop: the stop flag, the clock after the step, and whether waiting for the
  socket saw a datagram.
\<close>

type_synonym handshake_turn = "bool \<times> instant \<times> bool io_result"

fun handshake_loop :: "'w wolfssl \<Rightarrow> instant \<Rightarrow> handshake_turn list \<Rightarrow> 'w dtls \<Rightarrow> bool io_result option \<times> 'w dtls" where
  "handshake_loop W deadline [] d = (None, d)"
| "handshake_loop W deadline ((running, now, readable) # script) d =
     (if \<not> running then (Some (Inr False), d)
      else case handshake W d of
          (Inl e, d') \<Rightarrow> (Some (Inl e), d')
        | (Inr True, d') \<Rightarrow> (Some (Inr True), d')
        | (Inr False, d') \<Rightarrow>
            if deadline - now = 0 then (Some (Inl (error_new TimedOut ''DTLS handshake timed out'')), d')
            else case readable of
                Inl e \<Rightarrow> (Some (Inl e), d')
              | Inr True \<Rightarrow> handshake_loop W deadline script d'
              | Inr False \<Rightarrow>
                  (case handle_timeout W d' of
                     (Inl e, d'') \<Rightarrow> (Some (Inl e), d'')
                   | (Inr _, d'') \<Rightarrow> handshake_loop W deadline script d''))"

record 'w connect_env =
  socket_result :: "unit io_result"
  socket_fd :: int
  context_result :: "'w dtls io_result"
  handshake_at :: instant
  handshake_turns :: "handshake_turn list"
  running_after :: bool
  auth_steps :: auth_env

text \<open>The preparation of the DTLS object: socket, peer, callbacks.\<close>

definition prepare_link :: "'w wolfssl \<Rightarrow> int \<Rightarrow> sockaddr \<Rightarrow> 'w dtls \<Rightarrow> 'w dtls io_result" where
  "prepare_link W fd server_peer d =
     (case set_socket W fd d of
        (Inl e, _) \<Rightarrow> Inl e
      | (Inr _, d1) \<Rightarrow>
          (case set_peer W server_peer (set_nonblocking W True d1) of
             (Inl e, _) \<Rightarrow> Inl e
           | (Inr _, d2) \<Rightarrow>
               (case set_io (dtls_io_new_client server_peer) d2 of
                  (Inl e, _) \<Rightarrow> Inl e
                | (Inr _, d3) \<Rightarrow> Inr d3)))"

definition check_server :: "'w wolfssl \<Rightarrow> client_config \<Rightarrow> 'w dtls \<Rightarrow> unit io_result" where
  "check_server W c d =
     (if \<not> verify_server_san_ip c then Inr ()
      else and_then (peer_certificate_has_san_ip W (server_ip c) d) (\<lambda>matches.
        if matches then Inr ()
        else Inl (error_new PermissionDenied
          (''server certificate SAN IP does not match '' @ show_ipv4 (server_ip c)))))"

definition connect :: "'w wolfssl \<Rightarrow> client_config \<Rightarrow> 'w connect_env \<Rightarrow> login_credentials option \<Rightarrow>
    'w dtls io_result option \<times> login_credentials option" where
  "connect W c env cache =
     (case and_then (socket_result env) (\<lambda>_. and_then (context_result env)
             (prepare_link W (socket_fd env) (socket_addr_storage (V4 (server_ip c) (server_port c))))) of
        Inl e \<Rightarrow> (Some (Inl e), cache)
      | Inr d \<Rightarrow>
          (case handshake_loop W (handshake_at env + seconds 30) (handshake_turns env) d of
             (None, _) \<Rightarrow> (None, cache)
           | (Some (Inl e), _) \<Rightarrow> (Some (Inl e), cache)
           | (Some (Inr complete), d') \<Rightarrow>
               if \<not> (complete \<and> running_after env)
               then (Some (Inl (error_new Interrupted ''client shutdown requested'')), cache)
               else case check_server W c d' of
                   Inl e \<Rightarrow> (Some (Inl e), cache)
                 | Inr _ \<Rightarrow>
                     (case authenticate (auth_steps env) cache of
                        (None, cache') \<Rightarrow> (None, cache')
                      | (Some (Inl e), cache') \<Rightarrow> (Some (Inl e), cache')
                      | (Some (Inr _), cache') \<Rightarrow> (Some (Inr d'), cache'))))"

section \<open>Keepalives and probes\<close>

record monitor =
  last_keepalive :: instant
  last_probe :: instant
  probing :: bool

definition monitor_new :: "instant \<Rightarrow> monitor" where
  "monitor_new now = \<lparr>last_keepalive = now, last_probe = now, probing = False\<rparr>"

datatype received = GotError io_error | NoError | Disconnected

text \<open>
  A turn: the result if the loop ends, whether a keepalive was queued, the queue of plain packets.
\<close>

definition monitor_turn :: "duration \<Rightarrow> instant \<Rightarrow> instant \<Rightarrow> received \<Rightarrow> byte list queue \<Rightarrow> monitor \<Rightarrow>
    unit io_result option \<times> bool \<times> byte list queue \<times> monitor" where
  "monitor_turn interval now last_server_activity recv q m =
     (let server_idle = now - last_server_activity in
      if SERVER_LIVENESS_TIMEOUT \<le> server_idle
      then (Some (Inl (error_new TimedOut ''server did not respond to keepalive'')), False, q, m)
      else
        let m1 = (if server_idle < HEALTH_PROBE_INTERVAL then m\<lparr>probing := False\<rparr> else m);
            probe_due = HEALTH_PROBE_INTERVAL \<le> server_idle
              \<and> (\<not> probing m1 \<or> HEALTH_PROBE_RETRY_INTERVAL \<le> now - last_probe m1);
            keepalive_due = \<not> probing m1 \<and> interval \<le> now - last_keepalive m1;
            ending = (case recv of GotError e \<Rightarrow> Some (Inl e) | NoError \<Rightarrow> None | Disconnected \<Rightarrow> Some (Inr ()))
        in if probe_due \<or> keepalive_due
           then (case push KEEPALIVE_PACKET q of
                   (Inl _, q') \<Rightarrow> (Some (Inl (error_other ''client raw TX queue closed'')), False, q', m1)
                 | (Inr _, q') \<Rightarrow>
                     (ending, True, q',
                      if probe_due then m1\<lparr>last_keepalive := now, probing := True, last_probe := now\<rparr>
                      else m1\<lparr>last_keepalive := now\<rparr>))
           else (ending, False, q, m1))"

text \<open>The loop with the instants at which keepalives were queued; the flag is the loop's condition.\<close>

fun monitor_run :: "duration \<Rightarrow> (bool \<times> instant \<times> instant \<times> received) list \<Rightarrow> byte list queue \<Rightarrow> monitor \<Rightarrow>
    unit io_result option \<times> instant list \<times> byte list queue \<times> monitor" where
  "monitor_run interval [] q m = (None, [], q, m)"
| "monitor_run interval ((running, now, last_server_activity, recv) # script) q m =
     (if \<not> running then (Some (Inr ()), [], q, m)
      else case monitor_turn interval now last_server_activity recv q m of
          (Some r, queued, q', m') \<Rightarrow> (Some r, if queued then [now] else [], q', m')
        | (None, queued, q', m') \<Rightarrow>
            (case monitor_run interval script q' m' of
               (r, sent, q'', m'') \<Rightarrow> (r, (if queued then [now] else []) @ sent, q'', m'')))"

section \<open>Reconnecting\<close>

text \<open>The loop of \<open>run_with_login\<close>: the result and the delays between the connections.\<close>

fun connection_loop :: "(bool \<times> unit outcome) list \<Rightarrow> (unit io_result \<times> duration list) option" where
  "connection_loop [] = None"
| "connection_loop ((running, connection) # script) =
     (if \<not> running then Some (Inr (), [])
      else case panic_gate ''client connection'' connection of
          Inr _ \<Rightarrow> Some (Inr (), [])
        | Inl e \<Rightarrow>
            if kind e = PermissionDenied then Some (Inl e, [])
            else map_option (\<lambda>(r, delays). (r, reconnect_delay e # delays)) (connection_loop script))"

record 'w run_env =
  skip_tun :: bool
  test_connection :: "'w connect_env"
  tun_setup :: "client_config \<Rightarrow> unit io_result"
  dns_setup :: "ipv4 \<Rightarrow> unit io_result"
  connections :: "(bool \<times> unit outcome) list"

definition run_with_login :: "'w wolfssl \<Rightarrow> file_system \<Rightarrow> string io_result \<Rightarrow> (string \<Rightarrow> string \<Rightarrow> unit io_result) \<Rightarrow>
    string \<Rightarrow> (string \<times> string) option \<Rightarrow> 'w run_env \<Rightarrow> unit io_result option" where
  "run_with_login W fs create_private_dir write_new path supplied_login env =
     (case and_then (parse_ini_section fs path ''client'') (\<lambda>values.
           and_then (materialize_embedded_credentials fs create_private_dir write_new path values) (\<lambda>(_, values').
           and_then (load_client_config values') (\<lambda>c.
           and_then (case supplied_login of
                       None \<Rightarrow> Inr None
                     | Some (name, password) \<Rightarrow> and_then (make_login_credentials name password) (\<lambda>l. Inr (Some l)))
             (\<lambda>cache. Inr (c, cache))))) of
        Inl e \<Rightarrow> Some (Inl e)
      | Inr (c, cache) \<Rightarrow>
          if skip_tun env
          then map_option (\<lambda>r. and_then r (\<lambda>_. Inr ())) (fst (connect W c (test_connection env) cache))
          else case and_then (tun_setup env c)
                 (\<lambda>_. if force_dns c then dns_setup env (dns_ip c) else Inr ()) of
              Inl e \<Rightarrow> Some (Inl e)
            | Inr _ \<Rightarrow> map_option fst (connection_loop (connections env)))"

section \<open>The configuration\<close>

lemma load_client_interval:
  assumes "load_client_config values = Inr c"
  shows "seconds 5 \<le> keepalive_interval c \<and> keepalive_interval c \<le> seconds 90"
proof -
  have "keepalive_value values = Inr (keepalive_interval c)"
    using assms by (auto simp: load_client_config_def and_then_eq_Inr)
  then show ?thesis by (auto simp: keepalive_value_def and_then_eq_Inr seconds_def split: if_splits)
qed

lemmas durations = SERVER_LIVENESS_TIMEOUT_def HEALTH_PROBE_INTERVAL_def HEALTH_PROBE_RETRY_INTERVAL_def
  RETRY_DELAY_def seconds_def

section \<open>The monitor\<close>

text \<open>A probe is also a keepalive; no keepalive is due after a turn.\<close>

definition monitor_ok :: "monitor \<Rightarrow> bool" where
  "monitor_ok m \<longleftrightarrow> (probing m \<longrightarrow> last_probe m \<le> last_keepalive m)"

lemma monitor_turn_result:
  assumes t: "monitor_turn interval now act recv q m = (None, queued, q', m')"
    and ok: "monitor_ok m" and iv: "HEALTH_PROBE_RETRY_INTERVAL \<le> interval"
  shows "monitor_ok m' \<and> now - act < SERVER_LIVENESS_TIMEOUT \<and> now - last_keepalive m' < interval
    \<and> (last_keepalive m' = (if queued then now else last_keepalive m))"
proof -
  have pos: "0 < interval" using iv by (simp add: durations)
  show ?thesis
    using assms pos
    by (auto simp: monitor_turn_def monitor_ok_def Let_def split: if_split_asm prod.split_asm sum.split_asm)
qed


definition turn_times :: "(bool \<times> instant \<times> instant \<times> received) list \<Rightarrow> instant list" where
  "turn_times script = map (\<lambda>(running, now, act, recv). now) script"

lemma monitor_run_result:
  assumes "monitor_run interval script q m = (None, sent, q', m')" "monitor_ok m"
    and "HEALTH_PROBE_RETRY_INTERVAL \<le> interval" "sorted (last_keepalive m # turn_times script)"
    and "(running, now, act, recv) \<in> set script"
  shows "now - act < SERVER_LIVENESS_TIMEOUT
    \<and> (\<exists>p \<in> insert (last_keepalive m) (set sent). p \<le> now \<and> now - p < interval)"
  using assms
proof (induction interval script q m arbitrary: sent q' m' rule: monitor_run.induct)
  case (1 interval q m)
  then show ?case by simp
next
  case (2 interval running1 now1 act1 recv1 script q m)
  obtain queued q1 m1 sent1 where t: "monitor_turn interval now1 act1 recv1 q m = (None, queued, q1, m1)"
    and run: "monitor_run interval script q1 m1 = (None, sent1, q', m')"
    and sent: "sent = (if queued then [now1] else []) @ sent1" and running: "running1"
    using "2.prems"(1) by (auto split: if_split_asm option.split_asm prod.split_asm)
  note one = monitor_turn_result [OF t "2.prems"(2,3)]
  have le: "last_keepalive m \<le> now1" "sorted (now1 # turn_times script)" "last_keepalive m1 \<le> now1"
    using "2.prems"(4) one by (auto simp: turn_times_def)
  have in_sent: "insert (last_keepalive m1) (set sent1) \<subseteq> insert (last_keepalive m) (set sent)"
    using one sent by auto
  show ?case
  proof (cases "(running, now, act, recv) \<in> set script")
    case True
    have "sorted (last_keepalive m1 # turn_times script)" using le(2,3) by auto
    then have "now - act < SERVER_LIVENESS_TIMEOUT
        \<and> (\<exists>p \<in> insert (last_keepalive m1) (set sent1). p \<le> now \<and> now - p < interval)"
      using "2.IH" running t run one "2.prems"(3) True by simp
    then show ?thesis using in_sent by blast
  next
    case False
    then have "now = now1" "act = act1" using "2.prems"(5) by auto
    then show ?thesis using one le(3) in_sent by blast
  qed
qed

section \<open>The handshake\<close>

lemma handshake_loop_complete:
  "handshake_loop W deadline script d = (Some (Inr True), d') \<Longrightarrow> \<exists>d0. handshake W d0 = (Inr True, d')"
  by (induction W deadline script d rule: handshake_loop.induct)
    (auto split: if_split_asm prod.split_asm sum.split_asm bool.split_asm)

section \<open>Properties\<close>

text \<open>
  C19: A connected client never falls silent and never trusts a silent server: while its monitoring loop
  goes on, at every turn the server was heard of less than 23 seconds before and the last keepalive or
  probe was queued less than the configured interval, and less than 20 seconds, before; the
  configuration only admits intervals from 5 to 90 seconds.
\<close>

theorem client_keeps_connection_alive:
  assumes "load_client_config values = Inr c"
    and "monitor_run (effective_keepalive_interval (keepalive_interval c)) script q (monitor_new start)
           = (None, sent, q', m')"
    and "sorted (start # turn_times script)" "(running, now, act, recv) \<in> set script"
  shows "now - act < seconds 23
    \<and> (\<exists>p \<in> insert start (set sent). p \<le> now \<and> now - p < keepalive_interval c \<and> now - p < seconds 20)"
proof -
  let ?i = "effective_keepalive_interval (keepalive_interval c)"
  have i: "HEALTH_PROBE_RETRY_INTERVAL \<le> ?i"
    using load_client_interval [OF assms(1)] by (simp add: effective_keepalive_interval_def durations)
  have "sorted (last_keepalive (monitor_new start) # turn_times script)" "monitor_ok (monitor_new start)"
    using assms(3) by (simp_all add: monitor_new_def monitor_ok_def)
  from monitor_run_result [OF assms(2) this(2) i this(1) assms(4)] show ?thesis
    by (auto simp: monitor_new_def effective_keepalive_interval_def SERVER_LIVENESS_TIMEOUT_def HEALTH_PROBE_INTERVAL_def)
qed

lemma example_client_config: "\<exists>c. load_client_config example_settings = Inr c \<and> keepalive_interval c = seconds 30"
proof -
  have "number_value 65535 example_settings ''port'' ''4433'' = Inr 4433"
    "number_value 65535 example_settings ''mtu'' ''1200'' = Inr 1200"
    "required_value example_settings ''ca_file'' = Inr ''ca.pem''"
    "boolean_value example_settings ''ocsp_enabled'' True = Inr True"
    by (rule example_numbers example_texts)+
  moreover have "address_value e example_settings ''server_address'' ''127.0.0.1'' = Inr 0x7F000001"
    "address_value e example_settings ''dns_server'' ''10.8.1.1'' = Inr 0x0A080101"
    "boolean_value example_settings ''verify_server_san_ip'' True = Inr True"
    "boolean_value example_settings ''force_dns'' False = Inr False"
    "number_value u64_max example_settings ''keepalive_interval'' ''30'' = Inr 30" for e
    by (simp_all add: config_eval ipv4_eval)
  ultimately show ?thesis by (simp add: load_client_config_def keepalive_value_def)
qed

theorem client_keeps_connection_alive_witness:
  "\<exists>sent q' m'. monitor_run (seconds 20) [(True, seconds 10, seconds 2, NoError), (True, seconds 20, seconds 2, NoError)]
       (empty_queue 2) (monitor_new 0) = (None, sent, q', m')
     \<and> (\<exists>p \<in> insert 0 (set sent). p \<le> seconds 20 \<and> seconds 20 - p < seconds 20)"
proof -
  let ?script = "[(True, seconds 10, seconds 2, NoError), (True, seconds 20, seconds 2, NoError)]"
  obtain c where c: "load_client_config example_settings = Inr c" "keepalive_interval c = seconds 30"
    using example_client_config by blast
  have i: "effective_keepalive_interval (keepalive_interval c) = seconds 20"
    using c(2) by (simp add: effective_keepalive_interval_def HEALTH_PROBE_INTERVAL_def seconds_def)
  obtain sent q' m' where run: "monitor_run (seconds 20) ?script (empty_queue 2) (monitor_new 0) = (None, sent, q', m')"
    by (simp add: monitor_turn_def monitor_new_def durations Let_def push_def empty_queue_def)
  have "sorted (0 # turn_times ?script)" by (simp add: turn_times_def seconds_def)
  moreover have "monitor_run (effective_keepalive_interval (keepalive_interval c)) ?script (empty_queue 2) (monitor_new 0)
      = (None, sent, q', m')" using run i by simp
  ultimately have "\<exists>p \<in> insert 0 (set sent). p \<le> seconds 20 \<and> seconds 20 - p < seconds 20"
    using client_keeps_connection_alive [OF c(1), of ?script "empty_queue 2" 0 sent q' m' True "seconds 20" "seconds 2" NoError]
    by auto
  then show ?thesis using run by blast
qed

text \<open>
  C23: The client uses a connection only with the server it was configured for: \<open>connect\<close> succeeds only if
  the DTLS handshake completed, the server's certificate carries the configured address where that
  check is on, no stop was requested, and the login exchange ended with the server's acceptance.
\<close>

theorem connect_only_if_verified:
  assumes "connect W c env cache = (Some (Inr d), cache')"
  shows "(\<exists>d0. handshake W d0 = (Inr True, d)) \<and> running_after env
    \<and> (verify_server_san_ip c \<longrightarrow> peer_certificate_has_san_ip W (server_ip c) d = Inr True)
    \<and> authenticate (auth_steps env) cache = (Some (Inr ()), cache')"
proof -
  obtain d1 where h: "handshake_loop W (handshake_at env + seconds 30) (handshake_turns env) d1 = (Some (Inr True), d)"
    and r: "running_after env" and s: "check_server W c d = Inr ()"
    and a: "authenticate (auth_steps env) cache = (Some (Inr ()), cache')"
    using assms
    by (auto simp: connect_def split: sum.split_asm prod.split_asm option.split_asm if_split_asm)
  have "verify_server_san_ip c \<longrightarrow> peer_certificate_has_san_ip W (server_ip c) d = Inr True"
    using s by (auto simp: check_server_def and_then_eq_Inr split: if_split_asm)
  then show ?thesis using handshake_loop_complete [OF h] r a by blast
qed

definition example_connect :: "byte list list connect_env" where
  "example_connect =
     \<lparr>socket_result = Inr (), socket_fd = 3, context_result = Inr example_dtls, handshake_at = 0,
      handshake_turns = [(True, 1, Inr True)], running_after = True, auth_steps = example_auth\<rparr>"

theorem connect_only_if_verified_witness:
  "\<exists>c d. connect example_wolf c example_connect None = (Some (Inr d), Some example_login)
     \<and> authenticate (auth_steps example_connect) None = (Some (Inr ()), Some example_login)
     \<and> running_after example_connect"
proof -
  let ?c = "\<lparr>server_ip = 0x0A000001, server_port = 4433, keepalive_interval = seconds 30, verify_server_san_ip = False,
     force_dns = False, dns_ip = 0, tls_settings = example_tls\<rparr>"
  obtain d where d: "connect example_wolf ?c example_connect None = (Some (Inr d), Some example_login)"
    using example_authenticates
    by (simp add: connect_def example_connect_def prepare_link_def set_socket_def set_nonblocking_def set_peer_def peer_check_def set_io_def
        example_wolf_def example_dtls_def SUCCESS_def handshake_def check_server_def)
  from connect_only_if_verified [OF d] d show ?thesis by blast
qed

text \<open>
  A turn of the reconnection loop after which it goes on: the client still runs, and the connection
  failed or panicked, with an error of any kind but one.
\<close>

definition reconnects :: "bool \<times> unit outcome \<Rightarrow> bool" where
  "reconnects turn \<longleftrightarrow>
     fst turn \<and> (\<exists>e. panic_gate ''client connection'' (snd turn) = Inl e \<and> kind e \<noteq> PermissionDenied)"

lemma connection_loop_turns:
  "connection_loop turns =
     (case dropWhile reconnects turns of
        [] \<Rightarrow> None
      | (running, connection) # _ \<Rightarrow>
          Some (if running then panic_gate ''client connection'' connection else Inr (),
                map (\<lambda>(_, x). case panic_gate ''client connection'' x of Inl e \<Rightarrow> reconnect_delay e)
                  (takeWhile reconnects turns)))"
proof (induction turns)
  case (Cons turn turns)
  obtain running x where turn: "turn = (running, x)" by (cases turn)
  consider (goes) e where "running" "panic_gate ''client connection'' x = Inl e" "kind e \<noteq> PermissionDenied"
    | (denied) e where "running" "panic_gate ''client connection'' x = Inl e" "kind e = PermissionDenied"
    | (ended) "running" "panic_gate ''client connection'' x = Inr ()" | (stopped) "\<not> running"
    by (cases "panic_gate ''client connection'' x") auto
  then show ?case
  proof cases
    case (goes e)
    then have "reconnects turn" by (simp add: turn reconnects_def)
    then show ?thesis
      using Cons.IH turn goes
      by (cases "dropWhile reconnects turns") (auto simp del: dropWhile_eq_Nil_conv split: prod.splits)
  qed (simp_all add: turn reconnects_def)
qed simp

lemma connection_loop_error: "connection_loop turns = Some (Inl e, delays) \<Longrightarrow> kind e = PermissionDenied"
  by (induction turns arbitrary: delays rule: connection_loop.induct) (auto split: if_splits sum.splits)

text \<open>
  C35: The client reconnects until a connection ends without an error, a stop is requested, or a
  connection fails with an error of the kind permission denied, whatever that comes from: the login, the
  name in the server's certificate, but as well the mode of the private key file or a system call.
  The loop ends with exactly the first such turn, is still running when there was none, and its
  result is that of this turn; so permission denied is the only kind of error it reports. Each failure before it
  (a panic counts as one) costs one delay: none after a timeout, three seconds otherwise.
\<close>

theorem client_reconnects_until_permission_denied:
  "connection_loop turns =
     (case dropWhile reconnects turns of
        [] \<Rightarrow> None
      | (running, connection) # _ \<Rightarrow>
          Some (if running then panic_gate ''client connection'' connection else Inr (),
                map (\<lambda>(_, x). case panic_gate ''client connection'' x of
                       Inl e \<Rightarrow> (if kind e = TimedOut then 0 else seconds 3)) (takeWhile reconnects turns)))
   \<and> (\<forall>e delays. connection_loop turns = Some (Inl e, delays) \<longrightarrow> kind e = PermissionDenied)"
  using connection_loop_turns connection_loop_error
  unfolding reconnect_delay_def RETRY_DELAY_def by blast

theorem client_reconnects_until_permission_denied_witness:
  "connection_loop [(True, Panicked None), (True, Returned (Inl (error_new TimedOut ''lost''))),
       (True, Returned (Inl (error_new PermissionDenied ''login failed''))), (True, Panicked None)]
   = Some (Inl (error_new PermissionDenied ''login failed''), [seconds 3, 0])"
  using client_reconnects_until_permission_denied
      [of "[(True, Panicked None), (True, Returned (Inl (error_new TimedOut ''lost''))),
        (True, Returned (Inl (error_new PermissionDenied ''login failed''))), (True, Panicked None)]"]
  by (simp add: panic_gate_def reconnects_def)

text \<open>Such an error of local origin: a private key that others may read ends the client for good.\<close>

lemma open_private_key_ends_client:
  assumes "metadata path = Inr m" "is_file m" "permission_mode m AND 0x3F \<noteq> 0"
  shows "\<exists>e. validate_private_key_file metadata path = Inl e
    \<and> (socket_result env = Inr () \<longrightarrow> context_result env = Inl e \<longrightarrow>
         connect W c env cache = (Some (Inl e), cache) \<and> connection_loop ((True, Returned (Inl e)) # turns) = Some (Inl e, []))"
  using assms by (auto simp: validate_private_key_file_def connect_def panic_gate_def)

lemma open_private_key_ends_client_witness:
  "\<exists>e. validate_private_key_file (\<lambda>_. Inr \<lparr>is_file = True, permission_mode = 0x1A4\<rparr>) ''client-key.pem'' = Inl e
     \<and> connection_loop [(True, Returned (Inl e))] = Some (Inl e, [])"
  by (simp add: validate_private_key_file_def panic_gate_def)

end
