(* ===== verification/Vpn_Client_Life.thy ===== *)
theory Vpn_Client_Life
  imports Vpn_Client Vpn_Client_Workers
begin

unbundle bit_operations_syntax

text \<open>
  The life of the client around its loops (\<open>src/src/client/mod.rs\<close>): the handlers of signals, the
  prompt that hides what is typed, and one connection (\<open>run_connection\<close>) from its set-up through the
  start of the six threads to their end. The monitoring loop in between is \<open>monitor_run\<close> of
  \<open>Vpn_Client\<close>; the threads' turns are those of \<open>Vpn_Client_Workers\<close>. What the terminal answers and
  whether a socket can be cloned and a thread be started are arguments.
\<close>

section \<open>Signals\<close>

text \<open>A console event of Windows: the handler's answer, and the flag \<open>RUNNING\<close> after it.\<close>

definition console_handler :: "32 word \<Rightarrow> bool \<Rightarrow> int \<times> bool" where
  "console_handler signal running =
     (if signal \<in> {0, 1, 2, 5, 6} then (1, False) else (0, running))"

text \<open>
  The handler of \<open>SIGINT\<close> and \<open>SIGTERM\<close> on Unix, and how the handlers are installed: Windows may refuse,
  which ends the client before it reads its configuration.
\<close>

definition client_stop :: "bool \<Rightarrow> bool" where
  "client_stop running = False"

definition client_install_handlers :: "bool \<Rightarrow> int \<Rightarrow> io_error \<Rightarrow> unit io_result" where
  "client_install_handlers windows answer last_error =
     (if windows \<and> answer = 0 then Inl last_error else Inr ())"

section \<open>Settings\<close>

text \<open>
  The client has its own copies of the functions that look settings up; \<open>load_client_config\<close> uses
  those of \<open>Vpn_Config\<close>, which are the same functions.
\<close>

definition client_value :: "settings \<Rightarrow> string \<Rightarrow> string \<Rightarrow> string" where
  "client_value values key fallback = (case values key of None \<Rightarrow> fallback | Some v \<Rightarrow> v)"

definition client_required_value :: "settings \<Rightarrow> string \<Rightarrow> string io_result" where
  "client_required_value values key =
     (case values key of
        Some v \<Rightarrow>
          if trim v = [] then Inl (error_new InvalidInput (key @ '' is required and must not be empty'')) else Inr v
      | None \<Rightarrow> Inl (error_new InvalidInput (key @ '' is required and must not be empty'')))"

definition client_boolean_value :: "settings \<Rightarrow> string \<Rightarrow> bool \<Rightarrow> bool io_result" where
  "client_boolean_value values key fallback =
     (case values key of
        None \<Rightarrow> Inr fallback
      | Some v \<Rightarrow>
          (let text = to_ascii_lowercase (trim v) in
           if text = ''true'' \<or> text = ''1'' \<or> text = ''yes'' \<or> text = ''on'' then Inr True
           else if text = ''false'' \<or> text = ''0'' \<or> text = ''no'' \<or> text = ''off'' then Inr False
           else Inl (error_new InvalidInput (key @ '' must be true or false''))))"

lemma client_settings_agree:
  "client_value = config_value" "client_required_value = required_value" "client_boolean_value = boolean_value"
  by (auto simp: client_value_def config_value_def client_required_value_def required_value_def ok_or_def option_filter_def
      non_blank_def client_boolean_value_def boolean_value_def Let_def fun_eq_iff split: option.splits)

section \<open>The prompt\<close>

text \<open>
  The terminal: its local flags, and whether it lets itself be asked and changed. A prompt is a
  sequence of actions; what is read is an argument, \<open>None\<close> for the end of the input.
\<close>

record terminal =
  c_lflag :: "32 word"
  tcgetattr_works :: bool
  tcsetattr_works :: bool

datatype prompt_action = ShowPrompt string | SetFlags "32 word" | ReadLine "32 word" | ShowNewline

definition trim_line_end :: "string \<Rightarrow> string" where
  "trim_line_end s = rev (dropWhile (\<lambda>c. c = carriage_return \<or> c = newline) (rev s))"

definition read_login_field :: "bool \<Rightarrow> 32 word \<Rightarrow> unit io_result \<Rightarrow> string io_result \<Rightarrow> string \<Rightarrow> bool \<Rightarrow> terminal \<Rightarrow>
    string io_result \<times> prompt_action list \<times> terminal" where
  "read_login_field unix echo flushed line prompt hidden t =
     (case flushed of
        Inl e \<Rightarrow> (Inl e, [ShowPrompt prompt], t)
      | Inr _ \<Rightarrow>
          (let original = c_lflag t;
               quiet = unix \<and> hidden \<and> tcgetattr_works t \<and> tcsetattr_works t;
               t1 = (if quiet then t\<lparr>c_lflag := original AND NOT echo\<rparr> else t);
               t2 = (if quiet then t1\<lparr>c_lflag := original\<rparr> else t1);
               acts = ShowPrompt prompt
                 # (if quiet then [SetFlags (c_lflag t1), ReadLine (c_lflag t1), SetFlags original, ShowNewline]
                    else [ReadLine (c_lflag t1)]);
               answer = and_then line (\<lambda>text.
                 if text = [] then Inl (error_new UnexpectedEof ''login input ended'') else Inr (trim_line_end text))
           in (answer, acts, t2)))"

section \<open>The threads of a connection\<close>

datatype client_thread = UdpReader | TunReader | DecryptWorker | TunWriter | EncryptWorker | UdpWriter

definition start_order :: "client_thread list" where
  "start_order = [UdpReader, TunReader, DecryptWorker, TunWriter, EncryptWorker, UdpWriter]"

text \<open>The threads that own a socket get a clone of it first.\<close>

definition start_thread :: "unit io_result \<Rightarrow> unit io_result \<Rightarrow> client_thread \<Rightarrow> unit io_result" where
  "start_thread cloned spawned th =
     (if th = UdpReader \<or> th = UdpWriter then and_then cloned (\<lambda>_. spawned) else spawned)"

section \<open>A connection\<close>

record 'w connection =
  con_link :: "'w dtls"
  con_queues :: client_queues
  con_active :: bool
  con_threads :: "client_thread list"
  con_progress :: worker_signal

text \<open>After the login: queues, no more receiving by wolfSSL itself, sending through the queue.\<close>

definition open_connection :: "'w wolfssl \<Rightarrow> 'w dtls \<Rightarrow> 'w connection io_result" where
  "open_connection W d =
     and_then client_queues_new (\<lambda>qs.
       case use_queued_send (enc_tx qs) signal_new (disable_callback_receive W d) of
         (Inl e, _) \<Rightarrow> Inl e
       | (Inr _, d') \<Rightarrow>
           Inr \<lparr>con_link = d', con_queues = qs, con_active = True, con_threads = [], con_progress = signal_new\<rparr>)"

text \<open>
  An early return while threads are being started drops the handles: the encrypting worker stops and
  is joined by its \<open>Drop\<close>, the other threads are detached.
\<close>

definition abandon_threads :: "client_thread list \<Rightarrow> 'w connection \<Rightarrow> 'w connection" where
  "abandon_threads started k =
     (if EncryptWorker \<in> set started
      then k\<lparr>con_threads := filter (\<lambda>th. th \<noteq> EncryptWorker) started,
             con_queues := (con_queues k)\<lparr>raw_tx := close (raw_tx (con_queues k))\<rparr>\<rparr>
      else k\<lparr>con_threads := started\<rparr>)"

text \<open>The end: the flag, the queues, the signal, then every thread is joined.\<close>

definition close_connection :: "'w connection \<Rightarrow> 'w connection" where
  "close_connection k =
     k\<lparr>con_active := False, con_queues := client_queues_close (con_queues k),
       con_progress := signal_notify (con_progress k), con_threads := []\<rparr>"

text \<open>
  \<open>None\<close> while the connection is being made or monitored. Of the queues only that of plain packets
  matters to the monitor; the other threads work on them meanwhile.
\<close>

definition run_connection :: "'w wolfssl \<Rightarrow> duration \<Rightarrow> 'w dtls io_result option \<Rightarrow> (client_thread \<Rightarrow> unit io_result) \<Rightarrow>
    (client_thread \<Rightarrow> unit io_result) \<Rightarrow> instant \<Rightarrow> (bool \<times> instant \<times> instant \<times> received) list \<Rightarrow>
    (unit io_result \<times> 'w connection option) option" where
  "run_connection W interval connected cloned spawned now script =
     (case connected of
        None \<Rightarrow> None
      | Some r \<Rightarrow>
          (case and_then r (open_connection W) of
             Inl e \<Rightarrow> Some (Inl e, None)
           | Inr k \<Rightarrow>
               (case start_threads (\<lambda>th. start_thread (cloned th) (spawned th) th) start_order of
                  (Some e, started) \<Rightarrow> Some (Inl e, Some (abandon_threads started k))
                | (None, started) \<Rightarrow>
                    (case monitor_run (effective_keepalive_interval interval) script (raw_tx (con_queues k)) (monitor_new now) of
                       (None, _) \<Rightarrow> None
                     | (Some result, _, q, _) \<Rightarrow>
                         Some (result, Some (close_connection
                           (k\<lparr>con_threads := started, con_queues := (con_queues k)\<lparr>raw_tx := q\<rparr>\<rparr>)))))))"

section \<open>Lemmas\<close>

text \<open>
  Whatever the prompt returns, the terminal is as it was; what is typed into a hidden prompt is read
  without echo where the terminal lets itself be changed.
\<close>

lemma prompt_restores_terminal:
  assumes "read_login_field unix echo flushed line prompt hidden t = (r, acts, t')"
  shows "t' = t \<and> (hidden \<and> unix \<and> tcgetattr_works t \<and> tcsetattr_works t \<longrightarrow> (\<forall>f. ReadLine f \<in> set acts \<longrightarrow> f AND echo = 0))"
proof -
  have "(c_lflag t AND NOT echo) AND echo = 0"
    by (rule bit_word_eqI) (simp add: bit_and_iff bit_not_iff)
  then show ?thesis using assms by (auto simp: read_login_field_def Let_def split: sum.splits if_splits)
qed

lemma prompt_ends_at_end_of_input:
  "fst (read_login_field unix echo (Inr ()) (Inr []) prompt hidden t) = Inl (error_new UnexpectedEof ''login input ended'')"
  by (simp add: read_login_field_def Let_def)

text \<open>The threads end once the queues are closed: the writers at their next turn, the readers with their next packet.\<close>

lemma threads_end_after_close:
  "closed (tun_write (queues s)) \<Longrightarrow> client_tun_write_turn still wrote s = Some (EndThread, s)"
  "closed q \<Longrightarrow> client_udp_write_turn now still sent q s = Some (EndThread, q, s)"
  "closed (reader_queue rd) \<Longrightarrow> fst (reader_push x rd) = False"
  "queue_inv (encrypted_rx (queues s)) \<Longrightarrow> closed (encrypted_rx (queues s)) \<Longrightarrow> waiting l = None \<Longrightarrow>
   fst (inject_next W l s) = EndThread"
  by (simp_all add: client_tun_write_turn_def client_udp_write_turn_def peek_def reader_push_def push_def
      inject_next_def try_pop_def queue_inv_def pop_front_def)

lemma open_connection_active:
  assumes "open_connection W d = Inr k"
  shows "con_active k"
proof (cases client_queues_new)
  case (Inl e)
  show ?thesis using assms unfolding open_connection_def Inl and_then_def by simp
next
  case qs: (Inr qs)
  obtain u d' where u: "use_queued_send (enc_tx qs) signal_new (disable_callback_receive W d) = (u, d')" by (metis surj_pair)
  show ?thesis using assms unfolding open_connection_def qs and_then_def by (cases u) (auto simp: u)
qed

lemma closed_close [simp]: "closed (close q)"
  by (simp add: close_def)

section \<open>Properties\<close>

text \<open>
  C32: A connection of the client that ends leaves nothing behind if all its threads could be started:
  the flag is cleared, the four queues are closed (which ends the threads) and every thread is
  joined, however the monitor ended. If a socket cannot be cloned or a thread not be started, its
  error is returned, and the threads started before it run on detached with the flag still set,
  except for the encrypting worker, which its destructor joins.
\<close>

theorem connection_threads_after_return:
  assumes "run_connection W interval connected cloned spawned now script = Some (r, Some k)"
  shows "(let start = (\<lambda>th. start_thread (cloned th) (spawned th) th) in
     case find (\<lambda>th. \<not> is_ok (start th)) start_order of
       None \<Rightarrow> \<not> con_active k \<and> con_threads k = [] \<and> closed (encrypted_rx (con_queues k)) \<and> closed (raw_tx (con_queues k))
         \<and> closed (tun_write (con_queues k)) \<and> closed (enc_tx (con_queues k))
     | Some th \<Rightarrow> r = Inl (projl (start th)) \<and> con_active k
         \<and> con_threads k = filter (\<lambda>u. u \<noteq> EncryptWorker) (takeWhile (\<lambda>u. is_ok (start u)) start_order))"
proof -
  let ?start = "\<lambda>th. start_thread (cloned th) (spawned th) th"
  obtain d k0 where "connected = Some (Inr d)" and k0: "open_connection W d = Inr k0"
    using assms by (auto simp: run_connection_def and_then_def split: option.splits sum.splits)
  then have run: "run_connection W interval connected cloned spawned now script =
      (case start_threads ?start start_order of
         (Some e, started) \<Rightarrow> Some (Inl e, Some (abandon_threads started k0))
       | (None, started) \<Rightarrow>
           (case monitor_run (effective_keepalive_interval interval) script (raw_tx (con_queues k0)) (monitor_new now) of
              (None, _) \<Rightarrow> None
            | (Some result, _, q, _) \<Rightarrow>
                Some (result, Some (close_connection
                  (k0\<lparr>con_threads := started, con_queues := (con_queues k0)\<lparr>raw_tx := q\<rparr>\<rparr>)))))"
    by (simp add: run_connection_def)
  have act: "con_active k0" by (rule open_connection_active [OF k0])
  show ?thesis
  proof (cases "find (\<lambda>th. \<not> is_ok (?start th)) start_order")
    case None
    then have "start_threads ?start start_order = (None, start_order)" by (simp add: start_threads_result)
    then show ?thesis
      using assms None unfolding run
      by (auto simp: close_connection_def client_queues_close_def split: option.splits prod.splits)
  next
    case (Some th)
    then have "start_threads ?start start_order = (Some (projl (?start th)), takeWhile (\<lambda>u. is_ok (?start u)) start_order)"
      by (simp add: start_threads_result)
    moreover have "filter (\<lambda>u. u \<noteq> EncryptWorker) us = us" if "EncryptWorker \<notin> set us" for us
      using that by (induction us) auto
    ultimately show ?thesis
      using assms Some act unfolding run by (auto simp: abandon_threads_def)
  qed
qed

text \<open>A connection of the concrete library whose device reader cannot be started.\<close>

lemma example_open_connection:
  "\<exists>k. open_connection example_wolf (example_dtls\<lparr>callback_io := Some (dtls_io_new_client example_peer)\<rparr>) = Inr k"
  by (simp add: open_connection_def client_queues_new_def client_queue_new_def queue_new_def QUEUE_CAPACITY_def
      use_queued_send_def with_io_def disable_callback_receive_def)

theorem connection_threads_after_return_witness:
  "\<exists>k. run_connection example_wolf (seconds 30)
      (Some (Inr (example_dtls\<lparr>callback_io := Some (dtls_io_new_client example_peer)\<rparr>))) (\<lambda>_. Inr ())
      (\<lambda>th. if th = DecryptWorker then Inl (error_other ''no thread'') else Inr ()) 0 []
      = Some (Inl (error_other ''no thread''), Some k)
    \<and> con_active k \<and> con_threads k = [UdpReader, TunReader]"
proof -
  let ?d = "example_dtls\<lparr>callback_io := Some (dtls_io_new_client example_peer)\<rparr>"
  let ?spawned = "\<lambda>th. if th = DecryptWorker then Inl (error_other ''no thread'') else Inr ()"
  obtain k where "open_connection example_wolf ?d = Inr k" using example_open_connection by blast
  then have r: "run_connection example_wolf (seconds 30) (Some (Inr ?d)) (\<lambda>_. Inr ()) ?spawned 0 []
      = Some (Inl (error_other ''no thread''), Some (abandon_threads [UdpReader, TunReader] k))"
    by (simp add: run_connection_def start_order_def start_thread_def)
  show ?thesis
    using connection_threads_after_return [OF r] r by (simp add: start_order_def start_thread_def Let_def)
qed

end
