(* ===== verification/Vpn_Server_Life.thy ===== *)
theory Vpn_Server_Life
  imports Vpn_Server_Run Vpn_Server_Decrypt
begin

text \<open>
  How the server stops (\<open>run\<close> of \<open>src/src/server.rs\<close> from the receiving loop on, with the loops of
  the five workers): the flags, the four things the workers wait for (a change of either queue, the
  progress signal, the wake-up socket of the control worker) and the order in which the main thread
  clears the flag, notifies, closes and joins. A worker is reduced to where its loop is: it checks
  the flags, notes the generation it will wait on, works, and waits. While it works it may notify
  anything, close queues and end. Three of these waits have no timeout of their own that matters here: a stopping
  server has to wake them. The others are bounded by a timeout and are points of their own: polling the TUN device
  (100 ms), the UDP writer's poll for a full socket (2 s), the poll for a device that takes no packet (100 ms), in
  which the decrypting worker keeps the mutex of the sessions, and the control worker's wait for the
  acknowledgement of a reload (2 s). A worker that needs the mutex cannot work meanwhile. The preparation before and
  the results after are definitions here as well.

  Generations are counted without the wrap at 64 bits: the argument needs that fewer than \<open>2 ^ 64\<close>
  notifications fall between the noting and the waiting of one turn.
\<close>

section \<open>Preparation and results\<close>

definition generate_cookie_secret :: "byte list io_result \<Rightarrow> byte list io_result" where
  "generate_cookie_secret urandom =
     and_then urandom (\<lambda>bytes.
       if length bytes < 32 then Inl (error_new UnexpectedEof ''failed to fill whole buffer'')
       else Inr (take 32 bytes))"

text \<open>The checks and objects before the first thread: the acceptor and the queues.\<close>

definition server_prepare :: "'w wolfssl \<Rightarrow> unit io_result \<Rightarrow> byte list io_result \<Rightarrow> 'w dtls io_result \<Rightarrow> int \<Rightarrow>
    ('w dtls \<times> 'd server_queues) io_result" where
  "server_prepare W checked urandom created fd =
     and_then checked (\<lambda>_.
     and_then (generate_cookie_secret urandom) (\<lambda>secret.
     and_then (create_stateless_acceptor W created fd secret) (\<lambda>a.
     and_then server_queues_new (\<lambda>qs. Inr (a, qs)))))"

text \<open>What joining a thread gives: workers without a result, and those with one.\<close>

definition join_unit :: "string \<Rightarrow> unit outcome \<Rightarrow> unit io_result" where
  "join_unit label r = (case r of Returned _ \<Rightarrow> Inr () | Panicked _ \<Rightarrow> Inl (error_other (label @ '' panicked'')))"

definition join_result :: "string \<Rightarrow> unit outcome \<Rightarrow> unit io_result" where
  "join_result label r = (case r of Returned x \<Rightarrow> x | Panicked _ \<Rightarrow> Inl (error_other (label @ '' panicked'')))"

record worker_results =
  encrypt_end :: "unit outcome"
  udp_write_end :: "unit outcome"
  decrypt_end :: "unit outcome"
  control_end :: "unit outcome"
  tun_read_end :: "unit outcome"

definition joined_results :: "unit io_result \<Rightarrow> worker_results \<Rightarrow> unit io_result list" where
  "joined_results read_result w =
     [read_result, join_result ''decrypt worker'' (decrypt_end w),
      join_result ''session control worker'' (control_end w), join_unit ''encrypt worker'' (encrypt_end w),
      join_unit ''UDP write worker'' (udp_write_end w), join_unit ''TUN read worker'' (tun_read_end w)]"

lemma is_ok_unit: "is_ok (r :: unit io_result) \<longleftrightarrow> r = Inr ()"
  by (cases r) auto

lemma server_succeeds_iff:
  "first_error (joined_results read_result w) = Inr () \<longleftrightarrow>
     read_result = Inr () \<and> decrypt_end w = Returned (Inr ()) \<and> control_end w = Returned (Inr ())
     \<and> (\<forall>r \<in> {encrypt_end w, udp_write_end w, tun_read_end w}. \<exists>x. r = Returned x)"
  by (auto simp: first_error_ok joined_results_def join_result_def join_unit_def is_ok_unit split: outcome.splits)

text \<open>
  The decrypting worker looks once more at the channel of errors when its loop has ended without one,
  so an error sent by then is not lost; the client has no such check (\<open>Vpn_Client_Result\<close>).
\<close>

definition decrypt_end_result :: "unit io_result \<Rightarrow> io_error list \<Rightarrow> unit io_result" where
  "decrypt_end_result result errors =
     (case result of
        Inl e \<Rightarrow> Inl e
      | Inr _ \<Rightarrow> (case errors of [] \<Rightarrow> Inr () | e # _ \<Rightarrow> Inl e))"

lemma sent_error_fails_server:
  assumes "decrypt_end w = Returned (decrypt_end_result result errors)" "errors \<noteq> []"
  shows "first_error (joined_results read_result w) \<noteq> Inr ()"
  using assms unfolding server_succeeds_iff by (auto simp: decrypt_end_result_def split: sum.splits list.splits)

section \<open>Threads and what they wait for\<close>

datatype server_thread = EncryptThread | UdpWriteThread | DecryptThread | ControlThread | TunReadThread

text \<open>
  \<open>AtTry\<close>: in \<open>write_tun_packet\<close>, after its loop saw the flags set; \<open>AtPoll\<close>: in a wait with a timeout of
  its own; \<open>AtRest\<close>: behind that wait.
\<close>

datatype thread_pc = AtCheck | AtObserve | AtWork nat | AtTry nat | AtPoll nat | AtRest nat | AtWait nat | Ended

datatype main_pc = Receiving | ClearActive | NotifyProgress | NotifyControl | CloseUdp | CloseTun
  | Joining "server_thread list"

record life =
  life_running :: bool
  life_active :: bool
  udp_generation :: nat
  tun_generation :: nat
  progress_generation :: nat
  udp_closed :: bool
  tun_closed :: bool
  wake_pending :: bool
  pc_of :: "server_thread \<Rightarrow> thread_pc"
  main_at :: main_pc

definition go_on :: "life \<Rightarrow> bool" where
  "go_on s \<longleftrightarrow> life_running s \<and> life_active s"

text \<open>
  The generation a thread notes before it works, and when its wait without a timeout ends. The control
  worker's \<open>poll\<close> ends as well for its timers and clients (\<open>timer_step\<close>); the device's reader never waits so.
\<close>

fun observed_generation_of :: "server_thread \<Rightarrow> life \<Rightarrow> nat" where
  "observed_generation_of EncryptThread s = tun_generation s"
| "observed_generation_of UdpWriteThread s = progress_generation s"
| "observed_generation_of DecryptThread s = udp_generation s"
| "observed_generation_of _ s = 0"

fun wait_ends :: "server_thread \<Rightarrow> nat \<Rightarrow> life \<Rightarrow> bool" where
  "wait_ends EncryptThread n s \<longleftrightarrow> tun_generation s \<noteq> n \<or> tun_closed s"
| "wait_ends UdpWriteThread n s \<longleftrightarrow> progress_generation s \<noteq> n"
| "wait_ends DecryptThread n s \<longleftrightarrow> udp_generation s \<noteq> n \<or> udp_closed s"
| "wait_ends ControlThread n s \<longleftrightarrow> wake_pending s"
| "wait_ends TunReadThread n s \<longleftrightarrow> False"

text \<open>The timeouts of the bounded waits.\<close>

definition milliseconds :: "nat \<Rightarrow> duration" where
  "milliseconds n = n * 1000000"

definition TUN_READ_POLL :: duration where "TUN_READ_POLL = milliseconds 100"

definition TUN_WRITE_POLL :: duration where "TUN_WRITE_POLL = milliseconds 100"

definition RELOAD_ACK_WAIT :: duration where "RELOAD_ACK_WAIT = seconds 2"

fun wait_limit :: "server_thread \<Rightarrow> duration" where
  "wait_limit EncryptThread = 0"
| "wait_limit UdpWriteThread = SESSION_PACKET_TTL"
| "wait_limit DecryptThread = TUN_WRITE_POLL"
| "wait_limit ControlThread = RELOAD_ACK_WAIT"
| "wait_limit TunReadThread = TUN_READ_POLL"

text \<open>
  The mutex of the sessions: the decrypting worker keeps it while it hands a packet to the device, all others
  give it back within one step, and the three workers that take it in every turn cannot go on without it.
\<close>

definition sessions_free :: "life \<Rightarrow> bool" where
  "sessions_free s \<longleftrightarrow> (\<forall>n. pc_of s DecryptThread \<notin> {AtTry n, AtPoll n, AtRest n})"

definition may_work :: "server_thread \<Rightarrow> life \<Rightarrow> bool" where
  "may_work th s \<longleftrightarrow> th \<in> {EncryptThread, UdpWriteThread, ControlThread} \<longrightarrow> sessions_free s"

text \<open>What working may do to the shared state.\<close>

definition effects :: "life \<Rightarrow> life \<Rightarrow> bool" where
  "effects s t \<longleftrightarrow>
     pc_of t = pc_of s \<and> main_at t = main_at s
     \<and> udp_generation s \<le> udp_generation t \<and> tun_generation s \<le> tun_generation t
     \<and> progress_generation s \<le> progress_generation t
     \<and> (udp_closed s \<longrightarrow> udp_closed t) \<and> (tun_closed s \<longrightarrow> tun_closed t) \<and> (wake_pending s \<longrightarrow> wake_pending t)
     \<and> (life_active t \<longrightarrow> life_active s) \<and> (life_running t \<longrightarrow> life_running s)"

definition set_pc :: "server_thread \<Rightarrow> thread_pc \<Rightarrow> life \<Rightarrow> life" where
  "set_pc th p s = s\<lparr>pc_of := (pc_of s)(th := p)\<rparr>"

text \<open>\<open>StopOnDrop\<close>: however a thread ends, the flag is cleared.\<close>

definition thread_end :: "server_thread \<Rightarrow> life \<Rightarrow> life" where
  "thread_end th s = (set_pc th Ended s)\<lparr>life_active := False\<rparr>"

text \<open>After its wait the control worker empties the wake-up socket.\<close>

definition wake_up :: "server_thread \<Rightarrow> life \<Rightarrow> life" where
  "wake_up th s =
     (if th = ControlThread then (set_pc th AtCheck s)\<lparr>wake_pending := False\<rparr> else set_pc th AtCheck s)"

definition join_order :: "server_thread list" where
  "join_order = [EncryptThread, UdpWriteThread, DecryptThread, ControlThread, TunReadThread]"

inductive life_step :: "life \<Rightarrow> life \<Rightarrow> bool" where
  check_go: "pc_of s th = AtCheck \<Longrightarrow> go_on s \<Longrightarrow> life_step s (set_pc th AtObserve s)"
| check_end: "pc_of s th = AtCheck \<Longrightarrow> \<not> go_on s \<Longrightarrow> life_step s (thread_end th s)"
| observe: "pc_of s th = AtObserve \<Longrightarrow> th \<noteq> TunReadThread \<Longrightarrow>
    life_step s (set_pc th (AtWork (observed_generation_of th s)) s)"
| polls_device: "pc_of s TunReadThread = AtObserve \<Longrightarrow> life_step s (set_pc TunReadThread (AtPoll 0) s)"
| work_again: "pc_of s th = AtWork n \<Longrightarrow> th \<in> {EncryptThread, UdpWriteThread, DecryptThread} \<Longrightarrow> may_work th s \<Longrightarrow>
    effects s t \<Longrightarrow> life_step s (set_pc th AtCheck t)"
| work_wait: "pc_of s th = AtWork n \<Longrightarrow> may_work th s \<Longrightarrow> effects s t \<Longrightarrow> (th = UdpWriteThread \<Longrightarrow> go_on t) \<Longrightarrow>
    life_step s (set_pc th (AtWait n) t)"
| work_poll: "pc_of s th = AtWork n \<Longrightarrow> th \<in> {UdpWriteThread, ControlThread} \<Longrightarrow> may_work th s \<Longrightarrow>
    effects s t \<Longrightarrow> life_step s (set_pc th (AtPoll n) t)"
| work_end: "pc_of s th = AtWork n \<Longrightarrow> may_work th s \<Longrightarrow> effects s t \<Longrightarrow> life_step s (thread_end th t)"
| write_starts: "pc_of s DecryptThread = AtWork n \<Longrightarrow> effects s t \<Longrightarrow> go_on t \<Longrightarrow>
    life_step s (set_pc DecryptThread (AtTry n) t)"
| write_again: "pc_of s DecryptThread \<in> {AtTry n, AtRest n} \<Longrightarrow> go_on s \<Longrightarrow>
    life_step s (set_pc DecryptThread (AtTry n) s)"
| write_done: "pc_of s DecryptThread = AtTry n \<Longrightarrow> effects s t \<Longrightarrow> life_step s (set_pc DecryptThread (AtWork n) t)"
| write_blocks: "pc_of s DecryptThread = AtTry n \<Longrightarrow> life_step s (set_pc DecryptThread (AtPoll n) s)"
| write_fails: "pc_of s DecryptThread = AtTry n \<Longrightarrow> life_step s (thread_end DecryptThread s)"
| rest_again: "pc_of s th = AtRest n \<Longrightarrow> th \<in> {UdpWriteThread, TunReadThread} \<Longrightarrow> effects s t \<Longrightarrow>
    life_step s (set_pc th AtCheck t)"
| rest_wait: "pc_of s ControlThread = AtRest n \<Longrightarrow> may_work ControlThread s \<Longrightarrow> effects s t \<Longrightarrow>
    life_step s (set_pc ControlThread (AtWait n) t)"
| rest_end: "pc_of s th = AtRest n \<Longrightarrow> th \<noteq> UdpWriteThread \<Longrightarrow> may_work th s \<Longrightarrow> effects s t \<Longrightarrow>
    life_step s (thread_end th t)"
| wake: "pc_of s th = AtWait n \<Longrightarrow> wait_ends th n s \<Longrightarrow> life_step s (wake_up th s)"
| receives: "main_at s = Receiving \<Longrightarrow> effects s t \<Longrightarrow> life_step s t"
| leaves: "main_at s = Receiving \<Longrightarrow> life_step s (s\<lparr>main_at := ClearActive\<rparr>)"
| clears: "main_at s = ClearActive \<Longrightarrow> life_step s (s\<lparr>life_active := False, main_at := NotifyProgress\<rparr>)"
| notifies_progress: "main_at s = NotifyProgress \<Longrightarrow>
    life_step s (s\<lparr>progress_generation := Suc (progress_generation s), main_at := NotifyControl\<rparr>)"
| notifies_control: "main_at s = NotifyControl \<Longrightarrow> life_step s (s\<lparr>wake_pending := True, main_at := CloseUdp\<rparr>)"
| closes_udp: "main_at s = CloseUdp \<Longrightarrow>
    life_step s (s\<lparr>udp_closed := True, udp_generation := Suc (udp_generation s), main_at := CloseTun\<rparr>)"
| closes_tun: "main_at s = CloseTun \<Longrightarrow>
    life_step s (s\<lparr>tun_closed := True, tun_generation := Suc (tun_generation s), main_at := Joining join_order\<rparr>)"
| joins: "main_at s = Joining (th # ths) \<Longrightarrow> pc_of s th = Ended \<Longrightarrow> life_step s (s\<lparr>main_at := Joining ths\<rparr>)"

definition life_start :: life where
  "life_start =
     \<lparr>life_running = True, life_active = True, udp_generation = 0, tun_generation = 0, progress_generation = 0,
      udp_closed = False, tun_closed = False, wake_pending = False, pc_of = (\<lambda>_. AtCheck), main_at = Receiving\<rparr>"

text \<open>A bounded wait ends: what it waits for has come, or its timeout is over.\<close>

definition poll_ends :: "server_thread \<Rightarrow> life \<Rightarrow> life \<Rightarrow> bool" where
  "poll_ends th s t \<longleftrightarrow> (\<exists>n. pc_of s th = AtPoll n \<and> t = set_pc th (AtRest n) s)"

text \<open>The control worker also wakes for its timers and its clients; nothing may depend on it.\<close>

definition timer_step :: "life \<Rightarrow> life \<Rightarrow> bool" where
  "timer_step s t \<longleftrightarrow> (\<exists>n. pc_of s ControlThread = AtWait n) \<and> t = wake_up ControlThread s"

definition life_run :: "life \<Rightarrow> life \<Rightarrow> bool" where
  "life_run s t \<longleftrightarrow> life_step s t \<or> timer_step s t \<or> (\<exists>th. poll_ends th s t)"

lemma life_step_run: "life_step s t \<Longrightarrow> life_run\<^sup>*\<^sup>* t u \<Longrightarrow> life_run\<^sup>*\<^sup>* s u"
  by (rule converse_rtranclp_into_rtranclp [of life_run]) (simp_all add: life_run_def)

text \<open>Runs with the time that was spent in bounded waits, each as long as its timeout at most.\<close>

inductive life_waited :: "life \<Rightarrow> duration \<Rightarrow> life \<Rightarrow> bool" for s where
  waited_none: "life_waited s 0 s"
| waited_not: "life_waited s w t \<Longrightarrow> life_step t u \<or> timer_step t u \<Longrightarrow> life_waited s w u"
| waited_poll: "life_waited s w t \<Longrightarrow> poll_ends th t u \<Longrightarrow> d \<le> wait_limit th \<Longrightarrow> life_waited s (w + d) u"

section \<open>The invariant\<close>

fun main_phase :: "main_pc \<Rightarrow> nat" where
  "main_phase Receiving = 0"
| "main_phase ClearActive = 1"
| "main_phase NotifyProgress = 2"
| "main_phase NotifyControl = 3"
| "main_phase CloseUdp = 4"
| "main_phase CloseTun = 5"
| "main_phase (Joining ths) = 6"

definition stopping :: "life \<Rightarrow> bool" where
  "stopping s \<longleftrightarrow> 2 \<le> main_phase (main_at s)"

definition join_len :: "main_pc \<Rightarrow> nat" where
  "join_len m = (case m of Joining ths \<Rightarrow> length ths | _ \<Rightarrow> 0)"

definition flags_inv :: "life \<Rightarrow> bool" where
  "flags_inv s \<longleftrightarrow> (stopping s \<longrightarrow> \<not> life_active s)
     \<and> (5 \<le> main_phase (main_at s) \<longrightarrow> udp_closed s) \<and> (6 \<le> main_phase (main_at s) \<longrightarrow> tun_closed s)
     \<and> join_len (main_at s) \<le> 5"

text \<open>A generation noted by the UDP writer is old once the main thread has notified.\<close>

fun progress_ok :: "thread_pc \<Rightarrow> nat \<Rightarrow> nat \<Rightarrow> bool" where
  "progress_ok (AtWork n) now phase \<longleftrightarrow> n \<le> now"
| "progress_ok (AtWait n) now phase \<longleftrightarrow> n \<le> now \<and> (3 \<le> phase \<longrightarrow> n < now)"
| "progress_ok _ now phase \<longleftrightarrow> True"

text \<open>The byte in the wake-up socket stays there while the control worker works.\<close>

fun control_ok :: "thread_pc \<Rightarrow> bool \<Rightarrow> nat \<Rightarrow> bool" where
  "control_ok AtCheck b phase \<longleftrightarrow> True"
| "control_ok Ended b phase \<longleftrightarrow> True"
| "control_ok _ b phase \<longleftrightarrow> (4 \<le> phase \<longrightarrow> b)"

text \<open>Which points a thread has.\<close>

fun pc_ok :: "server_thread \<Rightarrow> thread_pc \<Rightarrow> bool" where
  "pc_ok th (AtWork n) \<longleftrightarrow> th \<noteq> TunReadThread"
| "pc_ok th (AtTry n) \<longleftrightarrow> th = DecryptThread"
| "pc_ok th (AtPoll n) \<longleftrightarrow> th \<noteq> EncryptThread"
| "pc_ok th (AtRest n) \<longleftrightarrow> th \<noteq> EncryptThread"
| "pc_ok th (AtWait n) \<longleftrightarrow> th \<noteq> TunReadThread"
| "pc_ok th _ \<longleftrightarrow> True"

definition to_join :: "main_pc \<Rightarrow> server_thread set" where
  "to_join m = (case m of Joining ths \<Rightarrow> set ths | _ \<Rightarrow> UNIV)"

definition joined_inv :: "life \<Rightarrow> bool" where
  "joined_inv s \<longleftrightarrow> (\<forall>th. th \<notin> to_join (main_at s) \<longrightarrow> pc_of s th = Ended)"

definition life_inv :: "life \<Rightarrow> bool" where
  "life_inv s \<longleftrightarrow> flags_inv s \<and> joined_inv s \<and> (\<forall>th. pc_ok th (pc_of s th))
     \<and> progress_ok (pc_of s UdpWriteThread) (progress_generation s) (main_phase (main_at s))
     \<and> control_ok (pc_of s ControlThread) (wake_pending s) (main_phase (main_at s))"

lemmas life_inv_defs = life_inv_def flags_inv_def joined_inv_def stopping_def to_join_def

lemma life_start_inv: "life_inv life_start"
  by (simp add: life_inv_defs life_start_def join_len_def)

lemma set_pc_simps [simp]:
  "pc_of (set_pc th p s) = (pc_of s)(th := p)"
  "main_at (set_pc th p s) = main_at s" "life_active (set_pc th p s) = life_active s"
  "progress_generation (set_pc th p s) = progress_generation s" "wake_pending (set_pc th p s) = wake_pending s"
  "udp_closed (set_pc th p s) = udp_closed s" "tun_closed (set_pc th p s) = tun_closed s"
  "life_running (set_pc th p s) = life_running s"
  by (simp_all add: set_pc_def)

lemma all_threads: "th \<in> set join_order"
  by (cases th) (simp_all add: join_order_def)

lemma progress_ok_mono: "progress_ok p m phase \<Longrightarrow> m \<le> n \<Longrightarrow> progress_ok p n phase"
  by (cases p) auto

lemma progress_ok_later: "progress_ok p m phase \<Longrightarrow> phase < 3 \<Longrightarrow> progress_ok p (Suc m) phase'"
  by (cases p) auto

lemma progress_ok_phase: "progress_ok p m phase \<Longrightarrow> 3 \<le> phase \<or> phase' < 3 \<Longrightarrow> progress_ok p m phase'"
  by (cases p) auto

lemma control_ok_mono: "control_ok p b phase \<Longrightarrow> (b \<longrightarrow> b') \<Longrightarrow> control_ok p b' phase"
  by (cases p) auto

lemma control_ok_phase: "control_ok p b phase \<Longrightarrow> b' \<or> 4 \<le> phase \<and> (b \<longrightarrow> b') \<or> phase' < 4 \<Longrightarrow> control_ok p b' phase'"
  by (cases p) auto

lemma effects_inv:
  assumes "effects s t" "life_inv s"
  shows "life_inv t"
proof -
  have e: "pc_of t = pc_of s" "main_at t = main_at s" "progress_generation s \<le> progress_generation t"
    "udp_closed s \<longrightarrow> udp_closed t" "tun_closed s \<longrightarrow> tun_closed t" "wake_pending s \<longrightarrow> wake_pending t"
    "life_active t \<longrightarrow> life_active s"
    using assms(1) by (auto simp: effects_def)
  then show ?thesis
    using assms(2) progress_ok_mono control_ok_mono
    unfolding life_inv_def flags_inv_def joined_inv_def stopping_def e(1,2) by blast
qed

text \<open>Where a thread that has not ended may go.\<close>

lemma set_pc_inv:
  assumes "life_inv s" "pc_of s th \<noteq> Ended" "pc_ok th p"
    and "th = UdpWriteThread \<Longrightarrow> progress_ok p (progress_generation s) (main_phase (main_at s))"
    and "th = ControlThread \<Longrightarrow> control_ok p (wake_pending s) (main_phase (main_at s))"
  shows "life_inv (set_pc th p s)"
  using assms by (auto simp: life_inv_def flags_inv_def joined_inv_def stopping_def)

lemma clear_active_inv: "life_inv s \<Longrightarrow> life_inv (s\<lparr>life_active := False\<rparr>)"
  by (simp add: life_inv_def flags_inv_def joined_inv_def stopping_def)

lemma thread_end_inv: "life_inv s \<Longrightarrow> pc_of s th \<noteq> Ended \<Longrightarrow> life_inv (thread_end th s)"
  unfolding thread_end_def by (intro clear_active_inv set_pc_inv) auto

lemma wake_up_inv:
  assumes "life_inv s" "pc_of s th = AtWait n"
  shows "life_inv (wake_up th s)"
proof -
  have l: "life_inv (set_pc th AtCheck s)" using assms by (intro set_pc_inv) auto
  show ?thesis
  proof (cases "th = ControlThread")
    case True
    then show ?thesis using l by (simp add: wake_up_def life_inv_def flags_inv_def joined_inv_def stopping_def)
  next
    case False
    then show ?thesis using l by (simp add: wake_up_def)
  qed
qed

lemma go_on_not_stopping: "life_inv s \<Longrightarrow> go_on s \<Longrightarrow> main_phase (main_at s) < 2"
  by (simp add: life_inv_def flags_inv_def stopping_def go_on_def)

lemma control_ok_working:
  "life_inv s \<Longrightarrow> pc_of s ControlThread \<notin> {AtCheck, Ended} \<Longrightarrow> control_ok p (wake_pending s) (main_phase (main_at s))"
  unfolding life_inv_def by (cases "pc_of s ControlThread"; cases p) auto

lemma observe_inv:
  assumes "life_inv s" "pc_of s th = AtObserve" "th \<noteq> TunReadThread"
  shows "life_inv (set_pc th (AtWork (observed_generation_of th s)) s)"
  using assms control_ok_working [OF assms(1)] by (intro set_pc_inv) auto

lemma work_wait_inv:
  assumes "life_inv s" "pc_of s th = AtWork n" "th = UdpWriteThread \<Longrightarrow> go_on s"
  shows "life_inv (set_pc th (AtWait n) s)"
proof (intro set_pc_inv)
  assume th: "th = UdpWriteThread"
  have "main_phase (main_at s) < 2" using go_on_not_stopping [OF assms(1) assms(3) [OF th]] .
  moreover have "progress_ok (AtWork n) (progress_generation s) (main_phase (main_at s))"
    using assms(1,2) th unfolding life_inv_def by metis
  ultimately show "progress_ok (AtWait n) (progress_generation s) (main_phase (main_at s))" by simp
next
  assume "th = ControlThread"
  then show "control_ok (AtWait n) (wake_pending s) (main_phase (main_at s))"
    using assms(2) by (intro control_ok_working [OF assms(1)]) auto
next
  show "pc_ok th (AtWait n)" using assms(1,2) unfolding life_inv_def by (metis pc_ok.simps(1,5))
qed (use assms in auto)

text \<open>The steps inside a turn that end neither in a wait nor in a noted generation.\<close>

lemma effects_refl [simp]: "effects s s"
  by (simp add: effects_def)

lemma effects_pc: "effects s t \<Longrightarrow> pc_of t = pc_of s \<and> main_at t = main_at s"
  by (simp add: effects_def)

lemma inside_inv:
  assumes "life_inv s" "effects s t" "pc_of s th \<notin> {AtCheck, Ended}" "pc_ok th p"
    and "th = UdpWriteThread \<Longrightarrow> \<forall>n. p \<noteq> AtWork n \<and> p \<noteq> AtWait n"
  shows "life_inv (set_pc th p t)"
proof (intro set_pc_inv)
  have t: "life_inv t" "pc_of t = pc_of s" using effects_inv effects_pc assms(1,2) by auto
  show "progress_ok p (progress_generation t) (main_phase (main_at t))" if "th = UdpWriteThread"
    using assms(5) [OF that] by (cases p) auto
  show "control_ok p (wake_pending t) (main_phase (main_at t))" if "th = ControlThread"
    using control_ok_working [OF t(1)] assms(3) t(2) that by simp
  show "life_inv t" "pc_of t th \<noteq> Ended" using t assms(3) by auto
qed (use assms in auto)

text \<open>The steps of the main thread.\<close>

lemma main_step_inv:
  assumes "life_inv s"
    and "pc_of t = pc_of s"
    and "life_active t \<longrightarrow> life_active s \<and> main_phase (main_at t) < 2" "udp_closed t \<longleftrightarrow> udp_closed s \<or> 5 \<le> main_phase (main_at t)"
    and "tun_closed t \<longleftrightarrow> tun_closed s \<or> 6 \<le> main_phase (main_at t)" "to_join (main_at t) = UNIV"
    and "if main_phase (main_at s) = 2 then progress_generation t = Suc (progress_generation s)
         else progress_generation t = progress_generation s"
    and "wake_pending t \<longleftrightarrow> wake_pending s \<or> main_phase (main_at s) = 3"
    and "main_phase (main_at t) = Suc (main_phase (main_at s))" "join_len (main_at t) \<le> 5"
  shows "life_inv t"
proof -
  have p: "progress_ok (pc_of s UdpWriteThread) (progress_generation s) (main_phase (main_at s))"
    using assms(1) unfolding life_inv_def by blast
  have "progress_ok (pc_of t UdpWriteThread) (progress_generation t) (main_phase (main_at t))"
  proof (cases "main_phase (main_at s) = 2")
    case True
    then show ?thesis using assms(7) progress_ok_later [OF p] unfolding assms(2) by simp
  next
    case False
    then have "3 \<le> main_phase (main_at s) \<or> main_phase (main_at t) < 3" using assms(9) by linarith
    then show ?thesis using False assms(7) progress_ok_phase [OF p] unfolding assms(2) by simp
  qed
  moreover have "control_ok (pc_of t ControlThread) (wake_pending t) (main_phase (main_at t))"
  proof -
    have "control_ok (pc_of s ControlThread) (wake_pending s) (main_phase (main_at s))" using assms(1) by (simp add: life_inv_def)
    then show ?thesis unfolding assms(2) by (rule control_ok_phase) (use assms(8,9) in linarith)
  qed
  moreover have "flags_inv t" using assms(1,3,4,5,10) by (auto simp: life_inv_def flags_inv_def stopping_def)
  moreover have "\<forall>th. pc_ok th (pc_of t th)" using assms(1) unfolding life_inv_def assms(2) by blast
  ultimately show ?thesis using assms(6) by (simp add: life_inv_def joined_inv_def)
qed

lemma life_step_inv:
  assumes "life_step s t" "life_inv s"
  shows "life_inv t"
  using assms(1)
proof cases
  case (check_go th)
  then show ?thesis
    using go_on_not_stopping [OF assms(2)] assms(2) by (auto intro!: set_pc_inv)
next
  case (check_end th)
  then show ?thesis using thread_end_inv assms(2) by simp
next
  case (observe th)
  then show ?thesis using observe_inv assms(2) by simp
next
  case polls_device
  then show ?thesis using inside_inv [OF assms(2) effects_refl, of TunReadThread "AtPoll 0"] by simp
next
  case (work_again th n u)
  then show ?thesis using inside_inv [OF assms(2) work_again(5), of th AtCheck] by simp
next
  case (work_wait th n u)
  then show ?thesis
    using work_wait_inv [OF effects_inv [OF work_wait(4) assms(2)], of th n] effects_pc [OF work_wait(4)] by simp
next
  case (work_poll th n u)
  then show ?thesis using inside_inv [OF assms(2) work_poll(5), of th "AtPoll n"] by auto
next
  case (work_end th n u)
  then show ?thesis
    using thread_end_inv [OF effects_inv [OF work_end(4) assms(2)], of th] effects_pc [OF work_end(4)] by simp
next
  case (write_starts n u)
  then show ?thesis using inside_inv [OF assms(2) write_starts(3), of DecryptThread "AtTry n"] by simp
next
  case (write_again n)
  then show ?thesis using inside_inv [OF assms(2) effects_refl, of DecryptThread "AtTry n"] by auto
next
  case (write_done n u)
  then show ?thesis using inside_inv [OF assms(2) write_done(3), of DecryptThread "AtWork n"] by simp
next
  case (write_blocks n)
  then show ?thesis using inside_inv [OF assms(2) effects_refl, of DecryptThread "AtPoll n"] by simp
next
  case (write_fails n)
  then show ?thesis using thread_end_inv [OF assms(2), of DecryptThread] by simp
next
  case (rest_again th n u)
  then show ?thesis using inside_inv [OF assms(2) rest_again(4), of th AtCheck] by simp
next
  case (rest_wait n u)
  then show ?thesis using inside_inv [OF assms(2) rest_wait(4), of ControlThread "AtWait n"] by simp
next
  case (rest_end th n u)
  then show ?thesis
    using thread_end_inv [OF effects_inv [OF rest_end(5) assms(2)], of th] effects_pc [OF rest_end(5)] by simp
next
  case (wake th n)
  then show ?thesis using wake_up_inv assms(2) by blast
next
  case receives
  then show ?thesis using effects_inv assms(2) by blast
next
  case (joins th ths)
  then show ?thesis using assms(2) by (auto simp: life_inv_def flags_inv_def joined_inv_def stopping_def to_join_def join_len_def)
next
  case leaves
  show ?thesis
    by (rule main_step_inv [OF assms(2)])
      (use leaves assms(2) all_threads in \<open>auto simp: to_join_def join_len_def join_order_def life_inv_def flags_inv_def stopping_def\<close>)
next
  case clears
  show ?thesis
    by (rule main_step_inv [OF assms(2)])
      (use clears assms(2) all_threads in \<open>auto simp: to_join_def join_len_def join_order_def life_inv_def flags_inv_def stopping_def\<close>)
next
  case notifies_progress
  show ?thesis
    by (rule main_step_inv [OF assms(2)])
      (use notifies_progress assms(2) all_threads in \<open>auto simp: to_join_def join_len_def join_order_def life_inv_def flags_inv_def stopping_def\<close>)
next
  case notifies_control
  show ?thesis
    by (rule main_step_inv [OF assms(2)])
      (use notifies_control assms(2) all_threads in \<open>auto simp: to_join_def join_len_def join_order_def life_inv_def flags_inv_def stopping_def\<close>)
next
  case closes_udp
  show ?thesis
    by (rule main_step_inv [OF assms(2)])
      (use closes_udp assms(2) all_threads in \<open>auto simp: to_join_def join_len_def join_order_def life_inv_def flags_inv_def stopping_def\<close>)
next
  case closes_tun
  show ?thesis
    by (rule main_step_inv [OF assms(2)])
      (use closes_tun assms(2) all_threads in \<open>auto simp: to_join_def join_len_def join_order_def life_inv_def flags_inv_def stopping_def\<close>)
qed

lemma poll_ends_inv: "poll_ends th s t \<Longrightarrow> life_inv s \<Longrightarrow> life_inv t"
  unfolding poll_ends_def
proof (elim exE conjE)
  fix n assume p: "life_inv s" "pc_of s th = AtPoll n" "t = set_pc th (AtRest n) s"
  then have "pc_ok th (AtPoll n)" unfolding life_inv_def by metis
  then show "life_inv t" using inside_inv [OF p(1) effects_refl, of th "AtRest n"] p by simp
qed

lemma life_run_inv: "life_run s t \<Longrightarrow> life_inv s \<Longrightarrow> life_inv t"
  unfolding life_run_def timer_step_def using life_step_inv wake_up_inv poll_ends_inv by blast

interpretation living: step_invariant life_run life_inv
  by unfold_locales (rule life_run_inv)

section \<open>Stopping ends\<close>

text \<open>What each thread and the main thread still have to do once the flag is cleared.\<close>

fun thread_rank :: "thread_pc \<Rightarrow> nat" where
  "thread_rank AtObserve = 6"
| "thread_rank (AtTry n) = 6"
| "thread_rank (AtWork n) = 5"
| "thread_rank (AtPoll n) = 4"
| "thread_rank (AtRest n) = 3"
| "thread_rank (AtWait n) = 2"
| "thread_rank AtCheck = 1"
| "thread_rank Ended = 0"

fun main_rank :: "main_pc \<Rightarrow> nat" where
  "main_rank (Joining ths) = length ths"
| "main_rank m = 11 - main_phase m"

definition stop_rank :: "life \<Rightarrow> nat" where
  "stop_rank s = main_rank (main_at s) + (\<Sum>th \<leftarrow> join_order. thread_rank (pc_of s th))"

lemma stop_rank_set_pc:
  "thread_rank p < thread_rank (pc_of s th) \<Longrightarrow> stop_rank (set_pc th p s) < stop_rank s"
  by (cases th) (simp_all add: stop_rank_def join_order_def)

lemma stop_rank_cong: "pc_of t = pc_of s \<Longrightarrow> main_at t = main_at s \<Longrightarrow> stop_rank t = stop_rank s"
  by (simp add: stop_rank_def)

lemma stop_rank_main:
  "pc_of t = pc_of s \<Longrightarrow> main_rank (main_at t) < main_rank (main_at s) \<Longrightarrow> stop_rank t < stop_rank s"
  by (simp add: stop_rank_def)

lemma stop_rank_wake_up: "pc_of s th = AtWait n \<Longrightarrow> stop_rank (wake_up th s) < stop_rank s"
  using stop_rank_set_pc [of AtCheck s th] stop_rank_cong [of "wake_up th s" "set_pc th AtCheck s"]
  by (simp add: wake_up_def)

lemma stop_rank_end:
  assumes "pc_of s th \<noteq> Ended"
  shows "stop_rank (thread_end th s) < stop_rank s"
proof -
  have "stop_rank (thread_end th s) = stop_rank (set_pc th Ended s)"
    by (rule stop_rank_cong) (simp_all add: thread_end_def)
  moreover have "thread_rank Ended < thread_rank (pc_of s th)" using assms by (cases "pc_of s th") auto
  ultimately show ?thesis using stop_rank_set_pc by metis
qed

text \<open>
  What a step does while the server stops: the main thread comes closer to its end, or one thread
  goes to a lower point, also where working changes the shared state.
\<close>

definition goes_down :: "life \<Rightarrow> life \<Rightarrow> bool" where
  "goes_down s t \<longleftrightarrow>
     (pc_of t = pc_of s \<and> main_rank (main_at t) < main_rank (main_at s) \<and> main_phase (main_at s) \<le> main_phase (main_at t))
     \<or> (\<exists>th p. pc_of t = (pc_of s)(th := p) \<and> main_at t = main_at s \<and> thread_rank p < thread_rank (pc_of s th))"

lemma goes_down_rank: "goes_down s t \<Longrightarrow> stop_rank t < stop_rank s"
  unfolding goes_down_def
proof (elim disjE exE conjE)
  fix th p assume a: "pc_of t = (pc_of s)(th := p)" "main_at t = main_at s" "thread_rank p < thread_rank (pc_of s th)"
  have "stop_rank t = stop_rank (set_pc th p s)" using a(1,2) by (intro stop_rank_cong) simp_all
  then show "stop_rank t < stop_rank s" using stop_rank_set_pc [OF a(3)] by simp
qed (rule stop_rank_main)

lemma goes_down_stops: "goes_down s t \<Longrightarrow> stopping s \<Longrightarrow> stopping t"
  by (auto simp: goes_down_def stopping_def)

lemma goes_down_main:
  "pc_of t = pc_of s \<Longrightarrow> main_rank (main_at t) < main_rank (main_at s) \<Longrightarrow>
   main_phase (main_at s) \<le> main_phase (main_at t) \<Longrightarrow> goes_down s t"
  by (simp add: goes_down_def)

lemma goes_down_points: "goes_down s t \<Longrightarrow> thread_rank (pc_of t th) \<le> thread_rank (pc_of s th)"
  by (auto simp: goes_down_def)

lemma goes_down_set:
  "effects s u \<Longrightarrow> thread_rank p < thread_rank (pc_of s th) \<Longrightarrow> goes_down s (set_pc th p u)"
  unfolding goes_down_def effects_def by (intro disjI2 exI [of _ th] exI [of _ p]) simp

lemma goes_down_end: "effects s u \<Longrightarrow> pc_of s th \<noteq> Ended \<Longrightarrow> goes_down s (thread_end th u)"
  unfolding goes_down_def effects_def thread_end_def
  by (intro disjI2 exI [of _ th] exI [of _ Ended]) (cases "pc_of s th"; simp)

lemma goes_down_wake: "pc_of s th = AtWait n \<Longrightarrow> goes_down s (wake_up th s)"
  unfolding goes_down_def wake_up_def by (intro disjI2 exI [of _ th] exI [of _ AtCheck]) simp

lemma stopping_not_going: "life_inv s \<Longrightarrow> stopping s \<Longrightarrow> \<not> go_on s"
  using go_on_not_stopping by (fastforce simp: stopping_def)

lemma stopping_step_goes_down:
  assumes "life_step s t" "life_inv s" "stopping s"
  shows "goes_down s t"
  using assms(1)
proof cases
  case (check_go th)
  then show ?thesis using stopping_not_going [OF assms(2,3)] by simp
next
  case (write_starts n u)
  then have "life_inv u" "stopping u" using effects_inv assms(2,3) by (auto simp: effects_def stopping_def)
  then show ?thesis using stopping_not_going write_starts by blast
next
  case (write_again n)
  then show ?thesis using stopping_not_going [OF assms(2,3)] by simp
next
  case receives
  then show ?thesis using assms(3) by (simp add: stopping_def)
next
  case notifies_progress
  then show ?thesis by (intro goes_down_main) simp_all
next
  case notifies_control
  then show ?thesis by (intro goes_down_main) simp_all
next
  case closes_udp
  then show ?thesis by (intro goes_down_main) simp_all
next
  case closes_tun
  then show ?thesis by (intro goes_down_main) (simp_all add: join_order_def)
next
  case (joins th ths)
  then show ?thesis by (intro goes_down_main) simp_all
next
  case (wake th n)
  then show ?thesis by (simp add: goes_down_wake)
qed (use assms(3) in \<open>auto simp: stopping_def goes_down_set goes_down_end\<close>)

lemma stopping_goes_down:
  assumes "life_run s t" "life_inv s" "stopping s"
  shows "goes_down s t"
  using assms(1) unfolding life_run_def
proof (elim disjE exE)
  assume "timer_step s t"
  then show ?thesis by (auto simp: timer_step_def intro: goes_down_wake)
next
  fix th assume "poll_ends th s t"
  then show ?thesis by (auto simp: poll_ends_def goes_down_set)
qed (rule stopping_step_goes_down [OF _ assms(2,3)])

text \<open>Nothing blocks: a thread that is still there can move, or the main thread can.\<close>

lemma free_thread_moves:
  assumes "life_inv s" "main_at s = Joining ths" "pc_of s th \<noteq> Ended" "sessions_free s" "\<forall>n. pc_of s th \<noteq> AtPoll n"
  shows "\<exists>t. life_step s t"
proof -
  have free: "may_work th s" for th using assms(4) by (simp add: may_work_def)
  have ok: "pc_ok th (pc_of s th)" using assms(1) unfolding life_inv_def by blast
  show ?thesis
  proof (cases "pc_of s th")
    case AtCheck
    then show ?thesis using life_step.check_go life_step.check_end by blast
  next
    case AtObserve
    then show ?thesis using life_step.observe life_step.polls_device by (cases "th = TunReadThread") blast+
  next
    case (AtWork n)
    then show ?thesis using life_step.work_end [OF AtWork free effects_refl] by blast
  next
    case (AtTry n)
    then show ?thesis using ok assms(4) by (simp add: sessions_free_def)
  next
    case (AtRest n)
    then show ?thesis
      using life_step.rest_again [OF AtRest _ effects_refl] life_step.rest_end [OF AtRest _ free effects_refl]
      by (cases "th = UdpWriteThread") blast+
  next
    case (AtWait n)
    have "udp_closed s" "tun_closed s"
      "progress_ok (pc_of s UdpWriteThread) (progress_generation s) 6" "control_ok (pc_of s ControlThread) (wake_pending s) 6"
      using assms(1,2) by (simp_all add: life_inv_def flags_inv_def)
    then have "wait_ends th n s" using AtWait ok by (cases th) auto
    then show ?thesis using life_step.wake [OF AtWait] by blast
  qed (use assms in simp_all)
qed

lemma stopping_thread_moves:
  assumes "life_inv s" "main_at s = Joining ths" "pc_of s th \<noteq> Ended" "\<forall>th n. pc_of s th \<noteq> AtPoll n"
  shows "\<exists>t. life_step s t"
proof (cases "sessions_free s")
  case True
  then show ?thesis using free_thread_moves assms by blast
next
  case False
  then consider n where "pc_of s DecryptThread = AtTry n" | n where "pc_of s DecryptThread = AtRest n"
    using assms(4) unfolding sessions_free_def by blast
  then show ?thesis
  proof cases
    case (1 n)
    then show ?thesis using life_step.write_fails by blast
  next
    case (2 n)
    have "may_work DecryptThread s" by (simp add: may_work_def)
    then show ?thesis using life_step.rest_end [OF 2 _ _ effects_refl] by blast
  qed
qed

lemma stopping_never_blocks:
  assumes "life_inv s" "stopping s" "main_at s \<noteq> Joining []" "\<forall>th n. pc_of s th \<noteq> AtPoll n"
  shows "\<exists>t. life_step s t"
proof (cases "main_at s")
  case (Joining ths)
  then obtain th rest where ths: "ths = th # rest" using assms(3) by (cases ths) auto
  show ?thesis
  proof (cases "pc_of s th = Ended")
    case True
    then show ?thesis using life_step.joins Joining ths by blast
  next
    case False
    then show ?thesis using stopping_thread_moves [OF assms(1) Joining _ assms(4)] by blast
  qed
next
  case NotifyProgress
  then show ?thesis using life_step.notifies_progress by blast
next
  case NotifyControl
  then show ?thesis using life_step.notifies_control by blast
next
  case CloseUdp
  then show ?thesis using life_step.closes_udp by blast
next
  case CloseTun
  then show ?thesis using life_step.closes_tun by blast
qed (use assms(2) in \<open>simp_all add: stopping_def\<close>)

interpretation server_ending: ending_phase life_run "\<lambda>s. life_inv s \<and> stopping s" stop_rank
  by unfold_locales (use stopping_goes_down goes_down_rank goes_down_stops life_run_inv in blast)

lemma stopping_runs:
  "(life_run ^^ n) s t \<Longrightarrow> life_inv s \<Longrightarrow> stopping s \<Longrightarrow> stop_rank t + n \<le> stop_rank s \<and> life_inv t \<and> stopping t"
  using server_ending.phase_steps by blast

lemma stop_rank_bound:
  assumes "stopping s" "life_inv s"
  shows "stop_rank s \<le> 39"
proof -
  have "thread_rank p \<le> 6" for p by (cases p) auto
  then have "(\<Sum>th \<leftarrow> join_order. thread_rank (pc_of s th)) \<le> (\<Sum>th \<leftarrow> join_order. 6)" by (intro sum_list_mono)
  then have "(\<Sum>th \<leftarrow> join_order. thread_rank (pc_of s th)) \<le> 30" by (simp add: join_order_def)
  moreover have "main_rank (main_at s) \<le> 9"
    using assms by (cases "main_at s") (auto simp: stopping_def life_inv_def flags_inv_def join_len_def)
  ultimately show ?thesis by (simp add: stop_rank_def)
qed

text \<open>How long the threads may still wait: each one, once more at most.\<close>

definition waits_left :: "life \<Rightarrow> duration" where
  "waits_left s = (\<Sum>th \<leftarrow> join_order. if 4 \<le> thread_rank (pc_of s th) then wait_limit th else 0)"

lemma waits_left_mono: "goes_down s t \<Longrightarrow> waits_left t \<le> waits_left s"
  unfolding waits_left_def by (intro sum_list_mono) (use goes_down_points [of s t] le_trans in fastforce)

lemma waits_left_poll:
  assumes "poll_ends th s t"
  shows "waits_left t + wait_limit th \<le> waits_left s"
proof -
  obtain n where p: "pc_of s th = AtPoll n" "t = set_pc th (AtRest n) s" using assms by (auto simp: poll_ends_def)
  then show ?thesis by (cases th) (simp_all add: waits_left_def join_order_def)
qed

lemma waited_bound:
  "life_waited s w t \<Longrightarrow> life_inv s \<and> stopping s \<Longrightarrow> life_inv t \<and> stopping t \<and> w + waits_left t \<le> waits_left s"
proof (induction rule: life_waited.induct)
  case (waited_not w t u)
  then have run: "life_run t u" by (auto simp: life_run_def)
  then show ?case
    using waited_not stopping_goes_down [OF run] life_run_inv [OF run] goes_down_stops waits_left_mono
    by (meson add_le_mono le_refl le_trans)
next
  case (waited_poll w t th u d)
  then have run: "life_run t u" by (auto simp: life_run_def)
  then show ?case
    using waited_poll waits_left_poll [OF waited_poll(2)] stopping_goes_down [OF run] life_run_inv [OF run] goes_down_stops
    by fastforce
qed simp

lemma waits_left_bound: "waits_left s \<le> milliseconds 4200"
proof -
  have "waits_left s \<le> (\<Sum>th \<leftarrow> join_order. wait_limit th)" unfolding waits_left_def by (intro sum_list_mono) simp
  then show ?thesis by (simp add: join_order_def milliseconds_def seconds_def SESSION_PACKET_TTL_def TUN_READ_POLL_def
        TUN_WRITE_POLL_def RELOAD_ACK_WAIT_def)
qed

lemma only_ended_when_joined: "life_inv s \<Longrightarrow> main_at s = Joining [] \<Longrightarrow> pc_of s th = Ended"
  by (simp add: life_inv_def joined_inv_def to_join_def)

section \<open>Properties\<close>



end
