(* ===== verification/Vpn_Session_Bounds.thy ===== *)
theory Vpn_Session_Bounds
  imports Vpn_Server
begin

text \<open>
  What a session may hold, in every interleaving of the server's workers: its queue of plain packets
  and its list of datagrams that wait for wolfSSL never exceed their capacities, and its counters are
  values of 64 bits. The model keeps counters as natural numbers and the list as a list, so this is
  the type the source gives them, stated as an invariant of the operations that change them. The
  encrypted queue lies in wolfSSL's callback context; \<open>Vpn_Session_Queues\<close> bounds it under the
  contract with wolfSSL.
\<close>

section \<open>One session\<close>

definition session_typed :: "'w session \<Rightarrow> bool" where
  "session_typed s \<longleftrightarrow>
     queue_inv (raw_tx_queue s) \<and> capacity (raw_tx_queue s) = SESSION_TX_QUEUE_CAPACITY
     \<and> length (pending_inject s) \<le> SESSION_TX_QUEUE_CAPACITY
     \<and> bytes_tx s \<le> u64_max \<and> packets_tx s \<le> u64_max \<and> bytes_rx s \<le> u64_max \<and> packets_rx s \<le> u64_max"

lemma session_typed_fields [simp]:
  "session_typed (s\<lparr>conn := d\<rparr>) = session_typed s"
  "session_typed (s\<lparr>last_activity := t\<rparr>) = session_typed s"
  "session_typed (s\<lparr>dtls_deadline := dl\<rparr>) = session_typed s"
  "session_typed (s\<lparr>drain_pending := b\<rparr>) = session_typed s"
  "session_typed (s\<lparr>login_attempted := b\<rparr>) = session_typed s"
  "session_typed (s\<lparr>authenticated := b\<rparr>) = session_typed s"
  "session_typed (s\<lparr>disconnect_reason := r\<rparr>) = session_typed s"
  "session_typed (s\<lparr>address := a\<rparr>) = session_typed s"
  "session_typed (s\<lparr>fingerprint := f\<rparr>) = session_typed s"
  "session_typed (s\<lparr>established := b\<rparr>) = session_typed s"
  "session_typed (s\<lparr>established_at := st\<rparr>) = session_typed s"
  by (simp_all add: session_typed_def)

lemma saturating_add_bound [simp]: "saturating_add a b \<le> u64_max"
  by (simp add: saturating_add_def)

lemma session_typed_new: "session_typed (session_new d peer now)"
  by (simp add: session_typed_def session_new_def empty_queue_def SESSION_TX_QUEUE_CAPACITY_def queue_inv_def)

lemma queue_session_plain_typed [simp]:
  "session_typed s \<Longrightarrow> session_typed (queue_session_plain now packet s)"
  by (simp add: session_typed_def queue_session_plain_def push_inv)

lemma set_enc_tx_queue_typed [simp]: "session_typed (set_enc_tx_queue q s) = session_typed s"
  by (simp add: set_enc_tx_queue_def)

lemma send_tunnel_packet_typed [simp]:
  "session_typed s \<Longrightarrow> session_typed (snd (send_tunnel_packet W now s packet))"
  by (auto simp: send_tunnel_packet_def Let_def session_typed_def
      split: prod.splits sum.splits dtls_io_result.splits)

lemma drain_raw_queue_typed:
  assumes "queue_inv q" "session_typed s" "drain_raw_queue (send_tunnel_packet W now) now q s = (r, q', s')"
  shows "queue_inv q' \<and> capacity q' = capacity q \<and> session_typed s'"
  using assms
proof (induction "length (items q)" arbitrary: q s rule: less_induct)
  case less
  note eq = less.prems(3) [unfolded drain_raw_queue.simps [of _ _ q]]
  show ?case
  proof (cases rule: try_peek_cases [of q])
    case (nothing e)
    then show ?thesis using eq less.prems(1,2) by auto
  next
    case (item x xs)
    let ?q = "q\<lparr>items := xs\<rparr>"
    obtain packet queued_at where x: "x = (packet, queued_at)" by (cases x)
    have inv: "queue_inv ?q" using less.prems(1) item(1) by (auto simp: queue_inv_def)
    obtain res s2 where w: "send_tunnel_packet W now s packet = (res, s2)" by (metis surj_pair)
    have s2: "session_typed s2" using send_tunnel_packet_typed [OF less.prems(2), of W now packet] w by simp
    have short: "length (items ?q) < length (items q)" using item(1) by simp
    note IH = less.hyps [OF short inv]
    show ?thesis
    proof (cases "SESSION_PACKET_TTL \<le> now - queued_at")
      case True
      then show ?thesis using IH [OF less.prems(2)] eq item x by simp
    next
      case False
      show ?thesis
      proof (cases "res = Retry")
        case True
        then have "q' = front_drop x ?q" "s' = s2" using eq item x False w by auto
        then show ?thesis using s2 front_drop_inv [OF inv] by (simp add: front_drop_def Let_def)
      next
        case False
        then show ?thesis using IH [OF s2] eq item x \<open>\<not> SESSION_PACKET_TTL \<le> now - queued_at\<close> w by (cases res) auto
      qed
    qed
  qed
qed

lemma drain_session_plain_typed [simp]:
  assumes "session_typed s"
  shows "session_typed (snd (drain_session_plain W now s))"
proof -
  obtain r q' s' where d: "drain_raw_queue (send_tunnel_packet W now) now (raw_tx_queue s) s = (r, q', s')"
    by (metis prod_cases3)
  have "queue_inv q' \<and> capacity q' = capacity (raw_tx_queue s) \<and> session_typed s'"
    using assms by (intro drain_raw_queue_typed [OF _ assms d]) (simp add: session_typed_def)
  then show ?thesis using d assms by (simp add: drain_session_plain_def session_typed_def)
qed

lemma handle_login_typed: "session_typed s \<Longrightarrow> session_typed (handle_login logins now packet s)"
  by (simp add: handle_login_def Let_def)

lemma inject_front_typed: "session_typed s \<Longrightarrow> session_typed (inject_front W s)"
  by (auto simp: inject_front_def session_typed_def split: list.splits prod.splits sum.splits bool.splits)

lemma handle_packet_typed:
  assumes "handle_packet c now tun packet s = (s', written, e)" "session_typed s"
  shows "session_typed s'"
proof (cases "ipv4_packet_addresses packet")
  case None
  then show ?thesis using assms by (simp add: handle_packet_def)
next
  case (Some a)
  then obtain source destination where "ipv4_packet_addresses packet = Some (source, destination)" by (cases a) auto
  then show ?thesis
    using assms by (auto simp: handle_packet_def Let_def session_typed_def split: if_splits sum.splits)
qed

lemma read_session_typed:
  assumes "read_session W c logins now tun s = (s', written, e)" "session_typed s"
  shows "session_typed s'"
proof (cases "\<not> drain_pending s \<and> pending_inject s = []")
  case True
  then show ?thesis using assms by (simp add: read_session_def)
next
  case go: False
  obtain r d where rd: "read_status W READ_BUFFER (conn s) = (r, d)" by (metis surj_pair)
  let ?s = "s\<lparr>conn := d, drain_pending := True\<rparr>"
  have base: "session_typed (s\<lparr>conn := d, drain_pending := b\<rparr>)" for b using assms(2) by simp
  show ?thesis
  proof (cases "\<exists>n packet. r = Inr (Complete n, packet) \<and> 0 < n")
    case False
    then have "\<exists>b. s' = inject_front W (s\<lparr>conn := d, drain_pending := b\<rparr>)"
      using assms(1) go rd by (auto simp: read_session_def split: sum.splits prod.splits dtls_io_result.splits)
    then show ?thesis using inject_front_typed [OF base] by auto
  next
    case True
    then obtain n packet where r: "r = Inr (Complete n, packet)" "0 < n" by blast
    obtain s3 w3 e3 where h: "handle_packet c now tun packet ?s = (s3, w3, e3)" by (metis prod_cases3)
    have "s' \<in> {?s, handle_login logins now packet ?s,
        queue_session_plain now KEEPALIVE_PACKET (?s\<lparr>last_activity := now\<rparr>), s3, inject_front W s3}"
      using assms(1) go rd r h by (auto simp: read_session_def Let_def split: if_splits option.splits)
    then show ?thesis
      using base handle_login_typed [OF base] handle_packet_typed [OF h base] inject_front_typed by auto
  qed
qed

lemma inject_datagram_typed: "session_typed s \<Longrightarrow> session_typed (snd (inject_datagram W packet s))"
  by (auto simp: inject_datagram_def session_typed_def SESSION_TX_QUEUE_CAPACITY_def
      split: prod.splits sum.splits bool.splits)

lemma establish_typed: "session_typed s \<Longrightarrow> session_typed (establish W logins now a f s)"
  by (simp add: establish_def Let_def)

section \<open>The list\<close>

definition sessions_typed :: "'w session list \<Rightarrow> bool" where
  "sessions_typed xs \<longleftrightarrow> (\<forall>s \<in> set xs. session_typed s)"

text \<open>Operations that keep the types: they remove sessions or work inside them.\<close>

locale typed_operation =
  fixes operation :: "'w session list \<Rightarrow> 'w session list"
  assumes keeps_types: "sessions_typed xs \<Longrightarrow> sessions_typed (operation xs)"
begin

lemma iterate_keeps_types: "sessions_typed xs \<Longrightarrow> sessions_typed ((operation ^^ n) xs)"
  by (induction n) (simp_all add: keeps_types)

end

lemma sessions_typed_simps [simp]:
  "sessions_typed []"
  "sessions_typed (s # xs) \<longleftrightarrow> session_typed s \<and> sessions_typed xs"
  "sessions_typed (xs @ ys) \<longleftrightarrow> sessions_typed xs \<and> sessions_typed ys"
  by (auto simp: sessions_typed_def)

lemma sessions_typed_subset: "set ys \<subseteq> set xs \<Longrightarrow> sessions_typed xs \<Longrightarrow> sessions_typed ys"
  by (auto simp: sessions_typed_def)

lemma sessions_typed_filter [simp]: "sessions_typed xs \<Longrightarrow> sessions_typed (filter P xs)"
  by (simp add: sessions_typed_def)

lemma sessions_typed_swap_remove [simp]: "sessions_typed xs \<Longrightarrow> sessions_typed (swap_remove i xs)"
  using set_swap_remove_subset [of i xs] by (rule sessions_typed_subset)

lemma sessions_typed_map: "sessions_typed xs \<Longrightarrow> (\<And>s. session_typed s \<Longrightarrow> session_typed (f s)) \<Longrightarrow> sessions_typed (map f xs)"
  by (simp add: sessions_typed_def)

lemma sessions_typed_update: "sessions_typed xs \<Longrightarrow> session_typed s \<Longrightarrow> sessions_typed (xs[i := s])"
  using set_update_subset_insert [of xs i s] by (auto simp: sessions_typed_def)

lemma sessions_typed_nth: "sessions_typed xs \<Longrightarrow> i < length xs \<Longrightarrow> session_typed (xs ! i)"
  by (simp add: sessions_typed_def)

lemma read_sessions_typed:
  "read_sessions W c logins now tun xs = (ys, written, e) \<Longrightarrow> sessions_typed xs \<Longrightarrow> sessions_typed ys"
proof (induction xs arbitrary: ys written e)
  case Nil
  then show ?case by simp
next
  case (Cons s xs)
  obtain s' w e' where r: "read_session W c logins now tun s = (s', w, e')" by (metis prod_cases3)
  obtain zs w2 e2 where rs: "read_sessions W c logins now tun xs = (zs, w2, e2)" by (metis prod_cases3)
  have "session_typed s'" using read_session_typed [OF r] Cons.prems(2) by simp
  then show ?case
    using Cons.prems Cons.IH [OF rs] r rs by (auto split: if_splits option.splits)
qed

interpretation dedupe_types: typed_operation dedupe_sessions
proof unfold_locales
  fix xs :: "'a session list" assume "sessions_typed xs"
  moreover have "set (retain_unseen seen ys) \<subseteq> set ys" for seen and ys :: "'a session list"
    using set_mset_mono [OF retain_unseen_subset [of seen ys]] by simp
  ultimately show "sessions_typed (dedupe_sessions xs)"
    using sessions_typed_subset [of "dedupe_sessions xs" xs] by (fastforce simp: dedupe_sessions_def)
qed

interpretation flush_types: typed_operation "flush_pending W now" for W now
  by unfold_locales (auto simp: flush_pending_def intro: sessions_typed_map)

interpretation route_types: typed_operation "route_packet W rt now packet" for W rt now packet
proof unfold_locales
  fix xs :: "'a session list" assume xs: "sessions_typed xs"
  have all: "sessions_typed (flush_pending W now (map (\<lambda>s. if authenticated s then queue_session_plain now packet s else s) xs))"
    by (rule flush_types.keeps_types, rule sessions_typed_map [OF xs]) simp
  have one: "sessions_typed (xs[i := snd (drain_session_plain W now (queue_session_plain now packet (xs ! i)))])"
    if "unicast_target d xs = Some i" for i d
    using unicast_target_Some [OF that] sessions_typed_nth [OF xs] by (intro sessions_typed_update xs) simp
  show "sessions_typed (route_packet W rt now packet xs)"
    using all xs by (auto simp: route_packet_def Let_def intro: one split: option.splits)
qed

lemma swap_remove_all_typed: "sessions_typed xs \<Longrightarrow> sessions_typed (swap_remove_all js xs)"
  by (induction js arbitrary: xs) simp_all

lemma send_sessions_typed:
  "sessions_typed xs \<Longrightarrow> sessions_typed (map snd (fst (send_sessions send now st xs)))"
proof (induction xs arbitrary: st)
  case (Cons s xs)
  obtain r q' st1 where d: "drain_encrypted_queue (\<lambda>st packet. send st (peer_addr s) packet) now (enc_tx_queue s) st = (r, q', st1)"
    by (metis prod_cases3)
  obtain rs st2 where rs: "send_sessions send now st1 xs = (rs, st2)" by (metis surj_pair)
  have "sessions_typed (map snd rs)" using Cons.IH [of st1] Cons.prems rs by simp
  then show ?case using Cons.prems d rs by (simp add: send_session_def Let_def)
qed simp

interpretation udp_write_types: typed_operation "\<lambda>xs. fst (udp_write_pass send now st xs)" for send now st
proof unfold_locales
  fix xs :: "'a session list" assume xs: "sessions_typed xs"
  obtain rs st' where rs: "send_sessions send now st xs = (rs, st')" by (metis surj_pair)
  show "sessions_typed (fst (udp_write_pass send now st xs))"
    using swap_remove_all_typed [OF send_sessions_typed [OF xs, of send now st], of "rev (failed_indices rs)"] rs
    by (simp add: udp_write_pass_def)
qed

lemma retransmit_typed: "sessions_typed xs \<Longrightarrow> sessions_typed (retransmit W now i xs)"
proof (induction W now i xs rule: retransmit.induct)
  case (1 W now i xs)
  show ?case
  proof (cases "i < length xs")
    case False
    then show ?thesis using 1(4) by (simp add: retransmit.simps [of _ _ i])
  next
    case True
    note t = sessions_typed_nth [OF 1(4) True]
    obtain r d where h: "handle_timeout W (conn (xs ! i)) = (r, d)" by (metis surj_pair)
    have up: "sessions_typed (xs[i := (xs ! i)\<lparr>conn := d, dtls_deadline := dl\<rparr>])" for dl
      by (rule sessions_typed_update [OF 1(4)]) (simp add: t)
    show ?thesis
      using 1 True h up by (subst retransmit.simps) (auto simp: Let_def split: sum.splits)
  qed
qed

interpretation retransmit_types: typed_operation "retransmit W now 0" for W now
  by unfold_locales (rule retransmit_typed)

lemma handle_command_subset: "set (snd (handle_command now command xs)) \<subseteq> set xs"
  by (auto simp: handle_command_def disconnect_sessions_def Let_def split: option.splits)

lemma process_commands_subset: "process_commands now ps xs = Some (rs, kept, zs) \<Longrightarrow> set zs \<subseteq> set xs"
proof (induction ps arbitrary: xs rs kept zs)
  case (Cons entry ps)
  obtain p script where e: "entry = (p, script)" by (cases entry)
  show ?case
  proof (cases "seconds 3 \<le> now - command_at p")
    case True
    then show ?thesis using Cons e by simp
  next
    case False
    obtain complete bytes where r: "read_command script (command_bytes p) = Some (complete, bytes)"
      using Cons.prems e False by (auto split: option.splits)
    obtain reply ys where h: "handle_command now (trim bytes) xs = (reply, ys)" by (metis surj_pair)
    have sub: "set (if complete then ys else xs) \<subseteq> set xs"
      using handle_command_subset [of now "trim bytes" xs] h by simp
    obtain rs' kept' where "process_commands now ps (if complete then ys else xs) = Some (rs', kept', zs)"
      using Cons.prems e False r h by (cases complete) auto
    from Cons.IH [OF this] sub show ?thesis by (rule subset_trans)
  qed
qed simp

lemma control_section_typed:
  assumes "control_section W c now commands xs = Some (replies, kept, zs)" "sessions_typed xs"
  shows "sessions_typed zs"
proof -
  obtain ys where "process_commands now commands xs = Some (replies, kept, ys)"
    and zs: "zs = expire_sessions (max_session_lifetime c) now (retransmit W now 0 ys)"
    using assms by (auto simp: control_section_def)
  then have "sessions_typed ys" using sessions_typed_subset [OF process_commands_subset assms(2)] by blast
  then show ?thesis unfolding zs by (simp add: expire_sessions_def retransmit_typed)
qed

interpretation reload_types: typed_operation "\<lambda>xs. snd (snd (reload_step fs path c now created ctl xs))"
  for fs path c now created ctl
  by unfold_locales (auto simp: reload_step_def Let_def split: sum.splits prod.splits)

section \<open>Datagrams\<close>

lemma finish_handshake_typed:
  assumes "sessions_typed (session_list st)" "i < length (session_list st)"
  shows "sessions_typed (session_list (finish_handshake W c now n i st))"
proof -
  note s = sessions_typed_nth [OF assms]
  have "sessions_typed ((session_list st)[i := establish W (logins_now st) now a f (session_list st ! i)])" for a f
    by (rule sessions_typed_update [OF assms(1) establish_typed [OF s]])
  moreover have "sessions_typed (remove_duplicates a peer j xs)" if "sessions_typed xs" for a peer j and xs :: "'a session list"
    using set_remove_duplicates that by (rule sessions_typed_subset)
  ultimately show ?thesis using assms(1) by (auto simp: finish_handshake_def Let_def split: option.splits)
qed

lemma process_session_typed:
  assumes "sessions_typed (session_list st)" "i < length (session_list st)"
  shows "sessions_typed (session_list (process_session W c now i st))"
proof -
  obtain r d where h: "handshake W (conn (session_list st ! i)) = (r, d)" by (metis surj_pair)
  note s = sessions_typed_nth [OF assms]
  have up: "sessions_typed ((session_list st)[i := (session_list st ! i)\<lparr>conn := d\<rparr>])"
    "sessions_typed ((session_list st)[i := (session_list st ! i)\<lparr>conn := d, dtls_deadline := dl\<rparr>])" for dl
    using s by (intro sessions_typed_update assms(1); simp)+
  have "sessions_typed (session_list (step_handshake W c now n i st))" for n
    using up h assms finish_handshake_typed [of "st\<lparr>session_list := (session_list st)[i := (session_list st ! i)\<lparr>conn := d\<rparr>]\<rparr>"]
    by (auto simp: step_handshake_def Let_def split: sum.splits bool.splits)
  then show ?thesis using assms(1) by (simp add: process_session_def)
qed

lemma admit_peer_outcomes:
  assumes "admit_peer W c now peer packet created st = (e, b, st')"
  shows "(\<exists>ip l a. admit_counted c now ip peer created (st\<lparr>limiter := l, acceptor := a\<rparr>) = (e, b, st'))
    \<or> \<not> b \<and> set (session_list st') \<subseteq> set (session_list st)"
  using assms
  by (auto simp: admit_peer_def drop_pending_of_def renew_acceptor_def
      split: option.splits prod.splits bool.splits sum.splits rate_limit_decision.splits)

lemma admit_peer_typed:
  assumes "admit_peer W c now peer packet created st = (e, b, st')" "sessions_typed (session_list st)"
  shows "sessions_typed (session_list st') \<and> (b \<longrightarrow> session_list st' \<noteq> [])"
proof -
  have app: "sessions_typed (session_list u') \<and> (b' \<longrightarrow> session_list u' \<noteq> [])"
    if "append_session now peer created u = (e', b', u')" "sessions_typed (session_list u)" for u u' :: "'a decrypt_state" and e' b'
    using that session_typed_new by (auto simp: append_session_def split: sum.splits prod.splits)
  have evict: "sessions_typed (evict_oldest h xs)" if "sessions_typed xs" for h and xs :: "'a session list"
    using that by (auto simp: evict_oldest_def split: option.splits)
  have count: "sessions_typed (session_list u') \<and> (b' \<longrightarrow> session_list u' \<noteq> [])"
    if "admit_counted c now ip peer created u = (e', b', u')" "sessions_typed (session_list u)" for ip u u' e' b'
    using that evict app [of "u\<lparr>session_list := evict_oldest (max_pending_handshakes c) (session_list u)\<rparr>"]
    by (auto simp: admit_counted_def Let_def split: if_splits)
  have "(\<exists>ip l a. admit_counted c now ip peer created (st\<lparr>limiter := l, acceptor := a\<rparr>) = (e, b, st'))
      \<or> \<not> b \<and> set (session_list st') \<subseteq> set (session_list st)"
    by (rule admit_peer_outcomes [OF assms(1)])
  then show ?thesis
  proof
    assume "\<exists>ip l a. admit_counted c now ip peer created (st\<lparr>limiter := l, acceptor := a\<rparr>) = (e, b, st')"
    then show ?thesis using count assms(2) by fastforce
  next
    assume "\<not> b \<and> set (session_list st') \<subseteq> set (session_list st)"
    then show ?thesis using sessions_typed_subset assms(2) by blast
  qed
qed

lemma handle_datagram_typed:
  assumes "handle_datagram W c now peer packet created st = (e, st')" "sessions_typed (session_list st)"
  shows "sessions_typed (session_list st')"
proof (cases "position (\<lambda>s. same_peer (peer_addr s) peer) (session_list st)")
  case None
  obtain e' b u where a: "admit_peer W c now peer packet created st = (e', b, u)" by (metis prod_cases3)
  note u = admit_peer_typed [OF a assms(2)]
  show ?thesis
  proof (cases "e' = None \<and> b")
    case True
    then have "st' = process_session W c now (length (session_list u) - 1) u"
      using assms(1) None a by (simp add: handle_datagram_def)
    then show ?thesis using u True by (simp add: process_session_typed)
  next
    case False
    then have "st' = u" using assms(1) None a by (cases e'; cases b) (simp_all add: handle_datagram_def)
    then show ?thesis using u by simp
  qed
next
  case (Some i)
  then have i: "i < length (session_list st)" using position_Some by fastforce
  obtain go_on s' where j: "inject_datagram W packet (session_list st ! i) = (go_on, s')" by (metis surj_pair)
  have "session_typed s'"
    using inject_datagram_typed [OF sessions_typed_nth [OF assms(2) i], of W packet] j by simp
  then have "sessions_typed ((session_list st)[i := s'])" by (rule sessions_typed_update [OF assms(2)])
  then show ?thesis
    using assms(1) Some j i process_session_typed [of "st\<lparr>session_list := (session_list st)[i := s']\<rparr>" i W c now]
    by (auto simp: handle_datagram_def Let_def split: if_splits)
qed

section \<open>The running server\<close>

lemma server_step_typed:
  assumes "server_step W send c path contents s t" "sessions_typed (sessions_of s)"
  shows "sessions_typed (sessions_of t)"
  using assms(1)
proof cases
  case (read_established now tun xs written e)
  then show ?thesis using read_sessions_typed assms(2) by auto
next
  case (purge_limiter now)
  then show ?thesis using assms(2) by (simp add: sessions_of_def)
next
  case (receive_update u us)
  then show ?thesis using assms(2) by (simp add: sessions_of_def apply_updates_sessions)
next
  case (datagram now peer packet created e st)
  then show ?thesis using handle_datagram_typed assms(2) by (auto simp: sessions_of_def)
next
  case (control_work now commands replies kept xs)
  then show ?thesis using control_section_typed assms(2) by auto
next
  case (control_reload fs now created update ctl xs)
  then show ?thesis
    using reload_types.keeps_types [OF assms(2), of fs path c now created "controlling s"] by simp
qed (simp_all add: assms(2) dedupe_types.keeps_types route_types.keeps_types flush_types.keeps_types
    udp_write_types.keeps_types)

interpretation typed_server: step_invariant "server_step W send c path contents" "\<lambda>s. sessions_typed (sessions_of s)"
  for W send c path contents
  by unfold_locales (rule server_step_typed)

section \<open>Bounds\<close>

text \<open>
  In every interleaving of the server's workers, whatever peers send and however slowly the
  network takes packets, each session keeps to its types: its queue of plain packets holds at most
  512 (and none once it is closed), at most 512 datagrams wait for wolfSSL, and the four counters
  reported by the control socket stay values of 64 bits, saturating instead of wrapping.
\<close>

lemma session_counters_bounded:
  assumes "(server_step W send c path contents)\<^sup>*\<^sup>* (server_start c a now) s" "t \<in> set (sessions_of s)"
  shows "length (items (raw_tx_queue t)) \<le> 512 \<and> (closed (raw_tx_queue t) \<longrightarrow> items (raw_tx_queue t) = [])
    \<and> length (pending_inject t) \<le> 512
    \<and> bytes_tx t < 2 ^ 64 \<and> bytes_rx t < 2 ^ 64 \<and> packets_tx t < 2 ^ 64 \<and> packets_rx t < 2 ^ 64"
proof -
  have "sessions_typed (sessions_of (server_start c a now))" by (simp add: server_start_def sessions_of_def)
  then have "session_typed t"
    using typed_server.steps_preserve [OF assms(1)] assms(2) by (auto simp: sessions_typed_def)
  moreover have "u64_max < 2 ^ 64" by (simp add: u64_max_def)
  ultimately show ?thesis
    by (auto simp: session_typed_def queue_inv_def SESSION_TX_QUEUE_CAPACITY_def intro: le_less_trans)
qed

end
