(* ===== verification/Vpn_Callbacks.thy ===== *)
theory Vpn_Callbacks
  imports Vpn_Dtls
begin

text \<open>
  What wolfSSL may do with the callback context (\<open>DtlsIo\<close> of \<open>src/src/lib.rs\<close>): it has a pointer to it
  and passes it to \<open>dtls_recv\<close> and \<open>dtls_send\<close>, as often as it likes and with whatever it likes, and it
  reports that it wants to write only after the sending callback answered so (\<open>-2\<close>). The contract is
  a hypothesis on the parameter \<open>wolfssl\<close>; with it, what the callbacks keep is kept by every method.
\<close>

section \<open>The contract\<close>

text \<open>Any sequence of callbacks, with the answers of the sending one.\<close>

inductive callback_run :: "int list \<Rightarrow> dtls_io \<Rightarrow> dtls_io \<Rightarrow> bool" where
  no_callback: "callback_run [] io io"
| receive_callback:
    "callback_run answers io io1 \<Longrightarrow> dtls_recv from_socket room io1 = (r, bytes, io2) \<Longrightarrow>
     callback_run answers io io2"
| send_callback:
    "callback_run answers io io1 \<Longrightarrow> dtls_send now socket_result bytes io1 = (r, io2) \<Longrightarrow>
     callback_run (answers @ [r]) io io2"

definition CBIO_WANT_WRITE :: int where "CBIO_WANT_WRITE = - 2"

definition call_ok :: "'w wolfssl \<Rightarrow> dtls_io option \<Rightarrow> int \<times> 'w option \<times> dtls_io option \<Rightarrow> bool" where
  "call_ok W io result =
     (case result of (r, w, io') \<Rightarrow>
        (case io of
           None \<Rightarrow> io' = None
         | Some start \<Rightarrow>
             (\<exists>answers later. io' = Some later \<and> callback_run answers start later
                \<and> (r \<le> 0 \<and> ssl_get_error W w r = ERROR_WANT_WRITE \<longrightarrow> CBIO_WANT_WRITE \<in> set answers))))"

definition calls_back :: "'w wolfssl \<Rightarrow> bool" where
  "calls_back W \<longleftrightarrow>
     (\<forall>w io. call_ok W io (ssl_accept W w io) \<and> call_ok W io (ssl_connect W w io)
        \<and> call_ok W io (ssl_accept_stateless W w io) \<and> call_ok W io (ssl_got_timeout W w io))
     \<and> (\<forall>w io data. call_ok W io (ssl_write W w io data))
     \<and> (\<forall>w io room. case ssl_read W w io room of (r, bytes, w', io') \<Rightarrow> call_ok W io (r, w', io'))"

lemma callback_run_keeps:
  assumes "callback_run answers io io'" "P io"
    and "\<And>from_socket room io r bytes io'. dtls_recv from_socket room io = (r, bytes, io') \<Longrightarrow> P io \<Longrightarrow> P io'"
    and "\<And>now socket_result bytes io r io'. dtls_send now socket_result bytes io = (r, io') \<Longrightarrow> P io \<Longrightarrow> P io'"
  shows "P io'"
  using assms(1,2) by (induction rule: callback_run.induct) (blast intro: assms(3,4))+

section \<open>What the callbacks keep\<close>

lemma dtls_recv_outgoing: "dtls_recv from_socket room io = (r, bytes, io') \<Longrightarrow> outgoing io' = outgoing io"
  by (auto simp: dtls_recv_def pop_front_def split: if_splits option.splits list.splits prod.splits sum.splits)

lemma dtls_send_outgoing:
  assumes "dtls_send now socket_result bytes io = (r, io')" "outgoing io = Some q"
  shows "outgoing io' = Some (snd (push \<lparr>datagram_bytes = bytes, enqueued_at = now\<rparr> q)) \<and> - 1 \<le> r"
  using assms by (auto simp: dtls_send_def split: prod.splits sum.splits)

lemma dtls_send_direct: "dtls_send now socket_result bytes io = (r, io') \<Longrightarrow> outgoing io = None \<Longrightarrow> io' = io \<and> - 1 \<le> r"
  by (auto simp: dtls_send_def split: if_splits)

lemma callback_run_answers: "callback_run answers io io' \<Longrightarrow> CBIO_WANT_WRITE \<notin> set answers"
proof (induction rule: callback_run.induct)
  case (send_callback answers io io1 now socket_result bytes r io2)
  have "- 1 \<le> r"
    using dtls_send_outgoing [OF send_callback.hyps(2)] dtls_send_direct [OF send_callback.hyps(2)]
    by (cases "outgoing io1") auto
  then show ?case using send_callback.IH by (auto simp: CBIO_WANT_WRITE_def)
qed simp_all

text \<open>Every queue invariant that pushing keeps is kept; a connection that queues goes on queueing.\<close>

definition queue_keeps :: "(encrypted_datagram queue \<Rightarrow> bool) \<Rightarrow> dtls_io \<Rightarrow> bool" where
  "queue_keeps P io \<longleftrightarrow> (\<exists>q. outgoing io = Some q \<and> P q)"

lemma callback_run_queue:
  assumes "callback_run answers io io'" "queue_keeps P io" "\<And>x q. P q \<Longrightarrow> P (snd (push x q))"
  shows "queue_keeps P io'"
  using assms(1,2)
proof (rule callback_run_keeps)
  show "queue_keeps P io'" if "dtls_recv from_socket room io = (r, bytes, io')" "queue_keeps P io"
    for from_socket room io r bytes io'
    using that dtls_recv_outgoing by (fastforce simp: queue_keeps_def)
next
  show "queue_keeps P io'" if "dtls_send now socket_result bytes io = (r, io')" "queue_keeps P io"
    for now socket_result bytes io r io'
    using that dtls_send_outgoing assms(3) unfolding queue_keeps_def by blast
qed

section \<open>The methods\<close>

text \<open>A connection whose records go to a queue that satisfies \<open>P\<close>.\<close>

definition queueing :: "(encrypted_datagram queue \<Rightarrow> bool) \<Rightarrow> 'w dtls \<Rightarrow> bool" where
  "queueing P d \<longleftrightarrow> (case callback_io d of None \<Rightarrow> False | Some io \<Rightarrow> queue_keeps P io)"

lemma queueing_fields [simp]:
  "queueing P (d\<lparr>ssl := w\<rparr>) = queueing P d" "queueing P (d\<lparr>last_read_error := e\<rparr>) = queueing P d"
  "queueing P (d\<lparr>nonblocking := b\<rparr>) = queueing P d"
  by (simp_all add: queueing_def)

lemma queueing_mono: "queueing P d \<Longrightarrow> (\<And>q. P q \<Longrightarrow> Q q) \<Longrightarrow> queueing Q d"
  by (auto simp: queueing_def queue_keeps_def split: option.splits)

lemma call_ok_queueing:
  assumes "call_ok W (callback_io d) (r, w, io')" "queueing P d" "\<And>x q. P q \<Longrightarrow> P (snd (push x q))"
  shows "queueing P (d\<lparr>ssl := w, callback_io := io'\<rparr>)"
  using assms(1,2) callback_run_queue [of _ _ _ P] assms(3)
  by (auto simp: call_ok_def queueing_def split: option.splits)

lemma call_ok_wants:
  assumes "call_ok W (Some io) (r, w, io')" "r \<le> 0"
  shows "ssl_get_error W w r \<noteq> ERROR_WANT_WRITE"
  using assms callback_run_answers by (fastforce simp: call_ok_def)

lemmas calls_backD = calls_back_def [THEN iffD1]

text \<open>The interface of a property of connections that every method of \<open>Dtls\<close> on an open one keeps.\<close>

locale connection_invariant =
  fixes W :: "'w wolfssl" and P :: "'w dtls \<Rightarrow> bool"
  assumes read_keeps: "P d \<Longrightarrow> read_status W room d = (r1, d') \<Longrightarrow> P d'"
    and write_keeps: "P d \<Longrightarrow> write_status W data d = (r2, d') \<Longrightarrow> P d'"
    and inject_keeps: "P d \<Longrightarrow> inject W data d = (r3, d') \<Longrightarrow> P d'"
    and handshake_keeps: "P d \<Longrightarrow> handshake W d = (r4, d') \<Longrightarrow> P d'"
    and timeout_keeps: "P d \<Longrightarrow> handle_timeout W d = (r5, d') \<Longrightarrow> P d'"
    and disable_keeps: "P d \<Longrightarrow> P (disable_callback_receive W d)"

lemma read_queueing:
  assumes "calls_back W" "queueing P d" "\<And>x q. P q \<Longrightarrow> P (snd (push x q))" "read_status W room d = (r, d')"
  shows "queueing P d'"
proof -
  obtain code bytes w io' where c: "ssl_read W (ssl d) (callback_io d) room = (code, bytes, w, io')" by (metis prod_cases4)
  then have "call_ok W (callback_io d) (code, w, io')" using assms(1) unfolding calls_back_def by (metis case_prod_conv)
  from call_ok_queueing [OF this assms(2,3)] show ?thesis
    using assms(4) c by (auto simp: read_status_def Let_def split: if_splits)
qed

lemma write_queueing:
  assumes "calls_back W" "queueing P d" "\<And>x q. P q \<Longrightarrow> P (snd (push x q))" "write_status W data d = (r, d')"
  shows "queueing P d'"
proof -
  obtain code w io' where c: "ssl_write W (ssl d) (callback_io d) data = (code, w, io')" by (metis prod_cases3)
  then have "call_ok W (callback_io d) (code, w, io')" using assms(1) unfolding calls_back_def by metis
  from call_ok_queueing [OF this assms(2,3)] show ?thesis
    using assms(4) c by (auto simp: write_status_def Let_def split: if_splits)
qed

lemma handshake_queueing:
  assumes "calls_back W" "queueing P d" "\<And>x q. P q \<Longrightarrow> P (snd (push x q))" "handshake W d = (r, d')"
  shows "queueing P d'"
proof -
  obtain code w io' where c: "(if server_side d then ssl_accept W (ssl d) (callback_io d)
      else ssl_connect W (ssl d) (callback_io d)) = (code, w, io')" by (metis prod_cases3)
  then have "call_ok W (callback_io d) (code, w, io')" using assms(1) unfolding calls_back_def by metis
  from call_ok_queueing [OF this assms(2,3)] show ?thesis
    using assms(4) c by (auto simp: handshake_def Let_def split: if_splits)
qed

lemma timeout_queueing:
  assumes "calls_back W" "queueing P d" "\<And>x q. P q \<Longrightarrow> P (snd (push x q))" "handle_timeout W d = (r, d')"
  shows "queueing P d'"
proof -
  obtain code w io' where c: "ssl_got_timeout W (ssl d) (callback_io d) = (code, w, io')" by (metis prod_cases3)
  then have "call_ok W (callback_io d) (code, w, io')" using assms(1) unfolding calls_back_def by metis
  from call_ok_queueing [OF this assms(2,3)] show ?thesis
    using assms(4) c by (auto simp: handle_timeout_def)
qed

lemma inject_queueing: "queueing P d \<Longrightarrow> inject W data d = (r, d') \<Longrightarrow> queueing P d'"
  by (auto simp: inject_def queueing_def split: if_splits prod.splits)

text \<open>A connection that queues its records never waits for the network to write.\<close>

lemma queued_read_never_wants_write:
  assumes "calls_back W" "queueing P d" "read_status W room d = (r, d')"
  shows "r \<noteq> Inr (WantWrite, bytes)"
proof -
  obtain code plain w io' where c: "ssl_read W (ssl d) (callback_io d) room = (code, plain, w, io')" by (metis prod_cases4)
  then have "call_ok W (callback_io d) (code, w, io')" using assms(1) unfolding calls_back_def by (metis case_prod_conv)
  moreover obtain io where "callback_io d = Some io" using assms(2) by (auto simp: queueing_def split: option.splits)
  ultimately have "code \<le> 0 \<Longrightarrow> ssl_get_error W w code \<noteq> ERROR_WANT_WRITE" using call_ok_wants by metis
  then show ?thesis using assms(3) c by (auto simp: read_status_def Let_def split: if_splits)
qed

lemma queued_write_never_wants_write:
  assumes "calls_back W" "queueing P d" "write_status W data d = (r, d')"
  shows "r \<noteq> Inr WantWrite"
proof -
  obtain code w io' where c: "ssl_write W (ssl d) (callback_io d) data = (code, w, io')" by (metis prod_cases3)
  then have "call_ok W (callback_io d) (code, w, io')" using assms(1) unfolding calls_back_def by metis
  moreover obtain io where "callback_io d = Some io" using assms(2) by (auto simp: queueing_def split: option.splits)
  ultimately have "code \<le> 0 \<Longrightarrow> ssl_get_error W w code \<noteq> ERROR_WANT_WRITE" using call_ok_wants by metis
  then show ?thesis using assms(3) c by (auto simp: write_status_def Let_def split: if_splits)
qed

text \<open>The contract is satisfiable.\<close>

lemma example_wolf_calls_back: "calls_back example_wolf"
  by (auto simp: calls_back_def call_ok_def example_wolf_def ERROR_WANT_WRITE_def intro: no_callback
      split: option.splits list.splits)

text \<open>The capacity of a queue and its closing are kept by pushing.\<close>

definition bounded_by :: "nat \<Rightarrow> 'a queue \<Rightarrow> bool" where
  "bounded_by n q \<longleftrightarrow> queue_inv q \<and> capacity q = n"

lemma push_bounded: "bounded_by n q \<Longrightarrow> bounded_by n (snd (push x q))"
  using push_inv [of q x] by (auto simp: bounded_by_def push_def Let_def split: prod.splits)

lemma push_closed: "closed q \<Longrightarrow> closed (snd (push x q))"
  by (simp add: push_def)

lemma disable_queueing [simp]: "queueing P (disable_callback_receive W d) = queueing P d"
  by (simp add: disable_callback_receive_def)

interpretation bounded_connection:
  connection_invariant W "\<lambda>d. calls_back W \<longrightarrow> queueing (bounded_by n) d" for W n
proof
qed (simp_all, (metis read_queueing write_queueing handshake_queueing timeout_queueing inject_queueing push_bounded)+)

end
