(* ===== verification/Vpn_Session_Queues.thy ===== *)
theory Vpn_Session_Queues
  imports Vpn_Session_Bounds Vpn_Callbacks
begin

text \<open>
  The connections of the server's sessions in every interleaving of the workers. A property of one
  connection that its methods keep, that a new session's connection has and that sending the queued
  records keeps, holds of every session's connection: that is the locale \<open>session_connection\<close>. Its
  interpretation bounds the queue of encrypted records, which lies in the callback context, under the
  contract of \<open>Vpn_Callbacks\<close>.
\<close>

section \<open>Connections of sessions\<close>

locale session_connection = connection_invariant W P for W :: "'w wolfssl" and P +
  fixes send :: "'s udp_socket"
  assumes queued_holds:
      "use_queued_send (empty_queue SESSION_TX_QUEUE_CAPACITY) signal_new d = (Inr (), d') \<Longrightarrow> P d'"
    and drained_keeps:
      "P (conn s) \<Longrightarrow> drain_encrypted_queue (\<lambda>st packet. send st peer packet) now (enc_tx_queue s) st = (r, q, st') \<Longrightarrow>
       P (conn (set_enc_tx_queue q s))"
begin

definition all_hold :: "'w session list \<Rightarrow> bool" where
  "all_hold xs \<longleftrightarrow> (\<forall>s \<in> set xs. P (conn s))"

lemma all_hold_simps [simp]:
  "all_hold []" "all_hold (s # xs) \<longleftrightarrow> P (conn s) \<and> all_hold xs" "all_hold (xs @ ys) \<longleftrightarrow> all_hold xs \<and> all_hold ys"
  by (auto simp: all_hold_def)

lemma all_hold_subset: "set ys \<subseteq> set xs \<Longrightarrow> all_hold xs \<Longrightarrow> all_hold ys"
  by (auto simp: all_hold_def)

lemma all_hold_update: "all_hold xs \<Longrightarrow> P (conn s) \<Longrightarrow> all_hold (xs[i := s])"
  using set_update_subset_insert [of xs i s] by (auto simp: all_hold_def)

lemma all_hold_nth: "all_hold xs \<Longrightarrow> i < length xs \<Longrightarrow> P (conn (xs ! i))"
  by (simp add: all_hold_def)

lemma all_hold_map: "all_hold xs \<Longrightarrow> (\<And>s. P (conn s) \<Longrightarrow> P (conn (f s))) \<Longrightarrow> all_hold (map f xs)"
  by (simp add: all_hold_def)

lemma all_hold_swap_remove: "all_hold xs \<Longrightarrow> all_hold (swap_remove i xs)"
  using set_swap_remove_subset by (rule all_hold_subset)

lemma queue_session_plain_conn [simp]: "conn (queue_session_plain now packet s) = conn s"
  by (simp add: queue_session_plain_def)

lemma send_tunnel_packet_holds: "P (conn s) \<Longrightarrow> P (conn (snd (send_tunnel_packet W now s packet)))"
  using write_keeps [of "conn s" packet]
  by (auto simp: send_tunnel_packet_def Let_def split: prod.splits sum.splits dtls_io_result.splits)

lemma drain_raw_queue_holds:
  "drain_raw_queue (send_tunnel_packet W now) now q s = (r, q', s') \<Longrightarrow> P (conn s) \<Longrightarrow> P (conn s')"
proof (induction "length (items q)" arbitrary: q s rule: less_induct)
  case less
  note eq = less.prems(1) [unfolded drain_raw_queue.simps [of _ _ q]]
  show ?case
  proof (cases rule: try_peek_cases [of q])
    case (nothing e)
    then show ?thesis using eq less.prems(2) by auto
  next
    case (item x xs)
    let ?q = "q\<lparr>items := xs\<rparr>"
    obtain packet queued_at where x: "x = (packet, queued_at)" by (cases x)
    obtain res s2 where w: "send_tunnel_packet W now s packet = (res, s2)" by (metis surj_pair)
    have s2: "P (conn s2)" using send_tunnel_packet_holds [OF less.prems(2), of now packet] w by simp
    have short: "length (items ?q) < length (items q)" using item(1) by simp
    note IH = less.hyps [OF short]
    show ?thesis
      using eq item x w s2 IH [of s] IH [of s2] less.prems(2)
      by (cases "SESSION_PACKET_TTL \<le> now - queued_at"; cases res) auto
  qed
qed

lemma drain_session_plain_holds: "P (conn s) \<Longrightarrow> P (conn (snd (drain_session_plain W now s)))"
  using drain_raw_queue_holds [of now "raw_tx_queue s" s]
  by (auto simp: drain_session_plain_def split: prod.splits)

lemma flush_pending_holds: "all_hold xs \<Longrightarrow> all_hold (flush_pending W now xs)"
  unfolding flush_pending_def by (erule all_hold_map) (rule drain_session_plain_holds)

lemma route_packet_holds:
  assumes "all_hold xs"
  shows "all_hold (route_packet W rt now packet xs)"
proof -
  have all: "all_hold (flush_pending W now (map (\<lambda>s. if authenticated s then queue_session_plain now packet s else s) xs))"
    by (rule flush_pending_holds, rule all_hold_map [OF assms]) simp
  have one: "all_hold (xs[i := snd (drain_session_plain W now (queue_session_plain now packet (xs ! i)))])"
    if "unicast_target d xs = Some i" for i d
    using unicast_target_Some [OF that] all_hold_nth [OF assms]
    by (intro all_hold_update assms drain_session_plain_holds) simp
  show ?thesis
    using all assms by (auto simp: route_packet_def Let_def intro: one split: option.splits)
qed

lemma send_session_holds: "P (conn s) \<Longrightarrow> P (conn (fst (snd (send_session send now st s))))"
  using drained_keeps [of s "peer_addr s" now st] by (auto simp: send_session_def Let_def split: prod.splits)

lemma send_sessions_holds: "all_hold xs \<Longrightarrow> all_hold (map snd (fst (send_sessions send now st xs)))"
proof (induction xs arbitrary: st)
  case (Cons s xs)
  obtain r s' st1 where one: "send_session send now st s = (r, s', st1)" by (metis prod_cases3)
  have "P (conn s')" using send_session_holds [of s now st] Cons.prems one by simp
  then show ?case using Cons.IH [of st1] Cons.prems one by (auto split: prod.splits)
qed simp

lemma swap_remove_all_holds: "all_hold xs \<Longrightarrow> all_hold (swap_remove_all js xs)"
  by (induction js arbitrary: xs) (simp_all add: all_hold_swap_remove)

lemma udp_write_pass_holds: "all_hold xs \<Longrightarrow> all_hold (fst (udp_write_pass send now st xs))"
  using send_sessions_holds [of xs now st] swap_remove_all_holds
  by (auto simp: udp_write_pass_def split: prod.splits)

lemma inject_front_holds: "P (conn s) \<Longrightarrow> P (conn (inject_front W s))"
  using inject_keeps [of "conn s"] by (auto simp: inject_front_def split: list.splits prod.splits sum.splits bool.splits)

lemma handle_packet_conn: "handle_packet c now tun packet s = (s', written, e) \<Longrightarrow> conn s' = conn s"
  by (auto simp: handle_packet_def Let_def split: if_splits sum.splits option.splits)

lemma read_session_holds:
  assumes "read_session W c logins now tun s = (s', written, e)" "P (conn s)"
  shows "P (conn s')"
proof (cases "\<not> drain_pending s \<and> pending_inject s = []")
  case True
  then show ?thesis using assms by (simp add: read_session_def)
next
  case go: False
  obtain r d where rd: "read_status W READ_BUFFER (conn s) = (r, d)" by (metis surj_pair)
  have d: "P d" using read_keeps assms(2) rd by blast
  let ?s = "s\<lparr>conn := d, drain_pending := True\<rparr>"
  show ?thesis
  proof (cases "\<exists>n packet. r = Inr (Complete n, packet) \<and> 0 < n")
    case False
    then have "\<exists>b. s' = inject_front W (s\<lparr>conn := d, drain_pending := b\<rparr>)"
      using assms(1) go rd by (auto simp: read_session_def split: sum.splits prod.splits dtls_io_result.splits)
    then show ?thesis using inject_front_holds d by auto
  next
    case True
    then obtain n packet where r: "r = Inr (Complete n, packet)" "0 < n" by blast
    obtain s3 w3 e3 where h: "handle_packet c now tun packet ?s = (s3, w3, e3)" by (metis prod_cases3)
    have "s' \<in> {?s, handle_login logins now packet ?s,
        queue_session_plain now KEEPALIVE_PACKET (?s\<lparr>last_activity := now\<rparr>), s3, inject_front W s3}"
      using assms(1) go rd r h by (auto simp: read_session_def Let_def split: if_splits option.splits)
    then show ?thesis
      using d handle_packet_conn [OF h] inject_front_holds by (auto simp: handle_login_def Let_def)
  qed
qed

lemma read_sessions_holds:
  "read_sessions W c logins now tun xs = (ys, written, e) \<Longrightarrow> all_hold xs \<Longrightarrow> all_hold ys"
proof (induction xs arbitrary: ys written e)
  case (Cons s xs)
  obtain s' w e' where r: "read_session W c logins now tun s = (s', w, e')" by (metis prod_cases3)
  obtain zs w2 e2 where rs: "read_sessions W c logins now tun xs = (zs, w2, e2)" by (metis prod_cases3)
  have "P (conn s')" using read_session_holds [OF r] Cons.prems(2) by simp
  then show ?case using Cons.prems Cons.IH [OF rs] r rs by (auto split: if_splits option.splits)
qed simp

lemma retransmit_holds: "all_hold xs \<Longrightarrow> all_hold (retransmit W now i xs)"
proof (induction "length xs - i" arbitrary: i xs rule: less_induct)
  case less
  show ?case
  proof (cases "i < length xs")
    case False
    then show ?thesis using less.prems by (simp add: retransmit.simps [of _ _ i])
  next
    case True
    obtain r d where h: "handle_timeout W (conn (xs ! i)) = (r, d)" by (metis surj_pair)
    have d: "P d" using timeout_keeps [OF all_hold_nth [OF less.prems True] h] .
    have up: "all_hold (xs[i := (xs ! i)\<lparr>conn := d, dtls_deadline := dl\<rparr>])" for dl
      using d by (intro all_hold_update less.prems) simp
    have "all_hold (retransmit W now (Suc i) ys)" if "all_hold ys" "length ys = length xs" for ys
      using less.hyps [of ys "Suc i"] that True by simp
    moreover have "all_hold (retransmit W now i (swap_remove i xs))"
      using less.hyps [of "swap_remove i xs" i] all_hold_swap_remove [OF less.prems] True by (simp add: length_swap_remove)
    ultimately show ?thesis
      using True h up less.prems by (subst retransmit.simps) (auto simp: Let_def split: sum.splits)
  qed
qed

lemma control_section_holds:
  assumes "control_section W c now commands xs = Some (replies, kept, zs)" "all_hold xs"
  shows "all_hold zs"
proof -
  obtain ys where "process_commands now commands xs = Some (replies, kept, ys)"
    and zs: "zs = expire_sessions (max_session_lifetime c) now (retransmit W now 0 ys)"
    using assms by (auto simp: control_section_def)
  then have "all_hold (retransmit W now 0 ys)"
    using retransmit_holds all_hold_subset [OF process_commands_subset assms(2)] by blast
  moreover have "set zs \<subseteq> set (retransmit W now 0 ys)" unfolding zs by (auto simp: expire_sessions_def)
  ultimately show ?thesis using all_hold_subset by blast
qed

section \<open>Datagrams\<close>

lemma finish_handshake_holds:
  assumes "all_hold (session_list st)" "i < length (session_list st)"
  shows "all_hold (session_list (finish_handshake W c now n i st))"
proof -
  have e: "P (conn (establish W logins now a f s))" if "P (conn s)" for logins a f and s :: "'w session"
    using disable_keeps [OF that] by (simp add: establish_def Let_def)
  have "all_hold ((session_list st)[i := establish W (logins_now st) now a f (session_list st ! i)])" for a f
    by (rule all_hold_update [OF assms(1) e [OF all_hold_nth [OF assms]]])
  moreover have "all_hold (remove_duplicates a peer j xs)" if "all_hold xs" for a peer j and xs :: "'w session list"
    using set_remove_duplicates that by (rule all_hold_subset)
  ultimately show ?thesis
    using assms(1) all_hold_swap_remove by (auto simp: finish_handshake_def Let_def split: option.splits)
qed

lemma process_session_holds:
  assumes "all_hold (session_list st)" "i < length (session_list st)"
  shows "all_hold (session_list (process_session W c now i st))"
proof -
  obtain r d where h: "handshake W (conn (session_list st ! i)) = (r, d)" by (metis surj_pair)
  have d: "P d" by (rule handshake_keeps [OF all_hold_nth [OF assms] h])
  have up: "all_hold ((session_list st)[i := (session_list st ! i)\<lparr>conn := d\<rparr>])"
    "all_hold ((session_list st)[i := (session_list st ! i)\<lparr>conn := d, dtls_deadline := dl\<rparr>])" for dl
    using d by (intro all_hold_update assms(1); simp)+
  have "all_hold (session_list (step_handshake W c now n i st))" for n
    using up h assms all_hold_swap_remove
      finish_handshake_holds [of "st\<lparr>session_list := (session_list st)[i := (session_list st ! i)\<lparr>conn := d\<rparr>]\<rparr>"]
    by (auto simp: step_handshake_def Let_def split: sum.splits bool.splits)
  then show ?thesis using assms(1) by (simp add: process_session_def)
qed

lemma admit_peer_holds:
  assumes "admit_peer W c now peer packet created st = (e, b, st')" "all_hold (session_list st)"
  shows "all_hold (session_list st') \<and> (b \<longrightarrow> session_list st' \<noteq> [])"
proof -
  have app: "all_hold (session_list u') \<and> (b' \<longrightarrow> session_list u' \<noteq> [])"
    if "append_session now peer created u = (e', b', u')" "all_hold (session_list u)" for u u' :: "'w decrypt_state" and e' b'
    using that queued_holds by (auto simp: append_session_def session_new_def split: sum.splits prod.splits)
  have evict: "all_hold (evict_oldest h xs)" if "all_hold xs" for h and xs :: "'w session list"
    using that all_hold_swap_remove by (auto simp: evict_oldest_def split: option.splits)
  have count: "all_hold (session_list u') \<and> (b' \<longrightarrow> session_list u' \<noteq> [])"
    if "admit_counted c now ip peer created u = (e', b', u')" "all_hold (session_list u)" for ip u u' e' b'
    using that evict app [of "u\<lparr>session_list := evict_oldest (max_pending_handshakes c) (session_list u)\<rparr>"]
    by (auto simp: admit_counted_def Let_def split: if_splits)
  have "(\<exists>ip l a. admit_counted c now ip peer created (st\<lparr>limiter := l, acceptor := a\<rparr>) = (e, b, st'))
      \<or> \<not> b \<and> set (session_list st') \<subseteq> set (session_list st)"
    by (rule admit_peer_outcomes [OF assms(1)])
  then show ?thesis using count assms(2) all_hold_subset by fastforce
qed

lemma handle_datagram_holds:
  assumes "handle_datagram W c now peer packet created st = (e, st')" "all_hold (session_list st)"
  shows "all_hold (session_list st')"
proof (cases "position (\<lambda>s. same_peer (peer_addr s) peer) (session_list st)")
  case None
  obtain e' b u where a: "admit_peer W c now peer packet created st = (e', b, u)" by (metis prod_cases3)
  note u = admit_peer_holds [OF a assms(2)]
  show ?thesis
    using assms(1) None a u by (cases "e' = None \<and> b"; cases e'; cases b) (auto simp: handle_datagram_def process_session_holds)
next
  case (Some i)
  then have i: "i < length (session_list st)" using position_Some by fastforce
  obtain go_on s' where j: "inject_datagram W packet (session_list st ! i) = (go_on, s')" by (metis surj_pair)
  have "P (conn s')"
    using j inject_keeps [OF all_hold_nth [OF assms(2) i]] all_hold_nth [OF assms(2) i]
    by (auto simp: inject_datagram_def split: if_splits prod.splits sum.splits bool.splits)
  then have "all_hold ((session_list st)[i := s'])" by (rule all_hold_update [OF assms(2)])
  then show ?thesis
    using assms(1) Some j i process_session_holds [of "st\<lparr>session_list := (session_list st)[i := s']\<rparr>" i c now]
    by (auto simp: handle_datagram_def Let_def split: if_splits)
qed

lemma server_step_holds:
  assumes "server_step W send c path contents s t" "all_hold (sessions_of s)"
  shows "all_hold (sessions_of t)"
  using assms(1)
proof cases
  case (read_established now tun xs written e)
  then show ?thesis using read_sessions_holds assms(2) by auto
next
  case remove_replaced
  have "set (dedupe_sessions (sessions_of s)) \<subseteq> set (sessions_of s)"
    using set_mset_mono [OF retain_unseen_subset [of "{}" "rev (sessions_of s)"]] by (simp add: dedupe_sessions_def)
  then show ?thesis using remove_replaced all_hold_subset assms(2) by auto
next
  case (purge_limiter now)
  then show ?thesis using assms(2) by (simp add: sessions_of_def)
next
  case (receive_update u us)
  then show ?thesis using assms(2) by (simp add: sessions_of_def apply_updates_sessions)
next
  case (datagram now peer packet created e st)
  then show ?thesis using handle_datagram_holds assms(2) by (auto simp: sessions_of_def)
next
  case (control_work now commands replies kept xs)
  then show ?thesis using control_section_holds assms(2) by auto
next
  case (control_reload fs now created update ctl xs)
  then have "set xs \<subseteq> set (sessions_of s)"
    by (auto simp: reload_step_def Let_def split: sum.splits prod.splits)
  then show ?thesis using control_reload all_hold_subset assms(2) by auto
qed (simp_all add: assms(2) route_packet_holds flush_pending_holds udp_write_pass_holds)

lemma reachable_holds:
  assumes "(server_step W send c path contents)\<^sup>*\<^sup>* (server_start c a now) s" "t \<in> set (sessions_of s)"
  shows "P (conn t)"
proof -
  have "all_hold (sessions_of s)"
    using assms(1)
  proof (induction rule: rtranclp_induct)
    case base
    then show ?case by (simp add: server_start_def sessions_of_def)
  qed (rule server_step_holds)
  then show ?thesis using assms(2) by (simp add: all_hold_def)
qed

end

section \<open>The queue of encrypted records\<close>

lemma drain_encrypted_queue_bounded:
  "drain_encrypted_queue f now q st = (r, q', st') \<Longrightarrow> bounded_by n q \<Longrightarrow> bounded_by n q'"
proof (induction "length (items q)" arbitrary: q st rule: less_induct)
  case less
  note eq = less.prems(1) [unfolded drain_encrypted_queue.simps [of _ _ q]]
  show ?case
  proof (cases rule: try_peek_cases [of q])
    case (nothing e)
    then show ?thesis using eq less.prems(2) by auto
  next
    case (item x xs)
    let ?q = "q\<lparr>items := xs\<rparr>"
    have b: "bounded_by n ?q" "queue_inv ?q"
      using less.prems(2) item(1) by (auto simp: bounded_by_def queue_inv_def)
    have "bounded_by n (front_drop x ?q)"
      using front_drop_inv [OF b(2)] b(1) by (simp add: bounded_by_def front_drop_def Let_def)
    moreover note IH = less.hyps [of ?q]
    ultimately show ?thesis
      using eq item b(1) by (auto split: if_splits prod.splits sum.splits)
  qed
qed

lemma set_enc_tx_queue_queueing:
  "queueing Q (conn s) \<Longrightarrow> P q \<Longrightarrow> queueing P (conn (set_enc_tx_queue q s))"
  by (auto simp: set_enc_tx_queue_def queueing_def queue_keeps_def split: option.splits)

lemma enc_tx_queue_queueing: "queueing P (conn s) \<Longrightarrow> P (enc_tx_queue s)"
  by (auto simp: enc_tx_queue_def queueing_def queue_keeps_def split: option.splits)

lemma use_queued_send_queueing: "use_queued_send q g d = (Inr (), d') \<Longrightarrow> P q \<Longrightarrow> queueing P d'"
  by (auto simp: use_queued_send_def with_io_def io_use_queued_send_def queueing_def queue_keeps_def split: option.splits)

interpretation encrypted: session_connection W
    "\<lambda>d. calls_back W \<longrightarrow> queueing (bounded_by SESSION_TX_QUEUE_CAPACITY) d" send for W send
proof
  show "calls_back W \<longrightarrow> queueing (bounded_by SESSION_TX_QUEUE_CAPACITY) d'"
    if "use_queued_send (empty_queue SESSION_TX_QUEUE_CAPACITY) signal_new d = (Inr (), d')" for d d'
    using use_queued_send_queueing [OF that]
    by (simp add: bounded_by_def empty_queue_def queue_inv_def SESSION_TX_QUEUE_CAPACITY_def)
next
  show "calls_back W \<longrightarrow> queueing (bounded_by SESSION_TX_QUEUE_CAPACITY) (conn (set_enc_tx_queue q s))"
    if "calls_back W \<longrightarrow> queueing (bounded_by SESSION_TX_QUEUE_CAPACITY) (conn s)"
      "drain_encrypted_queue (\<lambda>st packet. send st peer packet) now (enc_tx_queue s) st = (r, q, st')"
    for s peer now st r q st'
    using that drain_encrypted_queue_bounded [OF that(2)] enc_tx_queue_queueing set_enc_tx_queue_queueing by blast
qed

section \<open>Properties\<close>

text \<open>
  C11: In every interleaving of the server's workers, whatever peers send and however slowly the
  network takes packets, each session keeps to its types: its queue of plain packets holds at most
  512 (and none once it is closed), at most 512 datagrams wait for wolfSSL, and the four counters
  reported by the control socket stay values of 64 bits, saturating instead of wrapping. If wolfSSL
  reaches the callback context only through its callbacks, the queue of encrypted records holds at
  most 512 as well, and no write of a packet ever waits for the network.
\<close>

theorem session_resources_bounded:
  assumes "(server_step W send c path contents)\<^sup>*\<^sup>* (server_start c a now) s" "t \<in> set (sessions_of s)"
  shows "length (items (raw_tx_queue t)) \<le> 512 \<and> (closed (raw_tx_queue t) \<longrightarrow> items (raw_tx_queue t) = [])
    \<and> length (pending_inject t) \<le> 512
    \<and> bytes_tx t < 2 ^ 64 \<and> bytes_rx t < 2 ^ 64 \<and> packets_tx t < 2 ^ 64 \<and> packets_rx t < 2 ^ 64
    \<and> (calls_back W \<longrightarrow> length (items (enc_tx_queue t)) \<le> 512
          \<and> (\<forall>packet. fst (write_status W packet (conn t)) \<noteq> Inr WantWrite))"
proof -
  have q: "calls_back W \<Longrightarrow> queueing (bounded_by SESSION_TX_QUEUE_CAPACITY) (conn t)"
    using encrypted.reachable_holds [OF assms] by blast
  have "calls_back W \<Longrightarrow> length (items (enc_tx_queue t)) \<le> 512"
    using enc_tx_queue_queueing [OF q] by (simp add: bounded_by_def queue_inv_def SESSION_TX_QUEUE_CAPACITY_def)
  moreover have "calls_back W \<Longrightarrow> fst (write_status W packet (conn t)) \<noteq> Inr WantWrite" for packet
    using queued_write_never_wants_write [OF _ q] by (metis prod.collapse)
  ultimately show ?thesis using session_counters_bounded [OF assms] by blast
qed

theorem session_resources_bounded_witness:
  "\<exists>t :: byte list list session. length (items (raw_tx_queue t)) = 1 \<and> length (items (raw_tx_queue t)) \<le> 512
     \<and> bytes_tx t < 2 ^ 64 \<and> length (pending_inject t) \<le> 512 \<and> length (items (enc_tx_queue t)) \<le> 512"
proof -
  let ?s0 = "server_start race_config race_acceptor 0"
  let ?new = "establish example_wolf Map.empty 1 0x0A080102 (replicate 64 (CHR ''0'')) race_session"
  obtain l where h: "handle_datagram example_wolf race_config 1 example_peer [1] (Inr example_dtls) (decrypting ?s0)
      = (None, (decrypting ?s0)\<lparr>limiter := l, acceptor := example_dtls, session_list := [?new]\<rparr>)"
    using race_datagram by blast
  let ?s1 = "?s0\<lparr>decrypting := (decrypting ?s0)\<lparr>limiter := l, acceptor := example_dtls, session_list := [?new]\<rparr>\<rparr>"
  have "server_step example_wolf (\<lambda>st _ _. (Inr 0, st)) race_config ''vpn.ini'' {} ?s0 ?s1"
    by (rule server_step.datagram [OF h])
  then have run: "(server_step example_wolf (\<lambda>st _ _. (Inr 0, st :: unit)) race_config ''vpn.ini'' {})\<^sup>*\<^sup>* ?s0 ?s1" by blast
  have new: "?new \<in> set (sessions_of ?s1)" by simp
  have "length (items (raw_tx_queue ?new)) = 1"
    by (simp add: establish_def race_session_def session_new_def Let_def queue_session_plain_def empty_queue_def
        push_def SESSION_TX_QUEUE_CAPACITY_def)
  then show ?thesis using session_resources_bounded [OF run new] example_wolf_calls_back by blast
qed

end
