(* ===== verification/Vpn_Client_Diagnostics.thy ===== *)
theory Vpn_Client_Diagnostics
  imports Vpn_Client_Workers
begin

text \<open>
  The counters of the client (\<open>ClientDiagnostics\<close> of \<open>src/src/client/mod.rs\<close>): what each thread adds to
  them in a turn, the line the monitor prints once a second when \<open>AVPN_DIAG\<close> is set, and the report of
  dropped packets at the end of a connection. The counters are natural numbers: the 64 bits of the
  code would wrap after \<open>2 ^ 64\<close> packets.
\<close>

record client_diagnostics =
  udp_read :: nat
  tun_read :: nat
  dtls_read_ok :: nat
  dtls_read_want_read :: nat
  dtls_read_want_write :: nat
  dtls_read_other :: nat
  tun_write_count :: nat
  icmp_echo_reply :: nat
  dtls_write_ok :: nat
  dtls_write_want_read :: nat
  dtls_write_want_write :: nat

definition diagnostics_default :: client_diagnostics where
  "diagnostics_default =
     \<lparr>udp_read = 0, tun_read = 0, dtls_read_ok = 0, dtls_read_want_read = 0, dtls_read_want_write = 0,
      dtls_read_other = 0, tun_write_count = 0, icmp_echo_reply = 0, dtls_write_ok = 0,
      dtls_write_want_read = 0, dtls_write_want_write = 0\<rparr>"

section \<open>What the threads count\<close>

definition count_received :: "client_diagnostics \<Rightarrow> client_diagnostics" where
  "count_received d = d\<lparr>udp_read := Suc (udp_read d)\<rparr>"

text \<open>A packet of the device counts once it is in the queue.\<close>

definition count_tun_read :: "bool io_result \<Rightarrow> byte list io_result \<Rightarrow> bool \<Rightarrow> client_diagnostics \<Rightarrow> client_diagnostics" where
  "count_tun_read polled packet pushed d =
     (case (polled, packet) of
        (Inr True, Inr (b # bs)) \<Rightarrow> if pushed then d\<lparr>tun_read := Suc (tun_read d)\<rparr> else d
      | _ \<Rightarrow> d)"

definition count_read :: "'w wolfssl \<Rightarrow> 'w client \<Rightarrow> client_diagnostics \<Rightarrow> client_diagnostics" where
  "count_read W c d =
     (case fst (read_status W DECRYPT_BUFFER (link c)) of
        Inr (Complete n, _) \<Rightarrow>
          if 0 < n then d\<lparr>dtls_read_ok := Suc (dtls_read_ok d)\<rparr>
          else d\<lparr>dtls_read_want_read := Suc (dtls_read_want_read d)\<rparr>
      | Inr (WantRead, _) \<Rightarrow> d\<lparr>dtls_read_want_read := Suc (dtls_read_want_read d)\<rparr>
      | Inr (WantWrite, _) \<Rightarrow> d\<lparr>dtls_read_want_write := Suc (dtls_read_want_write d)\<rparr>
      | Inl _ \<Rightarrow> d\<lparr>dtls_read_other := Suc (dtls_read_other d)\<rparr>)"

text \<open>Handing a datagram to wolfSSL counts only when it fails.\<close>

definition count_inject :: "'w wolfssl \<Rightarrow> decrypt_local \<Rightarrow> 'w client \<Rightarrow> client_diagnostics \<Rightarrow> client_diagnostics" where
  "count_inject W l c d =
     (case (case waiting l of Some packet \<Rightarrow> Inr packet | None \<Rightarrow> fst (try_pop (encrypted_rx (queues c)))) of
        Inl _ \<Rightarrow> d
      | Inr packet \<Rightarrow>
          (case fst (inject W packet (link c)) of
             Inl _ \<Rightarrow> d\<lparr>dtls_read_other := Suc (dtls_read_other d)\<rparr>
           | Inr _ \<Rightarrow> d))"

definition count_tun_write :: "bool \<Rightarrow> nat io_result \<Rightarrow> 'w client \<Rightarrow> client_diagnostics \<Rightarrow> client_diagnostics" where
  "count_tun_write still wrote c d =
     (case peek (tun_write (queues c)) of
        Some (Some front, _) \<Rightarrow>
          if still \<and> wrote = Inr (length front) then d\<lparr>tun_write_count := Suc (tun_write_count d)\<rparr> else d
      | _ \<Rightarrow> d)"

definition count_write :: "'w wolfssl \<Rightarrow> byte list \<Rightarrow> 'w client \<Rightarrow> client_diagnostics \<Rightarrow> client_diagnostics" where
  "count_write W packet c d =
     (if \<not> active c then d
      else case fst (write_status W packet (link c)) of
          Inr (Complete n) \<Rightarrow> if n = length packet then d\<lparr>dtls_write_ok := Suc (dtls_write_ok d)\<rparr> else d
        | Inr WantRead \<Rightarrow> d\<lparr>dtls_write_want_read := Suc (dtls_write_want_read d)\<rparr>
        | Inr WantWrite \<Rightarrow> d\<lparr>dtls_write_want_write := Suc (dtls_write_want_write d)\<rparr>
        | Inl _ \<Rightarrow> d)"

section \<open>What is printed\<close>

text \<open>The line of the monitor, with both counters of drops.\<close>

definition diagnostic_line :: "client_diagnostics \<Rightarrow> nat \<Rightarrow> nat \<Rightarrow> 'w client \<Rightarrow> string" where
  "diagnostic_line d encrypted_drops plain_drops c =
     (case receive_callback_stats (link c) of
        (pops, empties, oversizes) \<Rightarrow>
          ''[client-diag] udp_rx='' @ show_nat (udp_read d) @ '' tun_rx='' @ show_nat (tun_read d)
          @ '' encrypted_q='' @ show_nat (queue_len (encrypted_rx (queues c)))
          @ '' encrypted_drop='' @ show_nat encrypted_drops
          @ '' dtls_incoming='' @ show_nat (queued_incoming_len (link c))
          @ '' callback_pop='' @ show_nat pops @ '' callback_empty='' @ show_nat empties
          @ '' callback_oversize='' @ show_nat oversizes
          @ '' dtls_read_ok='' @ show_nat (dtls_read_ok d) @ '' read_want_read='' @ show_nat (dtls_read_want_read d)
          @ '' read_want_write='' @ show_nat (dtls_read_want_write d) @ '' read_error='' @ show_nat (dtls_read_other d)
          @ '' tun_tx='' @ show_nat (tun_write_count d) @ '' icmp_reply='' @ show_nat (icmp_echo_reply d)
          @ '' plain_q='' @ show_nat (queue_len (raw_tx (queues c))) @ '' plain_drop='' @ show_nat plain_drops
          @ '' dtls_write_ok='' @ show_nat (dtls_write_ok d)
          @ '' write_want_read='' @ show_nat (dtls_write_want_read d)
          @ '' write_want_write='' @ show_nat (dtls_write_want_write d))"

text \<open>It is due once a second if the diagnostics are on; the instant of the last one goes along.\<close>

definition diagnostic_turn :: "bool \<Rightarrow> instant \<Rightarrow> client_diagnostics \<Rightarrow> nat \<Rightarrow> nat \<Rightarrow> 'w client \<Rightarrow> instant \<Rightarrow>
    string option \<times> instant" where
  "diagnostic_turn enabled now d encrypted_drops plain_drops c last_diagnostic =
     (if enabled \<and> seconds 1 \<le> now - last_diagnostic
      then (Some (diagnostic_line d encrypted_drops plain_drops c), now) else (None, last_diagnostic))"

definition drop_report :: "nat \<Rightarrow> nat \<Rightarrow> string option" where
  "drop_report encrypted_drops plain_drops =
     (if 0 < encrypted_drops \<or> 0 < plain_drops
      then Some (''[client] queue overflow drops: encrypted_rx='' @ show_nat encrypted_drops
             @ '', plain_tx='' @ show_nat plain_drops)
      else None)"

text \<open>The queue of plain packets drops one for a keepalive too.\<close>

definition keepalive_drops :: "bool \<Rightarrow> byte list queue \<Rightarrow> nat" where
  "keepalive_drops queued q =
     (if queued then (case fst (push KEEPALIVE_PACKET q) of Inr (Some _) \<Rightarrow> 1 | _ \<Rightarrow> 0) else 0)"

section \<open>The lines in order\<close>

text \<open>Two lines are never less than a second apart.\<close>

lemma diagnostic_turn_spacing:
  assumes "diagnostic_turn enabled now d e p c earlier = (line, later)"
  shows "(line \<noteq> None \<longrightarrow> enabled \<and> earlier + seconds 1 \<le> now \<and> later = now) \<and> (line = None \<longrightarrow> later = earlier)"
  using assms by (auto simp: diagnostic_turn_def seconds_def split: if_splits)

end
