(* ===== verification/Vpn_Client_Run.thy ===== *)
theory Vpn_Client_Run
  imports Vpn_Client_Life Vpn_Callbacks Vpn_Client_Diagnostics
begin

text \<open>
  The threads of one connection of the client, running together (\<open>run_connection\<close> of
  \<open>src/src/client/mod.rs\<close> with the loops of \<open>src/src/client/*.rs\<close>): the six workers as their own step
  functions of \<open>Vpn_Client_Workers\<close>, each with a program counter at the points where it checks the
  flags, notes the generation it may wait on, and waits; the monitor; and what the main thread does
  at the end, one task after the other. What a thread does between two of these points is one step;
  a writer takes the front of its queue and disposes of it in one, and a receive call that a signal
  interrupts is repeated within its step. Every interleaving is a run of
  \<open>client_step\<close>. The invariant of the runs is here; \<open>Vpn_Client_Shutdown\<close>, \<open>Vpn_Client_Counters\<close>
  and \<open>Vpn_Client_Result\<close> rest on it.

  The number of notifications is counted beside the generation of 64 bits, which wraps: a thread that
  noted a generation is woken unless exactly \<open>2 ^ 64\<close> notifications fall into its turn.
\<close>

section \<open>The decrypting worker in two steps\<close>

text \<open>The reading half of a turn: how the turn ends, or nothing if it goes on to inject.\<close>

definition decrypt_read :: "'w wolfssl \<Rightarrow> instant \<Rightarrow> decrypt_local \<Rightarrow> 'w client \<Rightarrow>
    turn option \<times> decrypt_local \<times> 'w client" where
  "decrypt_read W now l s =
     (case read_status W DECRYPT_BUFFER (link s) of
        (Inr (Complete n, plain), d) \<Rightarrow>
          if 0 < n
          then (case deliver plain (s\<lparr>link := d, activity := now\<rparr>) of (t, s') \<Rightarrow> (Some t, l, s'))
          else (None, l\<lparr>drain := False\<rparr>, s\<lparr>link := d, progress := signal_notify (progress s)\<rparr>)
      | (Inr (WantRead, _), d) \<Rightarrow>
          (None, l\<lparr>drain := False\<rparr>, s\<lparr>link := d, progress := signal_notify (progress s)\<rparr>)
      | (Inr (WantWrite, _), d) \<Rightarrow> (Some WaitFirst, l, s\<lparr>link := d\<rparr>)
      | (Inl e, d) \<Rightarrow> (Some EndThread, l, client_fail e (s\<lparr>link := d\<rparr>)))"

lemma client_decrypt_turn_split:
  "client_decrypt_turn W now l s =
     (if \<not> drain l then inject_next W l s
      else case decrypt_read W now l s of
          (Some t, l', s') \<Rightarrow> (t, l', s')
        | (None, l', s') \<Rightarrow> inject_next W l' s')"
  by (simp add: client_decrypt_turn_def decrypt_read_def split: prod.splits sum.splits dtls_io_result.splits)

section \<open>The monitor in two steps\<close>

text \<open>A turn up to the channel of errors, and what the channel gives.\<close>

lemma monitor_turn_split:
  "monitor_turn interval now act recv q m =
     (case monitor_turn interval now act NoError q m of
        (Some r, rest) \<Rightarrow> (Some r, rest)
      | (None, rest) \<Rightarrow>
          (case recv of GotError e \<Rightarrow> Some (Inl e) | NoError \<Rightarrow> None | Disconnected \<Rightarrow> Some (Inr ()), rest))"
  by (cases recv) (auto simp: monitor_turn_def Let_def split: prod.splits sum.splits)

section \<open>State\<close>

datatype decrypt_pc = DecryptCheck | DecryptObserve | DecryptRead "64 word" | DecryptInject "64 word"
  | DecryptWait "64 word" | DecryptEnded

datatype encrypt_pc = EncryptCheck | EncryptPeek | EncryptHold "byte list" | EncryptRun "byte list" | EncryptEnded

datatype read_pc = ReadCheck | ReadWait | ReadReceive | ReadEnded

datatype write_pc = WriteCheck | WriteTurn | WriteEnded

datatype client_queue = EncryptedRx | RawTx | TunWrite | EncTx

datatype end_task = ClearFlag | CloseQueue client_queue | NotifyProgress | JoinThread client_thread | StopEncrypt

datatype run_phase = Monitoring monitor | AwaitError monitor | Ending "end_task list"

text \<open>The lines after the loop of the monitor, in order.\<close>

definition end_tasks :: "end_task list" where
  "end_tasks =
     [ClearFlag, CloseQueue EncryptedRx, CloseQueue RawTx, CloseQueue TunWrite, CloseQueue EncTx, NotifyProgress,
      JoinThread DecryptWorker, StopEncrypt, JoinThread EncryptWorker, JoinThread UdpReader, JoinThread TunReader,
      JoinThread TunWriter, JoinThread UdpWriter]"

record 'w client_run =
  shared :: "'w client"
  run_flag :: bool
  encrypt_stop :: bool
  udp_drops :: nat
  tun_drops :: nat
  decrypt_state :: decrypt_local
  decrypt_at :: decrypt_pc
  encrypt_at :: encrypt_pc
  udp_read_at :: read_pc
  tun_read_at :: read_pc
  tun_write_at :: write_pc
  udp_write_at :: write_pc
  client_main_at :: run_phase
  notifications :: nat
  counts :: client_diagnostics
  connection_result :: "unit io_result"

definition goes_on :: "'w client_run \<Rightarrow> bool" where
  "goes_on s \<longleftrightarrow> run_flag s \<and> active (shared s)"

text \<open>A change of what the threads share; a notification of the progress signal is counted.\<close>

definition put :: "'w client \<Rightarrow> 'w client_run \<Rightarrow> 'w client_run" where
  "put c s = s\<lparr>shared := c,
     notifications := if progress c = progress (shared s) then notifications s else Suc (notifications s)\<rparr>"

text \<open>The queue of encrypted records is the one in the callback context.\<close>

definition out_queue :: "'w client \<Rightarrow> encrypted_datagram queue option" where
  "out_queue c = (case callback_io (link c) of None \<Rightarrow> None | Some io \<Rightarrow> outgoing io)"

definition set_out_queue :: "encrypted_datagram queue \<Rightarrow> 'w client \<Rightarrow> 'w client" where
  "set_out_queue q c =
     c\<lparr>link := (link c)\<lparr>callback_io := map_option (\<lambda>io. io\<lparr>outgoing := Some q\<rparr>) (callback_io (link c))\<rparr>\<rparr>"

definition with_raw_tx :: "byte list queue \<Rightarrow> 'w client \<Rightarrow> 'w client" where
  "with_raw_tx q c = c\<lparr>queues := (queues c)\<lparr>raw_tx := q\<rparr>\<rparr>"

fun close_queue :: "client_queue \<Rightarrow> 'w client \<Rightarrow> 'w client" where
  "close_queue EncryptedRx c = c\<lparr>queues := (queues c)\<lparr>encrypted_rx := close (encrypted_rx (queues c))\<rparr>\<rparr>"
| "close_queue RawTx c = with_raw_tx (close (raw_tx (queues c))) c"
| "close_queue TunWrite c = c\<lparr>queues := (queues c)\<lparr>tun_write := close (tun_write (queues c))\<rparr>\<rparr>"
| "close_queue EncTx c =
     (case out_queue c of
        None \<Rightarrow> c
      | Some q \<Rightarrow> (set_out_queue (close q) c)\<lparr>queues := (queues c)\<lparr>enc_tx := close (enc_tx (queues c))\<rparr>\<rparr>)"

text \<open>What the readers see of the shared state, and what they leave.\<close>

definition udp_view :: "'w client_run \<Rightarrow> byte list reader" where
  "udp_view s = \<lparr>reader_queue = encrypted_rx (queues (shared s)), reader_drops = udp_drops s,
     reader_active = active (shared s), reader_errors = sent_errors (shared s)\<rparr>"

definition udp_put :: "byte list reader \<Rightarrow> bool \<Rightarrow> 'w client_run \<Rightarrow> 'w client_run" where
  "udp_put r notify s = (put ((shared s)\<lparr>queues := (queues (shared s))\<lparr>encrypted_rx := reader_queue r\<rparr>,
     active := reader_active r, sent_errors := reader_errors r,
     progress := if notify then signal_notify (progress (shared s)) else progress (shared s)\<rparr>) s)
     \<lparr>udp_drops := reader_drops r\<rparr>"

definition tun_view :: "'w client_run \<Rightarrow> byte list reader" where
  "tun_view s = \<lparr>reader_queue = raw_tx (queues (shared s)), reader_drops = tun_drops s,
     reader_active = active (shared s), reader_errors = sent_errors (shared s)\<rparr>"

definition tun_put :: "byte list reader \<Rightarrow> 'w client_run \<Rightarrow> 'w client_run" where
  "tun_put r s = (put ((shared s)\<lparr>queues := (queues (shared s))\<lparr>raw_tx := reader_queue r\<rparr>,
     active := reader_active r, sent_errors := reader_errors r\<rparr>) s)\<lparr>tun_drops := reader_drops r\<rparr>"

fun thread_ended :: "client_thread \<Rightarrow> 'w client_run \<Rightarrow> bool" where
  "thread_ended DecryptWorker s \<longleftrightarrow> decrypt_at s = DecryptEnded"
| "thread_ended EncryptWorker s \<longleftrightarrow> encrypt_at s = EncryptEnded"
| "thread_ended UdpReader s \<longleftrightarrow> udp_read_at s = ReadEnded"
| "thread_ended TunReader s \<longleftrightarrow> tun_read_at s = ReadEnded"
| "thread_ended TunWriter s \<longleftrightarrow> tun_write_at s = WriteEnded"
| "thread_ended UdpWriter s \<longleftrightarrow> udp_write_at s = WriteEnded"

text \<open>One task of the main thread; joining waits until the thread has ended.\<close>

fun do_task :: "end_task \<Rightarrow> 'w client_run \<Rightarrow> 'w client_run option" where
  "do_task ClearFlag s = Some (put ((shared s)\<lparr>active := False\<rparr>) s)"
| "do_task (CloseQueue q) s = Some (put (close_queue q (shared s)) s)"
| "do_task NotifyProgress s = Some (put ((shared s)\<lparr>progress := signal_notify (progress (shared s))\<rparr>) s)"
| "do_task (JoinThread th) s = (if thread_ended th s then Some s else None)"
| "do_task StopEncrypt s = Some (put (close_queue RawTx (shared s)) s\<lparr>encrypt_stop := True\<rparr>)"

definition start_client :: "'w connection \<Rightarrow> instant \<Rightarrow> 'w client_run" where
  "start_client k now =
     \<lparr>shared = \<lparr>link = con_link k, queues = con_queues k, active = True, activity = now,
                progress = signal_new, sent_errors = []\<rparr>,
      run_flag = True, encrypt_stop = False, udp_drops = 0, tun_drops = 0,
      decrypt_state = \<lparr>waiting = None, drain = False\<rparr>,
      decrypt_at = DecryptCheck, encrypt_at = EncryptCheck, udp_read_at = ReadCheck, tun_read_at = ReadCheck,
      tun_write_at = WriteCheck, udp_write_at = WriteCheck, client_main_at = Monitoring (monitor_new now),
      notifications = 0, counts = diagnostics_default, connection_result = Inr ()\<rparr>"

section \<open>Steps\<close>

definition after_write :: "turn \<Rightarrow> write_pc" where
  "after_write t = (if t = EndThread then WriteEnded else WriteCheck)"

inductive client_step :: "'w wolfssl \<Rightarrow> duration \<Rightarrow> 'w client_run \<Rightarrow> 'w client_run \<Rightarrow> bool"
  for W interval where
  decrypt_checks:
    "decrypt_at s = DecryptCheck \<Longrightarrow>
     client_step W interval s (s\<lparr>decrypt_at := if goes_on s then DecryptObserve else DecryptEnded\<rparr>)"
| decrypt_observes:
    "decrypt_at s = DecryptObserve \<Longrightarrow> g = progress (shared s) \<Longrightarrow>
     client_step W interval s
       (s\<lparr>decrypt_at := if drain (decrypt_state s) then DecryptRead g else DecryptInject g\<rparr>)"
| decrypt_reads:
    "decrypt_at s = DecryptRead g \<Longrightarrow> decrypt_read W now (decrypt_state s) (shared s) = (t, l, c) \<Longrightarrow>
     client_step W interval s
       (put c s\<lparr>decrypt_state := l, counts := count_read W (shared s) (counts s),
          decrypt_at := (case t of None \<Rightarrow> DecryptInject g | Some GoOn \<Rightarrow> DecryptCheck
            | Some WaitFirst \<Rightarrow> DecryptWait g | Some EndThread \<Rightarrow> DecryptEnded)\<rparr>)"
| decrypt_injects:
    "decrypt_at s = DecryptInject g \<Longrightarrow> inject_next W (decrypt_state s) (shared s) = (t, l, c) \<Longrightarrow>
     client_step W interval s
       (put c s\<lparr>decrypt_state := l, counts := count_inject W (decrypt_state s) (shared s) (counts s),
          decrypt_at := (case t of GoOn \<Rightarrow> DecryptCheck | WaitFirst \<Rightarrow> DecryptWait g | EndThread \<Rightarrow> DecryptEnded)\<rparr>)"
| decrypt_wakes:
    "decrypt_at s = DecryptWait g \<Longrightarrow> signal_wait g (progress (shared s)) = Some () \<Longrightarrow>
     client_step W interval s (s\<lparr>decrypt_at := DecryptCheck\<rparr>)"
| encrypt_checks:
    "encrypt_at s = EncryptCheck \<Longrightarrow>
     client_step W interval s (s\<lparr>encrypt_at := if encrypt_stop s then EncryptEnded else EncryptPeek\<rparr>)"
| encrypt_peeks:
    "encrypt_at s = EncryptPeek \<Longrightarrow> peek (raw_tx (queues (shared s))) = Some (item, q) \<Longrightarrow>
     client_step W interval s
       (put (with_raw_tx q (shared s)) s
          \<lparr>encrypt_at := (case item of None \<Rightarrow> EncryptEnded | Some x \<Rightarrow> EncryptHold x)\<rparr>)"
| encrypt_holds:
    "encrypt_at s = EncryptHold x \<Longrightarrow>
     client_step W interval s
       (if encrypt_stop s
        then put (with_raw_tx (front_drop x (raw_tx (queues (shared s)))) (shared s)) s\<lparr>encrypt_at := EncryptEnded\<rparr>
        else s\<lparr>encrypt_at := EncryptRun x\<rparr>)"
| encrypt_runs:
    "encrypt_at s = EncryptRun x \<Longrightarrow> client_encrypt W x (shared s) = (finished, c) \<Longrightarrow>
     client_step W interval s
       (put (if finished then c else with_raw_tx (front_drop x (raw_tx (queues c))) c) s
          \<lparr>encrypt_at := EncryptCheck, counts := count_write W x (shared s) (counts s)\<rparr>)"
| udp_read_checks:
    "udp_read_at s = ReadCheck \<Longrightarrow>
     client_step W interval s (s\<lparr>udp_read_at := if goes_on s then ReadWait else ReadEnded\<rparr>)"
| udp_read_waits:
    "udp_read_at s = ReadWait \<Longrightarrow>
     client_step W interval s
       (case waited of
          Inr readable \<Rightarrow> s\<lparr>udp_read_at := if readable then ReadReceive else ReadCheck\<rparr>
        | Inl e \<Rightarrow> udp_put (reader_fail e (udp_view s)) False s\<lparr>udp_read_at := ReadEnded\<rparr>)"
| udp_receives:
    "udp_read_at s = ReadReceive \<Longrightarrow> reader_push p (udp_view s) = (ok, r) \<Longrightarrow>
     client_step W interval s (udp_put r ok s
          \<lparr>udp_read_at := if ok then ReadReceive else ReadEnded, counts := count_received (counts s)\<rparr>)"
| udp_would_block:
    "udp_read_at s = ReadReceive \<Longrightarrow> client_step W interval s (s\<lparr>udp_read_at := ReadCheck\<rparr>)"
| udp_receive_fails:
    "udp_read_at s = ReadReceive \<Longrightarrow> kind e \<noteq> WouldBlock \<Longrightarrow> kind e \<noteq> Interrupted \<Longrightarrow>
     client_step W interval s (udp_put (reader_fail e (udp_view s)) False s\<lparr>udp_read_at := ReadEnded\<rparr>)"
| tun_read_checks:
    "tun_read_at s = ReadCheck \<Longrightarrow>
     client_step W interval s (s\<lparr>tun_read_at := if goes_on s then ReadWait else ReadEnded\<rparr>)"
| tun_reads:
    "tun_read_at s = ReadWait \<Longrightarrow> client_tun_read_turn polled packet (tun_view s) = (ok, r) \<Longrightarrow>
     client_step W interval s (tun_put r s
          \<lparr>tun_read_at := if ok then ReadCheck else ReadEnded, counts := count_tun_read polled packet ok (counts s)\<rparr>)"
| tun_write_checks:
    "tun_write_at s = WriteCheck \<Longrightarrow>
     client_step W interval s (s\<lparr>tun_write_at := if goes_on s then WriteTurn else WriteEnded\<rparr>)"
| tun_writes:
    "tun_write_at s = WriteTurn \<Longrightarrow> client_tun_write_turn (goes_on s) wrote (shared s) = Some (t, c) \<Longrightarrow>
     client_step W interval s (put c s
          \<lparr>tun_write_at := after_write t, counts := count_tun_write (goes_on s) wrote (shared s) (counts s)\<rparr>)"
| udp_write_checks:
    "udp_write_at s = WriteCheck \<Longrightarrow>
     client_step W interval s (s\<lparr>udp_write_at := if goes_on s then WriteTurn else WriteEnded\<rparr>)"
| udp_writes:
    "udp_write_at s = WriteTurn \<Longrightarrow> out_queue (shared s) = Some q \<Longrightarrow>
     client_udp_write_turn now (goes_on s) sent q (shared s) = Some (t, q', c) \<Longrightarrow>
     client_step W interval s (put (set_out_queue q' c) s\<lparr>udp_write_at := after_write t\<rparr>)"
| monitors:
    "client_main_at s = Monitoring m \<Longrightarrow> goes_on s \<Longrightarrow>
     monitor_turn interval now (activity (shared s)) NoError (raw_tx (queues (shared s))) m = (r, queued, q, m') \<Longrightarrow>
     client_step W interval s
       (put (with_raw_tx q (shared s)) s
          \<lparr>tun_drops := tun_drops s + keepalive_drops queued (raw_tx (queues (shared s))),
           client_main_at := (case r of None \<Rightarrow> AwaitError m' | Some _ \<Rightarrow> Ending end_tasks),
           connection_result := (case r of None \<Rightarrow> connection_result s | Some result \<Rightarrow> result)\<rparr>)"
| monitor_receives:
    "client_main_at s = AwaitError m \<Longrightarrow> sent_errors (shared s) = e # es \<Longrightarrow>
     client_step W interval s (s\<lparr>client_main_at := Ending end_tasks, connection_result := Inl e\<rparr>)"
| monitor_times_out:
    "client_main_at s = AwaitError m \<Longrightarrow> sent_errors (shared s) = [] \<Longrightarrow>
     client_step W interval s (s\<lparr>client_main_at := Monitoring m\<rparr>)"
| monitor_ends:
    "client_main_at s = Monitoring m \<Longrightarrow> \<not> goes_on s \<Longrightarrow>
     client_step W interval s (s\<lparr>client_main_at := Ending end_tasks\<rparr>)"
| main_ends:
    "client_main_at s = Ending (task # tasks) \<Longrightarrow> do_task task s = Some s' \<Longrightarrow>
     client_step W interval s (s'\<lparr>client_main_at := Ending tasks\<rparr>)"
| signalled:
    "run_flag s \<Longrightarrow> client_step W interval s (s\<lparr>run_flag := False\<rparr>)"

section \<open>What a step leaves behind\<close>

text \<open>
  How the shared state may change: the flag is only cleared, queues are only closed, one notification
  and one error at most, and who sends an error clears the flag.
\<close>

fun queue_closed :: "client_queue \<Rightarrow> 'w client \<Rightarrow> bool" where
  "queue_closed EncryptedRx c \<longleftrightarrow> closed (encrypted_rx (queues c))"
| "queue_closed RawTx c \<longleftrightarrow> closed (raw_tx (queues c))"
| "queue_closed TunWrite c \<longleftrightarrow> closed (tun_write (queues c))"
| "queue_closed EncTx c \<longleftrightarrow> queueing closed (link c)"

definition evolves :: "'w client \<Rightarrow> 'w client \<Rightarrow> bool" where
  "evolves c c' \<longleftrightarrow>
     progress c' \<in> {progress c, progress c + 1} \<and> (active c' \<longrightarrow> active c)
     \<and> (\<forall>q. queue_closed q c \<longrightarrow> queue_closed q c') \<and> (queueing (\<lambda>_. True) (link c) \<longrightarrow> queueing (\<lambda>_. True) (link c'))
     \<and> (sent_errors c' = sent_errors c \<or> (\<exists>e. sent_errors c' = sent_errors c @ [e] \<and> \<not> active c'))"

lemma all_client_queues: "(\<forall>q. P q) \<longleftrightarrow> P EncryptedRx \<and> P RawTx \<and> P TunWrite \<and> P EncTx"
  by (metis client_queue.exhaust)

lemma evolves_refl [simp]: "evolves c c"
  by (simp add: evolves_def)

lemma queueing_out_queue: "queueing P (link c) \<longleftrightarrow> (\<exists>q. out_queue c = Some q \<and> P q)"
  by (auto simp: queueing_def queue_keeps_def out_queue_def split: option.splits)

lemma queueing_set_out_queue: "queueing P (link (set_out_queue q c)) \<longleftrightarrow> callback_io (link c) \<noteq> None \<and> P q"
  by (auto simp: queueing_def queue_keeps_def set_out_queue_def split: option.splits)

lemma callback_io_out_queue: "out_queue c = Some q \<Longrightarrow> callback_io (link c) \<noteq> None"
  by (auto simp: out_queue_def split: option.splits)

lemma out_queue_simps [simp]:
  "out_queue (c\<lparr>queues := qs\<rparr>) = out_queue c" "out_queue (c\<lparr>active := b\<rparr>) = out_queue c"
  "queues (set_out_queue q c) = queues c" "active (set_out_queue q c) = active c"
  "progress (set_out_queue q c) = progress c" "sent_errors (set_out_queue q c) = sent_errors c"
  by (simp_all add: out_queue_def set_out_queue_def)

lemma out_queue_set: "out_queue c = Some q \<Longrightarrow> out_queue (set_out_queue q' c) = Some q'"
  by (auto simp: out_queue_def set_out_queue_def split: option.splits)

lemma out_queue_link: "link c' = link c \<Longrightarrow> out_queue c' = out_queue c"
  by (simp add: out_queue_def)

lemma closed_queue_operations [simp]:
  "closed q \<Longrightarrow> closed (snd (try_pop q))" "closed q \<Longrightarrow> peek q = Some (None, q)" "closed q \<Longrightarrow> front_drop x q = q"
  by (auto simp: try_pop_def peek_def front_drop_def split: prod.splits option.splits)

lemma try_pop_closed: "try_pop q = (r, q') \<Longrightarrow> closed q' = closed q"
  by (auto simp: try_pop_def split: prod.splits option.splits)

lemma peek_closed: "peek q = Some (r, q') \<Longrightarrow> closed q' = closed q"
  by (auto simp: peek_def split: prod.splits if_splits)

lemma front_drop_closed [simp]: "closed (front_drop x q) = closed q"
  by (simp add: front_drop_def)

lemma push_keeps_closed [simp]: "closed (snd (push x q)) = closed q"
  by (auto simp: push_def Let_def split: prod.splits)

lemma push_closedD: "push x q = (r, q') \<Longrightarrow> closed q' = closed q"
  using push_keeps_closed [of x q] by simp

text \<open>What a DTLS call does to the connection, by the contract with wolfSSL.\<close>

lemma link_evolves:
  assumes "calls_back W" "read_status W n (link c) = (r1, d) \<or> write_status W data (link c) = (r2, d) \<or> inject W data (link c) = (r3, d)"
  shows "queueing closed (link c) \<Longrightarrow> queueing closed d" "queueing (\<lambda>_. True) (link c) \<Longrightarrow> queueing (\<lambda>_. True) d"
proof -
  have keep: "queueing P (link c) \<Longrightarrow> (\<And>x q. P q \<Longrightarrow> P (snd (push x q))) \<Longrightarrow> queueing P d" for P
    using assms(2) read_queueing [OF assms(1), of P "link c" n r1 d] write_queueing [OF assms(1), of P "link c" data r2 d]
      inject_queueing [of P "link c" W data r3 d] by blast
  show "queueing closed (link c) \<Longrightarrow> queueing closed d" by (rule keep) simp_all
  show "queueing (\<lambda>_. True) (link c) \<Longrightarrow> queueing (\<lambda>_. True) d" by (rule keep) simp_all
qed

lemmas evolves_simps = evolves_def all_client_queues signal_notify_def client_fail_def with_raw_tx_def

lemma deliver_evolves:
  assumes "deliver plain c = (t, c')"
  shows "evolves c c'" "t \<noteq> WaitFirst"
  using assms by (auto simp: deliver_def evolves_simps dest: push_closedD split: option.splits prod.splits sum.splits)

lemma evolves_link:
  assumes "evolves (c\<lparr>link := d\<rparr>) c'" "queueing closed (link c) \<Longrightarrow> queueing closed d"
    "queueing (\<lambda>_. True) (link c) \<Longrightarrow> queueing (\<lambda>_. True) d"
  shows "evolves c c'"
  using assms by (auto simp: evolves_def all_client_queues)

lemma decrypt_read_evolves:
  assumes "calls_back W" "decrypt_read W now l c = (t, l', c')"
  shows "evolves c c'"
proof -
  obtain r d where rd: "read_status W DECRYPT_BUFFER (link c) = (r, d)" by (metis surj_pair)
  note L = link_evolves [OF assms(1), of DECRYPT_BUFFER c r d, OF disjI1 [OF rd]]
  have del: "evolves (c\<lparr>link := d\<rparr>) c'" if "deliver plain (c\<lparr>link := d, activity := now\<rparr>) = (u, c')" for plain u
    using deliver_evolves(1) [OF that] by (simp add: evolves_def all_client_queues)
  have "evolves (c\<lparr>link := d\<rparr>) c'"
    using assms(2) rd del
    by (auto simp: decrypt_read_def evolves_simps split: sum.splits prod.splits dtls_io_result.splits if_splits)
  then show ?thesis using L by (rule evolves_link)
qed

lemma inject_next_evolves:
  assumes "calls_back W" "inject_next W l c = (t, l', c')"
  shows "evolves c c'"
proof -
  obtain r q where pop: "(case waiting l of Some packet \<Rightarrow> (Inr packet, encrypted_rx (queues c))
      | None \<Rightarrow> try_pop (encrypted_rx (queues c))) = (r, q)" by (metis surj_pair)
  then have q: "closed q = closed (encrypted_rx (queues c))"
    by (auto split: option.splits dest: try_pop_closed)
  show ?thesis
  proof (cases r)
    case (Inl e)
    then show ?thesis using assms(2) pop by (cases e) (auto simp: inject_next_def)
  next
    case (Inr packet)
    obtain r d where i: "inject W packet (link c) = (r, d)" by (metis surj_pair)
    note L = link_evolves [OF assms(1), of DECRYPT_BUFFER c _ d packet _ r, OF disjI2 [OF disjI2 [OF i]]]
    have "evolves (c\<lparr>link := d\<rparr>) c'"
      using assms(2) pop Inr i q
      by (auto simp: inject_next_def Let_def evolves_simps split: sum.splits bool.splits)
    then show ?thesis using L by (rule evolves_link)
  qed
qed

lemma client_encrypt_evolves:
  assumes "calls_back W" "client_encrypt W x c = (finished, c')"
  shows "evolves c c'"
proof (cases "active c")
  case False
  then show ?thesis using assms(2) by (simp add: client_encrypt_def)
next
  case True
  obtain r d where w: "write_status W x (link c) = (r, d)" by (metis surj_pair)
  note L = link_evolves [OF assms(1), of DECRYPT_BUFFER c _ d x r, OF disjI2 [OF disjI1 [OF w]]]
  have "evolves (c\<lparr>link := d\<rparr>) c'"
    using assms(2) True w
    by (auto simp: client_encrypt_def evolves_simps split: sum.splits dtls_io_result.splits)
  then show ?thesis using L by (rule evolves_link)
qed

lemma client_tun_write_evolves:
  "client_tun_write_turn still wrote c = Some (t, c') \<Longrightarrow> evolves c c'"
  by (auto simp: client_tun_write_turn_def Let_def evolves_simps dest: peek_closed
      split: option.splits prod.splits sum.splits if_splits)

lemma client_udp_write_evolves:
  assumes "client_udp_write_turn now still sent q c = Some (t, q', c')" "out_queue c = Some q"
  shows "evolves c (set_out_queue q' c')"
proof -
  have "closed q' = closed q" "link c' = link c" "queues c' = queues c" "progress c' \<in> {progress c, progress c + 1}"
    "active c' \<longrightarrow> active c" "sent_errors c' = sent_errors c \<or> (\<exists>e. sent_errors c' = sent_errors c @ [e] \<and> \<not> active c')"
    using assms(1)
    by (auto simp: client_udp_write_turn_def Let_def signal_notify_def client_fail_def dest: peek_closed
        split: option.splits prod.splits sum.splits if_splits)
  moreover from this have "out_queue (set_out_queue q' c') = Some q'"
    using assms(2) out_queue_link [of c' c] out_queue_set by metis
  ultimately show ?thesis using assms(2) by (auto simp: evolves_def all_client_queues queueing_out_queue)
qed

lemma close_queue_evolves: "evolves c (close_queue q c)" "queueing (\<lambda>_. True) (link c) \<Longrightarrow> queue_closed q (close_queue q c)"
proof -
  have out: "out_queue (set_out_queue (close p) c) = Some (close p)" if "out_queue c = Some p" for p
    using out_queue_set [OF that] .
  show "evolves c (close_queue q c)"
    by (cases q) (auto simp: evolves_simps close_def [of "_ :: byte list queue"] queueing_out_queue out split: option.splits)
  show "queue_closed q (close_queue q c)" if "queueing (\<lambda>_. True) (link c)"
    using that by (cases q) (auto simp: with_raw_tx_def queueing_out_queue out)
qed

section \<open>The invariant\<close>

fun noted_generation :: "decrypt_pc \<Rightarrow> 64 word option" where
  "noted_generation (DecryptRead g) = Some g"
| "noted_generation (DecryptInject g) = Some g"
| "noted_generation (DecryptWait g) = Some g"
| "noted_generation pc = None"

text \<open>What a task leaves true: after the notification, a waiting worker noted an older generation.\<close>

fun task_done :: "end_task \<Rightarrow> 'w client_run \<Rightarrow> bool" where
  "task_done ClearFlag s \<longleftrightarrow> \<not> active (shared s)"
| "task_done (CloseQueue q) s \<longleftrightarrow> queue_closed q (shared s)"
| "task_done NotifyProgress s \<longleftrightarrow>
     (\<forall>g. decrypt_at s = DecryptWait g \<longrightarrow> (\<exists>k < notifications s. g = word_of_nat k))"
| "task_done (JoinThread th) s \<longleftrightarrow> thread_ended th s"
| "task_done StopEncrypt s \<longleftrightarrow> encrypt_stop s"

definition tasks_inv :: "'w client_run \<Rightarrow> bool" where
  "tasks_inv s \<longleftrightarrow>
     (case client_main_at s of
        Ending tasks \<Rightarrow> suffix tasks end_tasks \<and> (\<forall>task \<in> set end_tasks - set tasks. task_done task s)
      | _ \<Rightarrow> True)"

definition run_inv :: "'w client_run \<Rightarrow> bool" where
  "run_inv s \<longleftrightarrow>
     queueing (\<lambda>_. True) (link (shared s)) \<and> progress (shared s) = word_of_nat (notifications s)
     \<and> (\<forall>g. noted_generation (decrypt_at s) = Some g \<longrightarrow> (\<exists>k \<le> notifications s. g = word_of_nat k))
     \<and> tun_read_at s \<noteq> ReadReceive \<and> tasks_inv s"

text \<open>What every step keeps, whichever thread takes it.\<close>

definition moves :: "'w client_run \<Rightarrow> 'w client_run \<Rightarrow> bool" where
  "moves s t \<longleftrightarrow> evolves (shared s) (shared t)
     \<and> notifications t = (if progress (shared t) = progress (shared s) then notifications s else Suc (notifications s))
     \<and> (\<forall>th. thread_ended th s \<longrightarrow> thread_ended th t) \<and> (encrypt_stop s \<longrightarrow> encrypt_stop t)"

lemma all_client_threads:
  "(\<forall>th. P th) \<longleftrightarrow> P DecryptWorker \<and> P EncryptWorker \<and> P UdpReader \<and> P TunReader \<and> P TunWriter \<and> P UdpWriter"
  by (metis client_thread.exhaust)

lemma put_simps [simp]:
  "shared (put c s) = c" "encrypt_stop (put c s) = encrypt_stop s" "run_flag (put c s) = run_flag s"
  "decrypt_at (put c s) = decrypt_at s" "encrypt_at (put c s) = encrypt_at s" "udp_read_at (put c s) = udp_read_at s"
  "tun_read_at (put c s) = tun_read_at s" "tun_write_at (put c s) = tun_write_at s"
  "udp_write_at (put c s) = udp_write_at s" "client_main_at (put c s) = client_main_at s"
  "notifications (put c s) = (if progress c = progress (shared s) then notifications s else Suc (notifications s))"
  "decrypt_state (put c s) = decrypt_state s"
  by (simp_all add: put_def)

lemma udp_put_evolves:
  assumes "reader_push p (udp_view s) = (ok, r) \<or> r = reader_fail e (udp_view s)"
  shows "evolves (shared s) (shared (udp_put r notify s))"
  using assms
  by (auto simp: udp_put_def udp_view_def reader_push_def reader_fail_def evolves_simps queueing_out_queue
      dest: push_closedD split: prod.splits sum.splits option.splits)

lemma tun_put_evolves:
  assumes "client_tun_read_turn polled packet (tun_view s) = (ok, r)"
  shows "evolves (shared s) (shared (tun_put r s))"
  using assms
  by (auto simp: tun_put_def tun_view_def client_tun_read_turn_def reader_push_def reader_fail_def evolves_simps
      queueing_out_queue dest: push_closedD split: prod.splits sum.splits option.splits if_splits list.splits bool.splits)

lemma udp_put_simps [simp]:
  "encrypt_stop (udp_put r b s) = encrypt_stop s" "decrypt_at (udp_put r b s) = decrypt_at s"
  "encrypt_at (udp_put r b s) = encrypt_at s" "udp_read_at (udp_put r b s) = udp_read_at s"
  "tun_read_at (udp_put r b s) = tun_read_at s" "tun_write_at (udp_put r b s) = tun_write_at s"
  "udp_write_at (udp_put r b s) = udp_write_at s" "client_main_at (udp_put r b s) = client_main_at s"
  "run_flag (udp_put r b s) = run_flag s"
  "notifications (udp_put r b s) =
     (if progress (shared (udp_put r b s)) = progress (shared s) then notifications s else Suc (notifications s))"
  by (simp_all add: udp_put_def)

lemma tun_put_simps [simp]:
  "encrypt_stop (tun_put r s) = encrypt_stop s" "decrypt_at (tun_put r s) = decrypt_at s"
  "encrypt_at (tun_put r s) = encrypt_at s" "udp_read_at (tun_put r s) = udp_read_at s"
  "tun_read_at (tun_put r s) = tun_read_at s" "tun_write_at (tun_put r s) = tun_write_at s"
  "udp_write_at (tun_put r s) = udp_write_at s" "client_main_at (tun_put r s) = client_main_at s"
  "run_flag (tun_put r s) = run_flag s"
  "notifications (tun_put r s) =
     (if progress (shared (tun_put r s)) = progress (shared s) then notifications s else Suc (notifications s))"
  by (simp_all add: tun_put_def)

lemma with_raw_tx_evolves: "closed q = closed (raw_tx (queues c)) \<Longrightarrow> evolves c (with_raw_tx q c)"
  by (simp add: evolves_simps queueing_out_queue)

lemma monitor_turn_closed: "monitor_turn interval now act recv q m = (r, queued, q', m') \<Longrightarrow> closed q' = closed q"
  by (auto simp: monitor_turn_def Let_def dest: push_closedD split: if_splits prod.splits sum.splits option.splits received.splits)

lemma evolves_trans:
  "evolves c d \<Longrightarrow> evolves d e \<Longrightarrow> progress e = progress d \<Longrightarrow> sent_errors e = sent_errors d \<Longrightarrow> active e = active d \<Longrightarrow>
   evolves c e"
  by (auto simp: evolves_def)

lemma do_task_moves:
  assumes "do_task task s = Some s'"
  shows "moves s (s'\<lparr>client_main_at := m\<rparr>)"
proof (cases task)
  case ClearFlag
  have "evolves (shared s) ((shared s)\<lparr>active := False\<rparr>)" by (simp add: evolves_simps queueing_out_queue)
  then show ?thesis using assms ClearFlag by (auto simp: moves_def all_client_threads)
next
  case (CloseQueue q)
  then show ?thesis using assms close_queue_evolves(1) [of "shared s" q] by (auto simp: moves_def all_client_threads)
next
  case NotifyProgress
  have "evolves (shared s) ((shared s)\<lparr>progress := signal_notify (progress (shared s))\<rparr>)"
    by (simp add: evolves_simps queueing_out_queue)
  then show ?thesis using assms NotifyProgress by (auto simp: moves_def all_client_threads)
next
  case (JoinThread th)
  then show ?thesis using assms by (auto simp: moves_def all_client_threads split: if_splits)
next
  case StopEncrypt
  then show ?thesis using assms close_queue_evolves(1) [of "shared s" RawTx] by (auto simp: moves_def all_client_threads)
qed

lemma client_step_moves:
  assumes "calls_back W" "client_step W interval s t"
  shows "moves s t"
  using assms(2)
proof cases
  case (decrypt_reads g now u l c)
  then show ?thesis using decrypt_read_evolves [OF assms(1) decrypt_reads(3)] by (simp add: moves_def all_client_threads)
next
  case (decrypt_injects g u l c)
  then show ?thesis using inject_next_evolves [OF assms(1) decrypt_injects(3)] by (simp add: moves_def all_client_threads)
next
  case (encrypt_peeks item q)
  then show ?thesis using with_raw_tx_evolves [OF peek_closed [OF encrypt_peeks(3)]] by (simp add: moves_def all_client_threads)
next
  case (encrypt_holds x)
  then show ?thesis using with_raw_tx_evolves [of "front_drop x (raw_tx (queues (shared s)))" "shared s"]
    by (simp add: moves_def all_client_threads)
next
  case (encrypt_runs x finished c)
  have "evolves c (with_raw_tx (front_drop x (raw_tx (queues c))) c)" by (rule with_raw_tx_evolves) simp
  then have "evolves (shared s) (with_raw_tx (front_drop x (raw_tx (queues c))) c)"
    by (rule evolves_trans [OF client_encrypt_evolves [OF assms(1) encrypt_runs(3)]]) (simp_all add: with_raw_tx_def)
  then show ?thesis using encrypt_runs client_encrypt_evolves [OF assms(1) encrypt_runs(3)] by (simp add: moves_def all_client_threads)
next
  case (udp_read_waits waited)
  have "evolves (shared s) (shared (udp_put (reader_fail e (udp_view s)) False s))" for e
    by (rule udp_put_evolves [OF disjI2 [OF refl]])
  then show ?thesis using udp_read_waits by (auto simp: moves_def all_client_threads split: sum.splits)
next
  case (udp_receives p ok r)
  then show ?thesis using udp_put_evolves [of p s ok r] by (simp add: moves_def all_client_threads)
next
  case (udp_receive_fails e)
  then show ?thesis using udp_put_evolves [of _ s _ "reader_fail e (udp_view s)" e] by (simp add: moves_def all_client_threads)
next
  case (tun_reads polled packet ok r)
  then show ?thesis using tun_put_evolves [of polled packet s ok r] by (simp add: moves_def all_client_threads)
next
  case (tun_writes wrote u c)
  then show ?thesis using client_tun_write_evolves by (fastforce simp: moves_def all_client_threads)
next
  case (udp_writes q now sent u q' c)
  then show ?thesis using client_udp_write_evolves [OF udp_writes(4,3)] by (simp add: moves_def all_client_threads)
next
  case (monitors m now r queued q m')
  then show ?thesis using with_raw_tx_evolves [OF monitor_turn_closed [OF monitors(4)]] by (simp add: moves_def all_client_threads)
next
  case (main_ends task tasks s')
  then show ?thesis using do_task_moves by simp
qed (simp_all add: moves_def all_client_threads)

text \<open>Who waits, and on what: only the injecting half makes the worker wait, on an empty open queue.\<close>

lemma inject_next_waits: "inject_next W l c = (WaitFirst, l', c') \<Longrightarrow> \<not> closed (encrypted_rx (queues c)) \<and> c' = c"
  by (auto simp: inject_next_def Let_def try_pop_def pop_front_def
      split: option.splits sum.splits prod.splits bool.splits try_pop_error.splits list.splits if_splits)

lemma decrypt_read_waits:
  assumes "calls_back W" "queueing P (link c)" "decrypt_read W now l c = (t, l', c')"
  shows "t \<noteq> Some WaitFirst"
proof -
  obtain r d where rd: "read_status W DECRYPT_BUFFER (link c) = (r, d)" by (metis surj_pair)
  have "r \<noteq> Inr (WantWrite, bytes)" for bytes by (rule queued_read_never_wants_write [OF assms(1,2) rd])
  moreover have "u \<noteq> WaitFirst" if "deliver plain c1 = (u, c2)" for plain c1 u and c2 :: "'a client"
    by (rule deliver_evolves(2) [OF that])
  ultimately show ?thesis
    using assms(3) rd
    by (auto simp: decrypt_read_def split: sum.splits prod.splits dtls_io_result.splits if_splits)
qed

lemma decrypt_pc_step:
  assumes "client_step W interval s t" "calls_back W" "queueing (\<lambda>_. True) (link (shared s))"
  shows "noted_generation (decrypt_at t) \<in> {None, noted_generation (decrypt_at s), Some (progress (shared s))}"
    and "decrypt_at t = DecryptWait g \<Longrightarrow> decrypt_at s = DecryptWait g \<or> \<not> closed (encrypted_rx (queues (shared s)))"
proof -
  have "noted_generation (decrypt_at t) \<in> {None, noted_generation (decrypt_at s), Some (progress (shared s))}
    \<and> (\<forall>g. decrypt_at t = DecryptWait g \<longrightarrow> decrypt_at s = DecryptWait g \<or> \<not> closed (encrypted_rx (queues (shared s))))"
    using assms(1)
  proof cases
    case (decrypt_reads g now u l c)
    then show ?thesis
      using decrypt_read_waits [OF assms(2,3) decrypt_reads(3)] by (auto split: option.splits turn.splits)
  next
    case (decrypt_injects g u l c)
    then show ?thesis using inject_next_waits [of W "decrypt_state s" "shared s" l c] by (cases u) auto
  next
    case (main_ends task tasks s')
    then have "decrypt_at s' = decrypt_at s" by (cases task) (auto split: if_splits)
    then show ?thesis using main_ends by simp
  qed (auto split: if_splits sum.splits)
  then show "noted_generation (decrypt_at t) \<in> {None, noted_generation (decrypt_at s), Some (progress (shared s))}"
    "decrypt_at t = DecryptWait g \<Longrightarrow> decrypt_at s = DecryptWait g \<or> \<not> closed (encrypted_rx (queues (shared s)))"
    by blast+
qed

text \<open>The order of the tasks, read off the list.\<close>

lemma end_tasks_suffix:
  assumes "suffix tasks end_tasks"
  shows "NotifyProgress \<notin> set tasks \<Longrightarrow> CloseQueue q \<notin> set tasks"
    and "tasks = JoinThread th # rest \<Longrightarrow> NotifyProgress \<notin> set tasks"
    and "tasks = task # rest \<Longrightarrow> set end_tasks - set rest = insert task (set end_tasks - set tasks)"
proof -
  have d: "distinct end_tasks" by (simp add: end_tasks_def)
  obtain front where e: "end_tasks = front @ tasks" using assms by (auto simp: suffix_def)
  show "set end_tasks - set rest = insert task (set end_tasks - set tasks)" if "tasks = task # rest"
    using d that unfolding e by auto
  have all: "tasks \<in> set (suffixes end_tasks)" using assms by simp
  show "NotifyProgress \<notin> set tasks \<Longrightarrow> CloseQueue q \<notin> set tasks"
    using all by (auto simp: end_tasks_def)
  show "tasks = JoinThread th # rest \<Longrightarrow> NotifyProgress \<notin> set tasks"
    using all by (auto simp: end_tasks_def)
qed

lemma task_done_moves:
  assumes "moves s t" "task_done task s"
    and "task = NotifyProgress \<Longrightarrow> \<forall>g. decrypt_at t = DecryptWait g \<longrightarrow> decrypt_at s = DecryptWait g"
  shows "task_done task t"
proof (cases task)
  case NotifyProgress
  have n: "notifications s \<le> notifications t" using assms(1) by (simp add: moves_def)
  show ?thesis using assms(2,3) NotifyProgress n by (fastforce intro: less_le_trans)
qed (use assms(1,2) in \<open>auto simp: moves_def evolves_def\<close>)

lemma do_task_done:
  assumes "do_task task s = Some s'" "run_inv s"
  shows "task_done task (s'\<lparr>client_main_at := m\<rparr>)"
proof (cases task)
  case (CloseQueue q)
  then show ?thesis using assms close_queue_evolves(2) by (auto simp: run_inv_def)
next
  case NotifyProgress
  have "\<exists>k \<le> notifications s. g = word_of_nat k" if "decrypt_at s = DecryptWait g" for g
    using assms(2) that by (simp add: run_inv_def)
  then show ?thesis using assms(1) NotifyProgress by (auto simp: signal_notify_def less_Suc_eq_le)
next
  case (JoinThread th)
  then show ?thesis using assms(1) by (cases th) (auto split: if_splits)
qed (use assms in \<open>auto split: if_splits\<close>)

lemma client_main_step:
  assumes "client_step W interval s t"
  obtains (same) "client_main_at t = client_main_at s" | (monitoring) m where "client_main_at t = Monitoring m"
    | (awaiting) m where "client_main_at t = AwaitError m"
    | (ending) "client_main_at t = Ending end_tasks"
    | (did) task tasks s' where "client_main_at s = Ending (task # tasks)" "do_task task s = Some s'"
        "t = s'\<lparr>client_main_at := Ending tasks\<rparr>"
  using assms
proof cases
  case (monitors m now r queued q m')
  then show ?thesis using awaiting ending by (cases r) auto
next
  case (udp_read_waits waited)
  then show ?thesis using same by (cases waited) auto
qed (use same did ending monitoring in \<open>auto split: if_splits\<close>)

lemma do_task_fields:
  assumes "do_task task s = Some s'"
  shows "run_flag s' = run_flag s" "decrypt_at s' = decrypt_at s" "encrypt_at s' = encrypt_at s"
    "udp_read_at s' = udp_read_at s" "tun_read_at s' = tun_read_at s" "tun_write_at s' = tun_write_at s"
    "udp_write_at s' = udp_write_at s"
  using assms by (cases task; auto split: if_splits)+

lemma tun_read_pc_step:
  assumes "client_step W interval s t" "tun_read_at s \<noteq> ReadReceive"
  shows "tun_read_at t \<noteq> ReadReceive"
  using assms(1)
proof cases
  case (main_ends task tasks s')
  then show ?thesis using assms(2) do_task_fields [OF main_ends(3)] by simp
qed (use assms(2) in \<open>auto split: if_splits sum.splits\<close>)

lemma run_inv_step:
  assumes "calls_back W" "client_step W interval s t" "run_inv s"
  shows "run_inv t"
proof -
  note m = client_step_moves [OF assms(1,2)]
  have out: "queueing (\<lambda>_. True) (link (shared s))" using assms(3) by (simp add: run_inv_def)
  note pc = decrypt_pc_step [OF assms(2,1) out]
  have p: "progress (shared s) = word_of_nat (notifications s)" using assms(3) by (simp add: run_inv_def)
  have n: "notifications s \<le> notifications t" using m by (simp add: moves_def)
  have "progress (shared t) = word_of_nat (notifications t)"
    using m p by (auto simp: moves_def evolves_def)
  moreover have "queueing (\<lambda>_. True) (link (shared t))" using m out by (simp add: moves_def evolves_def)
  moreover have "\<exists>k \<le> notifications t. g = word_of_nat k" if "noted_generation (decrypt_at t) = Some g" for g
  proof -
    have "noted_generation (decrypt_at s) = Some g \<or> g = progress (shared s)" using pc(1) that by auto
    then have "\<exists>k \<le> notifications s. g = word_of_nat k" using assms(3) p by (auto simp: run_inv_def)
    then show ?thesis using n le_trans by blast
  qed
  moreover have "tun_read_at t \<noteq> ReadReceive" by (rule tun_read_pc_step [OF assms(2)]) (use assms(3) in \<open>simp add: run_inv_def\<close>)
  moreover have "tasks_inv t"
  proof -
    have keep: "task_done task t" if "client_main_at s = Ending tasks" "task \<in> set end_tasks - set tasks" for task tasks
    proof -
      have inv: "suffix tasks end_tasks" "\<forall>task \<in> set end_tasks - set tasks. task_done task s"
        using assms(3) that(1) by (simp_all add: run_inv_def tasks_inv_def)
      show ?thesis
      proof (rule task_done_moves [OF m])
        show "task_done task s" using inv(2) that(2) by blast
      next
        assume "task = NotifyProgress"
        then have "CloseQueue EncryptedRx \<notin> set tasks" using end_tasks_suffix(1) [OF inv(1)] that(2) by simp
        moreover have "CloseQueue EncryptedRx \<in> set end_tasks" by (simp add: end_tasks_def)
        ultimately have "task_done (CloseQueue EncryptedRx) s" using inv(2) by blast
        then show "\<forall>g. decrypt_at t = DecryptWait g \<longrightarrow> decrypt_at s = DecryptWait g" using pc(2) by auto
      qed
    qed
    show ?thesis
      using assms(2)
    proof (cases rule: client_main_step)
      case same
      then show ?thesis using keep assms(3) by (auto simp: tasks_inv_def run_inv_def split: run_phase.splits)
    next
      case (did task tasks s')
      have inv: "suffix (task # tasks) end_tasks" using assms(3) did(1) by (simp add: run_inv_def tasks_inv_def)
      have new: "task_done task t" unfolding did(3) by (rule do_task_done [OF did(2) assms(3)])
      have "task_done x t" if "x \<in> set end_tasks - set tasks" for x
      proof (cases "x = task")
        case False
        then have "x \<in> set end_tasks - set (task # tasks)" using that by simp
        then show ?thesis by (rule keep [OF did(1)])
      qed (simp add: new)
      moreover have "client_main_at t = Ending tasks" using did(3) by simp
      ultimately show ?thesis using suffix_ConsD [OF inv] by (simp add: tasks_inv_def)
    qed (simp_all add: tasks_inv_def)
  qed
  ultimately show ?thesis by (simp add: run_inv_def)
qed

section \<open>The encrypting worker\<close>

text \<open>
  The steps of the encrypting thread are those of the loop of \<open>spawn_scan_peek\<close> in \<open>Vpn_Worker\<close>, which
  the thread is, on the queue of plain packets with the closure's answer.
\<close>

definition runs_worker :: "'w client_run \<Rightarrow> byte list worker \<Rightarrow> bool" where
  "runs_worker s w \<longleftrightarrow>
     buffer (wsys w) = raw_tx (queues (shared s)) \<and> wstop w = encrypt_stop s
     \<and> (case encrypt_at s of
          EncryptCheck \<Rightarrow> wpc w = Start
        | EncryptPeek \<Rightarrow> wpc w = Taking
        | EncryptHold x \<Rightarrow> wpc w = Taken (Some x)
        | EncryptRun x \<Rightarrow> \<exists>g. wpc w = Run x g
        | EncryptEnded \<Rightarrow> wpc w = Finished)"

definition scan_step :: "'a worker \<Rightarrow> 'a worker \<Rightarrow> bool" where
  "scan_step w w' \<longleftrightarrow> (\<exists>ok. spawn_scan_peek_step ok w = Some w')"

lemma client_encrypt_raw_tx: "client_encrypt W x c = (finished, c') \<Longrightarrow> raw_tx (queues c') = raw_tx (queues c)"
  by (auto simp: client_encrypt_def client_fail_def split: if_splits prod.splits sum.splits dtls_io_result.splits)

lemma encrypt_thread_refines_worker:
  assumes "client_step W interval s t" "encrypt_at t \<noteq> encrypt_at s" "runs_worker s w"
  shows "\<exists>w'. scan_step\<^sup>*\<^sup>* w w' \<and> runs_worker t w'"
  using assms(1)
proof cases
  case encrypt_checks
  then have "scan_step w (w\<lparr>wpc := if wstop w then Finished else Taking\<rparr>)"
    using assms(3) by (simp add: runs_worker_def scan_step_def)
  then show ?thesis using encrypt_checks assms(3) by (auto simp: runs_worker_def)
next
  case (encrypt_peeks item q)
  let ?w = "w\<lparr>wsys := (wsys w)\<lparr>buffer := q, reserved := item\<rparr>, wpc := Taken item\<rparr>"
  have step: "scan_step w ?w"
    using encrypt_peeks assms(3) by (simp add: runs_worker_def scan_step_def take_peek_def)
  show ?thesis
  proof (cases item)
    case None
    have "scan_step ?w (?w\<lparr>wpc := Finished\<rparr>)" using None by (simp add: scan_step_def)
    then have "scan_step\<^sup>*\<^sup>* w (?w\<lparr>wpc := Finished\<rparr>)" using step by (meson r_into_rtranclp rtranclp.rtrancl_into_rtrancl)
    moreover have "runs_worker t (?w\<lparr>wpc := Finished\<rparr>)"
      using encrypt_peeks assms(3) None by (simp add: runs_worker_def with_raw_tx_def)
    ultimately show ?thesis by blast
  next
    case (Some x)
    then have "runs_worker t ?w" using encrypt_peeks assms(3) by (simp add: runs_worker_def with_raw_tx_def)
    then show ?thesis using step by blast
  qed
next
  case (encrypt_holds x)
  let ?w = "if wstop w then w\<lparr>wsys := restore_front x (wsys w), wpc := Finished\<rparr> else w\<lparr>wpc := Run x (wsignal w)\<rparr>"
  have "scan_step w ?w" using encrypt_holds assms(3) by (simp add: runs_worker_def scan_step_def)
  moreover have "runs_worker t ?w"
    using encrypt_holds assms(3) by (auto simp: runs_worker_def with_raw_tx_def restore_front_def)
  ultimately show ?thesis by blast
next
  case (encrypt_runs x finished c)
  let ?w = "w\<lparr>process_calls := process_calls w @ [x], wpc := Start,
    wsys := if finished then commit_front x (wsys w) else restore_front x (wsys w)\<rparr>"
  have "scan_step w ?w"
    using encrypt_runs assms(3) by (auto simp: runs_worker_def scan_step_def intro: exI [of _ finished])
  moreover have "runs_worker t ?w"
    using encrypt_runs assms(3) client_encrypt_raw_tx [OF encrypt_runs(3)]
    by (auto simp: runs_worker_def with_raw_tx_def restore_front_def commit_front_def)
  ultimately show ?thesis by blast
next
  case (udp_read_waits waited)
  then show ?thesis using assms(2) by (cases waited) simp_all
next
  case (main_ends task tasks s')
  then show ?thesis using assms(2) do_task_fields(3) [OF main_ends(3)] by simp
qed (use assms(2) in simp_all)

end
