(* ===== verification/Vpn_Client_Shutdown.thy ===== *)
theory Vpn_Client_Shutdown
  imports Vpn_Client_Run
begin

text \<open>
  The end of a connection of the client: no thread waits for something that nobody sends any more. Once
  the main thread has cleared the flag and closed the queues, every step of any thread lowers a rank,
  and a thread that is being joined can always move until it has ended.
\<close>

section \<open>The end\<close>

text \<open>The main thread has cleared the flag and closed the queues.\<close>

definition client_stopping :: "'w client_run \<Rightarrow> bool" where
  "client_stopping s \<longleftrightarrow> (\<exists>tasks. client_main_at s = Ending tasks \<and> length tasks \<le> 8)"

fun decrypt_rank :: "decrypt_pc \<Rightarrow> nat" where
  "decrypt_rank DecryptObserve = 5"
| "decrypt_rank (DecryptRead g) = 4"
| "decrypt_rank (DecryptInject g) = 3"
| "decrypt_rank (DecryptWait g) = 2"
| "decrypt_rank DecryptCheck = 1"
| "decrypt_rank DecryptEnded = 0"

fun encrypt_rank :: "encrypt_pc \<Rightarrow> nat" where
  "encrypt_rank (EncryptHold x) = 4"
| "encrypt_rank (EncryptRun x) = 3"
| "encrypt_rank EncryptCheck = 2"
| "encrypt_rank EncryptPeek = 1"
| "encrypt_rank EncryptEnded = 0"

fun read_rank :: "read_pc \<Rightarrow> nat" where
  "read_rank ReadWait = 3"
| "read_rank ReadReceive = 2"
| "read_rank ReadCheck = 1"
| "read_rank ReadEnded = 0"

fun write_rank :: "write_pc \<Rightarrow> nat" where
  "write_rank WriteTurn = 2"
| "write_rank WriteCheck = 1"
| "write_rank WriteEnded = 0"

definition main_rank :: "run_phase \<Rightarrow> nat" where
  "main_rank m = (case m of Ending tasks \<Rightarrow> length tasks | _ \<Rightarrow> 0)"

definition run_rank :: "'w client_run \<Rightarrow> nat" where
  "run_rank s = (if run_flag s then 1 else 0) + decrypt_rank (decrypt_at s) + encrypt_rank (encrypt_at s)
     + read_rank (udp_read_at s) + read_rank (tun_read_at s) + write_rank (tun_write_at s)
     + write_rank (udp_write_at s) + main_rank (client_main_at s)"

lemma stopping_closed:
  assumes "client_stopping s" "run_inv s"
  shows "\<not> goes_on s" "queue_closed q (shared s)"
proof -
  obtain tasks where t: "client_main_at s = Ending tasks" "length tasks \<le> 8" using assms(1) by (auto simp: client_stopping_def)
  have inv: "suffix tasks end_tasks" "\<forall>task \<in> set end_tasks - set tasks. task_done task s"
    using assms(2) t(1) by (simp_all add: run_inv_def tasks_inv_def)
  have "tasks \<in> set (suffixes end_tasks)" using inv(1) by simp
  then have "ClearFlag \<notin> set tasks" "CloseQueue q \<notin> set tasks" using t(2) by (auto simp: end_tasks_def)
  moreover have "ClearFlag \<in> set end_tasks" "CloseQueue q \<in> set end_tasks" by (cases q; simp add: end_tasks_def)+
  ultimately have "task_done ClearFlag s" "task_done (CloseQueue q) s" using inv(2) by blast+
  then show "\<not> goes_on s" "queue_closed q (shared s)" by (simp_all add: goes_on_def)
qed

lemma stopping_step:
  assumes "calls_back W" "client_step W interval s t" "run_inv s" "client_stopping s"
  shows "client_stopping t \<and> run_rank t < run_rank s"
proof -
  note off = stopping_closed [OF assms(4,3)]
  show ?thesis
    using assms(2)
  proof cases
    case (decrypt_reads g now u l c)
    then show ?thesis using assms(4) by (auto simp: run_rank_def client_stopping_def split: option.splits turn.splits)
  next
    case (decrypt_injects g u l c)
    then show ?thesis using assms(4) by (auto simp: run_rank_def client_stopping_def split: turn.splits)
  next
    case (encrypt_peeks item q)
    then have "item = None" using off(2) [of RawTx] by simp
    then show ?thesis using encrypt_peeks assms(4) by (simp add: run_rank_def client_stopping_def)
  next
    case (udp_read_waits waited)
    then show ?thesis using assms(4) by (auto simp: run_rank_def client_stopping_def split: sum.splits)
  next
    case (udp_receives p ok r)
    then have "\<not> ok" using off(2) [of EncryptedRx] by (auto simp: reader_push_def udp_view_def push_def)
    then show ?thesis using udp_receives assms(4) by (simp add: run_rank_def client_stopping_def)
  next
    case (monitors m now r queued q m')
    then show ?thesis using off by simp
  next
    case (main_ends task tasks s')
    then show ?thesis
      using assms(4) do_task_fields [OF main_ends(3)] by (auto simp: run_rank_def client_stopping_def main_rank_def)
  qed (use assms(4) off in \<open>auto simp: run_rank_def after_write_def client_stopping_def main_rank_def split: if_splits\<close>)
qed

interpretation client_ending: ending_phase "client_step W interval" "\<lambda>s. calls_back W \<and> run_inv s \<and> client_stopping s" run_rank
  for W interval
  by unfold_locales (use run_inv_step stopping_step in blast)

lemma run_rank_bound:
  assumes "client_stopping s"
  shows "run_rank s \<le> 28"
proof -
  have "decrypt_rank (decrypt_at s) \<le> 5" by (cases "decrypt_at s") auto
  moreover have "encrypt_rank (encrypt_at s) \<le> 4" by (cases "encrypt_at s") auto
  moreover have "read_rank (udp_read_at s) \<le> 3" by (cases "udp_read_at s") auto
  moreover have "read_rank (tun_read_at s) \<le> 3" by (cases "tun_read_at s") auto
  moreover have "write_rank (tun_write_at s) \<le> 2" by (cases "tun_write_at s") auto
  moreover have "write_rank (udp_write_at s) \<le> 2" by (cases "udp_write_at s") auto
  moreover have "main_rank (client_main_at s) \<le> 8" using assms by (auto simp: client_stopping_def main_rank_def)
  ultimately show ?thesis by (simp add: run_rank_def)
qed

text \<open>Nothing blocks: a thread that is joined but has not ended can move.\<close>

lemma client_thread_can_move:
  assumes "client_stopping s" "run_inv s" "\<not> thread_ended th s"
    and "\<And>g. decrypt_at s = DecryptWait g \<Longrightarrow> g \<noteq> progress (shared s)"
  shows "\<exists>t. client_step W interval s t"
proof (cases th)
  case UdpReader
  show ?thesis
  proof (cases "udp_read_at s")
    case ReadCheck
    then show ?thesis using client_step.udp_read_checks by blast
  next
    case ReadWait
    then show ?thesis using client_step.udp_read_waits by blast
  next
    case ReadReceive
    then show ?thesis using client_step.udp_would_block by blast
  qed (use UdpReader assms(3) in simp)
next
  case TunReader
  show ?thesis
  proof (cases "tun_read_at s")
    case ReadCheck
    then show ?thesis using client_step.tun_read_checks by blast
  next
    case ReadWait
    have "client_tun_read_turn (Inr False) (Inr []) (tun_view s) = (True, tun_view s)" by (simp add: client_tun_read_turn_def)
    then show ?thesis using client_step.tun_reads [OF ReadWait] by blast
  next
    case ReadReceive
    then show ?thesis using assms(2) by (simp add: run_inv_def)
  qed (use TunReader assms(3) in simp)
next
  case DecryptWorker
  show ?thesis
  proof (cases "decrypt_at s")
    case DecryptCheck
    then show ?thesis using client_step.decrypt_checks by blast
  next
    case DecryptObserve
    then show ?thesis using client_step.decrypt_observes by blast
  next
    case (DecryptRead g)
    obtain t l c where "decrypt_read W 0 (decrypt_state s) (shared s) = (t, l, c)" by (metis prod_cases3)
    then show ?thesis using client_step.decrypt_reads [OF DecryptRead] by blast
  next
    case (DecryptInject g)
    obtain t l c where "inject_next W (decrypt_state s) (shared s) = (t, l, c)" by (metis prod_cases3)
    then show ?thesis using client_step.decrypt_injects [OF DecryptInject] by blast
  next
    case (DecryptWait g)
    then show ?thesis using client_step.decrypt_wakes [OF DecryptWait] assms(4) by (auto simp: signal_wait_def)
  qed (use DecryptWorker assms(3) in simp)
next
  case EncryptWorker
  show ?thesis
  proof (cases "encrypt_at s")
    case EncryptPeek
    have "closed (raw_tx (queues (shared s)))" using stopping_closed(2) [OF assms(1,2), of RawTx] by simp
    then show ?thesis using client_step.encrypt_peeks [OF EncryptPeek] by fastforce
  next
    case (EncryptRun x)
    obtain b c where "client_encrypt W x (shared s) = (b, c)" by (metis surj_pair)
    then show ?thesis using client_step.encrypt_runs [OF EncryptRun] by blast
  next
    case EncryptCheck
    then show ?thesis using client_step.encrypt_checks by blast
  next
    case (EncryptHold x)
    then show ?thesis using client_step.encrypt_holds by blast
  qed (use EncryptWorker assms(3) in simp)
next
  case TunWriter
  show ?thesis
  proof (cases "tun_write_at s")
    case WriteTurn
    have "closed (tun_write (queues (shared s)))" using stopping_closed(2) [OF assms(1,2), of TunWrite] by simp
    then have "client_tun_write_turn (goes_on s) (Inr 0) (shared s) = Some (EndThread, shared s)"
      by (simp add: client_tun_write_turn_def)
    then show ?thesis using client_step.tun_writes [OF WriteTurn] by blast
  next
    case WriteCheck
    then show ?thesis using client_step.tun_write_checks by blast
  qed (use TunWriter assms(3) in simp)
next
  case UdpWriter
  show ?thesis
  proof (cases "udp_write_at s")
    case WriteTurn
    obtain q where q: "out_queue (shared s) = Some q" "closed q"
      using stopping_closed(2) [OF assms(1,2), of EncTx] by (auto simp: queueing_out_queue)
    then have "client_udp_write_turn 0 (goes_on s) (Inr 0) q (shared s) = Some (EndThread, q, shared s)"
      by (simp add: client_udp_write_turn_def)
    then show ?thesis using client_step.udp_writes [OF WriteTurn q(1)] by blast
  next
    case WriteCheck
    then show ?thesis using client_step.udp_write_checks by blast
  qed (use UdpWriter assms(3) in simp)
qed

lemma client_never_blocks:
  assumes "client_stopping s" "run_inv s" "client_main_at s \<noteq> Ending []" "notifications s < 2 ^ 64"
  shows "\<exists>t. client_step W interval s t"
proof -
  obtain task rest where m: "client_main_at s = Ending (task # rest)"
    using assms(1,3) by (auto simp: client_stopping_def neq_Nil_conv)
  have inv: "suffix (task # rest) end_tasks" "\<forall>x \<in> set end_tasks - set (task # rest). task_done x s"
    using assms(2) m by (simp_all add: run_inv_def tasks_inv_def)
  show ?thesis
  proof (cases "do_task task s")
    case (Some s')
    then show ?thesis using client_step.main_ends [OF m] by blast
  next
    case None
    then obtain th where th: "task = JoinThread th" "\<not> thread_ended th s" by (cases task) (auto split: if_splits)
    have "NotifyProgress \<notin> set (task # rest)" by (rule end_tasks_suffix(2) [OF inv(1)]) (simp add: th(1))
    moreover have "NotifyProgress \<in> set end_tasks" by (simp add: end_tasks_def)
    ultimately have notified: "task_done NotifyProgress s" using inv(2) by blast
    have "g \<noteq> progress (shared s)" if w: "decrypt_at s = DecryptWait g" for g
    proof -
      obtain k where k: "k < notifications s" "g = word_of_nat k" using notified w by auto
      have "unat (word_of_nat k :: 64 word) = k" "unat (word_of_nat (notifications s) :: 64 word) = notifications s"
        using k(1) assms(4) by (simp_all add: unat_of_nat)
      then show ?thesis using assms(2) k by (auto simp: run_inv_def)
    qed
    then show ?thesis using client_thread_can_move [OF assms(1,2) th(2)] by blast
  qed
qed

lemma all_ended:
  assumes "run_inv s" "client_main_at s = Ending []"
  shows "thread_ended th s"
proof -
  have "JoinThread th \<in> set end_tasks" by (cases th) (simp_all add: end_tasks_def)
  moreover have "\<forall>task \<in> set end_tasks. task_done task s" using assms by (simp add: run_inv_def tasks_inv_def)
  ultimately have "task_done (JoinThread th) s" by blast
  then show ?thesis by simp
qed

lemma notifications_steps:
  assumes "calls_back W" "client_step W interval s t"
  shows "notifications t \<le> Suc (notifications s)"
  using client_step_moves [OF assms] by (simp add: moves_def)

lemma notifications_run:
  assumes "calls_back W"
  shows "(client_step W interval ^^ n) s t \<Longrightarrow> notifications t \<le> notifications s + n"
proof (induction n arbitrary: t)
  case (Suc n)
  then obtain u where "(client_step W interval ^^ n) s u" "client_step W interval u t" by auto
  then show ?case using Suc.IH notifications_steps [OF assms, of interval u t] by fastforce
qed simp

lemma open_connection_queueing:
  assumes "open_connection W d = Inr k"
  shows "queueing (\<lambda>_. True) (con_link k)"
proof (cases client_queues_new)
  case (Inl e)
  show ?thesis using assms unfolding open_connection_def Inl and_then_def by simp
next
  case qs: (Inr qs)
  obtain u d' where u: "use_queued_send (enc_tx qs) signal_new (disable_callback_receive W d) = (u, d')" by (metis surj_pair)
  have "queueing (\<lambda>_. True) d'" if "u = Inr ()"
    using u that
    by (auto simp: use_queued_send_def with_io_def io_use_queued_send_def queueing_def queue_keeps_def split: option.splits)
  then show ?thesis using assms unfolding open_connection_def qs and_then_def by (cases u) (auto simp: u)
qed

lemma start_client_inv: "open_connection W d = Inr k \<Longrightarrow> run_inv (start_client k now)"
  using open_connection_queueing by (simp add: run_inv_def start_client_def tasks_inv_def signal_new_def)

interpretation client_running: step_invariant "client_step W interval" "\<lambda>s. calls_back W \<longrightarrow> run_inv s" for W interval
  by unfold_locales (blast intro: run_inv_step)

text \<open>
  The tasks together, when nothing is left to wait for: what \<open>close_connection\<close> of \<open>Vpn_Client_Life\<close> does
  at once.
\<close>

fun do_tasks :: "end_task list \<Rightarrow> 'w client_run \<Rightarrow> 'w client_run option" where
  "do_tasks [] s = Some s"
| "do_tasks (task # tasks) s = (case do_task task s of None \<Rightarrow> None | Some s' \<Rightarrow> do_tasks tasks s')"

lemma do_task_main:
  "do_task task s = Some s' \<Longrightarrow> do_task task (s\<lparr>client_main_at := m\<rparr>) = Some (s'\<lparr>client_main_at := m\<rparr>)"
  by (cases task) (auto simp: put_def all_client_threads split: if_splits elim!: thread_ended.elims)

lemma do_tasks_main:
  "do_tasks ts s = Some s' \<Longrightarrow> do_tasks ts (s\<lparr>client_main_at := m\<rparr>) = Some (s'\<lparr>client_main_at := m\<rparr>)"
proof (induction ts s rule: do_tasks.induct)
  case (2 task tasks s)
  then obtain u where "do_task task s = Some u" "do_tasks tasks u = Some s'" by (auto split: option.splits)
  then show ?case using 2(1) do_task_main [of task s u m] by simp
qed simp

lemma do_tasks_steps:
  "client_main_at s = Ending (ts @ tasks) \<Longrightarrow> do_tasks ts s = Some s' \<Longrightarrow>
     (client_step W interval)\<^sup>*\<^sup>* s (s'\<lparr>client_main_at := Ending tasks\<rparr>)"
proof (induction ts arbitrary: s s')
  case (Cons task ts)
  obtain u where u: "do_task task s = Some u" "do_tasks ts u = Some s'" using Cons.prems(2) by (auto split: option.splits)
  let ?u = "u\<lparr>client_main_at := Ending (ts @ tasks)\<rparr>"
  have "(client_step W interval)\<^sup>*\<^sup>* ?u (s'\<lparr>client_main_at := Ending tasks\<rparr>)"
    using Cons.IH [of ?u] do_tasks_main [OF u(2)] by simp
  moreover have "client_step W interval s ?u"
    using Cons.prems(1) by (intro client_step.main_ends [OF _ u(1)]) simp
  ultimately show ?case by (rule converse_rtranclp_into_rtranclp [rotated])
next
  case Nil
  then have "s'\<lparr>client_main_at := Ending tasks\<rparr> = s" by (intro client_run.equality) simp_all
  then show ?case by simp
qed

lemma do_tasks_close_connection:
  assumes "\<forall>th. thread_ended th s" "queueing (\<lambda>_. True) (link (shared s))"
  shows "\<exists>s'. do_tasks end_tasks s = Some s' \<and> \<not> active (shared s') \<and> encrypt_stop s'
    \<and> queues (shared s') = client_queues_close (queues (shared s))
    \<and> progress (shared s') = signal_notify (progress (shared s))"
proof -
  obtain q where "out_queue (shared s) = Some q" using assms(2) by (auto simp: queueing_out_queue)
  then show ?thesis
    using assms(1)
    by (simp add: end_tasks_def all_client_threads with_raw_tx_def client_queues_close_def close_def)
qed

text \<open>The main thread alone runs its first tasks, down to those that wait.\<close>

lemma first_tasks_run:
  assumes "client_main_at s = Ending (ts @ tasks)" "\<forall>task \<in> set ts. \<exists>q. task \<in> {ClearFlag, CloseQueue q}"
  shows "\<exists>t. (client_step W interval)\<^sup>*\<^sup>* s t \<and> client_main_at t = Ending tasks
    \<and> decrypt_at t = decrypt_at s \<and> notifications t = notifications s"
  using assms
proof (induction ts arbitrary: s)
  case (Cons task ts)
  have p: "progress (close_queue q c) = progress c" for q and c :: "'a client"
    by (cases q) (auto simp: with_raw_tx_def split: option.splits)
  obtain s' where s': "do_task task s = Some s'" "decrypt_at s' = decrypt_at s" "notifications s' = notifications s"
    using Cons.prems(2) p by fastforce
  let ?u = "s'\<lparr>client_main_at := Ending (ts @ tasks)\<rparr>"
  have step: "client_step W interval s ?u" using Cons.prems(1) by (intro client_step.main_ends [OF _ s'(1)]) simp
  obtain t where "(client_step W interval)\<^sup>*\<^sup>* ?u t" "client_main_at t = Ending tasks"
    "decrypt_at t = decrypt_at s" "notifications t = notifications s"
    using Cons.IH [of ?u] Cons.prems(2) s'(2,3) by auto
  then show ?case using step by (meson converse_rtranclp_into_rtranclp)
qed auto

section \<open>Properties\<close>

text \<open>
  C20: Once the main thread of the client has closed the queues of a connection, the connection ends in
  every interleaving of its seven threads: at most 28 more steps happen, nothing blocks on the way
  (every wait is on a closed queue, on a timeout, or on a notification that comes), and when the main
  thread has joined the last thread all six have ended. wolfSSL is assumed to reach the callback
  context only through its callbacks, and to want to write only if the sending callback answered so,
  which the code's callback never does; fewer than \<open>2 ^ 64\<close> notifications are assumed.
\<close>

theorem client_shutdown_completes:
  assumes "calls_back W" "open_connection W d = Inr k"
    and "(client_step W interval)\<^sup>*\<^sup>* (start_client k now) s" "client_stopping s" "notifications s + 28 < 2 ^ 64"
  shows "(\<forall>n t. (client_step W interval ^^ n) s t \<longrightarrow> n \<le> 28)
    \<and> (\<forall>t. (client_step W interval)\<^sup>*\<^sup>* s t \<and> client_main_at t \<noteq> Ending [] \<longrightarrow> (\<exists>u. client_step W interval t u))
    \<and> (\<forall>t. (client_step W interval)\<^sup>*\<^sup>* s t \<and> client_main_at t = Ending [] \<longrightarrow> (\<forall>th. thread_ended th t))"
proof -
  have phase: "calls_back W \<and> run_inv s \<and> client_stopping s"
    using client_running.steps_preserve [OF assms(3)] start_client_inv [OF assms(2)] assms(1,4) by blast
  have bound: "n \<le> 28" if "(client_step W interval ^^ n) s t" for n t
    using client_ending.phase_bound [OF that phase] run_rank_bound [OF assms(4)] by linarith
  have later: "run_inv t \<and> client_stopping t \<and> notifications t < 2 ^ 64" if run: "(client_step W interval)\<^sup>*\<^sup>* s t" for t
  proof -
    obtain n where n: "(client_step W interval ^^ n) s t" using rtranclp_imp_relpowp [OF run] by blast
    have "notifications t \<le> notifications s + 28"
      using notifications_run [OF assms(1) n] bound [OF n] by linarith
    then show ?thesis using client_ending.phase_stays [OF run phase] assms(5) by simp
  qed
  show ?thesis using bound later client_never_blocks all_ended by blast
qed

theorem client_shutdown_completes_witness:
  "\<exists>s :: byte list list client_run. client_stopping s \<and> decrypt_at s = DecryptWait 0
     \<and> (\<forall>n t. (client_step example_wolf (seconds 20) ^^ n) s t \<longrightarrow> n \<le> 28)"
proof -
  let ?d = "example_dtls\<lparr>callback_io := Some (dtls_io_new_client example_peer)\<rparr>"
  obtain k where k: "open_connection example_wolf ?d = Inr k" using example_open_connection by blast
  then have qs: "Inr (con_queues k) = client_queues_new"
    by (auto simp: open_connection_def client_queues_new_def client_queue_new_def queue_new_def QUEUE_CAPACITY_def
        use_queued_send_def with_io_def disable_callback_receive_def)
  let ?step = "client_step example_wolf (seconds 20)" and ?s0 = "start_client k 0"
  let ?s1 = "?s0\<lparr>decrypt_at := DecryptObserve\<rparr>"
  let ?s2 = "?s1\<lparr>decrypt_at := DecryptInject 0\<rparr>"
  let ?s3 = "put (shared ?s2) ?s2\<lparr>decrypt_state := decrypt_state ?s2,
    counts := count_inject example_wolf (decrypt_state ?s2) (shared ?s2) (counts ?s2), decrypt_at := DecryptWait 0\<rparr>"
  let ?s4 = "?s3\<lparr>run_flag := False\<rparr>"
  let ?s5 = "?s4\<lparr>client_main_at := Ending end_tasks\<rparr>"
  have "?step ?s0 ?s1" using client_step.decrypt_checks [of ?s0] by (simp add: start_client_def goes_on_def)
  moreover have "?step ?s1 ?s2"
    using client_step.decrypt_observes [of ?s1 0] by (simp add: start_client_def signal_new_def)
  moreover have "?step ?s2 ?s3"
  proof -
    have "items (encrypted_rx (con_queues k)) = []" "\<not> closed (encrypted_rx (con_queues k))"
      using qs by (auto simp: client_queues_new_def client_queue_new_def queue_new_def QUEUE_CAPACITY_def)
    then have "inject_next example_wolf (decrypt_state ?s2) (shared ?s2) = (WaitFirst, decrypt_state ?s2, shared ?s2)"
      by (simp add: inject_next_def start_client_def try_pop_def pop_front_def)
    then show ?thesis using client_step.decrypt_injects [of ?s2 0 example_wolf] by fastforce
  qed
  moreover have "?step ?s3 ?s4" using client_step.signalled [of ?s3] by (simp add: start_client_def)
  moreover have "?step ?s4 ?s5" using client_step.monitor_ends [of ?s4] by (simp add: start_client_def goes_on_def)
  ultimately have run5: "?step\<^sup>*\<^sup>* ?s0 ?s5" by (meson rtranclp.rtrancl_refl rtranclp.rtrancl_into_rtrancl)
  obtain ts tasks where split: "end_tasks = ts @ tasks" "\<forall>task \<in> set ts. \<exists>q. task \<in> {ClearFlag, CloseQueue q}" "length tasks = 8"
    by (rule that [of "take 5 end_tasks" "drop 5 end_tasks"]) (simp_all add: end_tasks_def)
  obtain s where s: "?step\<^sup>*\<^sup>* ?s5 s" "client_main_at s = Ending tasks" "decrypt_at s = DecryptWait 0" "notifications s = 0"
    using first_tasks_run [of ?s5 ts tasks example_wolf "seconds 20"] split(1,2) by (auto simp: start_client_def)
  have stop: "client_stopping s" using s(2) split(3) by (simp add: client_stopping_def)
  have "notifications s + 28 < 2 ^ 64" using s(4) by simp
  then show ?thesis
    using client_shutdown_completes [OF example_wolf_calls_back k rtranclp_trans [OF run5 s(1)] stop] stop s(3) by blast
qed

end
