(* ===== verification/Vpn_Client_Counters.thy ===== *)
theory Vpn_Client_Counters
  imports Vpn_Client_Run
begin

text \<open>
  What the counters of the client say, in every interleaving of its threads: datagrams that wait or
  were dropped had been received, and packets that wait for the device or were written to it had been
  read as records of the DTLS connection.
\<close>

definition received_load :: "decrypt_local \<Rightarrow> 'w client \<Rightarrow> nat" where
  "received_load l c = length (items (encrypted_rx (queues c))) + length (opt_list (waiting l))"

definition device_load :: "'w client \<Rightarrow> nat" where
  "device_load c = length (items (tun_write (queues c)))"

definition counted :: "'w client_run \<Rightarrow> bool" where
  "counted s \<longleftrightarrow>
     udp_drops s + received_load (decrypt_state s) (shared s) \<le> udp_read (counts s)
     \<and> tun_write_count (counts s) + device_load (shared s) \<le> dtls_read_ok (counts s)
     \<and> icmp_echo_reply (counts s) = 0"

section \<open>The queues\<close>

lemma close_length [simp]: "length (items (close q)) \<le> length (items q)"
  by (simp add: close_def)

lemma front_drop_length: "length (items (front_drop x q)) \<le> Suc (length (items q))"
  by (auto simp: front_drop_def Let_def)

lemma peek_length: "peek q = Some (Some x, q') \<Longrightarrow> length (items q) = Suc (length (items q'))"
  by (auto simp: peek_def pop_front_def split: prod.splits if_splits list.splits)

lemma peek_none_length: "peek q = Some (None, q') \<Longrightarrow> length (items q') = length (items q)"
  by (auto simp: peek_def pop_front_def split: prod.splits if_splits list.splits)

lemma try_pop_length: "try_pop q = (Inr x, q') \<Longrightarrow> length (items q) = Suc (length (items q'))"
  by (auto simp: try_pop_def pop_front_def split: prod.splits if_splits list.splits option.splits)

text \<open>A push adds one entry, or drops one for it.\<close>

lemma push_length:
  "push x q = (r, q') \<Longrightarrow>
     length (items q') \<le> length (items q) + (case r of Inr None \<Rightarrow> 1 | _ \<Rightarrow> 0)"
  by (auto simp: push_def pop_front_def Let_def split: prod.splits if_splits list.splits option.splits)

section \<open>The turns\<close>

lemmas counter_definitions = received_load_def device_load_def client_fail_def with_raw_tx_def

lemma deliver_load:
  assumes "deliver plain c = (t, c')"
  shows "device_load c' \<le> Suc (device_load c)" "encrypted_rx (queues c') = encrypted_rx (queues c)"
proof -
  have "length (items q) \<le> Suc (length (items (tun_write (queues c))))" if "push p (tun_write (queues c)) = (r, q)" for p r q
    using push_length [OF that] by (simp split: sum.splits option.splits)
  then show "device_load c' \<le> Suc (device_load c)"
    using assms by (auto simp: deliver_def device_load_def split: option.splits prod.splits sum.splits)
  show "encrypted_rx (queues c') = encrypted_rx (queues c)"
    using assms by (auto simp: deliver_def split: option.splits prod.splits sum.splits)
qed

lemma decrypt_read_load:
  assumes "decrypt_read W now l c = (t, l', c')"
  shows "received_load l' c' = received_load l c"
    and "dtls_read_ok d + device_load c' \<le> dtls_read_ok (count_read W c d) + device_load c"
proof -
  obtain r k where rd: "read_status W DECRYPT_BUFFER (link c) = (r, k)" by (metis surj_pair)
  note del = deliver_load [of _ "c\<lparr>link := k, activity := now\<rparr>"]
  show "received_load l' c' = received_load l c"
    using assms rd del(2)
    by (auto simp: decrypt_read_def counter_definitions split: sum.splits prod.splits dtls_io_result.splits if_splits)
  have "device_load c' \<le> Suc (device_load c)"
    if "deliver plain (c\<lparr>link := k, activity := now\<rparr>) = (u, c')" for plain u
    using del(1) [OF that] by (simp add: device_load_def)
  then show "dtls_read_ok d + device_load c' \<le> dtls_read_ok (count_read W c d) + device_load c"
    using assms rd
    by (auto simp: decrypt_read_def count_read_def counter_definitions
        split: sum.splits prod.splits dtls_io_result.splits if_splits)
qed

lemma inject_next_load:
  assumes "inject_next W l c = (t, l', c')"
  shows "received_load l' c' \<le> received_load l c" "device_load c' = device_load c"
proof -
  have "datagrams_left l c = turn_injected W l c @ datagrams_left l' c'" "tun_write (queues c') = tun_write (queues c)"
    using inject_next_conserves [OF assms] by simp_all
  then have "length (datagrams_left l' c') \<le> length (datagrams_left l c)" by simp
  then show "received_load l' c' \<le> received_load l c" by (simp add: datagrams_left_def received_load_def)
  show "device_load c' = device_load c" using \<open>tun_write (queues c') = _\<close> by (simp add: device_load_def)
qed

lemma client_encrypt_load:
  assumes "client_encrypt W x c = (finished, c')"
  shows "received_load l c' \<le> received_load l c" "device_load c' = device_load c"
  using assms
  by (auto simp: client_encrypt_def counter_definitions split: if_splits prod.splits sum.splits dtls_io_result.splits)

lemma client_tun_write_load:
  assumes "client_tun_write_turn still wrote c = Some (t, c')"
  shows "received_load l c' = received_load l c"
    and "tun_write_count (count_tun_write still wrote c d) + device_load c' \<le> tun_write_count d + device_load c"
proof -
  show "received_load l c' = received_load l c"
    using assms
    by (auto simp: client_tun_write_turn_def counter_definitions Let_def split: option.splits prod.splits sum.splits if_splits)
  show "tun_write_count (count_tun_write still wrote c d) + device_load c' \<le> tun_write_count d + device_load c"
    using assms peek_length [of "tun_write (queues c)"] front_drop_length
    by (fastforce simp: client_tun_write_turn_def count_tun_write_def counter_definitions Let_def
        split: option.splits prod.splits sum.splits if_splits)
qed

lemma client_udp_write_load:
  assumes "client_udp_write_turn now still sent q c = Some (t, q', c')"
  shows "received_load l (set_out_queue p c') = received_load l c" "device_load (set_out_queue p c') = device_load c"
  using assms
  by (auto simp: client_udp_write_turn_def counter_definitions Let_def split: option.splits prod.splits sum.splits if_splits)

lemma udp_push_load:
  assumes "reader_push p (udp_view s) = (ok, r)"
  shows "reader_drops r + length (items (reader_queue r)) \<le> Suc (udp_drops s + length (items (encrypted_rx (queues (shared s)))))"
  using assms push_length [of p "encrypted_rx (queues (shared s))"]
  by (auto simp: reader_push_def udp_view_def split: prod.splits sum.splits option.splits)

lemma close_queue_load:
  "received_load l (close_queue q c) \<le> received_load l c" "device_load (close_queue q c) \<le> device_load c"
  by (cases q; auto simp: counter_definitions split: option.splits)+

section \<open>The runs\<close>

lemma load_simps [simp]:
  "received_load l (with_raw_tx q c) = received_load l c" "device_load (with_raw_tx q c) = device_load c"
  "received_load l (c\<lparr>active := b\<rparr>) = received_load l c" "device_load (c\<lparr>active := b\<rparr>) = device_load c"
  "received_load l (c\<lparr>progress := g\<rparr>) = received_load l c" "device_load (c\<lparr>progress := g\<rparr>) = device_load c"
  by (simp_all add: counter_definitions)

lemma put_fields [simp]:
  "udp_drops (put c s) = udp_drops s" "counts (put c s) = counts s" "counts (udp_put r b s) = counts s"
  "counts (tun_put r s) = counts s" "decrypt_state (udp_put r b s) = decrypt_state s"
  "decrypt_state (tun_put r s) = decrypt_state s" "udp_drops (tun_put r s) = udp_drops s"
  "udp_drops (udp_put r b s) = reader_drops r"
  "device_load (shared (udp_put r b s)) = device_load (shared s)"
  "device_load (shared (tun_put r s)) = device_load (shared s)"
  "received_load l (shared (tun_put r s)) = received_load l (shared s)"
  "received_load l (shared (udp_put r b s)) = length (items (reader_queue r)) + length (opt_list (waiting l))"
  by (simp_all add: put_def udp_put_def tun_put_def counter_definitions)

lemma reader_fail_load [simp]:
  "reader_drops (reader_fail e (udp_view s)) = udp_drops s"
  "length (items (reader_queue (reader_fail e (udp_view s)))) \<le> length (items (encrypted_rx (queues (shared s))))"
  by (simp_all add: reader_fail_def udp_view_def)

text \<open>Every step adds at least as much to what was received as to what waits.\<close>

lemma count_simps [simp]:
  "udp_read (count_received d) = Suc (udp_read d)" "tun_write_count (count_received d) = tun_write_count d"
  "dtls_read_ok (count_received d) = dtls_read_ok d" "icmp_echo_reply (count_received d) = icmp_echo_reply d"
  "udp_read (count_tun_read polled packet ok d) = udp_read d"
  "tun_write_count (count_tun_read polled packet ok d) = tun_write_count d"
  "dtls_read_ok (count_tun_read polled packet ok d) = dtls_read_ok d"
  "icmp_echo_reply (count_tun_read polled packet ok d) = icmp_echo_reply d"
  "udp_read (count_read W c d) = udp_read d" "tun_write_count (count_read W c d) = tun_write_count d"
  "icmp_echo_reply (count_read W c d) = icmp_echo_reply d"
  "udp_read (count_inject W l c d) = udp_read d" "tun_write_count (count_inject W l c d) = tun_write_count d"
  "dtls_read_ok (count_inject W l c d) = dtls_read_ok d" "icmp_echo_reply (count_inject W l c d) = icmp_echo_reply d"
  "udp_read (count_tun_write still wrote c d) = udp_read d" "dtls_read_ok (count_tun_write still wrote c d) = dtls_read_ok d"
  "icmp_echo_reply (count_tun_write still wrote c d) = icmp_echo_reply d"
  "udp_read (count_write W p c d) = udp_read d" "tun_write_count (count_write W p c d) = tun_write_count d"
  "dtls_read_ok (count_write W p c d) = dtls_read_ok d" "icmp_echo_reply (count_write W p c d) = icmp_echo_reply d"
  by (auto simp: count_received_def count_tun_read_def count_read_def count_inject_def count_tun_write_def count_write_def
      split: prod.splits sum.splits option.splits list.splits bool.splits dtls_io_result.splits)

lemma do_task_load:
  assumes "do_task task s = Some s'"
  shows "udp_drops s' = udp_drops s" "counts s' = counts s" "decrypt_state s' = decrypt_state s"
    "received_load l (shared s') \<le> received_load l (shared s)" "device_load (shared s') \<le> device_load (shared s)"
  using assms by (cases task; auto simp: close_queue_load split: if_splits)+

lemma counted_step:
  assumes "client_step W interval s t" "counted s"
  shows "counted t"
  using assms(1)
proof cases
  case (decrypt_reads g now u l c)
  then show ?thesis
    using assms(2) decrypt_read_load(1) [OF decrypt_reads(3)] decrypt_read_load(2) [OF decrypt_reads(3), of "counts s"]
    by (simp add: counted_def)
next
  case (decrypt_injects g u l c)
  then show ?thesis using assms(2) inject_next_load [OF decrypt_injects(3)] by (simp add: counted_def)
next
  case (encrypt_runs x finished c)
  then show ?thesis
    using assms(2) client_encrypt_load [OF encrypt_runs(3)] le_trans [OF add_left_mono [OF client_encrypt_load(1) [OF encrypt_runs(3)]]]
    by (simp add: counted_def)
next
  case (udp_read_waits waited)
  have "length (items (reader_queue (reader_fail e (udp_view s)))) + length (opt_list (waiting (decrypt_state s)))
    \<le> received_load (decrypt_state s) (shared s)" for e
    by (simp add: received_load_def)
  then show ?thesis
    using udp_read_waits assms(2) by (cases waited) (auto simp: counted_def intro: le_trans [OF add_left_mono])
next
  case (udp_receives p ok r)
  have "received_load (decrypt_state s) (shared s)
    = length (items (encrypted_rx (queues (shared s)))) + length (opt_list (waiting (decrypt_state s)))"
    by (simp add: received_load_def)
  then show ?thesis using udp_receives assms(2) udp_push_load [OF udp_receives(3)] by (simp add: counted_def)
next
  case (udp_receive_fails e)
  have "length (items (reader_queue (reader_fail e (udp_view s)))) + length (opt_list (waiting (decrypt_state s)))
    \<le> received_load (decrypt_state s) (shared s)"
    by (simp add: received_load_def)
  then show ?thesis using udp_receive_fails assms(2) by (simp add: counted_def)
next
  case (tun_writes wrote u c)
  then show ?thesis
    using assms(2) client_tun_write_load(1) [OF tun_writes(3)] client_tun_write_load(2) [OF tun_writes(3), of "counts s"]
    by (simp add: counted_def)
next
  case (udp_writes q now sent u q' c)
  then show ?thesis using assms(2) client_udp_write_load [OF udp_writes(4)] by (simp add: counted_def)
next
  case (main_ends task tasks s')
  note load = do_task_load [OF main_ends(3)]
  show ?thesis
    using assms(2) load(1,2,3) load(4) [of "decrypt_state s"] load(5) main_ends(1) by (simp add: counted_def)
qed (use assms(2) in \<open>simp_all add: counted_def\<close>)

interpretation client_counting: step_invariant "client_step W interval" counted for W interval
  by unfold_locales (rule counted_step)

lemma open_connection_queues: "open_connection W d = Inr k \<Longrightarrow> Inr (con_queues k) = client_queues_new"
  by (auto simp: open_connection_def and_then_def split: sum.splits prod.splits)

lemma start_client_counted:
  assumes "open_connection W d = Inr k"
  shows "counted (start_client k now)"
  using open_connection_queues [OF assms]
  by (auto simp: counted_def start_client_def diagnostics_default_def counter_definitions client_queues_new_def
      client_queue_new_def queue_new_def QUEUE_CAPACITY_def opt_list_def)

section \<open>Properties\<close>

text \<open>
  C24: In every interleaving of the client's threads the counters agree with the queues: the datagrams
  dropped, waiting in the queue or held by the decrypting worker had all been counted as received, and
  the packets written to the device or waiting for it had all been counted as records read from the
  DTLS connection, so nothing else reaches the device. The counter of echo replies is printed but never
  counts.
\<close>

theorem client_counters_agree:
  assumes "open_connection W d = Inr k" "(client_step W interval)\<^sup>*\<^sup>* (start_client k now) s"
  shows "udp_drops s + queue_len (encrypted_rx (queues (shared s))) + (if waiting (decrypt_state s) = None then 0 else 1)
      \<le> udp_read (counts s)
    \<and> tun_write_count (counts s) + queue_len (tun_write (queues (shared s))) \<le> dtls_read_ok (counts s)
    \<and> icmp_echo_reply (counts s) = 0"
proof -
  have "counted s" using client_counting.steps_preserve [OF assms(2) start_client_counted [OF assms(1)]] .
  then show ?thesis by (auto simp: counted_def counter_definitions queue_len_def opt_list_def split: option.splits)
qed

theorem client_counters_agree_witness:
  "\<exists>s :: byte list list client_run. udp_read (counts s) = 1 \<and> queue_len (encrypted_rx (queues (shared s))) \<le> 1
     \<and> tun_write_count (counts s) \<le> dtls_read_ok (counts s)"
proof -
  let ?d = "example_dtls\<lparr>callback_io := Some (dtls_io_new_client example_peer)\<rparr>"
  obtain k where k: "open_connection example_wolf ?d = Inr k" using example_open_connection by blast
  let ?step = "client_step example_wolf (seconds 20)" and ?s0 = "start_client k 0"
  let ?s1 = "?s0\<lparr>udp_read_at := ReadWait\<rparr>"
  let ?s2 = "?s1\<lparr>udp_read_at := ReadReceive\<rparr>"
  obtain ok r where push: "reader_push [7] (udp_view ?s2) = (ok, r)" by (metis surj_pair)
  let ?s3 = "udp_put r ok ?s2\<lparr>udp_read_at := if ok then ReadReceive else ReadEnded, counts := count_received (counts ?s2)\<rparr>"
  have "?step ?s0 ?s1" using client_step.udp_read_checks [of ?s0] by (simp add: start_client_def goes_on_def)
  moreover have "?step ?s1 ?s2" using client_step.udp_read_waits [of ?s1 _ _ "Inr True"] by simp
  moreover have "?step ?s2 ?s3" using client_step.udp_receives [of ?s2 "[7]"] push by simp
  ultimately have run: "?step\<^sup>*\<^sup>* ?s0 ?s3" by (meson rtranclp.rtrancl_refl rtranclp.rtrancl_into_rtrancl)
  have one: "udp_read (counts ?s3) = 1" by (simp add: start_client_def diagnostics_default_def)
  note agree = client_counters_agree [OF k run]
  have "udp_read (counts ?s3) = 1 \<and> queue_len (encrypted_rx (queues (shared ?s3))) \<le> 1
     \<and> tun_write_count (counts ?s3) \<le> dtls_read_ok (counts ?s3)"
    using agree one by linarith
  then show ?thesis by blast
qed

end
