(* ===== verification/Vpn_Client_Result.thy ===== *)
theory Vpn_Client_Result
  imports Vpn_Client_Run
begin

text \<open>
  What a connection of the client ends with (\<open>run_connection\<close> of \<open>src/src/client/mod.rs\<close>), in every
  interleaving of its threads: a failing thread clears the flag and sends its error to the main
  thread, which checks the flag at the head of its loop and receives errors at the end of a turn.
\<close>

definition silent_error :: io_error where
  "silent_error = error_new TimedOut ''server did not respond to keepalive''"

definition closed_error :: io_error where
  "closed_error = error_other ''client raw TX queue closed''"

definition leaving :: "'w client_run \<Rightarrow> bool" where
  "leaving s \<longleftrightarrow> (\<exists>tasks. client_main_at s = Ending tasks)"

definition result_inv :: "'w client_run \<Rightarrow> bool" where
  "result_inv s \<longleftrightarrow>
     (sent_errors (shared s) \<noteq> [] \<longrightarrow> \<not> active (shared s))
     \<and> (case connection_result s of
          Inl e \<Rightarrow> leaving s \<and> (e \<in> {silent_error, closed_error} \<or> (\<exists>es. sent_errors (shared s) = e # es))
        | Inr _ \<Rightarrow> leaving s \<longrightarrow> \<not> goes_on s)"

section \<open>Steps\<close>

lemma run_flag_step: "client_step W interval s t \<Longrightarrow> run_flag t \<Longrightarrow> run_flag s"
proof (induction rule: client_step.induct)
  case (udp_read_waits s waited)
  then show ?case by (cases waited) simp_all
next
  case (main_ends s task tasks s')
  then show ?case using do_task_fields(1) [OF main_ends(2)] by simp
qed (auto simp: tun_put_def split: if_splits)

lemma do_task_result: "do_task task s = Some s' \<Longrightarrow> connection_result s' = connection_result s"
  by (cases task) (auto simp: put_def split: if_splits)

lemma put_result [simp]:
  "connection_result (put c s) = connection_result s" "connection_result (udp_put r b s) = connection_result s"
  "connection_result (tun_put r s) = connection_result s"
  by (simp_all add: put_def udp_put_def tun_put_def)

lemma monitor_turn_gives_up:
  assumes "monitor_turn interval now act NoError q m = (Some r, queued, q', m')"
  shows "r \<in> {Inl silent_error, Inl closed_error}"
  using assms
  by (auto simp: monitor_turn_def silent_error_def closed_error_def Let_def split: if_splits prod.splits sum.splits)

text \<open>How a step leaves the result: it is set only when the main thread leaves its loop.\<close>

lemma result_step:
  assumes "client_step W interval s t"
  shows "(connection_result t = connection_result s
      \<and> (leaving t \<longrightarrow> leaving s \<or> \<not> goes_on s) \<and> (leaving s \<longrightarrow> leaving t))
    \<or> (\<not> leaving s \<and> leaving t
      \<and> (\<exists>e. connection_result t = Inl e
          \<and> (e \<in> {silent_error, closed_error} \<or> (\<exists>es. sent_errors (shared s) = e # es))))"
  using assms
proof cases
  case (monitors m now r queued q m')
  show ?thesis
  proof (cases r)
    case None
    then show ?thesis using monitors by (simp add: leaving_def)
  next
    case (Some result)
    then show ?thesis using monitors monitor_turn_gives_up by (fastforce simp: leaving_def)
  qed
next
  case (main_ends task tasks s')
  then show ?thesis using do_task_result [OF main_ends(3)] by (simp add: leaving_def)
next
  case (udp_read_waits waited)
  then show ?thesis by (cases waited) (simp_all add: leaving_def)
qed (auto simp: leaving_def)

lemma result_inv_step:
  assumes "calls_back W" "client_step W interval s t" "result_inv s"
  shows "result_inv t"
proof -
  have ev: "evolves (shared s) (shared t)" using client_step_moves [OF assms(1,2)] by (simp add: moves_def)
  then have errors: "sent_errors (shared t) = sent_errors (shared s)
      \<or> (\<exists>e. sent_errors (shared t) = sent_errors (shared s) @ [e] \<and> \<not> active (shared t))"
    and off: "active (shared t) \<Longrightarrow> active (shared s)" by (auto simp: evolves_def)
  have flag: "goes_on t \<Longrightarrow> goes_on s" using off run_flag_step [OF assms(2)] by (auto simp: goes_on_def)
  have sent: "sent_errors (shared t) \<noteq> [] \<longrightarrow> \<not> active (shared t)"
    using errors off assms(3) by (auto simp: result_inv_def)
  have kept: "\<exists>es. sent_errors (shared t) = e # es" if "\<exists>es. sent_errors (shared s) = e # es" for e
    using errors that by auto
  from result_step [OF assms(2)] show ?thesis
  proof (elim disjE conjE exE)
    assume "connection_result t = connection_result s" "leaving t \<longrightarrow> leaving s \<or> \<not> goes_on s" "leaving s \<longrightarrow> leaving t"
    then show ?thesis
      using assms(3) sent kept flag unfolding result_inv_def by (auto split: sum.splits)
  qed (use sent kept in \<open>auto simp: result_inv_def\<close>)
qed

interpretation client_reporting: step_invariant "client_step W interval" "\<lambda>s. calls_back W \<longrightarrow> result_inv s" for W interval
  by unfold_locales (blast intro: result_inv_step)

lemma start_client_result: "result_inv (start_client k now)"
  by (simp add: result_inv_def start_client_def leaving_def)

text \<open>Once the main thread has left its loop the result stays.\<close>

lemma result_stays:
  assumes "(client_step W interval)\<^sup>*\<^sup>* s t" "leaving s"
  shows "leaving t \<and> connection_result t = connection_result s"
  using assms(1)
proof (induction rule: rtranclp_induct)
  case (step t u)
  then show ?case using result_step [OF step(2)] by auto
qed (use assms(2) in simp)

section \<open>Properties\<close>

text \<open>
  C25: Whatever the threads do, the result of a connection is accounted for: an error is the first one
  that a thread sent, or says that the server is silent or that the queue of plain packets was closed;
  success means that a stop was requested or that some thread cleared the flag. Until the main thread
  leaves its loop there is no error, and what it leaves with is what the connection returns.
\<close>

theorem connection_result_accounted_for:
  assumes "calls_back W" "(client_step W interval)\<^sup>*\<^sup>* (start_client k now) s"
  shows "(\<forall>e. connection_result s = Inl e \<longrightarrow>
        e = error_new TimedOut ''server did not respond to keepalive'' \<or> e = error_other ''client raw TX queue closed''
        \<or> (\<exists>es. sent_errors (shared s) = e # es))
    \<and> (connection_result s \<noteq> Inr () \<longrightarrow> (\<exists>tasks. client_main_at s = Ending tasks))
    \<and> (\<forall>tasks. client_main_at s = Ending tasks \<longrightarrow>
        (connection_result s = Inr () \<longrightarrow> \<not> run_flag s \<or> \<not> active (shared s))
        \<and> (\<forall>t. (client_step W interval)\<^sup>*\<^sup>* s t \<longrightarrow> connection_result t = connection_result s))"
proof -
  have inv: "result_inv s" using client_reporting.steps_preserve [OF assms(2)] start_client_result assms(1) by blast
  have stays: "\<forall>t. (client_step W interval)\<^sup>*\<^sup>* s t \<longrightarrow> connection_result t = connection_result s"
    if "client_main_at s = Ending tasks" for tasks
    using result_stays that unfolding leaving_def by blast
  show ?thesis
  proof (cases "connection_result s")
    case (Inl e)
    then have "leaving s \<and> (e \<in> {silent_error, closed_error} \<or> (\<exists>es. sent_errors (shared s) = e # es))"
      using inv by (simp add: result_inv_def)
    then show ?thesis using Inl stays by (simp add: leaving_def silent_error_def closed_error_def disj_assoc)
  next
    case (Inr x)
    then have "leaving s \<longrightarrow> \<not> goes_on s" using inv by (simp add: result_inv_def)
    then show ?thesis using Inr stays by (auto simp: leaving_def goes_on_def)
  qed
qed

theorem connection_result_accounted_for_witness:
  "\<exists>s :: byte list list client_run. client_main_at s = Ending end_tasks
     \<and> connection_result s = Inl (error_other ''lost'') \<and> (\<exists>es. sent_errors (shared s) = error_other ''lost'' # es)"
proof -
  let ?e = "error_other ''lost''"
  obtain k where k: "open_connection example_wolf (example_dtls\<lparr>callback_io := Some (dtls_io_new_client example_peer)\<rparr>) = Inr k"
    using example_open_connection by blast
  let ?step = "client_step example_wolf (seconds 20)" and ?s0 = "start_client k 0"
  let ?q = "raw_tx (queues (shared ?s0))" and ?m = "monitor_new 0"
  let ?s1 = "put (with_raw_tx ?q (shared ?s0)) ?s0\<lparr>tun_drops := tun_drops ?s0 + keepalive_drops False ?q,
    client_main_at := AwaitError ?m, connection_result := connection_result ?s0\<rparr>"
  let ?s2 = "?s1\<lparr>udp_read_at := ReadWait\<rparr>"
  let ?s3 = "udp_put (reader_fail ?e (udp_view ?s2)) False ?s2\<lparr>udp_read_at := ReadEnded\<rparr>"
  let ?s4 = "?s3\<lparr>client_main_at := Ending end_tasks, connection_result := Inl ?e\<rparr>"
  have "monitor_turn (seconds 20) 0 (activity (shared ?s0)) NoError ?q ?m = (None, False, ?q, ?m)"
    by (simp add: monitor_turn_def monitor_new_def start_client_def durations)
  then have "?step ?s0 ?s1"
    using client_step.monitors [of ?s0 ?m "seconds 20" 0 None False ?q ?m example_wolf]
    by (simp add: start_client_def goes_on_def)
  moreover have "?step ?s1 ?s2"
    using client_step.udp_read_checks [of ?s1] by (simp add: start_client_def goes_on_def with_raw_tx_def)
  moreover have "?step ?s2 ?s3" using client_step.udp_read_waits [of ?s2 _ _ "Inl ?e"] by simp
  moreover have sent: "sent_errors (shared ?s3) = [?e]"
    by (simp add: udp_put_def udp_view_def reader_fail_def start_client_def with_raw_tx_def)
  then have "?step ?s3 ?s4" by (intro client_step.monitor_receives) simp_all
  ultimately have run: "?step\<^sup>*\<^sup>* ?s0 ?s4" by (meson rtranclp.rtrancl_refl rtranclp.rtrancl_into_rtrancl)
  obtain s where s: "?step\<^sup>*\<^sup>* ?s0 s" "client_main_at s = Ending end_tasks" "connection_result s = Inl ?e"
    using run by (rule that) simp_all
  note conjunct1 [OF connection_result_accounted_for [OF example_wolf_calls_back s(1)], rule_format, OF s(3)]
  then have "\<exists>es. sent_errors (shared s) = ?e # es" by (simp add: error_other_def error_new_def)
  then show ?thesis using s(2,3) by blast
qed

text \<open>
  C38: An error of a thread can be lost: the thread clears the flag before it sends the error, and the
  main thread, at the head of its loop, sees the flag first and leaves with success. Nobody asked the
  client to stop, yet it returns as if somebody had, without connecting again, whatever the error was.
\<close>

theorem failed_connection_can_look_ended:
  "\<exists>s. (client_step W interval)\<^sup>*\<^sup>* (start_client k now) s
     \<and> client_main_at s = Ending end_tasks \<and> run_flag s \<and> sent_errors (shared s) = [e]
     \<and> (\<forall>t. (client_step W interval)\<^sup>*\<^sup>* s t \<longrightarrow> connection_result t = Inr ()
          \<and> connection_loop ((True, Returned (connection_result t)) # script) = Some (Inr (), []))"
proof -
  let ?step = "client_step W interval" and ?s0 = "start_client k now"
  let ?s1 = "?s0\<lparr>udp_read_at := ReadWait\<rparr>"
  let ?s2 = "udp_put (reader_fail e (udp_view ?s1)) False ?s1\<lparr>udp_read_at := ReadEnded\<rparr>"
  let ?s3 = "?s2\<lparr>client_main_at := Ending end_tasks\<rparr>"
  have "?step ?s0 ?s1" using client_step.udp_read_checks [of ?s0] by (simp add: start_client_def goes_on_def)
  moreover have "?step ?s1 ?s2" using client_step.udp_read_waits [of ?s1 W interval "Inl e"] by simp
  moreover have off: "\<not> active (shared ?s2)" "sent_errors (shared ?s2) = [e]" "run_flag ?s2" "connection_result ?s2 = Inr ()"
    by (simp_all add: udp_put_def udp_view_def reader_fail_def start_client_def)
  moreover have "?step ?s2 ?s3"
    using client_step.monitor_ends [of ?s2] off(1) by (simp add: start_client_def goes_on_def)
  ultimately have run: "?step\<^sup>*\<^sup>* ?s0 ?s3" by (meson rtranclp.rtrancl_refl rtranclp.rtrancl_into_rtrancl)
  have "connection_result t = Inr ()" if "?step\<^sup>*\<^sup>* ?s3 t" for t
    using result_stays [OF that] off(4) by (simp add: leaving_def)
  then show ?thesis using run off(2,3) by (intro exI [of _ ?s3]) (simp add: panic_gate_def)
qed

theorem failed_connection_can_look_ended_witness:
  "\<exists>s :: byte list list client_run. run_flag s \<and> sent_errors (shared s) = [error_other ''lost'']
     \<and> connection_loop [(True, Returned (connection_result s))] = Some (Inr (), [])"
proof -
  obtain k where "open_connection example_wolf (example_dtls\<lparr>callback_io := Some (dtls_io_new_client example_peer)\<rparr>) = Inr k"
    using example_open_connection by blast
  obtain s where "run_flag s" "sent_errors (shared s) = [error_other ''lost'']"
    "\<forall>t. (client_step example_wolf (seconds 20))\<^sup>*\<^sup>* s t \<longrightarrow>
       connection_loop [(True, Returned (connection_result t))] = Some (Inr (), [])"
    using failed_connection_can_look_ended [of example_wolf "seconds 20" k 0 "error_other ''lost''" "[]"] by blast
  then show ?thesis by blast
qed

end
