(* ===== verification/Vpn_Synchronized.thy ===== *)
theory Vpn_Synchronized
  imports Vpn_Dtls
begin

text \<open>
  The mutex around a connection (\<open>SynchronizedDtls\<close> of \<open>src/src/lib.rs\<close>). An operation passed to
  \<open>with\<close> is the sequence of its accesses to the connection, at the end of which it may panic; callers
  on several threads interleave access by access. The theory shows that the lock makes every
  operation one step, which is how the other theories model the workers, and that an operation that
  panics never locks the others out.
\<close>

section \<open>The wrapper\<close>

record 'w synchronized =
  inner :: "'w dtls"
  poisoned :: bool
  locked :: bool

record 'w operation =
  accesses :: "('w dtls \<Rightarrow> 'w dtls) list"
  panics :: bool

definition synchronized_new :: "'w dtls \<Rightarrow> 'w synchronized" where
  "synchronized_new d = \<lparr>inner = d, poisoned = False, locked = False\<rparr>"

text \<open>The mutex is released, and poisoned by a panic; a poisoned one is taken all the same.\<close>

definition release :: "bool \<Rightarrow> 'w synchronized \<Rightarrow> 'w synchronized" where
  "release panicked s = s\<lparr>locked := False, poisoned := poisoned s \<or> panicked\<rparr>"

definition with_connection :: "'w operation \<Rightarrow> 'w synchronized \<Rightarrow> 'w synchronized" where
  "with_connection operation s =
     release (panics operation) (s\<lparr>locked := True, inner := fold (\<lambda>f. f) (accesses operation) (inner s)\<rparr>)"

definition into_inner :: "'w synchronized \<Rightarrow> 'w dtls" where
  "into_inner s = inner s"

section \<open>Callers on several threads\<close>

datatype 'w caller = Outside | Inside "('w dtls \<Rightarrow> 'w dtls) list" "'w operation"

text \<open>The operations are noted in the order in which they took the lock.\<close>

record 'w callers =
  connection :: "'w synchronized"
  threads :: "nat \<Rightarrow> 'w caller"
  operations :: "'w operation list"

definition callers_start :: "'w dtls \<Rightarrow> 'w callers" where
  "callers_start d = \<lparr>connection = synchronized_new d, threads = \<lambda>_. Outside, operations = []\<rparr>"

inductive with_step :: "'w callers \<Rightarrow> 'w callers \<Rightarrow> bool" where
  enters:
    "threads s i = Outside \<Longrightarrow> \<not> locked (connection s) \<Longrightarrow>
     with_step s (s\<lparr>connection := (connection s)\<lparr>locked := True\<rparr>,
       threads := (threads s)(i := Inside (accesses operation) operation), operations := operations s @ [operation]\<rparr>)"
| accesses_it:
    "threads s i = Inside (f # fs) operation \<Longrightarrow>
     with_step s (s\<lparr>connection := (connection s)\<lparr>inner := f (inner (connection s))\<rparr>,
       threads := (threads s)(i := Inside fs operation)\<rparr>)"
| leaves:
    "threads s i = Inside [] operation \<Longrightarrow>
     with_step s (s\<lparr>connection := release (panics operation) (connection s), threads := (threads s)(i := Outside)\<rparr>)"

section \<open>One operation at a time\<close>

text \<open>The operations so far in sequence, each as a whole.\<close>

definition in_sequence :: "'w dtls \<Rightarrow> 'w operation list \<Rightarrow> 'w synchronized" where
  "in_sequence d ops = fold with_connection ops (synchronized_new d)"

lemma in_sequence_simps [simp]:
  "in_sequence d [] = synchronized_new d"
  "in_sequence d (ops @ [op]) = with_connection op (in_sequence d ops)"
  by (simp_all add: in_sequence_def)

lemma in_sequence_unlocked [simp]: "\<not> locked (in_sequence d ops)"
  by (cases ops rule: rev_cases) (simp_all add: synchronized_new_def with_connection_def release_def)

lemma into_inner_in_sequence:
  "into_inner (in_sequence d ops) = fold (\<lambda>f. f) (concat (map accesses ops)) d"
  by (induction ops rule: rev_induct)
    (simp_all add: into_inner_def synchronized_new_def with_connection_def release_def)

text \<open>
  Either nobody is inside and the operations are complete, or one caller is, part of the way through
  the last operation.
\<close>

definition one_inside :: "'w dtls \<Rightarrow> 'w callers \<Rightarrow> bool" where
  "one_inside d s \<longleftrightarrow>
     ((\<forall>i. threads s i = Outside) \<and> connection s = in_sequence d (operations s))
     \<or> (\<exists>i front rest operation earlier. threads s i = Inside rest operation
          \<and> (\<forall>j. j \<noteq> i \<longrightarrow> threads s j = Outside) \<and> operations s = earlier @ [operation] \<and> accesses operation = front @ rest
          \<and> connection s = (in_sequence d earlier)\<lparr>locked := True, inner := fold (\<lambda>f. f) front (inner (in_sequence d earlier))\<rparr>)"

lemma one_inside_start: "one_inside d (callers_start d)"
  by (simp add: one_inside_def callers_start_def)

lemma one_inside_step:
  assumes "with_step s t" "one_inside d s"
  shows "one_inside d t"
  using assms(1)
proof cases
  case (enters i operation)
  have "\<exists>j. threads s j \<noteq> Outside \<Longrightarrow> locked (connection s)" using assms(2) by (auto simp: one_inside_def)
  then have out: "\<forall>j. threads s j = Outside" "connection s = in_sequence d (operations s)"
    using enters(3) assms(2) by (auto simp: one_inside_def)
  show ?thesis
    unfolding one_inside_def
  proof (rule disjI2, intro exI conjI)
    show "threads t i = Inside (accesses operation) operation" using enters(1) by simp
    show "\<forall>j. j \<noteq> i \<longrightarrow> threads t j = Outside" using enters(1) out(1) by simp
    show "operations t = operations s @ [operation]" using enters(1) by simp
    show "accesses operation = [] @ accesses operation" by simp
    show "connection t = (in_sequence d (operations s))\<lparr>locked := True,
        inner := fold (\<lambda>f. f) [] (inner (in_sequence d (operations s)))\<rparr>"
      using enters(1) out(2) by simp
  qed
next
  case (accesses_it i f fs operation)
  obtain front earlier where part: "\<forall>j. j \<noteq> i \<longrightarrow> threads s j = Outside" "operations s = earlier @ [operation]"
    "accesses operation = front @ f # fs"
    "connection s = (in_sequence d earlier)\<lparr>locked := True, inner := fold (\<lambda>f. f) front (inner (in_sequence d earlier))\<rparr>"
    using assms(2) accesses_it(2) unfolding one_inside_def by (metis caller.distinct(1) caller.inject)
  show ?thesis
    unfolding one_inside_def
  proof (rule disjI2, intro exI conjI)
    show "threads t i = Inside fs operation" using accesses_it(1) by simp
    show "\<forall>j. j \<noteq> i \<longrightarrow> threads t j = Outside" using accesses_it(1) part(1) by simp
    show "operations t = earlier @ [operation]" using accesses_it(1) part(2) by simp
    show "accesses operation = (front @ [f]) @ fs" using part(3) by simp
    show "connection t = (in_sequence d earlier)\<lparr>locked := True,
        inner := fold (\<lambda>f. f) (front @ [f]) (inner (in_sequence d earlier))\<rparr>"
      using accesses_it(1) part(4) by simp
  qed
next
  case (leaves i operation)
  obtain earlier where part: "\<forall>j. j \<noteq> i \<longrightarrow> threads s j = Outside" "operations s = earlier @ [operation]"
    "connection s = (in_sequence d earlier)\<lparr>locked := True,
       inner := fold (\<lambda>f. f) (accesses operation) (inner (in_sequence d earlier))\<rparr>"
    using assms(2) leaves(2) unfolding one_inside_def by (metis append_Nil2 caller.distinct(1) caller.inject)
  then show ?thesis using leaves(1) by (simp add: one_inside_def with_connection_def)
qed

interpretation callers_runs: step_invariant with_step "one_inside d" for d
  by unfold_locales (rule one_inside_step)

lemma one_inside_moves:
  assumes "one_inside d s" "locked (connection s)"
  shows "\<exists>t. with_step s t"
proof -
  obtain i rest operation where at: "threads s i = Inside rest operation"
    using assms by (auto simp: one_inside_def)
  show ?thesis
  proof (cases rest)
    case Nil
    then show ?thesis using with_step.leaves at by blast
  next
    case (Cons f fs)
    then show ?thesis using with_step.accesses_it at by blast
  qed
qed

section \<open>Properties\<close>

text \<open>
  C22: The operations on a connection never interleave: whatever threads call \<open>with\<close>, access by access,
  at most one of them is inside, and whenever nobody is, the connection is what the operations make of
  it one after the other, in the order in which they took the lock, whether some of them panicked or
  not. Nobody waits for a lock that is not given back: the caller inside can always go on, and after a
  panic the next one is let in.
\<close>

theorem synchronized_operations_are_atomic:
  assumes "with_step\<^sup>*\<^sup>* (callers_start d) s"
  shows "(\<forall>i j. threads s i \<noteq> Outside \<and> threads s j \<noteq> Outside \<longrightarrow> i = j)
    \<and> (\<not> locked (connection s) \<longrightarrow>
         connection s = fold with_connection (operations s) (synchronized_new d)
         \<and> into_inner (connection s) = fold (\<lambda>f. f) (concat (map accesses (operations s))) d
         \<and> (\<forall>i operation. \<exists>t. with_step s t \<and> threads t i = Inside (accesses operation) operation))
    \<and> (locked (connection s) \<longrightarrow> (\<exists>t. with_step s t))"
proof -
  have inv: "one_inside d s" using callers_runs.steps_preserve [OF assms one_inside_start] .
  have out: "\<forall>i. threads s i = Outside" "connection s = in_sequence d (operations s)" if "\<not> locked (connection s)"
    using inv that by (auto simp: one_inside_def)
  have "\<exists>t. with_step s t \<and> threads t i = Inside (accesses operation) operation"
    if "\<not> locked (connection s)" for i operation
    using with_step.enters [of s i operation] out(1) [OF that] that by fastforce
  moreover have "i = j" if "threads s i \<noteq> Outside" "threads s j \<noteq> Outside" for i j
    using inv that unfolding one_inside_def by metis
  ultimately show ?thesis
    using out(2) one_inside_moves [OF inv] into_inner_in_sequence [of d "operations s"] unfolding in_sequence_def by auto
qed

theorem synchronized_operations_are_atomic_witness:
  "\<exists>s :: byte list list callers. poisoned (connection s)
     \<and> (\<exists>t. with_step s t \<and> threads t 2 = Inside [] \<lparr>accesses = [], panics = False\<rparr>)"
proof -
  let ?op = "\<lparr>accesses = [], panics = True\<rparr> :: byte list list operation" and ?s0 = "callers_start example_dtls"
  let ?s1 = "?s0\<lparr>connection := (connection ?s0)\<lparr>locked := True\<rparr>,
    threads := (threads ?s0)(1 := Inside (accesses ?op) ?op), operations := operations ?s0 @ [?op]\<rparr>"
  let ?s2 = "?s1\<lparr>connection := release (panics ?op) (connection ?s1), threads := (threads ?s1)(1 := Outside)\<rparr>"
  have "with_step ?s0 ?s1" by (rule with_step.enters) (simp_all add: callers_start_def synchronized_new_def)
  moreover have "with_step ?s1 ?s2" by (rule with_step.leaves) simp
  ultimately have run: "with_step\<^sup>*\<^sup>* ?s0 ?s2" by (meson rtranclp.rtrancl_refl rtranclp.rtrancl_into_rtrancl)
  have free: "\<not> locked (connection ?s2)" "poisoned (connection ?s2)" by (simp_all add: release_def)
  have "\<exists>t. with_step ?s2 t \<and> threads t 2 = Inside (accesses o2) o2" for o2
    using synchronized_operations_are_atomic [OF run] free(1) by blast
  from this [of "\<lparr>accesses = [], panics = False\<rparr>"]
  have "\<exists>t. with_step ?s2 t \<and> threads t 2 = Inside [] \<lparr>accesses = [], panics = False\<rparr>" by simp
  then show ?thesis using free(2) by blast
qed

end
