(* ===== verification/Vpn_Credentials.thy ===== *)
theory Vpn_Credentials
  imports Vpn_Config "HOL-Library.Sublist"
begin

text \<open>
  The files of the embedded credentials of the client (\<open>materialize_embedded_credentials\<close> and
  \<open>EmbeddedCredentials\<close> of \<open>src/src/client/mod.rs\<close>): \<open>Vpn_Config\<close> has what the function returns; here are the
  private directory it makes, the files in it, and the guard that removes them. The operating system's
  answers are a record: whether the directory is made, restricted to its owner and removed, and how
  every write ends. The guard is dropped however the function or its caller ends, by an error or a panic
  too. The server uses the function and the guard in the same way.
\<close>

section \<open>The file system\<close>

record credential_store =
  file_contents :: "string \<Rightarrow> string option"
  directories :: "string set"

datatype pem_outcome = OpenFails io_error | WriteFails string io_error | Written

record credential_env =
  dir_created :: "unit io_result"
  dir_restricted :: "unit io_result"
  dir_removed :: bool
  pem_written :: "string \<Rightarrow> pem_outcome"

definition exists_error :: io_error where
  "exists_error = error_new OtherKind ''File exists''"

definition pem_path :: "string \<Rightarrow> string \<Rightarrow> string" where
  "pem_path directory name = directory @ ''/'' @ name @ ''.pem''"

definition pem_field :: "string \<Rightarrow> string" where
  "pem_field name =
     (if name = ''certificate'' then ''certificate_file''
      else if name = ''key'' then ''private_key_file'' else ''ca_file'')"

text \<open>\<open>create_dir\<close>, \<open>remove_dir_all\<close>, and \<open>create_new\<close> with \<open>write_all\<close>, which may leave a part behind.\<close>

definition create_dir :: "credential_env \<Rightarrow> string \<Rightarrow> credential_store \<Rightarrow> unit io_result \<times> credential_store" where
  "create_dir env directory st =
     (case dir_created env of
        Inl e \<Rightarrow> (Inl e, st)
      | Inr _ \<Rightarrow>
          if directory \<in> directories st then (Inl exists_error, st)
          else (Inr (), st\<lparr>directories := insert directory (directories st)\<rparr>))"

definition remove_dir_all :: "credential_env \<Rightarrow> string \<Rightarrow> credential_store \<Rightarrow> credential_store" where
  "remove_dir_all env directory st =
     (if dir_removed env
      then st\<lparr>file_contents := (\<lambda>p. if prefix (directory @ ''/'') p then None else file_contents st p),
              directories := directories st - {directory}\<rparr>
      else st)"

definition write_pem :: "credential_env \<Rightarrow> string \<Rightarrow> string \<Rightarrow> credential_store \<Rightarrow> unit io_result \<times> credential_store" where
  "write_pem env destination pem st =
     (if file_contents st destination \<noteq> None then (Inl exists_error, st)
      else case pem_written env destination of
          OpenFails e \<Rightarrow> (Inl e, st)
        | WriteFails part e \<Rightarrow> (Inl e, st\<lparr>file_contents := (file_contents st)(destination \<mapsto> part)\<rparr>)
        | Written \<Rightarrow> (Inr (), st\<lparr>file_contents := (file_contents st)(destination \<mapsto> pem)\<rparr>))"

section \<open>Making the files\<close>

fun write_pems :: "credential_env \<Rightarrow> string \<Rightarrow> (string \<times> string) list \<Rightarrow> settings \<Rightarrow> credential_store \<Rightarrow>
    settings io_result \<times> credential_store" where
  "write_pems env directory [] values st = (Inr values, st)"
| "write_pems env directory ((name, pem) # files) values st =
     (case write_pem env (pem_path directory name) pem st of
        (Inl e, st') \<Rightarrow> (Inl e, st')
      | (Inr _, st') \<Rightarrow> write_pems env directory files (values(pem_field name \<mapsto> pem_path directory name)) st')"

text \<open>From the directory on: the guard exists, and an error drops it.\<close>

definition write_private_files :: "credential_env \<Rightarrow> string \<Rightarrow> (string \<times> string) list \<Rightarrow> settings \<Rightarrow> credential_store \<Rightarrow>
    settings io_result \<times> credential_store" where
  "write_private_files env directory files values st =
     (case create_dir env directory st of
        (Inl e, st1) \<Rightarrow> (Inl e, st1)
      | (Inr _, st1) \<Rightarrow>
          (case (case dir_restricted env of Inl e \<Rightarrow> (Inl e, st1) | Inr _ \<Rightarrow> write_pems env directory files values st1) of
             (Inl e, st2) \<Rightarrow> (Inl e, remove_dir_all env directory st2)
           | (Inr values', st2) \<Rightarrow> (Inr values', st2)))"

definition materialize_files :: "credential_env \<Rightarrow> file_system \<Rightarrow> string \<Rightarrow> string \<Rightarrow> settings \<Rightarrow> credential_store \<Rightarrow>
    (string option \<times> settings) io_result \<times> credential_store" where
  "materialize_files env fs directory path values st =
     (case fs path of
        Inl e \<Rightarrow> (Inl e, st)
      | Inr text \<Rightarrow>
          if \<not> list_ex (\<lambda>line. trim line = ''[certificate]'') (lines text)
          then if list_ex (\<lambda>field. values field = Some ''embedded'') [''certificate_file'', ''private_key_file'', ''ca_file'']
               then (Inl (error_new InvalidInput ''missing [certificate]''), st)
               else (Inr (None, values), st)
          else
            case and_then (embedded_section text ''certificate'') (\<lambda>certificate.
                 and_then (embedded_section text ''key'') (\<lambda>key.
                 and_then (embedded_section text ''ca'') (\<lambda>ca.
                   Inr [(''certificate'', certificate), (''key'', key), (''ca'', ca)]))) of
              Inl e \<Rightarrow> (Inl e, st)
            | Inr files \<Rightarrow>
                (case write_private_files env directory files values st of
                   (Inl e, st') \<Rightarrow> (Inl e, st')
                 | (Inr values', st') \<Rightarrow> (Inr (Some directory, values'), st')))"

text \<open>The guard lives until the caller's end; what the caller does with the files is \<open>body\<close>.\<close>

definition with_credentials :: "credential_env \<Rightarrow> file_system \<Rightarrow> string \<Rightarrow> string \<Rightarrow> settings \<Rightarrow>
    (settings \<Rightarrow> credential_store \<Rightarrow> 'r) \<Rightarrow> credential_store \<Rightarrow> 'r io_result \<times> credential_store" where
  "with_credentials env fs directory path values body st =
     (case materialize_files env fs directory path values st of
        (Inl e, st') \<Rightarrow> (Inl e, st')
      | (Inr (None, values'), st') \<Rightarrow> (Inr (body values' st'), st')
      | (Inr (Some guard, values'), st') \<Rightarrow> (Inr (body values' st'), remove_dir_all env guard st'))"

section \<open>What the files are\<close>

text \<open>Only files of the directory are touched.\<close>

lemma pem_path_inside [simp]: "prefix (directory @ ''/'') (pem_path directory name)"
  by (simp add: pem_path_def)

lemma pem_path_inject [simp]: "pem_path d a = pem_path d b \<longleftrightarrow> a = b"
  by (simp add: pem_path_def)

definition same_outside :: "string \<Rightarrow> credential_store \<Rightarrow> credential_store \<Rightarrow> bool" where
  "same_outside directory st st' \<longleftrightarrow>
     directories st' = directories st
     \<and> (\<forall>p. \<not> prefix (directory @ ''/'') p \<longrightarrow> file_contents st' p = file_contents st p)"

lemma write_pems_outside: "write_pems env d files vals st = (r, st') \<Longrightarrow> same_outside d st st'"
proof (induction env d files vals st rule: write_pems.induct)
  case (2 env d name pem files vals st)
  obtain w u where w: "write_pem env (pem_path d name) pem st = (w, u)" by (metis surj_pair)
  then have u: "same_outside d st u"
    by (auto simp: write_pem_def same_outside_def split: if_splits pem_outcome.splits)
  show ?case
  proof (cases w)
    case (Inl e)
    then show ?thesis using 2(2) w u by simp
  next
    case (Inr x)
    then have "same_outside d u st'" using 2 w by (simp del: fun_upd_apply)
    then show ?thesis using u by (auto simp: same_outside_def)
  qed
qed (simp add: same_outside_def)

text \<open>The files written are the ones the settings name.\<close>

lemma write_pems_files:
  assumes "write_pems env d files vals st = (Inr vals', st')" "distinct (map fst files)"
  shows "(\<forall>(name, pem) \<in> set files. file_contents st' (pem_path d name) = Some pem)
    \<and> (\<forall>p. p \<notin> pem_path d ` set (map fst files) \<longrightarrow> file_contents st' p = file_contents st p)"
  using assms
proof (induction env d files vals st rule: write_pems.induct)
  case (2 env d name pem files vals st)
  obtain u where u: "write_pem env (pem_path d name) pem st = (Inr (), u)"
    using 2(2) by (auto split: prod.splits sum.splits)
  then have "file_contents u = (file_contents st)(pem_path d name \<mapsto> pem)"
    by (auto simp: write_pem_def split: if_splits pem_outcome.splits)
  moreover have "(\<forall>(n, p) \<in> set files. file_contents st' (pem_path d n) = Some p)
    \<and> (\<forall>p. p \<notin> pem_path d ` set (map fst files) \<longrightarrow> file_contents st' p = file_contents u p)"
    using 2 u by (simp del: fun_upd_apply)
  moreover have "name \<notin> fst ` set files" using 2(3) by simp
  then have "pem_path d name \<notin> pem_path d ` fst ` set files" by (simp add: image_iff)
  ultimately show ?case by auto
qed simp

lemma write_pems_values:
  assumes "write_pems env d [(''certificate'', c), (''key'', k), (''ca'', a)] vals st = (Inr vals', st')"
  shows "vals' = vals(''certificate_file'' \<mapsto> pem_path d ''certificate'', ''private_key_file'' \<mapsto> pem_path d ''key'',
    ''ca_file'' \<mapsto> pem_path d ''ca'')"
  using assms by (auto simp: pem_field_def split: prod.splits sum.splits)

section \<open>Nothing is left\<close>

definition private_directory :: "string \<Rightarrow> credential_store \<Rightarrow> bool" where
  "private_directory directory st \<longleftrightarrow>
     (\<forall>p. prefix (directory @ ''/'') p \<and> file_contents st p \<noteq> None \<longrightarrow> directory \<in> directories st)"

lemma remove_restores:
  assumes "private_directory d st" "d \<notin> directories st" "dir_removed env"
    and "same_outside d (st\<lparr>directories := insert d (directories st)\<rparr>) st'"
  shows "remove_dir_all env d st' = st"
proof -
  have "file_contents (remove_dir_all env d st') = file_contents st"
    using assms by (auto simp: remove_dir_all_def private_directory_def same_outside_def fun_eq_iff)
  moreover have "directories (remove_dir_all env d st') = directories st"
    using assms(2,3,4) by (simp add: remove_dir_all_def same_outside_def)
  ultimately show ?thesis by (rule credential_store.equality) simp
qed

lemma write_private_files_result:
  assumes "write_private_files env d files vals st = (r, st')" "private_directory d st" "dir_removed env"
  shows "case r of
      Inl _ \<Rightarrow> st' = st
    | Inr vals' \<Rightarrow> d \<notin> directories st \<and> remove_dir_all env d st' = st
        \<and> (\<exists>u. file_contents u = file_contents st \<and> write_pems env d files vals u = (Inr vals', st'))"
proof (cases "d \<in> directories st \<or> (\<exists>e. dir_created env = Inl e)")
  case True
  then show ?thesis using assms(1) by (auto simp: write_private_files_def create_dir_def split: sum.splits)
next
  case False
  let ?u = "st\<lparr>directories := insert d (directories st)\<rparr>"
  have made: "create_dir env d st = (Inr (), ?u)" using False by (auto simp: create_dir_def split: sum.splits)
  have restored: "remove_dir_all env d v = st" if "same_outside d ?u v" for v
    by (rule remove_restores [OF assms(2) _ assms(3) that]) (use False in simp)
  have same: "same_outside d ?u ?u" by (simp add: same_outside_def)
  obtain w v where w: "write_pems env d files vals ?u = (w, v)" by (metis surj_pair)
  have v: "same_outside d ?u v" by (rule write_pems_outside [OF w])
  show ?thesis
  proof (cases "dir_restricted env")
    case (Inl e)
    then show ?thesis using assms(1) made restored [OF same] by (auto simp: write_private_files_def)
  next
    case (Inr x)
    show ?thesis
    proof (cases w)
      case (Inl e)
      then show ?thesis using assms(1) made w restored [OF v] \<open>dir_restricted env = Inr x\<close>
        by (auto simp: write_private_files_def)
    next
      case (Inr vals')
      then have "r = Inr vals'" "st' = v" using assms(1) made w \<open>dir_restricted env = Inr x\<close>
        by (simp_all add: write_private_files_def)
      then show ?thesis using Inr w restored [OF v] False by (auto intro: exI [of _ ?u])
    qed
  qed
qed

text \<open>The result is the one of \<open>Vpn_Config\<close>.\<close>

definition write_answer :: "credential_env \<Rightarrow> string \<Rightarrow> string \<Rightarrow> unit io_result" where
  "write_answer env destination pem =
     (case pem_written env destination of OpenFails e \<Rightarrow> Inl e | WriteFails part e \<Rightarrow> Inl e | Written \<Rightarrow> Inr ())"

definition directory_answer :: "credential_env \<Rightarrow> string \<Rightarrow> credential_store \<Rightarrow> string io_result" where
  "directory_answer env directory st =
     and_then (fst (create_dir env directory st)) (\<lambda>_. and_then (dir_restricted env) (\<lambda>_. Inr directory))"

lemma write_credentials_Cons:
  "write_credentials answer d ((name, pem) # files) vals =
     (case answer (pem_path d name) pem of
        Inl e \<Rightarrow> Inl e
      | Inr _ \<Rightarrow> write_credentials answer d files (vals(pem_field name \<mapsto> pem_path d name)))"
  unfolding write_credentials.simps Let_def pem_path_def pem_field_def and_then_def by (rule refl)

lemma write_pems_answer:
  assumes "distinct (map fst files)" "\<forall>name \<in> set (map fst files). file_contents st (pem_path d name) = None"
  shows "fst (write_pems env d files vals st) = write_credentials (write_answer env) d files vals"
  using assms
proof (induction env d files vals st rule: write_pems.induct)
  case (2 env d name pem files vals st)
  obtain w u where w: "write_pem env (pem_path d name) pem st = (w, u)" by (metis surj_pair)
  have answer: "w = write_answer env (pem_path d name) pem"
    "\<And>p. p \<noteq> pem_path d name \<Longrightarrow> file_contents u p = file_contents st p"
    using w 2(3) by (auto simp: write_pem_def write_answer_def split: pem_outcome.splits)
  have "file_contents u (pem_path d n) = None" if "n \<in> set (map fst files)" for n
    using answer(2) [of "pem_path d n"] bspec [OF 2(3), of n] 2(2) that by auto
  then have "fst (write_pems env d files (vals(pem_field name \<mapsto> pem_path d name)) u)
    = write_credentials (write_answer env) d files (vals(pem_field name \<mapsto> pem_path d name))" if "w = Inr ()"
    using 2(1) [OF w [symmetric]] 2(2) that by (simp del: fun_upd_apply)
  then show ?case
    unfolding write_credentials_Cons write_pems.simps w answer(1) [symmetric] by (cases w) simp_all
qed simp

lemma materialize_files_result:
  assumes "private_directory d st"
  shows "fst (materialize_files env fs d path vals st)
    = materialize_embedded_credentials fs (directory_answer env d st) (write_answer env) path vals"
proof -
  have files: "map_sum id (\<lambda>v. (Some d, v)) (fst (write_private_files env d [(''certificate'', c), (''key'', k), (''ca'', a)] vals st))
    = and_then (directory_answer env d st) (\<lambda>directory.
        and_then (write_credentials (write_answer env) directory [(''certificate'', c), (''key'', k), (''ca'', a)] vals)
          (\<lambda>v. Inr (Some directory, v)))" for c k a
  proof (cases "fst (create_dir env d st)")
    case (Inl e)
    then obtain u where u: "create_dir env d st = (Inl e, u)" by (metis prod.collapse)
    show ?thesis unfolding write_private_files_def directory_answer_def u by (simp add: and_then_def)
  next
    case (Inr x)
    then have u: "create_dir env d st = (Inr (), st\<lparr>directories := insert d (directories st)\<rparr>)" "d \<notin> directories st"
      by (auto simp: create_dir_def split: sum.splits if_splits)
    let ?u = "st\<lparr>directories := insert d (directories st)\<rparr>"
    from u have "\<forall>name \<in> set (map fst [(''certificate'', c), (''key'', k), (''ca'', a)]). file_contents ?u (pem_path d name) = None"
      using assms by (auto simp: private_directory_def)
    then have w: "fst (write_pems env d [(''certificate'', c), (''key'', k), (''ca'', a)] vals ?u)
      = write_credentials (write_answer env) d [(''certificate'', c), (''key'', k), (''ca'', a)] vals"
      by (intro write_pems_answer) simp_all
    obtain r v where rv: "write_pems env d [(''certificate'', c), (''key'', k), (''ca'', a)] vals ?u = (r, v)" by (metis surj_pair)
    then have r: "write_credentials (write_answer env) d [(''certificate'', c), (''key'', k), (''ca'', a)] vals = r" using w by simp
    show ?thesis
      unfolding write_private_files_def directory_answer_def u(1)
      by (cases "dir_restricted env"; cases r) (simp_all add: and_then_def r rv del: write_pems.simps write_credentials.simps)
  qed
  have split: "fst (case p of (Inl e, st') \<Rightarrow> (Inl e, st') | (Inr vals', st') \<Rightarrow> (Inr (Some d, vals'), st'))
    = map_sum id (\<lambda>v. (Some d, v)) (fst p)" for p :: "settings io_result \<times> credential_store"
    by (cases p; cases "fst p") auto
  show ?thesis
    unfolding materialize_files_def materialize_embedded_credentials_def
    by (auto simp: and_then_def split files [unfolded and_then_def] split: sum.splits
        simp del: write_credentials.simps)
qed

lemma write_private_files_pems:
  assumes "write_private_files env d [(''certificate'', c), (''key'', k), (''ca'', a)] vals st = (Inr vals', st')"
    "private_directory d st" "dir_removed env"
  shows "\<forall>(name, pem) \<in> {(''certificate'', c), (''key'', k), (''ca'', a)}.
    vals' (pem_field name) = Some (pem_path d name) \<and> file_contents st' (pem_path d name) = Some pem"
proof -
  obtain u where u: "write_pems env d [(''certificate'', c), (''key'', k), (''ca'', a)] vals u = (Inr vals', st')"
    using write_private_files_result [OF assms] by auto
  have "distinct (map fst [(''certificate'', c), (''key'', k), (''ca'', a)])" by simp
  from write_pems_files [OF u this] write_pems_values [OF u] show ?thesis by (simp add: pem_field_def)
qed

lemma materialize_files_cases:
  assumes "materialize_files env fs d path vals st = (r, st')" "private_directory d st" "dir_removed env"
  shows "case r of
      Inl _ \<Rightarrow> st' = st
    | Inr (None, _) \<Rightarrow> st' = st
    | Inr (Some guard, vals') \<Rightarrow> guard = d \<and> d \<notin> directories st \<and> remove_dir_all env d st' = st
        \<and> (\<exists>text. fs path = Inr text \<and> (\<forall>name \<in> {''certificate'', ''key'', ''ca''}. \<exists>pem.
              embedded_section text name = Inr pem \<and> vals' (pem_field name) = Some (pem_path d name)
              \<and> file_contents st' (pem_path d name) = Some pem))"
proof (cases "\<exists>text c k a. fs path = Inr text \<and> list_ex (\<lambda>line. trim line = ''[certificate]'') (lines text)
    \<and> embedded_section text ''certificate'' = Inr c \<and> embedded_section text ''key'' = Inr k \<and> embedded_section text ''ca'' = Inr a")
  case False
  then show ?thesis
    using assms(1) by (auto simp: materialize_files_def and_then_def split: sum.splits if_splits)
next
  case True
  then obtain cfg c k a where cfg: "fs path = Inr cfg" "list_ex (\<lambda>line. trim line = ''[certificate]'') (lines cfg)"
    "embedded_section cfg ''certificate'' = Inr c" "embedded_section cfg ''key'' = Inr k" "embedded_section cfg ''ca'' = Inr a"
    by blast
  obtain w v where w: "write_private_files env d [(''certificate'', c), (''key'', k), (''ca'', a)] vals st = (w, v)"
    by (metis surj_pair)
  note result = write_private_files_result [OF w assms(2,3)]
  show ?thesis
  proof (cases w)
    case (Inl e)
    then show ?thesis using assms(1) cfg w result by (auto simp: materialize_files_def and_then_def)
  next
    case (Inr vals')
    then have "r = Inr (Some d, vals')" "st' = v"
      using assms(1) cfg w by (simp_all add: materialize_files_def and_then_def)
    then show ?thesis
      using result Inr cfg write_private_files_pems [OF w [unfolded Inr] assms(2,3)] by simp
  qed
qed

section \<open>Properties\<close>

text \<open>
  C26: The embedded credentials leave nothing behind: whatever the operating system answers, at
  whichever file writing fails and however the run ends, afterwards no file and no directory is there
  that was not there before, provided the private directory can be removed. While the run lasts the
  settings name three files in that directory with exactly the sections of the configuration, and the
  function returns what its model without a file system returns. The directory is taken to hold files
  only if it exists.
\<close>

theorem credentials_leave_nothing:
  assumes "private_directory d st" "dir_removed env"
  shows "snd (with_credentials env fs d path vals body st) = st
    \<and> fst (materialize_files env fs d path vals st)
        = materialize_embedded_credentials fs (directory_answer env d st) (write_answer env) path vals
    \<and> (\<forall>guard vals' st'. materialize_files env fs d path vals st = (Inr (Some guard, vals'), st') \<longrightarrow>
          guard = d \<and> d \<notin> directories st
          \<and> (\<exists>text. fs path = Inr text \<and> (\<forall>name \<in> {''certificate'', ''key'', ''ca''}. \<exists>pem.
                embedded_section text name = Inr pem \<and> vals' (pem_field name) = Some (pem_path d name)
                \<and> file_contents st' (pem_path d name) = Some pem)))"
proof (intro conjI allI impI)
  obtain r st' where m: "materialize_files env fs d path vals st = (r, st')" by (metis surj_pair)
  show "snd (with_credentials env fs d path vals body st) = st"
    using materialize_files_cases [OF m assms]
    by (cases r; cases "fst (projr r)"; cases "projr r") (auto simp: with_credentials_def m)
qed (use materialize_files_result [OF assms(1)] materialize_files_cases [OF _ assms] in fastforce)+

theorem credentials_leave_nothing_witness:
  "let st = \<lparr>file_contents = Map.empty, directories = {}\<rparr>;
       env = \<lparr>dir_created = Inr (), dir_restricted = Inr (), dir_removed = True,
         pem_written = (\<lambda>p. if p = ''/t/ca.pem'' then WriteFails ''-----BEG'' (error_other ''disk full'') else Written)\<rparr>;
       pem = ''-----BEGIN X'' @ [newline] @ ''-----END X'' @ [newline];
       text = ''[certificate]'' @ [newline] @ pem @ ''[key]'' @ [newline] @ pem @ ''[ca]'' @ [newline] @ pem
   in projl (fst (materialize_files env (\<lambda>_. Inr text) ''/t'' ''c.ini'' Map.empty st)) = error_other ''disk full''
     \<and> snd (with_credentials env (\<lambda>_. Inr text) ''/t'' ''c.ini'' Map.empty (\<lambda>_ _. ()) st) = st"
proof -
  let ?st = "\<lparr>file_contents = Map.empty, directories = {}\<rparr> :: credential_store"
  let ?env = "\<lparr>dir_created = Inr (), dir_restricted = Inr (), dir_removed = True,
    pem_written = (\<lambda>p. if p = ''/t/ca.pem'' then WriteFails ''-----BEG'' (error_other ''disk full'') else Written)\<rparr>"
  let ?pem = "''-----BEGIN X'' @ [newline] @ ''-----END X'' @ [newline]"
  let ?text = "''[certificate]'' @ [newline] @ ?pem @ ''[key]'' @ [newline] @ ?pem @ ''[ca]'' @ [newline] @ ?pem"
  have "private_directory ''/t'' ?st" "dir_removed ?env" by (simp_all add: private_directory_def)
  note use_it = credentials_leave_nothing [OF this]
  have "projl (fst (materialize_files ?env (\<lambda>_. Inr ?text) ''/t'' ''c.ini'' Map.empty ?st)) = error_other ''disk full''"
    by code_simp
  then show ?thesis unfolding Let_def using use_it [of "\<lambda>_. Inr ?text"] by blast
qed

end
