(* ===== verification/Vpn_Server_Threads.thy ===== *)
theory Vpn_Server_Threads
  imports Vpn_Server_Life
begin

text \<open>
  The reading threads of the server as threads of \<open>Vpn_Server_Life\<close>: a turn of the loop over the TUN
  device (\<open>src/src/server/tun_read.rs\<close>) and the receiving loop of the main thread
  (\<open>src/src/server/udp_read.rs\<close>), whose step functions are in \<open>Vpn_Tun\<close>, do nothing to the queues, the
  generations and the flag that the step relation does not do. A natural number in the relation stands
  for the generation of 64 bits that it is congruent to.
\<close>

section \<open>Views\<close>

text \<open>What a reader shares, seen in the state of the relation: by its queue and the flag.\<close>

definition queue_view :: "nat \<Rightarrow> bool \<Rightarrow> 'a queue \<Rightarrow> bool" where
  "queue_view n shut q \<longleftrightarrow> generation q = word_of_nat n \<and> closed q = shut"

definition device_view :: "life \<Rightarrow> 'a reader \<Rightarrow> bool" where
  "device_view s r \<longleftrightarrow> queue_view (tun_generation s) (tun_closed s) (reader_queue r) \<and> reader_active r = life_active s"

definition socket_view :: "life \<Rightarrow> 'a reader \<Rightarrow> bool" where
  "socket_view s r \<longleftrightarrow> queue_view (udp_generation s) (udp_closed s) (reader_queue r)"

lemma reader_push_view:
  assumes "reader_push x r = (ok, r')" "queue_view n shut (reader_queue r)"
  shows "queue_view (if ok then Suc n else n) shut (reader_queue r')"
  using assms
  by (auto simp: reader_push_def push_def queue_view_def Let_def split: prod.splits sum.splits option.splits if_splits)

lemma reader_push_active: "reader_push x r = (ok, r') \<Longrightarrow> reader_active r' = reader_active r"
  by (auto simp: reader_push_def split: prod.splits sum.splits option.splits)

lemma close_view:
  assumes "queue_view n shut q"
  shows "queue_view (if shut then n else Suc n) True (close q)"
  using assms by (auto simp: queue_view_def close_def)

section \<open>The thread that reads the device\<close>

text \<open>A turn from the point where polling the device has returned.\<close>

text \<open>The end of the thread, by whatever way, clears the flag (\<open>StopOnDrop\<close>).\<close>

definition stopped_reader :: "'a reader \<Rightarrow> 'a reader" where
  "stopped_reader r = r\<lparr>reader_active := False\<rparr>"

lemma thread_step_simps [simp]:
  "tun_generation (set_pc th p s) = tun_generation s" "tun_generation (thread_end th s) = tun_generation s"
  "tun_closed (thread_end th s) = tun_closed s" "\<not> life_active (thread_end th s)"
  "pc_of (thread_end th s) = (pc_of s)(th := Ended)"
  "reader_queue (stopped_reader r) = reader_queue r" "\<not> reader_active (stopped_reader r)"
  by (simp_all add: set_pc_def thread_end_def stopped_reader_def)

lemma reader_fail_refines:
  assumes "pc_of s TunReadThread = AtRest n" "device_view s r"
  shows "\<exists>t. life_step s t \<and> pc_of t TunReadThread = Ended \<and> device_view t (stopped_reader (reader_fail e r))"
proof -
  let ?u = "s\<lparr>tun_closed := True, tun_generation := (if tun_closed s then tun_generation s else Suc (tun_generation s))\<rparr>"
  have "effects s ?u" by (simp add: effects_def)
  then have "life_step s (thread_end TunReadThread ?u)" using rest_end [OF assms(1)] by (simp add: may_work_def)
  moreover have "device_view (thread_end TunReadThread ?u) (stopped_reader (reader_fail e r))"
    using assms(2) close_view [of "tun_generation s" "tun_closed s" "reader_queue r"]
    by (simp add: reader_fail_def device_view_def)
  ultimately show ?thesis by (intro exI [of _ "thread_end TunReadThread ?u"]) simp
qed

lemma rest_again_refines:
  assumes "pc_of s TunReadThread = AtRest n" "device_view s r"
  shows "\<exists>t. life_step s t \<and> pc_of t TunReadThread = AtCheck \<and> device_view t r"
  using rest_again [OF assms(1) _ effects_refl] assms(2)
  by (intro exI [of _ "set_pc TunReadThread AtCheck s"]) (simp add: device_view_def)

lemma reader_push_refines:
  assumes "pc_of s TunReadThread = AtRest n" "device_view s r" "reader_push p r = (go, r')"
  shows "\<exists>t. life_step s t \<and> pc_of t TunReadThread = (if go then AtCheck else Ended)
    \<and> device_view t (if go then r' else stopped_reader r')"
proof (cases go)
  case True
  let ?u = "s\<lparr>tun_generation := Suc (tun_generation s)\<rparr>"
  have "effects s ?u" by (simp add: effects_def)
  then have "life_step s (set_pc TunReadThread AtCheck ?u)" using rest_again [OF assms(1)] by simp
  moreover have "device_view (set_pc TunReadThread AtCheck ?u) r'"
    using assms(2) reader_push_view [OF assms(3)] reader_push_active [OF assms(3)] True by (simp add: device_view_def)
  ultimately show ?thesis using True by (intro exI [of _ "set_pc TunReadThread AtCheck ?u"]) simp
next
  case False
  have "life_step s (thread_end TunReadThread s)" by (rule rest_end [OF assms(1)]) (simp_all add: may_work_def)
  moreover have "device_view (thread_end TunReadThread s) (stopped_reader r')"
    using assms(2) reader_push_view [OF assms(3)] False by (simp add: device_view_def)
  ultimately show ?thesis using False by (intro exI [of _ "thread_end TunReadThread s"]) simp
qed

lemma tun_reader_refines_life:
  assumes "tun_read_turn enobufs echo_address polled packet r = (go, reply, r')"
    and "pc_of s TunReadThread = AtRest n" "device_view s r"
  shows "\<exists>t. life_step s t \<and> pc_of t TunReadThread = (if go then AtCheck else Ended)
    \<and> device_view t (if go then r' else stopped_reader r')"
proof -
  consider (failed) e where "\<not> go" "r' = reader_fail e r" | (same) "go" "r' = r"
    | (pushed) p where "reader_push p r = (go, r')"
    using assms(1)
    by (auto simp: tun_read_turn_def split: sum.splits if_splits list.splits option.splits prod.splits tun_error_action.splits)
  then show ?thesis
  proof cases
    case failed
    then show ?thesis using reader_fail_refines [OF assms(2,3)] by simp
  next
    case same
    then show ?thesis using rest_again_refines [OF assms(2,3)] by simp
  next
    case pushed
    then show ?thesis by (rule reader_push_refines [OF assms(2,3)])
  qed
qed

section \<open>The main thread\<close>

text \<open>The receiving loop: every datagram is one step of the relation; a refused one ends the loop.\<close>

lemma receiver_refines_life:
  assumes "udp_receive_loop script r = Some (stop, r')" "main_at s = Receiving" "socket_view s r"
  shows "\<exists>t. life_step\<^sup>*\<^sup>* s t \<and> main_at t = Receiving \<and> socket_view t r' \<and> pc_of t = pc_of s"
  using assms
proof (induction script r arbitrary: s rule: udp_receive_loop.induct)
  case (2 x script r)
  obtain ok u where push: "reader_push x r = (ok, u)" by (metis surj_pair)
  show ?case
  proof (cases ok)
    case True
    let ?s = "s\<lparr>udp_generation := Suc (udp_generation s)\<rparr>"
    have "effects s ?s" by (simp add: effects_def)
    then have step: "life_step s ?s" by (rule receives [OF 2(3)])
    have "socket_view ?s u" using 2(4) reader_push_view [OF push] True by (simp add: socket_view_def)
    moreover have "udp_receive_loop script u = Some (stop, r')" using 2(2) push True by simp
    ultimately obtain t where "life_step\<^sup>*\<^sup>* ?s t" "main_at t = Receiving" "socket_view t r'" "pc_of t = pc_of s"
      using 2(1) [of True u ?s] push True 2(3) by auto
    then show ?thesis using step by (meson converse_rtranclp_into_rtranclp)
  next
    case False
    then have "socket_view s r'" using 2(2,4) push reader_push_view [OF push] by (simp add: socket_view_def)
    then show ?thesis using 2(3) by blast
  qed
next
  case (3 e script r)
  then show ?case by (auto split: if_splits)
qed simp

end
