(* ===== verification/Vpn_Tunnel.thy ===== *)
theory Vpn_Tunnel
  imports Vpn_Server Vpn_Client_Workers
begin

text \<open>
  A client and a server composed: packets of the client's TUN device go through the client's
  encrypting worker and UDP writer, the network, and the server's decrypting worker to the server's
  TUN device. The operations are those of \<open>Vpn_Client_Workers\<close> and \<open>Vpn_Server_Decrypt\<close>; the
  network loses, delays, reorders and replays datagrams and carries what an attacker puts on it.

  What DTLS promises is stated as two predicates on the wolfSSL parameter: \<open>secure_sender\<close> (a
  successful write seals the packet under the next record number and hands it to the send callback)
  and \<open>secure_receiver\<close> (only a record that the peer sealed and that was not taken before becomes
  readable). The property is then about the program: what reaches the server's device.
\<close>

section \<open>DTLS\<close>

definition injective_seal :: "(nat \<Rightarrow> byte list \<Rightarrow> byte list) \<Rightarrow> bool" where
  "injective_seal seal \<longleftrightarrow> (\<forall>n p m q. seal n p = seal m q \<longrightarrow> n = m \<and> p = q)"

text \<open>\<open>record_number\<close> is the number of the next record a connection seals.\<close>

definition secure_sender :: "'w wolfssl \<Rightarrow> (nat \<Rightarrow> byte list \<Rightarrow> byte list) \<Rightarrow> ('w option \<Rightarrow> nat) \<Rightarrow> bool" where
  "secure_sender W seal record_number \<longleftrightarrow>
     (\<forall>w io data r w' io'. ssl_write W w io data = (r, w', io') \<longrightarrow>
        (if 0 < r
         then (\<exists>now n c. io = Some c \<and> io' = Some (snd (dtls_send now n (seal (record_number w) data) c)))
              \<and> record_number w' = Suc (record_number w)
         else io' = io \<and> record_number w' = record_number w))"

text \<open>\<open>taken\<close> are the numbers of the records a connection accepted, \<open>readable\<close> the payloads not read yet.\<close>

definition secure_receiver :: "'w wolfssl \<Rightarrow> (nat \<Rightarrow> byte list \<Rightarrow> byte list) \<Rightarrow> ('w option \<Rightarrow> nat set) \<Rightarrow>
    ('w option \<Rightarrow> byte list list) \<Rightarrow> bool" where
  "secure_receiver W seal taken readable \<longleftrightarrow>
     (\<forall>w d r w'. ssl_inject W w d = (r, w') \<longrightarrow>
        taken w' = taken w \<and> readable w' = readable w
        \<or> (\<exists>n p. d = seal n p \<and> n \<notin> taken w \<and> taken w' = insert n (taken w) \<and> readable w' = readable w @ [p]))
     \<and> (\<forall>w io room r bytes w' io'. ssl_read W w io room = (r, bytes, w', io') \<longrightarrow>
          taken w' = taken w
          \<and> (if 0 < r then readable w = take (nat r) bytes # readable w' else readable w' = readable w))"

section \<open>The composed system\<close>

record 'w tunnel =
  sender :: "'w client"
  network :: "byte list multiset"
  receiver :: "'w session"
  device :: "byte list list"
  payloads :: "byte list list"

text \<open>Whether the closure of the encrypting worker wrote the packet.\<close>

definition sealed_payload :: "'w wolfssl \<Rightarrow> byte list \<Rightarrow> 'w client \<Rightarrow> byte list list" where
  "sealed_payload W packet s =
     (if active s then (case write_status W packet (link s) of (Inr (Complete n), d) \<Rightarrow> [packet] | _ \<Rightarrow> []) else [])"

text \<open>The datagram a turn of the UDP writer puts on the network.\<close>

definition transmitted :: "instant \<Rightarrow> bool \<Rightarrow> nat io_result \<Rightarrow> encrypted_datagram queue \<Rightarrow> byte list multiset" where
  "transmitted now still sent q =
     (case peek q of
        Some (Some front, rest) \<Rightarrow>
          if still \<and> \<not> seconds 2 \<le> now - enqueued_at front \<and> sent = Inr (length (datagram_bytes front))
          then {#datagram_bytes front#} else {#}
      | _ \<Rightarrow> {#})"

text \<open>
  What may be on the network: nobody but the client makes a record; an attacker repeats what was sent
  or sends what is no record.
\<close>

definition unforged :: "(nat \<Rightarrow> byte list \<Rightarrow> byte list) \<Rightarrow> byte list list \<Rightarrow> byte list \<Rightarrow> bool" where
  "unforged seal ps d \<longleftrightarrow> (\<forall>n p. d = seal n p \<longrightarrow> n < length ps \<and> p = ps ! n)"

inductive tunnel_step :: "'w wolfssl \<Rightarrow> server_config \<Rightarrow> (ipv4 \<Rightarrow> (string \<times> string) option) \<Rightarrow>
    (nat \<Rightarrow> byte list \<Rightarrow> byte list) \<Rightarrow> 'w tunnel \<Rightarrow> 'w tunnel \<Rightarrow> bool"
  for W c logins seal where
  client_encrypts:
    "client_encrypt W packet (sender t) = (finished, s) \<Longrightarrow>
     tunnel_step W c logins seal t
       (t\<lparr>sender := s, payloads := payloads t @ sealed_payload W packet (sender t)\<rparr>)"
| client_transmits:
    "callback_io (link (sender t)) = Some io \<Longrightarrow> outgoing io = Some q \<Longrightarrow>
     client_udp_write_turn now still sent q (sender t) = Some (how, q', s) \<Longrightarrow>
     tunnel_step W c logins seal t
       (t\<lparr>sender := s\<lparr>link := (link s)\<lparr>callback_io := Some (io\<lparr>outgoing := Some q'\<rparr>)\<rparr>\<rparr>,
          network := network t + transmitted now still sent q\<rparr>)"
| network_loses:
    "network t = add_mset d rest \<Longrightarrow> tunnel_step W c logins seal t (t\<lparr>network := rest\<rparr>)"
| attacker_sends:
    "unforged seal (payloads t) d \<Longrightarrow> tunnel_step W c logins seal t (t\<lparr>network := add_mset d (network t)\<rparr>)"
| server_receives:
    "network t = add_mset d rest \<Longrightarrow> inject_datagram W d (receiver t) = (on, s) \<Longrightarrow>
     tunnel_step W c logins seal t (t\<lparr>receiver := s, network := rest\<rparr>)"
| server_reads:
    "established (receiver t) \<Longrightarrow> read_session W c logins now tun (receiver t) = (s, written, e) \<Longrightarrow>
     tunnel_step W c logins seal t (t\<lparr>receiver := s, device := device t @ written\<rparr>)"

section \<open>The sending side\<close>

definition io_datagrams :: "dtls_io option \<Rightarrow> byte list list" where
  "io_datagrams v =
     (case v of
        None \<Rightarrow> []
      | Some io \<Rightarrow> (case outgoing io of None \<Rightarrow> [] | Some q \<Rightarrow> map datagram_bytes (items q)))"

definition queued_datagrams :: "'w client \<Rightarrow> byte list list" where
  "queued_datagrams s = io_datagrams (callback_io (link s))"

text \<open>A connection that sends: its record number, and the datagrams in its queue.\<close>

definition sealing_inv :: "(nat \<Rightarrow> byte list \<Rightarrow> byte list) \<Rightarrow> ('w option \<Rightarrow> nat) \<Rightarrow> byte list list \<Rightarrow> 'w dtls \<Rightarrow> bool" where
  "sealing_inv seal record_number ps d \<longleftrightarrow>
     record_number (ssl d) = length ps \<and> (\<forall>x \<in> set (io_datagrams (callback_io d)). unforged seal ps x)"

definition sending_inv :: "(nat \<Rightarrow> byte list \<Rightarrow> byte list) \<Rightarrow> ('w option \<Rightarrow> nat) \<Rightarrow> byte list list \<Rightarrow> 'w client \<Rightarrow> bool" where
  "sending_inv seal record_number ps s \<longleftrightarrow> sealing_inv seal record_number ps (link s)"

lemma sending_inv_iff:
  "sending_inv seal record_number ps s \<longleftrightarrow>
     record_number (ssl (link s)) = length ps \<and> (\<forall>d \<in> set (queued_datagrams s). unforged seal ps d)"
  by (simp add: sending_inv_def sealing_inv_def queued_datagrams_def)

lemma unforged_grows: "unforged seal ps d \<Longrightarrow> unforged seal (ps @ qs) d"
  unfolding unforged_def by (metis length_append nth_append trans_less_add1)

lemma unforged_sealed: "injective_seal seal \<Longrightarrow> unforged seal (ps @ [p]) (seal (length ps) p)"
  unfolding unforged_def injective_seal_def by (metis length_append_singleton lessI nth_append_length)

lemma dtls_send_queued:
  "set (io_datagrams (Some (snd (dtls_send now n bytes io)))) \<subseteq> insert bytes (set (io_datagrams (Some io)))"
proof (cases "outgoing io")
  case None
  then show ?thesis by (simp add: dtls_send_def io_datagrams_def)
next
  case (Some q)
  obtain r q' where p: "push \<lparr>datagram_bytes = bytes, enqueued_at = now\<rparr> q = (r, q')" by (metis surj_pair)
  then have "set (items q') \<subseteq> insert \<lparr>datagram_bytes = bytes, enqueued_at = now\<rparr> (set (items q))"
    by (cases "items q") (auto simp: push_def pop_front_def Let_def split: if_splits)
  then show ?thesis using Some p by (cases r) (auto simp: dtls_send_def io_datagrams_def)
qed

lemma write_status_sends:
  assumes sec: "secure_sender W seal record_number" and w: "write_status W data d = (r, d')"
  shows "(\<exists>n. r = Inr (Complete n)) \<and> record_number (ssl d') = Suc (record_number (ssl d))
      \<and> (\<exists>now n io. callback_io d = Some io
           \<and> callback_io d' = Some (snd (dtls_send now n (seal (record_number (ssl d)) data) io)))
    \<or> (\<nexists>n. r = Inr (Complete n)) \<and> record_number (ssl d') = record_number (ssl d) \<and> callback_io d' = callback_io d"
proof -
  obtain code w' io' where c: "ssl_write W (ssl d) (callback_io d) data = (code, w', io')" by (metis prod_cases3)
  have d': "ssl d' = w'" "callback_io d' = io'" and r: "(\<exists>n. r = Inr (Complete n)) = (0 < code)"
    using w c by (auto simp: write_status_def Let_def split: if_splits)
  show ?thesis
    using sec [unfolded secure_sender_def, rule_format, OF c] d' r by (cases "0 < code") auto
qed

text \<open>What a write sealed.\<close>

fun sealed_by :: "dtls_io_result io_result \<Rightarrow> byte list \<Rightarrow> byte list list" where
  "sealed_by (Inr (Complete n)) packet = [packet]"
| "sealed_by _ packet = []"

lemma sealed_by_iff: "sealed_by r packet = (if \<exists>n. r = Inr (Complete n) then [packet] else [])"
  by (cases "(r, packet)" rule: sealed_by.cases) auto

lemma write_keeps_sealing:
  assumes sec: "secure_sender W seal record_number" and inj: "injective_seal seal"
    and inv: "sealing_inv seal record_number ps d" and w: "write_status W packet d = (r, d')"
  shows "sealing_inv seal record_number (ps @ sealed_by r packet) d'"
  using write_status_sends [OF sec w]
proof
  assume a: "(\<exists>n. r = Inr (Complete n)) \<and> record_number (ssl d') = Suc (record_number (ssl d))
    \<and> (\<exists>now n io. callback_io d = Some io
         \<and> callback_io d' = Some (snd (dtls_send now n (seal (record_number (ssl d)) packet) io)))"
  have n: "record_number (ssl d) = length ps" using inv by (simp add: sealing_inv_def)
  obtain now n io where io: "callback_io d = Some io"
    "callback_io d' = Some (snd (dtls_send now n (seal (length ps) packet) io))"
    using a n by auto
  have "unforged seal (ps @ [packet]) x" if x: "x \<in> set (io_datagrams (callback_io d'))" for x
  proof -
    have "x \<in> set (io_datagrams (callback_io d)) \<or> x = seal (length ps) packet"
      using dtls_send_queued [of now n "seal (length ps) packet" io] x io by auto
    then show ?thesis
      using inv unforged_grows unforged_sealed [OF inj] by (fastforce simp: sealing_inv_def)
  qed
  then show ?thesis using a n by (auto simp: sealing_inv_def sealed_by_iff)
next
  assume "(\<nexists>n. r = Inr (Complete n)) \<and> record_number (ssl d') = record_number (ssl d) \<and> callback_io d' = callback_io d"
  then show ?thesis using inv by (simp add: sealing_inv_def sealed_by_iff)
qed

lemma encrypt_keeps_sending:
  assumes sec: "secure_sender W seal record_number" and inj: "injective_seal seal"
    and inv: "sending_inv seal record_number ps s" and e: "client_encrypt W packet s = (finished, s')"
  shows "sending_inv seal record_number (ps @ sealed_payload W packet s) s'"
proof (cases "active s")
  case False
  then show ?thesis using inv e by (simp add: client_encrypt_def sealed_payload_def)
next
  case True
  obtain r d where w: "write_status W packet (link s) = (r, d)" by (metis surj_pair)
  then have "link s' = d" using e True
    by (auto simp: client_encrypt_def client_fail_def split: sum.splits dtls_io_result.splits)
  moreover have "sealed_payload W packet s = sealed_by r packet"
    using w True by (auto simp: sealed_payload_def split: sum.splits dtls_io_result.splits)
  ultimately show ?thesis using write_keeps_sealing [OF sec inj _ w] inv by (simp add: sending_inv_def)
qed

text \<open>A turn of the UDP writer only moves datagrams from the queue to the network.\<close>

lemma udp_write_turn_moves:
  assumes "client_udp_write_turn now still sent q s = Some (how, q', s')"
  shows "set (items q') \<subseteq> set (items q) \<and> link s' = link s
    \<and> set_mset (transmitted now still sent q) \<subseteq> datagram_bytes ` set (items q)"
proof -
  have front: "items q = front # items rest \<and> closed rest = closed q" if "peek q = Some (Some front, rest)" for front rest
    using that by (auto simp: peek_eq_pop pop_def pop_front_def split: if_splits list.splits)
  have drop: "set (items (front_drop front rest)) \<subseteq> insert front (set (items rest))" for front rest
    by (auto simp: front_drop_def dest: in_set_butlastD)
  show ?thesis
  proof (cases "peek q")
    case None
    then show ?thesis using assms by (simp add: client_udp_write_turn_def)
  next
    case (Some a)
    then obtain v rest where a: "peek q = Some (v, rest)" by (cases a) auto
    show ?thesis
    proof (cases v)
      case None
      then show ?thesis using a assms by (simp add: client_udp_write_turn_def transmitted_def)
    next
      case (Some x)
      then have q: "set (items q) = insert x (set (items rest))" using front [of x rest] a by simp
      have t: "set_mset (transmitted now still sent q) \<subseteq> {datagram_bytes x}"
        using a Some by (simp add: transmitted_def)
      have "link s' = link s \<and> (q' = rest \<or> q' = front_drop x rest)"
        using assms a Some
        by (auto simp: client_udp_write_turn_def client_fail_def Let_def split: if_splits sum.splits)
      then show ?thesis using q t drop [of x rest] by auto
    qed
  qed
qed

section \<open>The receiving side\<close>

text \<open>The payloads of the records that were taken: read and handed on, read and consumed, or readable.\<close>

definition payload_bag :: "byte list list \<Rightarrow> nat set \<Rightarrow> byte list multiset" where
  "payload_bag ps numbers = image_mset (nth ps) (mset_set numbers)"

definition taking_inv :: "('w option \<Rightarrow> nat set) \<Rightarrow> ('w option \<Rightarrow> byte list list) \<Rightarrow> byte list list \<Rightarrow>
    byte list multiset \<Rightarrow> 'w dtls \<Rightarrow> bool" where
  "taking_inv taken readable ps out d \<longleftrightarrow>
     taken (ssl d) \<subseteq> {..< length ps} \<and> out + mset (readable (ssl d)) \<subseteq># payload_bag ps (taken (ssl d))"

definition receiving_inv :: "(nat \<Rightarrow> byte list \<Rightarrow> byte list) \<Rightarrow> ('w option \<Rightarrow> nat set) \<Rightarrow> ('w option \<Rightarrow> byte list list) \<Rightarrow>
    byte list list \<Rightarrow> byte list multiset \<Rightarrow> 'w session \<Rightarrow> bool" where
  "receiving_inv seal taken readable ps out s \<longleftrightarrow>
     taking_inv taken readable ps out (conn s) \<and> (\<forall>d \<in> set (pending_inject s). unforged seal ps d)"

lemma receiving_inv_iff:
  "receiving_inv seal taken readable ps out s \<longleftrightarrow>
     taken (ssl (conn s)) \<subseteq> {..< length ps}
     \<and> out + mset (readable (ssl (conn s))) \<subseteq># payload_bag ps (taken (ssl (conn s)))
     \<and> (\<forall>d \<in> set (pending_inject s). unforged seal ps d)"
  by (simp add: receiving_inv_def taking_inv_def)

lemma payload_bag_insert:
  "numbers \<subseteq> {..< length ps} \<Longrightarrow> n \<notin> numbers \<Longrightarrow> payload_bag ps (insert n numbers) = add_mset (ps ! n) (payload_bag ps numbers)"
  by (simp add: payload_bag_def finite_subset [of numbers "{..< length ps}"])

lemma payload_bag_append:
  "numbers \<subseteq> {..< length ps} \<Longrightarrow> payload_bag (ps @ qs) numbers = payload_bag ps numbers"
  by (auto simp: payload_bag_def finite_subset [of numbers "{..< length ps}"] nth_append intro!: image_mset_cong)

lemma payload_bag_sent:
  assumes "numbers \<subseteq> {..< length ps}"
  shows "payload_bag ps numbers \<subseteq># mset ps"
proof -
  have "payload_bag ps numbers \<subseteq># payload_bag ps {..< length ps}"
    unfolding payload_bag_def by (intro image_mset_subseteq_mono subset_imp_msubset_mset_set assms finite_lessThan)
  also have "payload_bag ps {..< length ps} = mset (map (nth ps) [0 ..< length ps])"
    by (simp add: payload_bag_def lessThan_atLeast0 flip: mset_upt)
  also have "\<dots> = mset ps" by (simp add: map_nth)
  finally show ?thesis .
qed

lemma inject_takes:
  assumes sec: "secure_receiver W seal taken readable" and inv: "taking_inv taken readable ps out d"
    and x: "unforged seal ps x" and i: "inject W x d = (r, d')"
  shows "taking_inv taken readable ps out d'"
proof (cases "2 ^ 31 \<le> length x")
  case True
  then show ?thesis using i inv by (simp add: inject_def)
next
  case False
  obtain code w' where c: "ssl_inject W (ssl d) x = (code, w')" by (metis surj_pair)
  then have d': "ssl d' = w'" using i False by (auto simp: inject_def)
  have "taken w' = taken (ssl d) \<and> readable w' = readable (ssl d)
      \<or> (\<exists>n p. x = seal n p \<and> n \<notin> taken (ssl d) \<and> taken w' = insert n (taken (ssl d))
           \<and> readable w' = readable (ssl d) @ [p])"
    using conjunct1 [OF sec [unfolded secure_receiver_def], rule_format, OF c] .
  then show ?thesis
  proof (elim disjE exE conjE)
    assume "taken w' = taken (ssl d)" "readable w' = readable (ssl d)"
    then show ?thesis using inv d' by (simp add: taking_inv_def)
  next
    fix n p
    assume a: "x = seal n p" "n \<notin> taken (ssl d)" "taken w' = insert n (taken (ssl d))"
      "readable w' = readable (ssl d) @ [p]"
    then have n: "n < length ps" "p = ps ! n" using x by (auto simp: unforged_def)
    show ?thesis
      using inv a n d' payload_bag_insert [of "taken (ssl d)" ps n] by (simp add: taking_inv_def)
  qed
qed

lemma inject_receives:
  assumes "secure_receiver W seal taken readable" "receiving_inv seal taken readable ps out s"
    and "unforged seal ps d" "inject W d (conn s) = (r, x)"
  shows "receiving_inv seal taken readable ps out (s\<lparr>conn := x\<rparr>)"
  using assms(2) inject_takes [OF assms(1) _ assms(3,4)] by (simp add: receiving_inv_def)

lemma taking_inv_mono: "taking_inv taken readable ps out d \<Longrightarrow> out' \<subseteq># out \<Longrightarrow> taking_inv taken readable ps out' d"
  using subset_mset.order_trans [OF subset_mset.add_right_mono [of out' out "mset (readable (ssl d))"]]
  by (auto simp: taking_inv_def)

lemma taking_inv_grows: "taking_inv taken readable ps out d \<Longrightarrow> taking_inv taken readable (ps @ qs) out d"
  by (auto simp: taking_inv_def payload_bag_append subset_iff lessThan_iff)

lemma receiving_inv_cong:
  "receiving_inv seal taken readable ps out s \<Longrightarrow> conn s' = conn s \<Longrightarrow> set (pending_inject s') \<subseteq> set (pending_inject s) \<Longrightarrow>
   out' \<subseteq># out \<Longrightarrow> receiving_inv seal taken readable ps out' s'"
  using subset_mset.order_trans [OF subset_mset.add_right_mono [of out' out "mset (readable (ssl (conn s)))"]]
  by (auto simp: receiving_inv_iff)

lemma receiving_inv_grows:
  "receiving_inv seal taken readable ps out s \<Longrightarrow> receiving_inv seal taken readable (ps @ qs) out s"
  by (auto simp: receiving_inv_iff payload_bag_append unforged_grows subset_iff lessThan_iff)

lemma inject_datagram_receives:
  assumes sec: "secure_receiver W seal taken readable" and inv: "receiving_inv seal taken readable ps out s"
    and d: "unforged seal ps d" and i: "inject_datagram W d s = (on, s')"
  shows "receiving_inv seal taken readable ps out s'"
proof (cases "pending_inject s = []")
  case False
  then have "conn s' = conn s" "set (pending_inject s') \<subseteq> insert d (set (pending_inject s))"
    using i by (auto simp: inject_datagram_def split: if_splits)
  then show ?thesis using inv d by (auto simp: receiving_inv_iff)
next
  case True
  obtain r x where j: "inject W d (conn s) = (r, x)" by (metis surj_pair)
  then have "conn s' = x" "set (pending_inject s') \<subseteq> insert d (set (pending_inject s))"
    using i True by (auto simp: inject_datagram_def split: sum.splits bool.splits)
  moreover have "receiving_inv seal taken readable ps out (s\<lparr>conn := x\<rparr>)" by (rule inject_receives [OF sec inv d j])
  ultimately show ?thesis using d True by (auto simp: receiving_inv_iff)
qed

lemma inject_front_receives:
  assumes sec: "secure_receiver W seal taken readable" and inv: "receiving_inv seal taken readable ps out s"
  shows "receiving_inv seal taken readable ps out (inject_front W s)"
proof (cases "pending_inject s")
  case Nil
  then show ?thesis using inv by (simp add: inject_front_def)
next
  case (Cons d rest)
  obtain r x where j: "inject W d (conn s) = (r, x)" by (metis surj_pair)
  have "unforged seal ps d" using inv Cons by (simp add: receiving_inv_iff)
  then have "receiving_inv seal taken readable ps out (s\<lparr>conn := x\<rparr>)" by (rule inject_receives [OF sec inv _ j])
  then show ?thesis
    by (rule receiving_inv_cong)
      (use Cons j in \<open>auto simp: inject_front_def split: sum.splits bool.splits\<close>)
qed

lemma read_status_receives:
  assumes sec: "secure_receiver W seal taken readable" and r: "read_status W room d = (r, d')"
  shows "taken (ssl d') = taken (ssl d)
    \<and> (case r of Inr (Complete n, p) \<Rightarrow> readable (ssl d) = p # readable (ssl d') | _ \<Rightarrow> readable (ssl d') = readable (ssl d))"
proof -
  obtain code bytes w' io' where c: "ssl_read W (ssl d) (callback_io d) room = (code, bytes, w', io')"
    by (metis prod_cases4)
  have w: "taken w' = taken (ssl d)"
      "if 0 < code then readable (ssl d) = take (nat code) bytes # readable w' else readable w' = readable (ssl d)"
    using conjunct2 [OF sec [unfolded secure_receiver_def], rule_format, OF c] by blast+
  show ?thesis
  proof (cases "0 < code")
    case True
    then show ?thesis using w r c by (simp add: read_status_def Let_def) (auto simp: w)
  next
    case False
    then have "ssl d' = w'" "\<nexists>n p. r = Inr (Complete n, p)"
      using r c by (auto simp: read_status_def Let_def split: if_splits)
    then show ?thesis using w False by (auto split: sum.splits prod.splits dtls_io_result.splits)
  qed
qed

lemma handle_packet_writes:
  assumes "handle_packet c now tun packet s = (s', written, e)"
  shows "conn s' = conn s \<and> pending_inject s' = pending_inject s \<and> raw_tx_queue s' = raw_tx_queue s
    \<and> (written = [] \<or> written = [packet])"
  using assms by (auto simp: handle_packet_def Let_def split: option.splits if_splits sum.splits)

text \<open>What a read took, and that the payload then counts as handed out.\<close>

fun read_by :: "(dtls_io_result \<times> byte list) io_result \<Rightarrow> byte list list" where
  "read_by (Inr (Complete n, packet)) = [packet]"
| "read_by _ = []"

lemma read_takes:
  assumes "secure_receiver W seal taken readable" "taking_inv taken readable ps out d" "read_status W room d = (r, d')"
  shows "taking_inv taken readable ps (out + mset (read_by r)) d'"
  using read_status_receives [OF assms(1,3)] assms(2)
  by (cases r rule: read_by.cases) (simp_all add: taking_inv_def)

text \<open>
  What reading a session does: it reads at most one record, may inject a waiting datagram, queues at
  most one answer that is no packet of the tunnel, and writes at most the packet it read.
\<close>

definition answers :: "(byte list \<times> instant) queue \<Rightarrow> (byte list \<times> instant) queue \<Rightarrow> bool" where
  "answers q q' \<longleftrightarrow> q' = q \<or> (\<exists>answer now. tun_packet answer = None \<and> q' = snd (push (answer, now) q))"

lemma no_tunnel_packets:
  "tun_packet AUTH_OK = None" "tun_packet AUTH_FAILED = None" "tun_packet KEEPALIVE_PACKET = None"
proof -
  have "drop_bit 4 (0xFF :: byte) \<noteq> 4" by simp
  then show "tun_packet AUTH_OK = None" "tun_packet AUTH_FAILED = None"
    by (simp_all add: tun_packet_def ipv4_packet_addresses_def AUTH_OK_def AUTH_FAILED_def)
  show "tun_packet KEEPALIVE_PACKET = None" by (simp add: tun_packet_def is_keepalive_packet_def)
qed

lemma queue_answer:
  "tun_packet answer = None \<Longrightarrow> answers (raw_tx_queue s) (raw_tx_queue (queue_session_plain now answer s))"
  by (auto simp: answers_def queue_session_plain_def)

lemma handle_login_answers:
  "conn (handle_login logins now packet s) = conn s \<and> pending_inject (handle_login logins now packet s) = pending_inject s
   \<and> answers (raw_tx_queue s) (raw_tx_queue (handle_login logins now packet s))"
  using queue_answer [OF no_tunnel_packets(1)] queue_answer [OF no_tunnel_packets(2)]
  by (auto simp: handle_login_def Let_def answers_def queue_session_plain_def split: option.splits)

lemma read_session_shape:
  assumes rd: "read_session W c logins now tun s = (s', written, e)"
  shows "s' = s \<and> written = [] \<or> (\<exists>r d t. read_status W READ_BUFFER (conn s) = (r, d) \<and> conn t = d
    \<and> (s' = t \<or> s' = inject_front W t) \<and> pending_inject t = pending_inject s \<and> (written = [] \<or> written = read_by r)
    \<and> answers (raw_tx_queue s) (raw_tx_queue t))"
proof (cases "\<not> drain_pending s \<and> pending_inject s = []")
  case True
  then show ?thesis using rd by (simp add: read_session_def)
next
  case go: False
  obtain r d where r: "read_status W READ_BUFFER (conn s) = (r, d)" by (metis surj_pair)
  have same: "answers q q" for q by (simp add: answers_def)
  show ?thesis
  proof (cases "\<exists>n packet. r = Inr (Complete n, packet) \<and> 0 < n")
    case False
    then have "\<exists>b. s' = inject_front W (s\<lparr>conn := d, drain_pending := b\<rparr>) \<and> written = []"
      using rd go r by (auto simp: read_session_def split: sum.splits prod.splits dtls_io_result.splits if_splits)
    then obtain b where "s' = inject_front W (s\<lparr>conn := d, drain_pending := b\<rparr>) \<and> written = []" by blast
    then show ?thesis using r same by (intro disjI2 exI [of _ r] exI [of _ d] exI [of _ "s\<lparr>conn := d, drain_pending := b\<rparr>"]) simp
  next
    case True
    then obtain n packet where rr: "r = Inr (Complete n, packet)" "0 < n" by blast
    let ?s = "s\<lparr>conn := d, drain_pending := True\<rparr>"
    obtain s3 w3 e3 where h: "handle_packet c now tun packet ?s = (s3, w3, e3)" by (metis prod_cases3)
    have "\<exists>t. (s' = t \<or> s' = inject_front W t) \<and> conn t = d \<and> pending_inject t = pending_inject s
        \<and> (written = [] \<or> written = [packet]) \<and> answers (raw_tx_queue s) (raw_tx_queue t)"
    proof -
      consider "\<not> authenticated s" | "authenticated s" "is_keepalive_packet packet" | "authenticated s" "\<not> is_keepalive_packet packet"
        by blast
      then show ?thesis
      proof cases
        case 1
        then have "(s' = ?s \<or> s' = handle_login logins now packet ?s) \<and> written = []"
          using rd go r rr by (auto simp: read_session_def Let_def split: if_splits)
        then show ?thesis using handle_login_answers [of logins now packet ?s] same by (intro exI [of _ s']) auto
      next
        case 2
        let ?t = "queue_session_plain now KEEPALIVE_PACKET (?s\<lparr>last_activity := now\<rparr>)"
        have "s' = ?t \<and> written = []" using 2 rd go r rr by (auto simp: read_session_def Let_def)
        then show ?thesis
          using queue_answer [OF no_tunnel_packets(3), of "?s\<lparr>last_activity := now\<rparr>" now]
          by (intro exI [of _ ?t]) (simp add: queue_session_plain_def)
      next
        case 3
        then have "(s' = s3 \<or> s' = inject_front W s3) \<and> written = w3"
          using rd go r rr h by (auto simp: read_session_def Let_def split: option.splits)
        then show ?thesis using handle_packet_writes [OF h] same by (intro exI [of _ s3]) auto
      qed
    qed
    then show ?thesis using r rr by auto
  qed
qed

lemma read_session_receives:
  assumes sec: "secure_receiver W seal taken readable" and inv: "receiving_inv seal taken readable ps out s"
    and rd: "read_session W c logins now tun s = (s', written, e)"
  shows "receiving_inv seal taken readable ps (out + mset written) s'"
proof -
  consider (same) "s' = s" "written = []"
    | (reads) r d t where "read_status W READ_BUFFER (conn s) = (r, d)" "conn t = d" "s' = t \<or> s' = inject_front W t"
        "pending_inject t = pending_inject s" "written = [] \<or> written = read_by r"
    using read_session_shape [OF rd] by blast
  then show ?thesis
  proof cases
    case same
    then show ?thesis using inv by simp
  next
    case a: reads
    have "taking_inv taken readable ps (out + mset (read_by r)) d"
      using read_takes [OF sec _ a(1)] inv by (simp add: receiving_inv_def)
    then have "taking_inv taken readable ps (out + mset written) d"
      by (rule taking_inv_mono) (use a(5) in auto)
    then have "receiving_inv seal taken readable ps (out + mset written) t"
      using inv a(2,4) by (simp add: receiving_inv_def)
    then show ?thesis using a(3) inject_front_receives [OF sec] by auto
  qed
qed

section \<open>The invariant\<close>

definition dtls_contract :: "'w wolfssl \<Rightarrow> (nat \<Rightarrow> byte list \<Rightarrow> byte list) \<Rightarrow> ('w option \<Rightarrow> nat) \<Rightarrow>
    ('w option \<Rightarrow> nat set) \<Rightarrow> ('w option \<Rightarrow> byte list list) \<Rightarrow> bool" where
  "dtls_contract W seal record_number taken readable \<longleftrightarrow>
     injective_seal seal \<and> secure_sender W seal record_number \<and> secure_receiver W seal taken readable"

text \<open>Both ends after the handshake: nothing was sent, nothing waits.\<close>

definition tunnel_start :: "('w option \<Rightarrow> nat) \<Rightarrow> ('w option \<Rightarrow> nat set) \<Rightarrow> ('w option \<Rightarrow> byte list list) \<Rightarrow>
    'w tunnel \<Rightarrow> bool" where
  "tunnel_start record_number taken readable t \<longleftrightarrow>
     record_number (ssl (link (sender t))) = 0 \<and> queued_datagrams (sender t) = [] \<and> network t = {#}
     \<and> taken (ssl (conn (receiver t))) = {} \<and> readable (ssl (conn (receiver t))) = []
     \<and> pending_inject (receiver t) = [] \<and> device t = [] \<and> payloads t = []"

definition device_ok :: "server_config \<Rightarrow> ipv4 \<Rightarrow> byte list list \<Rightarrow> bool" where
  "device_ok c a ps \<longleftrightarrow>
     (\<forall>p \<in> set ps. \<exists>destination. ipv4_packet_addresses p = Some (a, destination) \<and> destination_allowed c destination)"

definition tunnel_inv :: "'w wolfssl \<Rightarrow> server_config \<Rightarrow> (nat \<Rightarrow> byte list \<Rightarrow> byte list) \<Rightarrow> ('w option \<Rightarrow> nat) \<Rightarrow>
    ('w option \<Rightarrow> nat set) \<Rightarrow> ('w option \<Rightarrow> byte list list) \<Rightarrow> ipv4 \<Rightarrow> 'w tunnel \<Rightarrow> bool" where
  "tunnel_inv W c seal record_number taken readable a t \<longleftrightarrow>
     dtls_contract W seal record_number taken readable
     \<and> sending_inv seal record_number (payloads t) (sender t)
     \<and> (\<forall>d \<in># network t. unforged seal (payloads t) d)
     \<and> receiving_inv seal taken readable (payloads t) (mset (device t)) (receiver t)
     \<and> address (receiver t) = a \<and> device_ok c a (device t)"

lemma tunnel_start_inv:
  "dtls_contract W seal record_number taken readable \<Longrightarrow> tunnel_start record_number taken readable t \<Longrightarrow>
   tunnel_inv W c seal record_number taken readable (address (receiver t)) t"
  by (simp add: tunnel_inv_def tunnel_start_def sending_inv_iff receiving_inv_iff device_ok_def)

lemma sending_inv_sent:
  assumes inv: "sending_inv seal record_number ps s" and io: "callback_io (link s) = Some io" "outgoing io = Some q"
    and w: "client_udp_write_turn now still sent q s = Some (how, q', s')"
  shows "sending_inv seal record_number ps (s'\<lparr>link := (link s')\<lparr>callback_io := Some (io\<lparr>outgoing := Some q'\<rparr>)\<rparr>\<rparr>)
    \<and> (\<forall>d \<in># transmitted now still sent q. unforged seal ps d)"
proof -
  have "\<forall>x \<in> set (items q). unforged seal ps (datagram_bytes x)"
    using inv io by (simp add: sending_inv_iff queued_datagrams_def io_datagrams_def)
  moreover have "record_number (ssl (link s)) = length ps" using inv by (simp add: sending_inv_iff)
  ultimately show ?thesis
    using udp_write_turn_moves [OF w] by (auto simp: sending_inv_iff queued_datagrams_def io_datagrams_def)
qed

lemma tunnel_step_inv:
  assumes "tunnel_step W c logins seal t t'" "tunnel_inv W c seal record_number taken readable a t"
  shows "tunnel_inv W c seal record_number taken readable a t'"
proof -
  have dtls: "injective_seal seal" "secure_sender W seal record_number" "secure_receiver W seal taken readable"
    using assms(2) by (auto simp: tunnel_inv_def dtls_contract_def)
  show ?thesis
    using assms
  proof cases
    case (client_encrypts packet finished s)
    then show ?thesis
      using assms(2) encrypt_keeps_sending [OF dtls(2,1) _ client_encrypts(2)]
      by (auto simp: tunnel_inv_def receiving_inv_grows unforged_grows)
  next
    case (client_transmits io q now still sent how q' s)
    then show ?thesis
      using assms(2) sending_inv_sent [OF _ client_transmits(2,3,4), of seal record_number "payloads t"]
      by (auto simp: tunnel_inv_def)
  next
    case (network_loses d rest)
    then show ?thesis using assms(2) by (auto simp: tunnel_inv_def)
  next
    case (attacker_sends d)
    then show ?thesis using assms(2) by (auto simp: tunnel_inv_def)
  next
    case (server_receives d rest on s)
    have inv: "\<forall>x \<in># network t. unforged seal (payloads t) x"
      "receiving_inv seal taken readable (payloads t) (mset (device t)) (receiver t)"
      using assms(2) unfolding tunnel_inv_def by blast+
    have "unforged seal (payloads t) d" "\<forall>x \<in># rest. unforged seal (payloads t) x"
      using inv(1) server_receives(2) by simp_all
    moreover from this(1) have "receiving_inv seal taken readable (payloads t) (mset (device t)) s"
      by (rule inject_datagram_receives [OF dtls(3) inv(2) _ server_receives(3)])
    moreover have "address s = address (receiver t)"
      using identity_inject_datagram [of W d "receiver t"] server_receives(3) by (simp add: identity_def)
    ultimately show ?thesis
      using assms(2) unfolding server_receives(1) tunnel_inv_def by simp
  next
    case (server_reads now tun s written e)
    have inv: "receiving_inv seal taken readable (payloads t) (mset (device t)) (receiver t)"
      "address (receiver t) = a" "device_ok c a (device t)"
      using assms(2) unfolding tunnel_inv_def by blast+
    have "receiving_inv seal taken readable (payloads t) (mset (device t) + mset written) s"
      by (rule read_session_receives [OF dtls(3) inv(1) server_reads(3)])
    moreover have "address s = a" "device_ok c a (device t @ written)"
      using read_session_written [OF server_reads(3,2)] inv(2,3) by (auto simp: device_ok_def)
    ultimately show ?thesis
      using assms(2) unfolding server_reads(1) tunnel_inv_def by simp
  qed
qed

interpretation tunnelling: step_invariant "tunnel_step W c logins seal"
  "tunnel_inv W c seal record_number taken readable a"
  by unfold_locales (rule tunnel_step_inv)

lemma tunnel_inv_delivers:
  assumes "tunnel_inv W c seal record_number taken readable a t"
  shows "mset (device t) \<subseteq># mset (payloads t) \<and> device_ok c a (device t)"
proof -
  let ?taken = "taken (ssl (conn (receiver t)))" and ?readable = "mset (readable (ssl (conn (receiver t))))"
  have "?taken \<subseteq> {..< length (payloads t)}" "mset (device t) + ?readable \<subseteq># payload_bag (payloads t) ?taken"
    "device_ok c a (device t)"
    using assms by (simp_all add: tunnel_inv_def receiving_inv_iff)
  note bag = this
  have "mset (device t) \<subseteq># mset (device t) + ?readable" by simp
  also have "\<dots> \<subseteq># payload_bag (payloads t) ?taken" by (rule bag(2))
  also have "\<dots> \<subseteq># mset (payloads t)" by (rule payload_bag_sent [OF bag(1)])
  finally show ?thesis using bag(3) by simp
qed

section \<open>A concrete connection\<close>

text \<open>
  An instance of the parameter: a record is the record number in unary, a zero and the payload; a
  connection is the number of the next record, the numbers taken and the payloads to read.
\<close>

definition example_seal :: "nat \<Rightarrow> byte list \<Rightarrow> byte list" where
  "example_seal n p = replicate n 1 @ 0 # p"

fun example_open :: "byte list \<Rightarrow> (nat \<times> byte list) option" where
  "example_open [] = None"
| "example_open (b # d) =
     (if b = 0 then Some (0, d) else if b = 1 then map_option (\<lambda>(n, p). (Suc n, p)) (example_open d) else None)"

type_synonym record_state = "nat \<times> nat list \<times> byte list list"

definition example_records :: "record_state wolfssl" where
  "example_records =
     \<lparr>ssl_new = None, ssl_set_fd = (\<lambda>w _. (1, w)), ssl_set_nonblock = (\<lambda>w _. w),
      ssl_set_peer = (\<lambda>w _. (1, w)), ssl_accept = (\<lambda>w io. (1, w, io)), ssl_connect = (\<lambda>w io. (1, w, io)),
      ssl_accept_stateless = (\<lambda>w io. (1, w, io)),
      ssl_read = (\<lambda>w io room. case w of
          Some (n, ns, p # ps) \<Rightarrow>
            if p \<noteq> [] \<and> length p \<le> room then (int (length p), p, Some (n, ns, ps), io) else (- 1, [], w, io)
        | _ \<Rightarrow> (- 1, [], w, io)),
      ssl_write = (\<lambda>w io data. case (w, io) of
          (Some (n, ns, ps), Some c) \<Rightarrow>
            if data \<noteq> []
            then (int (length data), Some (Suc n, ns, ps), Some (snd (dtls_send 0 0 (example_seal n data) c)))
            else (- 1, w, io)
        | _ \<Rightarrow> (- 1, w, io)),
      ssl_get_error = (\<lambda>_ _. 2),
      ssl_inject = (\<lambda>w d. case w of
          Some (n, ns, ps) \<Rightarrow>
            (case example_open d of
               Some (m, p) \<Rightarrow> if m \<in> set ns then (1, w) else (1, Some (n, m # ns, ps @ [p]))
             | None \<Rightarrow> (1, w))
        | None \<Rightarrow> (1, w)),
      ssl_disable_read = (\<lambda>w. w), ssl_current_timeout = (\<lambda>_. 1), ssl_got_timeout = (\<lambda>w io. (1, w, io)),
      ssl_set_cookie = (\<lambda>w _. (True, 1, w)), ssl_peer_digest = (\<lambda>_. None), ssl_peer_alt_names = (\<lambda>_. None)\<rparr>"

definition example_number :: "record_state option \<Rightarrow> nat" where
  "example_number w = (case w of None \<Rightarrow> 0 | Some (n, _) \<Rightarrow> n)"

definition example_taken :: "record_state option \<Rightarrow> nat set" where
  "example_taken w = (case w of None \<Rightarrow> {} | Some (n, ns, ps) \<Rightarrow> set ns)"

definition example_readable :: "record_state option \<Rightarrow> byte list list" where
  "example_readable w = (case w of None \<Rightarrow> [] | Some (n, ns, ps) \<Rightarrow> ps)"

lemma example_open_seal: "example_open (example_seal n p) = Some (n, p)"
  by (induction n) (simp_all add: example_seal_def)

lemma example_open_Some: "example_open d = Some (n, p) \<Longrightarrow> d = example_seal n p"
  by (induction d arbitrary: n) (auto simp: example_seal_def split: if_splits)

lemma example_contract: "dtls_contract example_records example_seal example_number example_taken example_readable"
proof -
  have "injective_seal example_seal"
    unfolding injective_seal_def by (metis example_open_seal option.inject prod.inject)
  moreover have "secure_sender example_records example_seal example_number"
    unfolding secure_sender_def
  proof (intro allI impI)
    fix w io data r w' io' assume "ssl_write example_records w io data = (r, w', io')"
    then show "if 0 < r
         then (\<exists>now n c. io = Some c \<and> io' = Some (snd (dtls_send now n (example_seal (example_number w) data) c)))
              \<and> example_number w' = Suc (example_number w)
         else io' = io \<and> example_number w' = example_number w"
      by (auto simp: example_records_def example_number_def split: option.splits prod.splits if_splits)
  qed
  moreover have "secure_receiver example_records example_seal example_taken example_readable"
    unfolding secure_receiver_def
  proof (intro conjI allI impI)
    fix w d r w' assume "ssl_inject example_records w d = (r, w')"
    then show "example_taken w' = example_taken w \<and> example_readable w' = example_readable w
        \<or> (\<exists>n p. d = example_seal n p \<and> n \<notin> example_taken w \<and> example_taken w' = insert n (example_taken w)
             \<and> example_readable w' = example_readable w @ [p])"
      by (auto simp: example_records_def example_taken_def example_readable_def dest!: example_open_Some
          split: option.splits prod.splits if_splits)
  next
    fix w io room r bytes w' io' assume "ssl_read example_records w io room = (r, bytes, w', io')"
    then show "example_taken w' = example_taken w"
      "if 0 < r then example_readable w = take (nat r) bytes # example_readable w' else example_readable w' = example_readable w"
      by (auto simp: example_records_def example_taken_def example_readable_def
          split: option.splits prod.splits if_splits list.splits)
  qed
  ultimately show ?thesis by (simp add: dtls_contract_def)
qed

text \<open>The client after its handshake, the server's session of this client, and their run.\<close>

definition example_sender :: "record_state client" where
  "example_sender =
     \<lparr>link = \<lparr>ssl = Some (0, [], []),
             callback_io = Some ((dtls_io_new example_peer)\<lparr>outgoing := Some (empty_queue QUEUE_CAPACITY)\<rparr>),
             server_side = False, nonblocking = True, last_read_error = 0\<rparr>,
      queues = \<lparr>encrypted_rx = empty_queue QUEUE_CAPACITY, raw_tx = empty_queue QUEUE_CAPACITY,
                tun_write = empty_queue QUEUE_CAPACITY, enc_tx = empty_queue QUEUE_CAPACITY\<rparr>,
      active = True, activity = 0, progress = signal_new, sent_errors = []\<rparr>"

definition example_receiver :: "record_state session" where
  "example_receiver =
     (session_new \<lparr>ssl = Some (0, [], []), callback_io = None, server_side = True, nonblocking = True,
                   last_read_error = 0\<rparr> example_peer 0)
       \<lparr>address := 0x0A080102, established := True, authenticated := True\<rparr>"

definition example_tunnel :: "record_state tunnel" where
  "example_tunnel = \<lparr>sender = example_sender, network = {#}, receiver = example_receiver, device = [], payloads = []\<rparr>"

text \<open>The packet is sealed, sent, received and read.\<close>

definition example_datagram :: encrypted_datagram where
  "example_datagram = \<lparr>datagram_bytes = example_seal 0 example_client_packet, enqueued_at = 0\<rparr>"

lemma example_encrypts:
  "client_encrypt example_records example_client_packet example_sender =
     (True, example_sender\<lparr>link := (link example_sender)\<lparr>ssl := Some (1, [], []),
        callback_io := Some (snd (dtls_send 0 0 (example_seal 0 example_client_packet)
          ((dtls_io_new example_peer)\<lparr>outgoing := Some (empty_queue QUEUE_CAPACITY)\<rparr>)))\<rparr>\<rparr>)"
  by (simp add: client_encrypt_def example_sender_def write_status_def example_records_def Let_def
      example_client_packet_def)

lemma example_sealed: "sealed_payload example_records example_client_packet example_sender = [example_client_packet]"
  by (simp add: sealed_payload_def example_sender_def write_status_def example_records_def Let_def
      example_client_packet_def)

lemma example_outgoing:
  "outgoing (snd (dtls_send 0 0 (example_seal 0 example_client_packet)
      ((dtls_io_new example_peer)\<lparr>outgoing := Some (empty_queue QUEUE_CAPACITY)\<rparr>))) =
     Some ((empty_queue QUEUE_CAPACITY)\<lparr>items := [example_datagram], generation := 1\<rparr>)"
  by (simp add: dtls_send_def push_def empty_queue_def QUEUE_CAPACITY_def example_datagram_def)

lemma example_transmits:
  "\<exists>q' s. client_udp_write_turn 0 True (Inr 21) ((empty_queue QUEUE_CAPACITY)\<lparr>items := [example_datagram], generation := 1\<rparr>) s0
     = Some (GoOn, q', s)"
  by (simp add: client_udp_write_turn_def peek_def pop_front_def empty_queue_def example_datagram_def
      example_seal_def example_client_packet_def seconds_def)

lemma example_transmitted:
  "transmitted 0 True (Inr 21) ((empty_queue QUEUE_CAPACITY)\<lparr>items := [example_datagram], generation := 1\<rparr>)
     = {#example_seal 0 example_client_packet#}"
  by (simp add: transmitted_def peek_def pop_front_def empty_queue_def example_datagram_def
      example_seal_def example_client_packet_def seconds_def)

lemma example_receives:
  "inject_datagram example_records (example_seal 0 example_client_packet) example_receiver =
     (True, example_receiver\<lparr>conn := (conn example_receiver)\<lparr>ssl := Some (0, [0], [example_client_packet])\<rparr>,
                            drain_pending := True\<rparr>)"
proof -
  have "length (example_seal 0 example_client_packet) = 21" by (simp add: example_seal_def example_client_packet_def)
  then show ?thesis
    by (simp add: inject_datagram_def example_receiver_def session_new_def inject_def example_records_def
        example_open_seal SUCCESS_def)
qed

lemma example_reads:
  "\<exists>s. read_session example_records example_server Map.empty 9 (\<lambda>_. Inr ())
     (example_receiver\<lparr>conn := (conn example_receiver)\<lparr>ssl := Some (0, [0], [example_client_packet])\<rparr>, drain_pending := True\<rparr>)
     = (s, [example_client_packet], None)"
proof -
  have "\<not> is_keepalive_packet example_client_packet"
    by (simp add: is_keepalive_packet_def KEEPALIVE_PACKET_def example_client_packet_def)
  moreover have "length example_client_packet = 20" "example_client_packet \<noteq> []" by (simp_all add: example_client_packet_def)
  ultimately show ?thesis
    using example_client_addresses example_allowed
    by (simp add: read_session_def read_status_def example_records_def READ_BUFFER_def Let_def handle_packet_def
        example_receiver_def session_new_def)
qed

lemma example_run:
  "\<exists>t. (tunnel_step example_records example_server Map.empty example_seal)\<^sup>*\<^sup>* example_tunnel t
     \<and> device t = [example_client_packet] \<and> payloads t = [example_client_packet]"
proof -
  let ?step = "tunnel_step example_records example_server Map.empty example_seal"
  let ?w = "Some (0, [0], [example_client_packet])" and ?p = example_client_packet and ?r = example_receiver
  let ?q = "(empty_queue QUEUE_CAPACITY)\<lparr>items := [example_datagram], generation := 1\<rparr>"
  let ?io = "snd (dtls_send 0 0 (example_seal 0 ?p)
      ((dtls_io_new example_peer)\<lparr>outgoing := Some (empty_queue QUEUE_CAPACITY)\<rparr>))"
  let ?s1 = "example_sender\<lparr>link := (link example_sender)\<lparr>ssl := Some (1, [], []), callback_io := Some ?io\<rparr>\<rparr>"
  obtain q' s where w: "client_udp_write_turn 0 True (Inr 21) ?q ?s1 = Some (GoOn, q', s)"
    using example_transmits by blast
  let ?s2 = "s\<lparr>link := (link s)\<lparr>callback_io := Some (?io\<lparr>outgoing := Some q'\<rparr>)\<rparr>\<rparr>"
  let ?t1 = "\<lparr>sender = ?s1, network = {#}, receiver = ?r, device = [], payloads = [?p]\<rparr>"
  let ?t2 = "\<lparr>sender = ?s2, network = {#example_seal 0 ?p#}, receiver = ?r, device = [], payloads = [?p]\<rparr>"
  let ?r3 = "?r\<lparr>conn := (conn ?r)\<lparr>ssl := ?w\<rparr>, drain_pending := True\<rparr>"
  let ?t3 = "\<lparr>sender = ?s2, network = {#}, receiver = ?r3, device = [], payloads = [?p]\<rparr>"
  obtain r where rd: "read_session example_records example_server Map.empty 9 (\<lambda>_. Inr ()) ?r3 = (r, [?p], None)"
    using example_reads by blast
  have "?step example_tunnel ?t1"
    using tunnel_step.client_encrypts [of example_records ?p example_tunnel True ?s1] example_encrypts example_sealed
    by (simp add: example_tunnel_def)
  moreover have "?step ?t1 ?t2"
    using tunnel_step.client_transmits [of ?t1 ?io ?q 0 True "Inr 21" GoOn q' s] w example_outgoing example_transmitted
    by simp
  moreover have "?step ?t2 ?t3"
    using tunnel_step.server_receives [of ?t2 "example_seal 0 ?p" "{#}" example_records True ?r3] example_receives by simp
  moreover have "?step ?t3 (?t3\<lparr>receiver := r, device := [?p]\<rparr>)"
    using tunnel_step.server_reads [of ?t3 example_records example_server Map.empty 9 "\<lambda>_. Inr ()" r "[?p]" None] rd
    by (simp add: example_receiver_def)
  ultimately have "?step\<^sup>*\<^sup>* example_tunnel (?t3\<lparr>receiver := r, device := [?p]\<rparr>)"
    by (meson rtranclp.rtrancl_refl rtranclp.rtrancl_into_rtrancl)
  then show ?thesis by (rule_tac exI [of _ "?t3\<lparr>receiver := r, device := [?p]\<rparr>"]) simp
qed

lemma example_tunnel_start: "tunnel_start example_number example_taken example_readable example_tunnel"
  by (simp add: tunnel_start_def example_tunnel_def example_sender_def example_receiver_def session_new_def
      example_number_def example_taken_def example_readable_def queued_datagrams_def io_datagrams_def empty_queue_def)

section \<open>Properties\<close>

text \<open>
  Whatever the network and an attacker without the keys do with the datagrams (lose, delay,
  reorder, repeat, invent), the server's TUN device receives from a client only packets that the
  client encrypted, each at most as often as the client encrypted it, all with the client's VPN
  address as their source and an allowed destination. This holds for every order in which the
  client's encrypting worker, its UDP writer and the server's decrypting worker run, with queues that
  overflow and datagrams that expire, given that DTLS accepts only records of the peer, each once.
\<close>

lemma uplink_delivers_only_what_was_sent:
  assumes "dtls_contract W seal record_number taken readable" "tunnel_start record_number taken readable t"
    and "(tunnel_step W c logins seal)\<^sup>*\<^sup>* t t'"
  shows "mset (device t') \<subseteq># mset (payloads t')
    \<and> (\<forall>p \<in> set (device t'). \<exists>destination. ipv4_packet_addresses p = Some (address (receiver t), destination)
         \<and> destination_allowed c destination)"
  using tunnel_inv_delivers [OF tunnelling.steps_preserve [OF assms(3) tunnel_start_inv [OF assms(1,2)]]]
  by (simp add: device_ok_def)

lemma uplink_delivers_only_what_was_sent_witness:
  "\<exists>t :: record_state tunnel. device t = [example_client_packet] \<and> mset (device t) \<subseteq># mset (payloads t)
    \<and> (\<exists>destination. ipv4_packet_addresses example_client_packet = Some (address (receiver example_tunnel), destination)
         \<and> destination_allowed example_server destination)"
proof -
  obtain t where t: "(tunnel_step example_records example_server Map.empty example_seal)\<^sup>*\<^sup>* example_tunnel t"
    "device t = [example_client_packet]"
    using example_run by blast
  note r = uplink_delivers_only_what_was_sent [OF example_contract example_tunnel_start t(1)]
  show ?thesis by (rule exI [of _ t]) (use r t(2) in simp)
qed

end
