(* ===== verification/Vpn_Duplex.thy ===== *)
theory Vpn_Duplex
  imports Vpn_Tunnel Vpn_Server_Udp_Write
begin

text \<open>
  Both directions of the tunnel over one connection: the client's side with its encrypting worker, UDP
  writer, UDP reader, decrypting worker and writer of the device, the server's side with one session
  and the four workers that touch it. Each side uses its connection to send and to receive, so every
  step of one direction has to leave the other alone. The networks do what they like with datagrams
  that nobody forged, as in \<open>Vpn_Tunnel\<close>, whose notions this theory uses.
\<close>

section \<open>An end of the connection\<close>

text \<open>
  The directions of a connection are separate: writing takes no record, taking and reading records
  seals no payload (what else wolfSSL sends then are no records of payloads).
\<close>

definition separate_directions :: "'w wolfssl \<Rightarrow> (nat \<Rightarrow> byte list \<Rightarrow> byte list) \<Rightarrow> ('w option \<Rightarrow> nat) \<Rightarrow>
    ('w option \<Rightarrow> nat set) \<Rightarrow> ('w option \<Rightarrow> byte list list) \<Rightarrow> bool" where
  "separate_directions W seal record_number taken readable \<longleftrightarrow>
     (\<forall>w io data r w' io'. ssl_write W w io data = (r, w', io') \<longrightarrow> taken w' = taken w \<and> readable w' = readable w)
     \<and> (\<forall>w d r w'. ssl_inject W w d = (r, w') \<longrightarrow> record_number w' = record_number w)
     \<and> (\<forall>w io room r bytes w' io'. ssl_read W w io room = (r, bytes, w', io') \<longrightarrow>
          record_number w' = record_number w
          \<and> set (io_datagrams io') \<subseteq> set (io_datagrams io) \<union> {d. \<forall>n p. d \<noteq> seal n p})"

definition endpoint :: "'w wolfssl \<Rightarrow> (nat \<Rightarrow> byte list \<Rightarrow> byte list) \<Rightarrow> (nat \<Rightarrow> byte list \<Rightarrow> byte list) \<Rightarrow>
    ('w option \<Rightarrow> nat) \<Rightarrow> ('w option \<Rightarrow> nat set) \<Rightarrow> ('w option \<Rightarrow> byte list list) \<Rightarrow> bool" where
  "endpoint W seal_out seal_in record_number taken readable \<longleftrightarrow>
     injective_seal seal_out \<and> secure_sender W seal_out record_number \<and> secure_receiver W seal_in taken readable
     \<and> separate_directions W seal_out record_number taken readable"

lemma endpointD:
  assumes "endpoint W seal_out seal_in record_number taken readable"
  shows "injective_seal seal_out" "secure_sender W seal_out record_number" "secure_receiver W seal_in taken readable"
    "separate_directions W seal_out record_number taken readable"
  using assms by (simp_all add: endpoint_def)

lemma write_keeps_taking:
  assumes "separate_directions W seal record_number taken readable" "write_status W data d = (r, d')"
    and "taking_inv taken readable ps out d"
  shows "taking_inv taken readable ps out d'"
proof -
  obtain code w' io' where c: "ssl_write W (ssl d) (callback_io d) data = (code, w', io')" by (metis prod_cases3)
  then have "taken w' = taken (ssl d)" "readable w' = readable (ssl d)"
    using assms(1) unfolding separate_directions_def by blast+
  moreover have "ssl d' = w'" using assms(2) c by (auto simp: write_status_def Let_def split: if_splits)
  ultimately show ?thesis using assms(3) by (simp add: taking_inv_def)
qed

lemma inject_keeps_sealing:
  assumes "separate_directions W seal record_number taken readable" "inject W x d = (r, d')"
    and "sealing_inv seal record_number ps d"
  shows "sealing_inv seal record_number ps d'"
proof (cases "2 ^ 31 \<le> length x")
  case True
  then show ?thesis using assms(2,3) by (simp add: inject_def)
next
  case False
  obtain code w' where c: "ssl_inject W (ssl d) x = (code, w')" by (metis surj_pair)
  then have "record_number w' = record_number (ssl d)" using assms(1) unfolding separate_directions_def by blast
  moreover have "ssl d' = w'" "callback_io d' = callback_io d" using assms(2) c False by (auto simp: inject_def)
  ultimately show ?thesis using assms(3) by (simp add: sealing_inv_def)
qed

lemma read_keeps_sealing:
  assumes "separate_directions W seal record_number taken readable" "read_status W room d = (r, d')"
    and "sealing_inv seal record_number ps d"
  shows "sealing_inv seal record_number ps d'"
proof -
  obtain code bytes w' io' where c: "ssl_read W (ssl d) (callback_io d) room = (code, bytes, w', io')"
    by (metis prod_cases4)
  have w: "record_number w' = record_number (ssl d)"
    "set (io_datagrams io') \<subseteq> set (io_datagrams (callback_io d)) \<union> {d. \<forall>n p. d \<noteq> seal n p}"
    using assms(1) c unfolding separate_directions_def by blast+
  have d': "ssl d' = w'" "callback_io d' = io'"
    using assms(2) c by (auto simp: read_status_def Let_def split: if_splits)
  have "unforged seal ps x" if "x \<in> set (io_datagrams io')" for x
    using that w(2) assms(3) by (auto simp: sealing_inv_def unforged_def)
  then show ?thesis using w(1) d' assms(3) by (simp add: sealing_inv_def)
qed

section \<open>The server's session as a sender\<close>

text \<open>The closure of a drain, with the payloads it sealed.\<close>

definition sealing :: "'w wolfssl \<Rightarrow> instant \<Rightarrow> 'w session \<times> byte list list \<Rightarrow> byte list \<Rightarrow>
    send_packet_result \<times> 'w session \<times> byte list list" where
  "sealing W now st packet =
     (case send_tunnel_packet W now (fst st) packet of
        (r, s') \<Rightarrow> (r, s', snd st @ sealed_by (fst (write_status W packet (conn (fst st)))) packet))"

definition drained_payloads :: "'w wolfssl \<Rightarrow> instant \<Rightarrow> 'w session \<Rightarrow> byte list list" where
  "drained_payloads W now s =
     (case drain_raw_queue (sealing W now) now (raw_tx_queue s) (s, []) of (r, q', s', ps) \<Rightarrow> ps)"

text \<open>What a drain leaves alone.\<close>

definition same_session :: "'w session \<Rightarrow> 'w session \<Rightarrow> bool" where
  "same_session s s' \<longleftrightarrow> pending_inject s' = pending_inject s \<and> address s' = address s"

lemma sealing_step:
  assumes end_ok: "endpoint W seal seal_in record_number taken readable"
    and step: "sealing W now (s, ps) packet = (r, s', ps')"
  shows "send_tunnel_packet W now s packet = (r, s') \<and> same_session s s' \<and> raw_tx_queue s' = raw_tx_queue s
    \<and> (ps' = ps \<or> ps' = ps @ [packet] \<and> r \<noteq> send_packet_result.Retry)
    \<and> (sealing_inv seal record_number (base @ ps) (conn s) \<longrightarrow> sealing_inv seal record_number (base @ ps') (conn s'))
    \<and> (taking_inv taken readable qs out (conn s) \<longrightarrow> taking_inv taken readable qs out (conn s'))"
proof -
  obtain x d where w: "write_status W packet (conn s) = (x, d)" by (metis surj_pair)
  obtain r1 s1 where t: "send_tunnel_packet W now s packet = (r1, s1)" by (metis surj_pair)
  have eq: "r = r1" "s' = s1" "ps' = ps @ sealed_by x packet" using step w t by (simp_all add: sealing_def)
  have s1: "conn s1 = d" "same_session s s1" "raw_tx_queue s1 = raw_tx_queue s" "r1 = send_packet_result.Retry \<longrightarrow> sealed_by x packet = []"
    using t w by (auto simp: send_tunnel_packet_def same_session_def Let_def split: sum.splits dtls_io_result.splits if_splits)
  have "sealing_inv seal record_number (base @ ps') d" if "sealing_inv seal record_number (base @ ps) (conn s)"
    using write_keeps_sealing [OF endpointD(2,1) [OF end_ok] that w] eq by simp
  moreover have "taking_inv taken readable qs out d" if "taking_inv taken readable qs out (conn s)"
    using write_keeps_taking [OF endpointD(4) [OF end_ok] w that] .
  ultimately show ?thesis using s1 eq t by (auto simp: sealed_by_iff)
qed

lemma front_drop_mset: "mset (items (front_drop x q)) \<subseteq># add_mset x (mset (items q))"
proof -
  have "mset (butlast ys) \<subseteq># mset ys" for ys :: "'a list" by (induction ys) auto
  then show ?thesis by (auto simp: front_drop_def)
qed

text \<open>A drain that records the payloads is the drain, and every payload it sealed has left the queue.\<close>

lemma drain_seals:
  assumes end_ok: "endpoint W seal seal_in record_number taken readable"
    and drain: "drain_raw_queue (sealing W now) now q (s, ps) = (r, q', s', ps')"
  shows "drain_raw_queue (send_tunnel_packet W now) now q s = (r, q', s')
    \<and> same_session s s' \<and> raw_tx_queue s' = raw_tx_queue s
    \<and> mset ps' + mset (map fst (items q')) \<subseteq># mset ps + mset (map fst (items q))
    \<and> (sealing_inv seal record_number (base @ ps) (conn s) \<longrightarrow> sealing_inv seal record_number (base @ ps') (conn s'))
    \<and> (taking_inv taken readable qs out (conn s) \<longrightarrow> taking_inv taken readable qs out (conn s'))"
  using drain
proof (induction "length (items q)" arbitrary: q s ps rule: less_induct)
  case less
  note eq = less.prems [unfolded drain_raw_queue.simps [of _ _ q]]
  note eq' = drain_raw_queue.simps [of "send_tunnel_packet W now" now q s]
  show ?case
  proof (cases rule: try_peek_cases [of q])
    case (nothing e)
    then show ?thesis using eq eq' by (simp add: same_session_def)
  next
    case (item x xs)
    obtain packet queued_at where x: "x = (packet, queued_at)" by (cases x)
    let ?q = "q\<lparr>items := xs\<rparr>"
    have short: "length (items ?q) < length (items q)" using item(1) by simp
    have bag: "mset (map fst (items q)) = add_mset packet (mset (map fst (items ?q)))" using item(1) x by simp
    show ?thesis
    proof (cases "SESSION_PACKET_TTL \<le> now - queued_at")
      case True
      then have d: "drain_raw_queue (sealing W now) now ?q (s, ps) = (r, q', s', ps')"
        "drain_raw_queue (send_tunnel_packet W now) now q s = drain_raw_queue (send_tunnel_packet W now) now ?q s"
        using eq eq' item x by simp_all
      note H = less.hyps [OF short d(1)]
      have "drain_raw_queue (send_tunnel_packet W now) now q s = (r, q', s')" using H unfolding d(2) by blast
      moreover have "mset ps + mset (map fst (items ?q)) \<subseteq># mset ps + mset (map fst (items q))" using bag by simp
      then have "mset ps' + mset (map fst (items q')) \<subseteq># mset ps + mset (map fst (items q))"
        using H subset_mset.order_trans by blast
      ultimately show ?thesis using H by blast
    next
      case False
      obtain res s2 ps2 where w: "sealing W now (s, ps) packet = (res, s2, ps2)" by (metis prod_cases3)
      note S = sealing_step [OF end_ok w, of base qs out]
      show ?thesis
      proof (cases "res = send_packet_result.Retry")
        case True
        then have r: "r = res" "q' = front_drop x ?q" "s' = s2" "ps' = ps2"
          using eq item x False w by simp_all
        have "drain_raw_queue (send_tunnel_packet W now) now q s = (r, q', s')"
          using eq' item x False S True r by simp
        moreover have "mset (map fst (items q')) \<subseteq># mset (map fst (items q))"
          using image_mset_subseteq_mono [OF front_drop_mset [of x ?q], of fst] r(2) item(1) by simp
        ultimately show ?thesis using S True r by auto
      next
        case no_retry: False
        then have d: "drain_raw_queue (sealing W now) now ?q (s2, ps2) = (r, q', s', ps')"
          "drain_raw_queue (send_tunnel_packet W now) now q s = drain_raw_queue (send_tunnel_packet W now) now ?q s2"
          using eq eq' item x False w S by (cases res; simp)+
        note H = less.hyps [OF short d(1)]
        have "drain_raw_queue (send_tunnel_packet W now) now q s = (r, q', s')" using H unfolding d(2) by blast
        moreover have "mset ps2 + mset (map fst (items ?q)) \<subseteq># mset ps + mset (map fst (items q))" using bag S by auto
        then have "mset ps' + mset (map fst (items q')) \<subseteq># mset ps + mset (map fst (items q))"
          using H subset_mset.order_trans by blast
        moreover have "same_session s s'" "raw_tx_queue s' = raw_tx_queue s"
          using H S by (simp_all add: same_session_def)
        ultimately show ?thesis using H S by blast
      qed
    qed
  qed
qed

lemma drain_session_seals:
  assumes end_ok: "endpoint W seal seal_in record_number taken readable"
    and drain: "drain_session_plain W now s = (r, s')"
  shows "same_session s s'
    \<and> mset (drained_payloads W now s) + mset (map fst (items (raw_tx_queue s'))) \<subseteq># mset (map fst (items (raw_tx_queue s)))
    \<and> (sealing_inv seal record_number ps (conn s) \<longrightarrow> sealing_inv seal record_number (ps @ drained_payloads W now s) (conn s'))
    \<and> (taking_inv taken readable qs out (conn s) \<longrightarrow> taking_inv taken readable qs out (conn s'))"
proof -
  obtain r1 q' s1 ps1 where d: "drain_raw_queue (sealing W now) now (raw_tx_queue s) (s, []) = (r1, q', s1, ps1)"
    by (metis prod_cases4)
  note D = drain_seals [OF end_ok d, of ps qs out]
  then have "s' = s1\<lparr>raw_tx_queue := q'\<rparr>" using drain by (simp add: drain_session_plain_def)
  moreover have "drained_payloads W now s = ps1" by (simp add: drained_payloads_def d)
  ultimately show ?thesis using D by (simp add: same_session_def)
qed

text \<open>A socket whose state is the network: a datagram is put there or not.\<close>

definition carries :: "byte list multiset udp_socket \<Rightarrow> bool" where
  "carries send \<longleftrightarrow> (\<forall>net peer d. snd (send net peer d) = net \<or> snd (send net peer d) = add_mset d net)"

lemma drain_encrypted_moves:
  assumes send: "\<And>net d. snd (send net d) = net \<or> snd (send net d) = add_mset d net"
    and drain: "drain_encrypted_queue send now q net = (r, q', net')"
  shows "set (items q') \<subseteq> set (items q) \<and> set_mset net' \<subseteq> set_mset net \<union> datagram_bytes ` set (items q)"
  using drain
proof (induction "length (items q)" arbitrary: q net rule: less_induct)
  case less
  note eq = less.prems [unfolded drain_encrypted_queue.simps [of _ _ q]]
  show ?case
  proof (cases rule: try_peek_cases [of q])
    case (nothing e)
    then show ?thesis using eq by simp
  next
    case (item x xs)
    let ?q = "q\<lparr>items := xs\<rparr>"
    have short: "length (items ?q) < length (items q)" using item(1) by simp
    obtain res net2 where w: "send net (datagram_bytes x) = (res, net2)" by (metis surj_pair)
    then have net2: "net2 = net \<or> net2 = add_mset (datagram_bytes x) net" using send [of net "datagram_bytes x"] by simp
    have front: "set (items (front_drop x ?q)) \<subseteq> insert x (set xs)"
      using mset_subset_eqD [OF front_drop_mset [of x ?q]] by auto
    show ?thesis
    proof (cases "drain_encrypted_queue send now ?q net = (r, q', net') \<or> drain_encrypted_queue send now ?q net2 = (r, q', net')")
      case True
      then show ?thesis using less.hyps [OF short] net2 item(1) by fastforce
    next
      case False
      then have "net' = net2 \<and> (q' = ?q \<or> q' = front_drop x ?q)"
        using eq item w by (auto split: if_splits sum.splits)
      then show ?thesis using net2 front item(1) by auto
    qed
  qed
qed

lemma send_session_moves:
  assumes "carries send" "send_session send now net s = (r, s', net')"
  shows "same_session s s' \<and> raw_tx_queue s' = raw_tx_queue s \<and> ssl (conn s') = ssl (conn s)
    \<and> set (io_datagrams (callback_io (conn s'))) \<subseteq> set (io_datagrams (callback_io (conn s)))
    \<and> set_mset net' \<subseteq> set_mset net \<union> set (io_datagrams (callback_io (conn s)))"
proof -
  obtain r1 q' where d: "drain_encrypted_queue (\<lambda>st packet. send st (peer_addr s) packet) now (enc_tx_queue s) net = (r1, q', net')"
    and s': "s' = (if is_ok r1 then set_enc_tx_queue q' s else (set_enc_tx_queue q' s)\<lparr>disconnect_reason := ''udp_write_error''\<rparr>)"
    using assms(2) by (auto simp: send_session_def Let_def split: prod.splits)
  have io: "datagram_bytes ` set (items (enc_tx_queue s)) = set (io_datagrams (callback_io (conn s)))"
    by (auto simp: enc_tx_queue_def io_datagrams_def empty_queue_def split: option.splits)
  have m: "set (items q') \<subseteq> set (items (enc_tx_queue s))"
    "set_mset net' \<subseteq> set_mset net \<union> datagram_bytes ` set (items (enc_tx_queue s))"
    using drain_encrypted_moves [OF _ d] assms(1) by (simp_all add: carries_def)
  have "set (io_datagrams (callback_io (conn (set_enc_tx_queue q' s)))) \<subseteq> datagram_bytes ` set (items q')"
    by (auto simp: set_enc_tx_queue_def io_datagrams_def split: option.splits)
  also have "\<dots> \<subseteq> datagram_bytes ` set (items (enc_tx_queue s))" using m(1) by (rule image_mono)
  finally have "set (io_datagrams (callback_io (conn s'))) \<subseteq> set (io_datagrams (callback_io (conn s)))"
    using s' io by simp
  then show ?thesis using s' m(2) io by (auto simp: same_session_def set_enc_tx_queue_def)
qed

lemma inject_front_keeps:
  assumes "separate_directions W seal record_number taken readable" "sealing_inv seal record_number ps (conn s)"
  shows "sealing_inv seal record_number ps (conn (inject_front W s)) \<and> raw_tx_queue (inject_front W s) = raw_tx_queue s"
proof (cases "pending_inject s")
  case Nil
  then show ?thesis using assms(2) by (simp add: inject_front_def)
next
  case (Cons packet rest)
  obtain r d where i: "inject W packet (conn s) = (r, d)" by (metis surj_pair)
  then show ?thesis
    using inject_keeps_sealing [OF assms(1) i assms(2)] Cons
    by (auto simp: inject_front_def split: sum.splits bool.splits)
qed

lemma inject_datagram_keeps:
  assumes "separate_directions W seal record_number taken readable" "sealing_inv seal record_number ps (conn s)"
    and "inject_datagram W x s = (on, s')"
  shows "sealing_inv seal record_number ps (conn s') \<and> raw_tx_queue s' = raw_tx_queue s"
proof (cases "pending_inject s = []")
  case False
  then show ?thesis using assms(2,3) by (auto simp: inject_datagram_def split: if_splits)
next
  case True
  obtain r d where i: "inject W x (conn s) = (r, d)" by (metis surj_pair)
  then show ?thesis
    using inject_keeps_sealing [OF assms(1) i assms(2)] True assms(3)
    by (auto simp: inject_datagram_def split: sum.splits bool.splits)
qed

lemma read_session_keeps:
  assumes "separate_directions W seal record_number taken readable" "sealing_inv seal record_number ps (conn s)"
    and rd: "read_session W c logins now tun s = (s', written, e)"
  shows "sealing_inv seal record_number ps (conn s') \<and> answers (raw_tx_queue s) (raw_tx_queue s')"
proof -
  consider (same) "s' = s"
    | (reads) r d t where "read_status W READ_BUFFER (conn s) = (r, d)" "conn t = d" "s' = t \<or> s' = inject_front W t"
        "answers (raw_tx_queue s) (raw_tx_queue t)"
    using read_session_shape [OF rd] by blast
  then show ?thesis
  proof cases
    case same
    then show ?thesis using assms(2) by (simp add: answers_def)
  next
    case a: reads
    have "sealing_inv seal record_number ps (conn t)"
      using read_keeps_sealing [OF assms(1) a(1) assms(2)] a(2) by simp
    then show ?thesis using a(3,4) inject_front_keeps [OF assms(1)] by metis
  qed
qed

section \<open>Packets of the tunnel\<close>

text \<open>
  What the encrypting worker routed to the session, against what was sealed or still waits: answers and
  keep-alives are no packets of the tunnel.
\<close>

definition routed_inv :: "byte list list \<Rightarrow> byte list list \<Rightarrow> (byte list \<times> instant) queue \<Rightarrow> bool" where
  "routed_inv routed ps q \<longleftrightarrow>
     filter_mset (\<lambda>p. tun_packet p \<noteq> None) (mset ps + mset (map fst (items q))) \<subseteq># mset routed"

lemma push_mset: "mset (items (snd (push x q))) \<subseteq># add_mset x (mset (items q))"
  by (cases "items q") (auto simp: push_def pop_front_def Let_def)

lemma routed_inv_less:
  assumes "routed_inv routed ps q" "mset ps' + mset (map fst (items q')) \<subseteq># mset ps + mset (map fst (items q))"
  shows "routed_inv routed ps' q'"
  using multiset_filter_mono [OF assms(2)] assms(1) unfolding routed_inv_def by (rule subset_mset.order_trans)

lemma push_packets_mset: "mset (map fst (items (snd (push (p, now) q)))) \<subseteq># add_mset p (mset (map fst (items q)))"
  using image_mset_subseteq_mono [OF push_mset [of "(p, now)" q], of fst] by simp

lemma push_sealed_mset:
  "mset ps + mset (map fst (items (snd (push (p, now) q)))) \<subseteq># add_mset p (mset ps + mset (map fst (items q)))"
  using subset_mset.add_left_mono [OF push_packets_mset [of p now q], of "mset ps"] by simp

lemma routed_inv_queue:
  assumes "routed_inv routed ps q"
  shows "routed_inv (routed @ [p]) ps (snd (push (p, now) q))"
proof -
  let ?P = "\<lambda>p. tun_packet p \<noteq> None" and ?m = "mset ps + mset (map fst (items q))"
  have "filter_mset ?P (mset ps + mset (map fst (items (snd (push (p, now) q))))) \<subseteq># filter_mset ?P (add_mset p ?m)"
    by (rule multiset_filter_mono [OF push_sealed_mset])
  also have "\<dots> \<subseteq># add_mset p (filter_mset ?P ?m)" by simp
  also have "\<dots> \<subseteq># mset (routed @ [p])" using assms by (simp add: routed_inv_def)
  finally show ?thesis by (simp add: routed_inv_def)
qed

lemma routed_inv_answer:
  assumes "routed_inv routed ps q" "answers q q'"
  shows "routed_inv routed ps q'"
proof (cases "q' = q")
  case True
  then show ?thesis using assms(1) by simp
next
  case False
  then obtain p now where a: "tun_packet p = None" "q' = snd (push (p, now) q)" using assms(2) by (auto simp: answers_def)
  let ?P = "\<lambda>p. tun_packet p \<noteq> None" and ?m = "mset ps + mset (map fst (items q))"
  have "filter_mset ?P (mset ps + mset (map fst (items q'))) \<subseteq># filter_mset ?P (add_mset p ?m)"
    unfolding a(2) by (rule multiset_filter_mono [OF push_sealed_mset])
  also have "\<dots> = filter_mset ?P ?m" using a(1) by simp
  also have "\<dots> \<subseteq># mset routed" using assms(1) by (simp add: routed_inv_def)
  finally show ?thesis by (simp add: routed_inv_def)
qed

section \<open>The client as a receiver\<close>

definition client_inv :: "(nat \<Rightarrow> byte list \<Rightarrow> byte list) \<Rightarrow> ('w option \<Rightarrow> nat set) \<Rightarrow> ('w option \<Rightarrow> byte list list) \<Rightarrow>
    byte list list \<Rightarrow> byte list multiset \<Rightarrow> decrypt_local \<Rightarrow> 'w client \<Rightarrow> bool" where
  "client_inv seal taken readable ps out l s \<longleftrightarrow>
     taking_inv taken readable ps (out + mset (items (tun_write (queues s)))) (link s)
     \<and> (\<forall>d \<in> set (datagrams_left l s). unforged seal ps d)
     \<and> (\<forall>p \<in> set (items (tun_write (queues s))). tun_packet p \<noteq> None)"

text \<open>What a turn of the writer of the device wrote.\<close>

definition device_write :: "bool \<Rightarrow> nat io_result \<Rightarrow> 'w client \<Rightarrow> byte list list" where
  "device_write still wrote s =
     (case peek (tun_write (queues s)) of
        Some (Some front, rest) \<Rightarrow> if still \<and> wrote = Inr (length front) then [front] else []
      | _ \<Rightarrow> [])"

lemma tun_write_turn_result:
  assumes "client_tun_write_turn still wrote s = Some (how, s')"
  shows "link s' = link s \<and> encrypted_rx (queues s') = encrypted_rx (queues s)
    \<and> mset (device_write still wrote s) + mset (items (tun_write (queues s'))) \<subseteq># mset (items (tun_write (queues s)))"
proof (cases "peek (tun_write (queues s))")
  case None
  then show ?thesis using assms by (simp add: client_tun_write_turn_def)
next
  case (Some a)
  then obtain v rest where a: "peek (tun_write (queues s)) = Some (v, rest)" by (cases a) auto
  show ?thesis
  proof (cases v)
    case None
    then show ?thesis using a assms by (simp add: client_tun_write_turn_def device_write_def)
  next
    case v: (Some x)
    then have q: "mset (items (tun_write (queues s))) = add_mset x (mset (items rest))"
      using a by (auto simp: peek_eq_pop pop_def pop_front_def split: if_splits list.splits)
    have shape: "link s' = link s \<and> encrypted_rx (queues s') = encrypted_rx (queues s)
        \<and> (still \<and> wrote = Inr (length x) \<and> tun_write (queues s') = rest
           \<or> \<not> (still \<and> wrote = Inr (length x)) \<and> tun_write (queues s') = front_drop x rest)"
      using assms a v
      by (auto simp: client_tun_write_turn_def client_fail_def Let_def split: if_splits sum.splits)
    have "device_write still wrote s = (if still \<and> wrote = Inr (length x) then [x] else [])"
      using a v by (simp add: device_write_def)
    then show ?thesis using shape q front_drop_mset [of x rest] by auto
  qed
qed

lemma client_inv_grows: "client_inv seal taken readable ps out l s \<Longrightarrow> client_inv seal taken readable (ps @ qs) out l s"
  by (auto simp: client_inv_def taking_inv_grows unforged_grows)

lemma write_turn_keeps_client:
  assumes "client_inv seal taken readable ps out l s" "client_tun_write_turn still wrote s = Some (how, s')"
  shows "client_inv seal taken readable ps (out + mset (device_write still wrote s)) l s'
    \<and> (\<forall>p \<in> set (device_write still wrote s). tun_packet p \<noteq> None)"
proof -
  note R = tun_write_turn_result [OF assms(2)]
  let ?w = "device_write still wrote s" and ?q = "items (tun_write (queues s))" and ?q' = "items (tun_write (queues s'))"
  have bag: "mset ?w + mset ?q' \<subseteq># mset ?q" and link: "link s' = link s"
    and left: "datagrams_left l s' = datagrams_left l s"
    using R by (simp_all add: datagrams_left_def)
  have "set ?w \<union> set ?q' \<subseteq> set ?q" using set_mset_mono [OF bag] by simp
  moreover have "(out + mset ?w) + mset ?q' \<subseteq># out + mset ?q"
    using subset_mset.add_left_mono [OF bag, of out] by (simp add: add.assoc)
  then have "taking_inv taken readable ps ((out + mset ?w) + mset ?q') (link s')"
    using assms(1) unfolding client_inv_def link by (blast intro: taking_inv_mono)
  ultimately show ?thesis using assms(1) left unfolding client_inv_def by auto
qed

lemma client_receives_keeps:
  assumes "client_inv seal taken readable ps out l s" "unforged seal ps d"
    and "reader_queue rd = encrypted_rx (queues s)" "reader_push d rd = (ok, rd')"
  shows "client_inv seal taken readable ps out l (s\<lparr>queues := (queues s)\<lparr>encrypted_rx := reader_queue rd'\<rparr>\<rparr>)"
proof -
  have "reader_queue rd' = snd (push d (encrypted_rx (queues s)))"
    using assms(3,4) by (auto simp: reader_push_def split: prod.splits sum.splits option.splits)
  then have "set (items (reader_queue rd')) \<subseteq> insert d (set (items (encrypted_rx (queues s))))"
    using mset_subset_eqD [OF push_mset [of d "encrypted_rx (queues s)"]] by auto
  then show ?thesis using assms(1,2) by (auto simp: client_inv_def datagrams_left_def)
qed

lemma inject_next_link:
  assumes "inject_next W l s = (t, l', s')"
  shows "link s' = link s \<or> (\<exists>packet \<in> set (datagrams_left l s). \<exists>r. inject W packet (link s) = (r, link s'))"
proof -
  obtain v q where src: "(case waiting l of Some packet \<Rightarrow> (Inr packet, encrypted_rx (queues s))
      | None \<Rightarrow> try_pop (encrypted_rx (queues s))) = (v, q)" by (metis surj_pair)
  show ?thesis
  proof (cases v)
    case (Inl e)
    then show ?thesis using assms src by (cases e) (simp_all add: inject_next_def)
  next
    case (Inr packet)
    have "packet \<in> set (datagrams_left l s)"
      using src Inr try_pop_delivered [of "encrypted_rx (queues s)" packet q]
      by (cases "waiting l") (simp_all add: datagrams_left_def)
    moreover obtain r d where i: "inject W packet (link s) = (r, d)" by (metis surj_pair)
    then have "link s' = d"
      using assms src Inr by (auto simp: inject_next_def client_fail_def Let_def split: sum.splits bool.splits)
    ultimately show ?thesis using i by blast
  qed
qed

lemma inject_next_keeps:
  assumes end_ok: "endpoint W seal_out seal_in record_number taken readable"
    and inv: "client_inv seal_in taken readable ps out l s" "sealing_inv seal_out record_number qs (link s)"
    and turn: "inject_next W l s = (t, l', s')"
  shows "client_inv seal_in taken readable ps out l' s' \<and> sealing_inv seal_out record_number qs (link s')"
proof -
  have kept: "turn_injected W l s @ datagrams_left l' s' = datagrams_left l s" "tun_write (queues s') = tun_write (queues s)"
    using inject_next_conserves [OF turn] by simp_all
  then have left: "set (datagrams_left l' s') \<subseteq> set (datagrams_left l s)" by (metis set_append Un_upper2)
  let ?out = "out + mset (items (tun_write (queues s)))"
  have "taking_inv taken readable ps ?out (link s') \<and> sealing_inv seal_out record_number qs (link s')"
    using inject_next_link [OF turn]
  proof
    assume "link s' = link s"
    then show ?thesis using inv by (simp add: client_inv_def)
  next
    assume "\<exists>packet \<in> set (datagrams_left l s). \<exists>r. inject W packet (link s) = (r, link s')"
    then obtain packet r where p: "packet \<in> set (datagrams_left l s)" "inject W packet (link s) = (r, link s')" by blast
    then have "unforged seal_in ps packet" "taking_inv taken readable ps ?out (link s)"
      using inv(1) by (simp_all add: client_inv_def)
    then show ?thesis
      using inject_takes [OF endpointD(3) [OF end_ok] _ _ p(2)] inject_keeps_sealing [OF endpointD(4) [OF end_ok] p(2) inv(2)]
      by blast
  qed
  then show ?thesis using inv(1) kept(2) left by (auto simp: client_inv_def)
qed

lemma deliver_keeps:
  assumes "deliver plain s = (t, s')"
  shows "link s' = link s \<and> encrypted_rx (queues s') = encrypted_rx (queues s)
    \<and> mset (items (tun_write (queues s'))) \<subseteq># add_mset plain (mset (items (tun_write (queues s))))
    \<and> (\<forall>p \<in> set (items (tun_write (queues s'))). p \<in> set (items (tun_write (queues s))) \<or> tun_packet p \<noteq> None)"
proof (cases "tun_packet plain")
  case None
  then show ?thesis using assms by (simp add: deliver_def)
next
  case (Some p)
  then have p: "p = plain" by (auto simp: tun_packet_def split: if_splits)
  let ?q = "tun_write (queues s)"
  have "tun_write (queues s') = ?q \<or> tun_write (queues s') = snd (push plain ?q)" "link s' = link s"
    "encrypted_rx (queues s') = encrypted_rx (queues s)"
    using assms Some p by (auto simp: deliver_def split: prod.splits sum.splits)
  moreover have "set (items (snd (push plain ?q))) \<subseteq> insert plain (set (items ?q))"
    using set_mset_mono [OF push_mset [of plain ?q]] by simp
  ultimately show ?thesis using push_mset [of plain ?q] Some p by auto
qed

lemma decrypt_turn_keeps:
  assumes end_ok: "endpoint W seal_out seal_in record_number taken readable"
    and inv: "client_inv seal_in taken readable ps out l s" "sealing_inv seal_out record_number qs (link s)"
    and turn: "client_decrypt_turn W now l s = (t, l', s')"
  shows "client_inv seal_in taken readable ps out l' s' \<and> sealing_inv seal_out record_number qs (link s')"
proof (cases "drain l")
  case False
  then show ?thesis using inject_next_keeps [OF end_ok inv] turn by (simp add: client_decrypt_turn_def)
next
  case True
  obtain r d where r: "read_status W DECRYPT_BUFFER (link s) = (r, d)" by (metis surj_pair)
  let ?q = "items (tun_write (queues s))"
  have sealed: "sealing_inv seal_out record_number qs d"
    using read_keeps_sealing [OF endpointD(4) [OF end_ok] r inv(2)] .
  have taken: "taking_inv taken readable ps ((out + mset ?q) + mset (read_by r)) d"
    using read_takes [OF endpointD(3) [OF end_ok] _ r] inv(1) by (simp add: client_inv_def)
  have less: "out + mset ?q \<subseteq># (out + mset ?q) + mset (read_by r)" by simp
  have base: "client_inv seal_in taken readable ps out (l\<lparr>drain := b\<rparr>) (s\<lparr>link := d, progress := g\<rparr>)" for b g
    using inv(1) taking_inv_mono [OF taken less] by (simp add: client_inv_def datagrams_left_def)
  have base': "client_inv seal_in taken readable ps out l (s\<lparr>link := d\<rparr>)"
    using inv(1) taking_inv_mono [OF taken less] by (simp add: client_inv_def datagrams_left_def)
  let ?s1 = "s\<lparr>link := d, progress := signal_notify (progress s)\<rparr>"
  consider (record_read) n plain where "r = Inr (Complete n, plain)" "0 < n"
    | (goes_on) "inject_next W (l\<lparr>drain := False\<rparr>) ?s1 = (t, l', s')"
    | (waits) "l' = l" "queues s' = queues s" "link s' = d"
    using turn True r
    by (auto simp: client_decrypt_turn_def client_fail_def split: sum.splits prod.splits dtls_io_result.splits if_splits)
  then show ?thesis
  proof cases
    case record_read
    let ?s = "s\<lparr>link := d, activity := now\<rparr>"
    obtain t1 s1 where "deliver plain ?s = (t1, s1)" by (metis surj_pair)
    then have "l' = l" "s' = s1" and D: "deliver plain ?s = (t, s')"
      using turn True r record_read by (simp_all add: client_decrypt_turn_def)
    note K = deliver_keeps [OF D]
    have "out + mset (items (tun_write (queues s'))) \<subseteq># (out + mset ?q) + mset (read_by r)"
      using K record_read by simp
    then have "taking_inv taken readable ps (out + mset (items (tun_write (queues s')))) (link s')"
      using taking_inv_mono [OF taken] K by simp
    then show ?thesis using inv(1) K sealed \<open>l' = l\<close> by (auto simp: client_inv_def datagrams_left_def)
  next
    case goes_on
    show ?thesis by (rule inject_next_keeps [OF end_ok base _ goes_on]) (simp add: sealed)
  next
    case waits
    then show ?thesis using base' sealed by (simp add: client_inv_def datagrams_left_def)
  qed
qed

text \<open>The sending half of the client leaves its receiving half alone.\<close>

lemma encrypt_keeps_client:
  assumes "separate_directions W seal record_number taken readable" "client_inv seal_in taken readable ps out l s"
    and e: "client_encrypt W packet s = (finished, s')"
  shows "client_inv seal_in taken readable ps out l s'"
proof (cases "active s")
  case False
  then show ?thesis using assms by (simp add: client_encrypt_def)
next
  case True
  obtain r d where w: "write_status W packet (link s) = (r, d)" by (metis surj_pair)
  have "link s' = d" "tun_write (queues s') = tun_write (queues s)" "set (items (encrypted_rx (queues s'))) \<subseteq> set (items (encrypted_rx (queues s)))"
    using e w True by (auto simp: client_encrypt_def client_fail_def close_def split: sum.splits dtls_io_result.splits if_splits)
  then show ?thesis
    using assms(2) write_keeps_taking [OF assms(1) w] by (auto simp: client_inv_def datagrams_left_def)
qed

lemma transmit_keeps_client:
  assumes "client_inv seal_in taken readable ps out l s" "client_udp_write_turn now still sent q s = Some (how, q', s')"
  shows "client_inv seal_in taken readable ps out l (s'\<lparr>link := (link s')\<lparr>callback_io := io\<rparr>\<rparr>)"
proof -
  have "link s' = link s" "queues s' = queues s"
    using assms(2) by (auto simp: client_udp_write_turn_def client_fail_def Let_def split: option.splits prod.splits if_splits sum.splits)
  then show ?thesis using assms(1) by (simp add: client_inv_def taking_inv_def datagrams_left_def)
qed

section \<open>The composed system\<close>

text \<open>
  The two ends: wolfSSL on the client's and on the server's machine, how each seals its records, and the
  observations of the contract.
\<close>

record ('v, 'w) ends =
  wolf_v :: "'v wolfssl"
  wolf_w :: "'w wolfssl"
  seal_up :: "nat \<Rightarrow> byte list \<Rightarrow> byte list"
  seal_down :: "nat \<Rightarrow> byte list \<Rightarrow> byte list"
  number_v :: "'v option \<Rightarrow> nat"
  taken_v :: "'v option \<Rightarrow> nat set"
  readable_v :: "'v option \<Rightarrow> byte list list"
  number_w :: "'w option \<Rightarrow> nat"
  taken_w :: "'w option \<Rightarrow> nat set"
  readable_w :: "'w option \<Rightarrow> byte list list"

definition ends_contract :: "('v, 'w) ends \<Rightarrow> bool" where
  "ends_contract E \<longleftrightarrow>
     endpoint (wolf_v E) (seal_up E) (seal_down E) (number_v E) (taken_v E) (readable_v E)
     \<and> endpoint (wolf_w E) (seal_down E) (seal_up E) (number_w E) (taken_w E) (readable_w E)"

record ('v, 'w) duplex =
  far_client :: "'v client"
  far_local :: decrypt_local
  near_session :: "'w session"
  up_network :: "byte list multiset"
  down_network :: "byte list multiset"
  up_payloads :: "byte list list"
  down_payloads :: "byte list list"
  routed :: "byte list list"
  server_device :: "byte list list"
  client_device :: "byte list list"

text \<open>
  A network may hold any datagrams that are not forged: what was sent, any number of times and in any
  order, and what is no record.
\<close>

inductive duplex_step :: "('v, 'w) ends \<Rightarrow> server_config \<Rightarrow> (ipv4 \<Rightarrow> (string \<times> string) option) \<Rightarrow>
    ('v, 'w) duplex \<Rightarrow> ('v, 'w) duplex \<Rightarrow> bool"
  for E c logins where
  client_encrypts:
    "client_encrypt (wolf_v E) packet (far_client t) = (finished, s) \<Longrightarrow>
     duplex_step E c logins t
       (t\<lparr>far_client := s, up_payloads := up_payloads t @ sealed_payload (wolf_v E) packet (far_client t)\<rparr>)"
| client_transmits:
    "callback_io (link (far_client t)) = Some io \<Longrightarrow> outgoing io = Some q \<Longrightarrow>
     client_udp_write_turn now still sent q (far_client t) = Some (how, q', s) \<Longrightarrow>
     duplex_step E c logins t
       (t\<lparr>far_client := s\<lparr>link := (link s)\<lparr>callback_io := Some (io\<lparr>outgoing := Some q'\<rparr>)\<rparr>\<rparr>,
          up_network := up_network t + transmitted now still sent q\<rparr>)"
| server_receives:
    "up_network t = add_mset d rest \<Longrightarrow> inject_datagram (wolf_w E) d (near_session t) = (on, s) \<Longrightarrow>
     duplex_step E c logins t (t\<lparr>near_session := s, up_network := rest\<rparr>)"
| server_reads:
    "established (near_session t) \<Longrightarrow>
     read_session (wolf_w E) c logins now tun (near_session t) = (s, written, e) \<Longrightarrow>
     duplex_step E c logins t (t\<lparr>near_session := s, server_device := server_device t @ written\<rparr>)"
| server_routes:
    "duplex_step E c logins t
       (t\<lparr>near_session := queue_session_plain now packet (near_session t), routed := routed t @ [packet]\<rparr>)"
| server_drains:
    "drain_session_plain (wolf_w E) now (near_session t) = (r, s) \<Longrightarrow>
     duplex_step E c logins t
       (t\<lparr>near_session := s, down_payloads := down_payloads t @ drained_payloads (wolf_w E) now (near_session t)\<rparr>)"
| server_transmits:
    "carries send \<Longrightarrow> send_session send now (down_network t) (near_session t) = (r, s, net) \<Longrightarrow>
     duplex_step E c logins t (t\<lparr>near_session := s, down_network := net\<rparr>)"
| client_receives:
    "down_network t = add_mset d rest \<Longrightarrow> reader_queue rd = encrypted_rx (queues (far_client t)) \<Longrightarrow>
     reader_push d rd = (ok, rd') \<Longrightarrow>
     duplex_step E c logins t
       (t\<lparr>far_client := (far_client t)\<lparr>queues := (queues (far_client t))\<lparr>encrypted_rx := reader_queue rd'\<rparr>\<rparr>,
          down_network := rest\<rparr>)"
| client_decrypts:
    "client_decrypt_turn (wolf_v E) now (far_local t) (far_client t) = (how, l, s) \<Longrightarrow>
     duplex_step E c logins t (t\<lparr>far_client := s, far_local := l\<rparr>)"
| client_writes:
    "client_tun_write_turn still wrote (far_client t) = Some (how, s) \<Longrightarrow>
     duplex_step E c logins t
       (t\<lparr>far_client := s, client_device := client_device t @ device_write still wrote (far_client t)\<rparr>)"
| networks_act:
    "\<forall>d \<in># m. unforged (seal_up E) (up_payloads t) d \<Longrightarrow> \<forall>d \<in># n. unforged (seal_down E) (down_payloads t) d \<Longrightarrow>
     duplex_step E c logins t (t\<lparr>up_network := m, down_network := n\<rparr>)"

text \<open>Both ends after the handshake: nothing was sent, nothing waits but answers of the server.\<close>

definition duplex_start :: "('v, 'w) ends \<Rightarrow> ('v, 'w) duplex \<Rightarrow> bool" where
  "duplex_start E t \<longleftrightarrow>
     number_v E (ssl (link (far_client t))) = 0 \<and> taken_v E (ssl (link (far_client t))) = {}
     \<and> readable_v E (ssl (link (far_client t))) = [] \<and> queued_datagrams (far_client t) = []
     \<and> datagrams_left (far_local t) (far_client t) = [] \<and> items (tun_write (queues (far_client t))) = []
     \<and> number_w E (ssl (conn (near_session t))) = 0 \<and> taken_w E (ssl (conn (near_session t))) = {}
     \<and> readable_w E (ssl (conn (near_session t))) = [] \<and> io_datagrams (callback_io (conn (near_session t))) = []
     \<and> pending_inject (near_session t) = []
     \<and> (\<forall>p \<in> fst ` set (items (raw_tx_queue (near_session t))). tun_packet p = None)
     \<and> up_network t = {#} \<and> down_network t = {#} \<and> up_payloads t = [] \<and> down_payloads t = [] \<and> routed t = []
     \<and> server_device t = [] \<and> client_device t = []"

section \<open>The invariant\<close>

text \<open>Each direction has a part at its sender, on its network and at its receiver.\<close>

definition up_inv :: "('v, 'w) ends \<Rightarrow> server_config \<Rightarrow> ipv4 \<Rightarrow> ('v, 'w) duplex \<Rightarrow> bool" where
  "up_inv E c a t \<longleftrightarrow>
     sending_inv (seal_up E) (number_v E) (up_payloads t) (far_client t)
     \<and> (\<forall>d \<in># up_network t. unforged (seal_up E) (up_payloads t) d)
     \<and> receiving_inv (seal_up E) (taken_w E) (readable_w E) (up_payloads t) (mset (server_device t)) (near_session t)
     \<and> address (near_session t) = a \<and> device_ok c a (server_device t)"

definition down_inv :: "('v, 'w) ends \<Rightarrow> ('v, 'w) duplex \<Rightarrow> bool" where
  "down_inv E t \<longleftrightarrow>
     sealing_inv (seal_down E) (number_w E) (down_payloads t) (conn (near_session t))
     \<and> routed_inv (routed t) (down_payloads t) (raw_tx_queue (near_session t))
     \<and> (\<forall>d \<in># down_network t. unforged (seal_down E) (down_payloads t) d)
     \<and> client_inv (seal_down E) (taken_v E) (readable_v E) (down_payloads t) (mset (client_device t)) (far_local t) (far_client t)
     \<and> (\<forall>p \<in> set (client_device t). tun_packet p \<noteq> None)"

definition duplex_inv :: "('v, 'w) ends \<Rightarrow> server_config \<Rightarrow> ipv4 \<Rightarrow> ('v, 'w) duplex \<Rightarrow> bool" where
  "duplex_inv E c a t \<longleftrightarrow> up_inv E c a t \<and> down_inv E t"

lemma duplex_start_inv: "duplex_start E t \<Longrightarrow> duplex_inv E c (address (near_session t)) t"
  by (auto simp: duplex_inv_def up_inv_def down_inv_def duplex_start_def sending_inv_def sealing_inv_def receiving_inv_def
      taking_inv_def client_inv_def routed_inv_def device_ok_def queued_datagrams_def filter_empty_conv simp flip: mset_filter mset_map)

lemma ends_contractD:
  assumes "ends_contract E"
  shows "endpoint (wolf_v E) (seal_up E) (seal_down E) (number_v E) (taken_v E) (readable_v E)"
    "endpoint (wolf_w E) (seal_down E) (seal_up E) (number_w E) (taken_w E) (readable_w E)"
  using assms by (simp_all add: ends_contract_def)

text \<open>What the session's invariants depend on.\<close>

lemma receiving_inv_session:
  assumes "receiving_inv seal taken readable ps out s" "same_session s s'"
    and "taking_inv taken readable ps out (conn s) \<Longrightarrow> taking_inv taken readable ps out (conn s')"
  shows "receiving_inv seal taken readable ps out s' \<and> address s' = address s"
  using assms by (simp add: receiving_inv_def same_session_def)

lemma queue_plain_session:
  "conn (queue_session_plain now p s) = conn s \<and> same_session s (queue_session_plain now p s)
   \<and> raw_tx_queue (queue_session_plain now p s) = snd (push (p, now) (raw_tx_queue s))"
  by (simp add: queue_session_plain_def same_session_def)

lemma up_step:
  assumes step: "duplex_step E c logins t t'" and ok: "ends_contract E" and inv: "duplex_inv E c a t"
  shows "up_inv E c a t'"
proof -
  note V = ends_contractD(1) [OF ok] and W = ends_contractD(2) [OF ok]
  have up: "sending_inv (seal_up E) (number_v E) (up_payloads t) (far_client t)"
      "\<forall>d \<in># up_network t. unforged (seal_up E) (up_payloads t) d"
      "receiving_inv (seal_up E) (taken_w E) (readable_w E) (up_payloads t) (mset (server_device t)) (near_session t)"
      "address (near_session t) = a" "device_ok c a (server_device t)"
    and client: "client_inv (seal_down E) (taken_v E) (readable_v E) (down_payloads t) (mset (client_device t)) (far_local t) (far_client t)"
    using inv by (simp_all add: duplex_inv_def up_inv_def down_inv_def)
  show ?thesis
    using step
  proof cases
    case (client_encrypts packet finished s)
    then show ?thesis
      using up encrypt_keeps_sending [OF endpointD(2,1) [OF V] up(1) client_encrypts(2)]
      by (simp add: up_inv_def receiving_inv_grows unforged_grows)
  next
    case (client_transmits io q now still sent how q' s)
    then show ?thesis
      using up sending_inv_sent [OF up(1) client_transmits(2,3,4)] by (auto simp: up_inv_def)
  next
    case (server_receives d rest on s)
    have "receiving_inv (seal_up E) (taken_w E) (readable_w E) (up_payloads t) (mset (server_device t)) s"
      by (rule inject_datagram_receives [OF endpointD(3) [OF W] up(3) _ server_receives(3)]) (use up(2) server_receives(2) in simp)
    moreover have "address s = address (near_session t)"
      using identity_inject_datagram [of "wolf_w E" d "near_session t"] server_receives(3) by (simp add: identity_def)
    ultimately show ?thesis using up server_receives(1,2) by (simp add: up_inv_def)
  next
    case (server_reads now tun s written e)
    have "receiving_inv (seal_up E) (taken_w E) (readable_w E) (up_payloads t) (mset (server_device t) + mset written) s"
      by (rule read_session_receives [OF endpointD(3) [OF W] up(3) server_reads(3)])
    moreover have "address s = a" "device_ok c a (server_device t @ written)"
      using read_session_written [OF server_reads(3,2)] up(4,5) by (auto simp: device_ok_def)
    ultimately show ?thesis using up server_reads(1) by (simp add: up_inv_def)
  next
    case (server_routes packet now)
    then show ?thesis
      using up receiving_inv_session [OF up(3)] queue_plain_session [of now packet "near_session t"] by (simp add: up_inv_def)
  next
    case (server_drains now r s)
    then show ?thesis
      using up receiving_inv_session [OF up(3), of s] drain_session_seals [OF W server_drains(2)] by (simp add: up_inv_def)
  next
    case (server_transmits send now r s net)
    note M = send_session_moves [OF server_transmits(2,3)]
    then have "taking_inv (taken_w E) (readable_w E) qs out (conn s) = taking_inv (taken_w E) (readable_w E) qs out (conn (near_session t))"
      for qs out by (simp add: taking_inv_def)
    then show ?thesis
      using up receiving_inv_session [OF up(3), of s] M server_transmits(1) by (simp add: up_inv_def)
  next
    case (client_receives d rest rd ok rd')
    then show ?thesis using up by (simp add: up_inv_def sending_inv_def)
  next
    case (client_decrypts now how l s)
    then show ?thesis
      using up decrypt_turn_keeps [OF V client _ client_decrypts(2)] by (simp add: up_inv_def sending_inv_def)
  next
    case (client_writes still wrote how s)
    then show ?thesis using up tun_write_turn_result [OF client_writes(2)] by (simp add: up_inv_def sending_inv_def)
  next
    case (networks_act m n)
    then show ?thesis using up by (simp add: up_inv_def)
  qed
qed

lemma down_step:
  assumes step: "duplex_step E c logins t t'" and ok: "ends_contract E" and inv: "duplex_inv E c a t"
  shows "down_inv E t'"
proof -
  note V = ends_contractD(1) [OF ok] and W = ends_contractD(2) [OF ok]
  have down: "sealing_inv (seal_down E) (number_w E) (down_payloads t) (conn (near_session t))"
      "routed_inv (routed t) (down_payloads t) (raw_tx_queue (near_session t))"
      "\<forall>d \<in># down_network t. unforged (seal_down E) (down_payloads t) d"
      "client_inv (seal_down E) (taken_v E) (readable_v E) (down_payloads t) (mset (client_device t)) (far_local t) (far_client t)"
      "\<forall>p \<in> set (client_device t). tun_packet p \<noteq> None"
    and sending: "sealing_inv (seal_up E) (number_v E) (up_payloads t) (link (far_client t))"
    using inv by (simp_all add: duplex_inv_def up_inv_def down_inv_def sending_inv_def)
  note sw = endpointD(4) [OF W]
  show ?thesis
    using step
  proof cases
    case (client_encrypts packet finished s)
    then show ?thesis
      using down encrypt_keeps_client [OF endpointD(4) [OF V] down(4) client_encrypts(2)] by (simp add: down_inv_def)
  next
    case (client_transmits io q now still sent how q' s)
    then show ?thesis
      using down transmit_keeps_client [OF down(4) client_transmits(4)] by (simp add: down_inv_def)
  next
    case (server_receives d rest on s)
    then show ?thesis
      using down inject_datagram_keeps [OF sw down(1) server_receives(3)] by (simp add: down_inv_def)
  next
    case (server_reads now tun s written e)
    then show ?thesis
      using down read_session_keeps [OF sw down(1) server_reads(3)] routed_inv_answer [OF down(2)] by (simp add: down_inv_def)
  next
    case (server_routes packet now)
    then show ?thesis
      using down queue_plain_session [of now packet "near_session t"] routed_inv_queue [OF down(2)] by (simp add: down_inv_def)
  next
    case (server_drains now r s)
    let ?ps = "drained_payloads (wolf_w E) now (near_session t)"
    note D = drain_session_seals [OF W server_drains(2)]
    have "routed_inv (routed t) (down_payloads t @ ?ps) (raw_tx_queue s)"
      by (rule routed_inv_less [OF down(2)]) (use D in \<open>simp add: add.assoc\<close>)
    then show ?thesis
      using down D server_drains(1) by (auto simp: down_inv_def client_inv_grows unforged_grows)
  next
    case (server_transmits send now r s net)
    note M = send_session_moves [OF server_transmits(2,3)]
    have "sealing_inv (seal_down E) (number_w E) (down_payloads t) (conn s)"
      using M down(1) by (auto simp: sealing_inv_def)
    moreover have "\<forall>d \<in># net. unforged (seal_down E) (down_payloads t) d"
      using M down(1,3) by (auto simp: sealing_inv_def)
    ultimately show ?thesis using down M server_transmits(1) by (simp add: down_inv_def)
  next
    case (client_receives d rest rd ok rd')
    then show ?thesis
      using down client_receives_keeps [OF down(4) _ client_receives(3,4)] by (simp add: down_inv_def)
  next
    case (client_decrypts now how l s)
    then show ?thesis
      using down decrypt_turn_keeps [OF V down(4) sending client_decrypts(2)] by (simp add: down_inv_def)
  next
    case (client_writes still wrote how s)
    then show ?thesis
      using down write_turn_keeps_client [OF down(4) client_writes(2)] by (auto simp: down_inv_def)
  next
    case (networks_act m n)
    then show ?thesis using down by (simp add: down_inv_def)
  qed
qed

definition contract_inv :: "('v, 'w) ends \<Rightarrow> server_config \<Rightarrow> ipv4 \<Rightarrow> ('v, 'w) duplex \<Rightarrow> bool" where
  "contract_inv E c a t \<longleftrightarrow> ends_contract E \<and> duplex_inv E c a t"

interpretation duplexing: step_invariant "duplex_step E c logins" "contract_inv E c a"
  by unfold_locales (auto simp: contract_inv_def duplex_inv_def up_step down_step)

lemma taking_inv_sent: "taking_inv taken readable ps out d \<Longrightarrow> out \<subseteq># mset ps"
proof -
  assume inv: "taking_inv taken readable ps out d"
  have "out \<subseteq># out + mset (readable (ssl d))" by simp
  also have "\<dots> \<subseteq># payload_bag ps (taken (ssl d))" using inv by (simp add: taking_inv_def)
  also have "\<dots> \<subseteq># mset ps" using inv payload_bag_sent by (simp add: taking_inv_def)
  finally show ?thesis .
qed

lemma down_inv_delivers:
  assumes "down_inv E t"
  shows "mset (client_device t) \<subseteq># mset (routed t) \<and> (\<forall>p \<in> set (client_device t). ipv4_packet_addresses p \<noteq> None)"
proof -
  let ?P = "\<lambda>p. tun_packet p \<noteq> None" and ?raw = "mset (map fst (items (raw_tx_queue (near_session t))))"
  have P: "\<forall>p \<in> set (client_device t). ?P p" using assms by (simp add: down_inv_def)
  have "mset (client_device t) \<subseteq># mset (client_device t) + mset (items (tun_write (queues (far_client t))))" by simp
  also have "\<dots> \<subseteq># mset (down_payloads t)"
    using assms by (auto simp: down_inv_def client_inv_def intro: taking_inv_sent)
  also have "\<dots> \<subseteq># mset (down_payloads t) + ?raw" by simp
  finally have "filter_mset ?P (mset (client_device t)) \<subseteq># filter_mset ?P (mset (down_payloads t) + ?raw)"
    by (rule multiset_filter_mono)
  also have "\<dots> \<subseteq># mset (routed t)" using assms unfolding down_inv_def routed_inv_def by blast
  finally have "filter_mset ?P (mset (client_device t)) \<subseteq># mset (routed t)" .
  moreover have "filter_mset ?P (mset (client_device t)) = mset (client_device t)"
    using P by (simp add: filter_mset_eq_conv)
  ultimately show ?thesis using P by (auto simp: tun_packet_def split: if_splits)
qed

lemma up_inv_delivers:
  "up_inv E c a t \<Longrightarrow> mset (server_device t) \<subseteq># mset (up_payloads t) \<and> device_ok c a (server_device t)"
  by (auto simp: up_inv_def receiving_inv_def intro: taking_inv_sent)

section \<open>A concrete run\<close>

text \<open>Both ends are \<open>example_records\<close>; a packet is routed to the session and reaches the client's device.\<close>

definition example_ends :: "(record_state, record_state) ends" where
  "example_ends =
     \<lparr>wolf_v = example_records, wolf_w = example_records, seal_up = example_seal, seal_down = example_seal,
      number_v = example_number, taken_v = example_taken, readable_v = example_readable,
      number_w = example_number, taken_w = example_taken, readable_w = example_readable\<rparr>"

lemma example_ends_contract: "ends_contract example_ends"
proof -
  have "separate_directions example_records example_seal example_number example_taken example_readable"
    unfolding separate_directions_def
  proof (intro conjI allI impI)
    fix w io data r w' io' assume "ssl_write example_records w io data = (r, w', io')"
    then show "example_taken w' = example_taken w" "example_readable w' = example_readable w"
      by (auto simp: example_records_def example_taken_def example_readable_def split: option.splits prod.splits if_splits)
  next
    fix w d r w' assume "ssl_inject example_records w d = (r, w')"
    then show "example_number w' = example_number w"
      by (auto simp: example_records_def example_number_def split: option.splits prod.splits if_splits)
  next
    fix w io room r bytes w' io' assume "ssl_read example_records w io room = (r, bytes, w', io')"
    then show "example_number w' = example_number w"
      "set (io_datagrams io') \<subseteq> set (io_datagrams io) \<union> {d. \<forall>n p. d \<noteq> example_seal n p}"
      by (auto simp: example_records_def example_number_def split: option.splits prod.splits if_splits list.splits)
  qed
  then show ?thesis
    using example_contract by (simp add: ends_contract_def endpoint_def example_ends_def dtls_contract_def)
qed

definition example_io :: dtls_io where
  "example_io = (dtls_io_new example_peer)\<lparr>outgoing := Some (empty_queue SESSION_TX_QUEUE_CAPACITY)\<rparr>"

definition example_near :: "record_state session" where
  "example_near = example_receiver\<lparr>conn := (conn example_receiver)\<lparr>callback_io := Some example_io\<rparr>\<rparr>"

definition example_duplex :: "(record_state, record_state) duplex" where
  "example_duplex =
     \<lparr>far_client = example_sender, far_local = \<lparr>waiting = None, drain = False\<rparr>, near_session = example_near,
      up_network = {#}, down_network = {#}, up_payloads = [], down_payloads = [], routed = [],
      server_device = [], client_device = []\<rparr>"

lemma example_duplex_start: "duplex_start example_ends example_duplex"
  by (simp add: duplex_start_def example_duplex_def example_ends_def example_near_def example_sender_def example_receiver_def
      session_new_def example_number_def example_taken_def example_readable_def queued_datagrams_def io_datagrams_def
      datagrams_left_def empty_queue_def example_io_def)

text \<open>The packet is routed, sealed, sent, received, taken, read and written.\<close>

definition near_routed :: "record_state session" where
  "near_routed = queue_session_plain 0 example_client_packet example_near"

definition near_sealed :: "record_state session" where
  "near_sealed = snd (drain_session_plain example_records 0 near_routed)"

lemma example_packet_length: "length example_client_packet = 20" "example_client_packet \<noteq> []"
  by (simp_all add: example_client_packet_def)

lemma example_near_routed:
  "raw_tx_queue near_routed = (empty_queue SESSION_TX_QUEUE_CAPACITY)\<lparr>items := [(example_client_packet, 0)], generation := 1\<rparr>"
  "conn near_routed = (conn example_receiver)\<lparr>callback_io := Some example_io\<rparr>"
  by (simp_all add: near_routed_def queue_session_plain_def example_near_def example_receiver_def session_new_def push_def
      empty_queue_def SESSION_TX_QUEUE_CAPACITY_def)

lemma example_write:
  "write_status example_records example_client_packet (conn near_routed) =
     (Inr (Complete 20), (conn near_routed)\<lparr>ssl := Some (1, [], []),
        callback_io := Some (snd (dtls_send 0 0 (example_seal 0 example_client_packet) example_io))\<rparr>)"
  by (simp add: write_status_def example_near_routed example_receiver_def session_new_def example_records_def Let_def
      example_packet_length)

lemma example_drained:
  "drained_payloads example_records 0 near_routed = [example_client_packet]"
  "callback_io (conn near_sealed) = Some (snd (dtls_send 0 0 (example_seal 0 example_client_packet) example_io))"
  by (simp_all add: drained_payloads_def near_sealed_def drain_session_plain_def example_near_routed(1)
      drain_raw_queue.simps try_peek_items sealing_def send_tunnel_packet_def example_write example_packet_length
      SESSION_PACKET_TTL_def seconds_def Let_def)

definition example_socket :: "byte list multiset udp_socket" where
  "example_socket net peer d = (Inr (length d), add_mset d net)"

lemma example_near_sends:
  "\<exists>s. send_session example_socket 0 {#} near_sealed = (Inr False, s, {#example_seal 0 example_client_packet#})"
proof -
  have "enc_tx_queue near_sealed = (empty_queue SESSION_TX_QUEUE_CAPACITY)\<lparr>items := [example_datagram], generation := 1\<rparr>"
    by (simp add: enc_tx_queue_def example_drained(2) dtls_send_def example_io_def push_def empty_queue_def
        SESSION_TX_QUEUE_CAPACITY_def example_datagram_def)
  then show ?thesis
    by (simp add: send_session_def drain_encrypted_queue.simps try_peek_items example_socket_def example_datagram_def
        SESSION_PACKET_TTL_def seconds_def Let_def)
qed

definition far_received :: "record_state client" where
  "far_received = example_sender\<lparr>queues := (queues example_sender)\<lparr>encrypted_rx :=
     (empty_queue QUEUE_CAPACITY)\<lparr>items := [example_seal 0 example_client_packet], generation := 1\<rparr>\<rparr>\<rparr>"

lemma example_far_receives:
  "\<exists>rd rd'. reader_queue rd = encrypted_rx (queues example_sender)
     \<and> reader_push (example_seal 0 example_client_packet) rd = (True, rd')
     \<and> far_received = example_sender\<lparr>queues := (queues example_sender)\<lparr>encrypted_rx := reader_queue rd'\<rparr>\<rparr>"
  by (rule exI [of _ "\<lparr>reader_queue = encrypted_rx (queues example_sender), reader_drops = 0, reader_active = True,
                     reader_errors = []\<rparr>"])
    (simp add: reader_push_def push_def example_sender_def empty_queue_def QUEUE_CAPACITY_def far_received_def)

lemma example_far_takes:
  "\<exists>s. client_decrypt_turn example_records 0 \<lparr>waiting = None, drain = False\<rparr> far_received =
       (GoOn, \<lparr>waiting = None, drain = True\<rparr>, s)
     \<and> ssl (link s) = Some (0, [0], [example_client_packet]) \<and> tun_write (queues s) = tun_write (queues example_sender)"
proof -
  have "length (example_seal 0 example_client_packet) = 21" by (simp add: example_seal_def example_packet_length)
  then show ?thesis
    by (simp add: client_decrypt_turn_def inject_next_def far_received_def example_sender_def try_pop_def pop_front_def
        empty_queue_def inject_def example_records_def example_open_seal SUCCESS_def Let_def)
qed

lemma example_far_reads:
  assumes "ssl (link s) = Some (0, [0], [example_client_packet])" "tun_write (queues s) = tun_write (queues example_sender)"
  shows "\<exists>s'. client_decrypt_turn example_records 0 \<lparr>waiting = None, drain = True\<rparr> s =
       (GoOn, \<lparr>waiting = None, drain = True\<rparr>, s') \<and> items (tun_write (queues s')) = [example_client_packet]
     \<and> \<not> closed (tun_write (queues s'))"
proof -
  have "tun_packet example_client_packet = Some example_client_packet"
    using example_client_addresses
    by (simp add: tun_packet_def is_keepalive_packet_def KEEPALIVE_PACKET_def example_client_packet_def)
  then show ?thesis
    using assms example_packet_length
    by (simp add: client_decrypt_turn_def read_status_def example_records_def DECRYPT_BUFFER_def Let_def deliver_def
        push_def example_sender_def empty_queue_def QUEUE_CAPACITY_def)
qed

lemma example_far_writes:
  assumes "items (tun_write (queues s)) = [example_client_packet]" "\<not> closed (tun_write (queues s))"
  shows "\<exists>s'. client_tun_write_turn True (Inr 20) s = Some (GoOn, s') \<and> device_write True (Inr 20) s = [example_client_packet]"
  using assms example_packet_length
  by (simp add: client_tun_write_turn_def device_write_def peek_def pop_front_def Let_def)

lemma example_duplex_run:
  "\<exists>t. (duplex_step example_ends c logins)\<^sup>*\<^sup>* example_duplex t \<and> client_device t = [example_client_packet]
     \<and> routed t = [example_client_packet]"
proof -
  let ?p = example_client_packet and ?step = "duplex_step example_ends c logins" and ?l = "\<lparr>waiting = None, drain = True\<rparr>"
  have W: "wolf_v example_ends = example_records" "wolf_w example_ends = example_records" by (simp_all add: example_ends_def)
  let ?t1 = "example_duplex\<lparr>near_session := near_routed, routed := [?p]\<rparr>"
  let ?t2 = "?t1\<lparr>near_session := near_sealed, down_payloads := [?p]\<rparr>"
  obtain s3 where s3: "send_session example_socket 0 {#} near_sealed = (Inr False, s3, {#example_seal 0 ?p#})"
    using example_near_sends by blast
  let ?t3 = "?t2\<lparr>near_session := s3, down_network := {#example_seal 0 ?p#}\<rparr>"
  obtain rd rd' where rd: "reader_queue rd = encrypted_rx (queues example_sender)"
    "reader_push (example_seal 0 ?p) rd = (True, rd')"
    "far_received = example_sender\<lparr>queues := (queues example_sender)\<lparr>encrypted_rx := reader_queue rd'\<rparr>\<rparr>"
    using example_far_receives by blast
  let ?t4 = "?t3\<lparr>far_client := far_received, down_network := {#}\<rparr>"
  obtain s5 where s5: "client_decrypt_turn example_records 0 \<lparr>waiting = None, drain = False\<rparr> far_received = (GoOn, ?l, s5)"
    "ssl (link s5) = Some (0, [0], [?p])" "tun_write (queues s5) = tun_write (queues example_sender)"
    using example_far_takes by blast
  let ?t5 = "?t4\<lparr>far_client := s5, far_local := ?l\<rparr>"
  obtain s6 where s6: "client_decrypt_turn example_records 0 ?l s5 = (GoOn, ?l, s6)"
    "items (tun_write (queues s6)) = [?p]" "\<not> closed (tun_write (queues s6))"
    using example_far_reads [OF s5(2,3)] by blast
  let ?t6 = "?t5\<lparr>far_client := s6, far_local := ?l\<rparr>"
  obtain s7 where s7: "client_tun_write_turn True (Inr 20) s6 = Some (GoOn, s7)" "device_write True (Inr 20) s6 = [?p]"
    using example_far_writes [OF s6(2,3)] by blast
  let ?t7 = "?t6\<lparr>far_client := s7, client_device := [?p]\<rparr>"
  have "?step example_duplex ?t1"
    using duplex_step.server_routes [of example_ends c logins example_duplex ?p 0] by (simp add: example_duplex_def near_routed_def)
  moreover have "?step ?t1 ?t2"
    using duplex_step.server_drains [of example_ends 0 ?t1 "fst (drain_session_plain example_records 0 near_routed)" near_sealed c logins]
    by (simp add: W near_sealed_def example_drained(1) example_duplex_def)
  moreover have "?step ?t2 ?t3"
    using duplex_step.server_transmits [of example_socket 0 ?t2 "Inr False" s3 "{#example_seal 0 ?p#}"] s3
    by (simp add: carries_def example_socket_def example_duplex_def)
  moreover have "?step ?t3 ?t4"
    using duplex_step.client_receives [of ?t3 "example_seal 0 ?p" "{#}" rd True rd'] rd by (simp add: example_duplex_def)
  moreover have "?step ?t4 ?t5"
    using duplex_step.client_decrypts [of example_ends 0 ?t4 GoOn ?l s5] s5(1) by (simp add: W example_duplex_def)
  moreover have "?step ?t5 ?t6"
    using duplex_step.client_decrypts [of example_ends 0 ?t5 GoOn ?l s6] s6(1) by (simp add: W)
  moreover have "?step ?t6 ?t7"
    using duplex_step.client_writes [of True "Inr 20" ?t6 GoOn s7] s7 by (simp add: example_duplex_def)
  ultimately have "?step\<^sup>*\<^sup>* example_duplex ?t7"
    by (meson rtranclp.rtrancl_refl rtranclp.rtrancl_into_rtrancl)
  then show ?thesis by (rule_tac exI [of _ ?t7]) simp
qed

section \<open>Properties\<close>

text \<open>
  C2: The tunnel delivers in both directions only what the other side put in. Whatever the networks and
  an attacker without the keys do with the datagrams (lose, delay, reorder, repeat, invent), in every
  interleaving of the client's threads and the server's workers over one connection, with queues
  that overflow and datagrams that expire: the server's device receives only packets that the client
  encrypted, each at most as often, with the client's VPN address as their source and an allowed
  destination; the client's device receives only packets that the server routed to this client,
  each at most as often, never a keep-alive or an answer to a login. DTLS is assumed to accept only
  records of the peer, each once, and to keep its two directions apart.
\<close>

theorem tunnel_delivers_only_what_was_sent:
  assumes "ends_contract E" "duplex_start E t" "(duplex_step E c logins)\<^sup>*\<^sup>* t t'"
  shows "mset (server_device t') \<subseteq># mset (up_payloads t')
    \<and> (\<forall>p \<in> set (server_device t'). \<exists>destination.
         ipv4_packet_addresses p = Some (address (near_session t), destination) \<and> destination_allowed c destination)
    \<and> mset (client_device t') \<subseteq># mset (routed t')
    \<and> (\<forall>p \<in> set (client_device t'). ipv4_packet_addresses p \<noteq> None)"
proof -
  have "contract_inv E c (address (near_session t)) t"
    using assms(1) duplex_start_inv [OF assms(2)] by (simp add: contract_inv_def)
  then have "contract_inv E c (address (near_session t)) t'" by (rule duplexing.steps_preserve [OF assms(3)])
  then show ?thesis
    using up_inv_delivers down_inv_delivers by (fastforce simp: contract_inv_def duplex_inv_def device_ok_def)
qed

theorem tunnel_delivers_only_what_was_sent_witness:
  "\<exists>t :: (record_state, record_state) duplex. client_device t = [example_client_packet]
     \<and> mset (client_device t) \<subseteq># mset (routed t) \<and> mset (server_device t) \<subseteq># mset (up_payloads t)"
proof -
  obtain t where t: "(duplex_step example_ends example_server Map.empty)\<^sup>*\<^sup>* example_duplex t"
    "client_device t = [example_client_packet]"
    using example_duplex_run by blast
  note r = tunnel_delivers_only_what_was_sent [OF example_ends_contract example_duplex_start t(1)]
  show ?thesis by (rule exI [of _ t]) (use r t(2) in simp)
qed

end
