(* ===== verification/Vpn_Backends.thy ===== *)
theory Vpn_Backends
  imports Vpn_Server_Run Vpn_Client_Workers
begin

unbundle bit_operations_syntax

text \<open>
  The platform back ends: the Windows device of \<open>src/src/lib.rs\<close>, the readiness of UDP sockets on
  Windows (\<open>src/src/windows/socket.rs\<close>, \<open>src/src/client/udp_read.rs\<close>), and the back ends
  \<open>src/src/linux/mod.rs\<close>, \<open>src/src/macos/mod.rs\<close>, \<open>src/src/windows/mod.rs\<close> with
  \<open>src/src/server/tun_write.rs\<close>, which no module of the crate includes. The back ends repeat what
  \<open>lib.rs\<close> does in other calls of the operating system; the lemmas say where the two agree.

  The function \<open>crate::validate_tun_ipv4\<close> the back ends call does not exist in the crate: it is a
  parameter. The calls of the operating system, Wintun and \<open>libc::O_NONBLOCK\<close>, whose number differs
  between systems, are parameters as well. A call that fails is the left side of a sum.
\<close>

section \<open>Descriptors to poll\<close>

record poll_fd =
  poll_handle :: int
  poll_events :: "16 word"
  poll_revents :: "16 word"

text \<open>The numbers of \<open>libc\<close> on Linux and macOS, and those of Winsock.\<close>

definition POLLIN :: "16 word" where "POLLIN = 0x01"
definition POLLOUT :: "16 word" where "POLLOUT = 0x04"
definition POLLERR :: "16 word" where "POLLERR = 0x08"
definition POLLHUP :: "16 word" where "POLLHUP = 0x10"
definition POLLNVAL :: "16 word" where "POLLNVAL = 0x20"

definition WSA_POLLIN :: "16 word" where "WSA_POLLIN = 0x0300"

definition flag_set :: "16 word \<Rightarrow> 16 word \<Rightarrow> bool" where
  "flag_set flags wanted \<longleftrightarrow> flags AND wanted \<noteq> 0"

text \<open>The call fills in the events that occurred.\<close>

type_synonym os_poll = "poll_fd list \<Rightarrow> nat \<Rightarrow> poll_fd list io_result"

section \<open>Readiness of a UDP socket on Windows\<close>

definition wsa_poll :: "os_poll \<Rightarrow> poll_fd list \<Rightarrow> duration \<Rightarrow> poll_fd list io_result" where
  "wsa_poll os_poll fds timeout =
     and_then (os_poll fds (poll_timeout_ms timeout)) (\<lambda>fds'.
       if list_ex (\<lambda>fd. flag_set (poll_revents fd) (0x0001 OR 0x0002 OR 0x0004)) fds'
       then Inl (error_new BrokenPipe ''UDP socket reported a poll error'')
       else Inr fds')"

text \<open>
  One entry per turn of the loop: whether the client still runs, the clock before and after the wait,
  and the answer of the system. The descriptor is reused, so it carries its events along.
\<close>

fun wait_for_udp_windows :: "instant \<Rightarrow> poll_fd \<Rightarrow> (bool \<times> instant \<times> os_poll \<times> instant) list \<Rightarrow> bool io_result option" where
  "wait_for_udp_windows deadline fd [] = None"
| "wait_for_udp_windows deadline fd ((running, t1, os_poll, t2) # script) =
     (if \<not> running then Some (Inr False)
      else case wsa_poll os_poll [fd] (min (deadline - t1) (millis 100)) of
          Inl e \<Rightarrow> Some (Inl e)
        | Inr fds \<Rightarrow>
            (let fd' = hd fds in
             if flag_set (poll_revents fd') WSA_POLLIN then Some (Inr True)
             else if deadline \<le> t2 then Some (Inr False)
             else wait_for_udp_windows deadline fd' script))"

section \<open>The Windows device\<close>

text \<open>Wintun: its functions fail with a text.\<close>

record ('a, 's) wintun =
  load_from_path :: "string \<Rightarrow> string + unit"
  adapter_open :: "string \<Rightarrow> string + 'a"
  adapter_create :: "string \<Rightarrow> string \<Rightarrow> string + 'a"
  start_session :: "'a \<Rightarrow> string + 's"

definition map_err :: "string \<Rightarrow> string + 'a \<Rightarrow> 'a io_result" where
  "map_err label r = (case r of Inl m \<Rightarrow> Inl (error_other (label @ m)) | Inr x \<Rightarrow> Inr x)"

definition open_windows :: "('a, 's) wintun \<Rightarrow> string option \<Rightarrow> string \<Rightarrow> (tun_device \<times> 's) io_result" where
  "open_windows T wintun_dll requested_name =
     and_then (map_err ''loading Wintun: '' (load_from_path T (case wintun_dll of None \<Rightarrow> ''wintun.dll'' | Some p \<Rightarrow> p)))
       (\<lambda>_.
     and_then (map_err ''opening Wintun adapter: ''
         (case adapter_open T requested_name of
            Inl _ \<Rightarrow> adapter_create T requested_name ''autobricks-vpn''
          | Inr a \<Rightarrow> Inr a)) (\<lambda>a.
     and_then (map_err ''starting Wintun session: '' (start_session T a)) (\<lambda>s.
       Inr (\<lparr>tun_fd = 0, tun_macos_header = False, tun_name = requested_name\<rparr>, s))))"

definition read_packet_windows :: "string + byte list option \<Rightarrow> nat \<Rightarrow> byte list io_result" where
  "read_packet_windows received buffer_len =
     and_then (map_err '''' received) (\<lambda>p. case p of
         Some packet \<Rightarrow>
           if length packet \<le> buffer_len then Inr packet else Inl (error_other ''TUN packet too large'')
       | None \<Rightarrow> Inl (error_from_kind WouldBlock))"

text \<open>
  The length is passed as 16 bits, and \<open>copy_from_slice\<close> panics if the packet that was allocated has
  another length; the second component is what was sent.
\<close>

definition write_packet_windows :: "(nat \<Rightarrow> string + unit) \<Rightarrow> string \<Rightarrow> byte list \<Rightarrow> nat outcome \<times> byte list list" where
  "write_packet_windows allocate panic_text packet =
     (let n = unat (of_nat (length packet) :: 16 word) in
      case map_err '''' (allocate n) of
        Inl e \<Rightarrow> (Returned (Inl e), [])
      | Inr _ \<Rightarrow>
          if n \<noteq> length packet then (Panicked (Some panic_text), [])
          else (Returned (Inr (length packet)), [packet]))"

section \<open>The back end of Linux\<close>

record io_ready =
  ready_udp :: bool
  ready_udp_writable :: bool
  ready_tun :: bool

record backend_tun =
  backend_fd :: int
  backend_name :: string

text \<open>The validation of the addresses, which the crate does not have: network and prefix.\<close>

type_synonym validate_tun_ipv4 = "string \<Rightarrow> string \<Rightarrow> string \<Rightarrow> (string \<times> nat) io_result"

text \<open>\<open>poll\<close>: whether it was interrupted, and the descriptors afterwards.\<close>

definition linux_poll :: "os_poll \<Rightarrow> poll_fd list \<Rightarrow> duration \<Rightarrow> bool io_result \<times> poll_fd list" where
  "linux_poll os_poll fds timeout =
     (case os_poll fds (poll_timeout_ms timeout) of
        Inl e \<Rightarrow> (if kind e \<noteq> Interrupted then Inl e else Inr True, fds)
      | Inr fds' \<Rightarrow> (Inr False, fds'))"

definition linux_wait_udp :: "os_poll \<Rightarrow> int \<Rightarrow> duration \<Rightarrow> bool io_result" where
  "linux_wait_udp os_poll socket timeout =
     (case linux_poll os_poll [\<lparr>poll_handle = socket, poll_events = POLLIN, poll_revents = 0\<rparr>] timeout of
        (Inl e, _) \<Rightarrow> Inl e
      | (Inr True, _) \<Rightarrow> Inr True
      | (Inr False, fds) \<Rightarrow> Inr (flag_set (poll_revents (hd fds)) POLLIN))"

definition linux_wait_io :: "os_poll \<Rightarrow> int \<Rightarrow> backend_tun \<Rightarrow> duration \<Rightarrow> bool \<Rightarrow> io_ready io_result" where
  "linux_wait_io os_poll socket tun timeout want_udp_write =
     (case linux_poll os_poll
         [\<lparr>poll_handle = socket, poll_events = POLLIN OR (if want_udp_write then POLLOUT else 0), poll_revents = 0\<rparr>,
          \<lparr>poll_handle = backend_fd tun, poll_events = POLLIN, poll_revents = 0\<rparr>] timeout of
        (Inl e, _) \<Rightarrow> Inl e
      | (Inr _, fds) \<Rightarrow>
          if flag_set (poll_revents (fds ! 1)) POLLNVAL
          then Inl (error_new BrokenPipe ''TUN descriptor is invalid'')
          else if flag_set (poll_revents (fds ! 1)) (POLLERR OR POLLHUP)
          then Inl (error_new BrokenPipe ''TUN device reported a permanent poll error'')
          else Inr \<lparr>ready_udp = flag_set (poll_revents (fds ! 0)) POLLIN,
                    ready_udp_writable = flag_set (poll_revents (fds ! 0)) POLLOUT,
                    ready_tun = flag_set (poll_revents (fds ! 1)) POLLIN\<rparr>)"

definition linux_set_nonblocking :: "32 word \<Rightarrow> 32 word io_result \<Rightarrow> (32 word \<Rightarrow> unit io_result) \<Rightarrow> unit io_result" where
  "linux_set_nonblocking o_nonblock getfl setfl = and_then getfl (\<lambda>flags. setfl (flags OR o_nonblock))"

definition linux_open :: "int io_result \<Rightarrow> (int \<Rightarrow> string \<Rightarrow> string io_result) \<Rightarrow> (int \<Rightarrow> unit io_result) \<Rightarrow> string \<Rightarrow>
    backend_tun io_result \<times> int list" where
  "linux_open opened tunsetiff make_nonblocking requested_name =
     (case opened of
        Inl e \<Rightarrow> (Inl e, [])
      | Inr fd \<Rightarrow>
          (case tunsetiff fd (interface_field requested_name) of
             Inl e \<Rightarrow> (Inl e, [fd])
           | Inr field \<Rightarrow>
               (case make_nonblocking fd of
                  Inl e \<Rightarrow> (Inl e, [fd])
                | Inr _ \<Rightarrow> (Inr \<lparr>backend_fd = fd, backend_name = trim_nul field\<rparr>, []))))"

definition linux_configure_mtu :: "'os commands \<Rightarrow> backend_tun \<Rightarrow> nat \<Rightarrow> 'os \<Rightarrow> unit io_result \<times> 'os" where
  "linux_configure_mtu exec tun m os =
     then_run (validate_mtu m, os) (\<lambda>_.
       run_command exec ''ip'' [''link'', ''set'', ''dev'', backend_name tun, ''mtu'', show_nat m])"

definition linux_configure_ipv4 :: "validate_tun_ipv4 \<Rightarrow> 'os commands \<Rightarrow> backend_tun \<Rightarrow> string \<Rightarrow> string \<Rightarrow> string \<Rightarrow>
    'os \<Rightarrow> unit io_result \<times> 'os" where
  "linux_configure_ipv4 validate exec tun a peer network os =
     then_run (validate a peer network, os) (\<lambda>(_, prefix) os.
     then_run (run_command exec ''ip''
       [''addr'', ''replace'', a @ ''/'' @ show_nat prefix, ''dev'', backend_name tun] os) (\<lambda>_ os.
     then_run (run_command exec ''ip'' [''link'', ''set'', ''dev'', backend_name tun, ''up''] os) (\<lambda>_.
     run_command exec ''ip'' [''route'', ''replace'', network, ''dev'', backend_name tun])))"

definition linux_read_packet :: "(nat \<Rightarrow> byte list io_result) \<Rightarrow> nat \<Rightarrow> byte list io_result" where
  "linux_read_packet os_read buffer_len = os_read buffer_len"

definition linux_write_packet :: "(byte list \<Rightarrow> nat io_result) \<Rightarrow> byte list \<Rightarrow> nat io_result" where
  "linux_write_packet os_write packet = os_write packet"

section \<open>The back end of macOS\<close>

definition macos_poll :: "os_poll \<Rightarrow> poll_fd list \<Rightarrow> duration \<Rightarrow> bool io_result \<times> poll_fd list" where
  "macos_poll os_poll fds timeout =
     (case os_poll fds (poll_timeout_ms timeout) of
        Inl e \<Rightarrow> (if kind e \<noteq> Interrupted then Inl e else Inr True, fds)
      | Inr fds' \<Rightarrow> (Inr False, fds'))"

definition macos_wait_udp :: "os_poll \<Rightarrow> int \<Rightarrow> duration \<Rightarrow> bool io_result" where
  "macos_wait_udp os_poll socket timeout =
     (case macos_poll os_poll [\<lparr>poll_handle = socket, poll_events = POLLIN, poll_revents = 0\<rparr>] timeout of
        (Inl e, _) \<Rightarrow> Inl e
      | (Inr True, _) \<Rightarrow> Inr True
      | (Inr False, fds) \<Rightarrow> Inr (flag_set (poll_revents (hd fds)) POLLIN))"

definition macos_wait_io :: "os_poll \<Rightarrow> int \<Rightarrow> backend_tun \<Rightarrow> duration \<Rightarrow> bool \<Rightarrow> io_ready io_result" where
  "macos_wait_io os_poll socket tun timeout want_udp_write =
     (case macos_poll os_poll
         [\<lparr>poll_handle = socket, poll_events = POLLIN OR (if want_udp_write then POLLOUT else 0), poll_revents = 0\<rparr>,
          \<lparr>poll_handle = backend_fd tun, poll_events = POLLIN, poll_revents = 0\<rparr>] timeout of
        (Inl e, _) \<Rightarrow> Inl e
      | (Inr _, fds) \<Rightarrow>
          if flag_set (poll_revents (fds ! 1)) POLLNVAL
          then Inl (error_new BrokenPipe ''TUN descriptor is invalid'')
          else if flag_set (poll_revents (fds ! 1)) (POLLERR OR POLLHUP)
          then Inl (error_new BrokenPipe ''TUN device reported a permanent poll error'')
          else Inr \<lparr>ready_udp = flag_set (poll_revents (fds ! 0)) POLLIN,
                    ready_udp_writable = flag_set (poll_revents (fds ! 0)) POLLOUT,
                    ready_tun = flag_set (poll_revents (fds ! 1)) POLLIN\<rparr>)"

definition macos_set_nonblocking :: "32 word \<Rightarrow> 32 word io_result \<Rightarrow> (32 word \<Rightarrow> unit io_result) \<Rightarrow> unit io_result" where
  "macos_set_nonblocking o_nonblock getfl setfl = and_then getfl (\<lambda>flags. setfl (flags OR o_nonblock))"

definition macos_open :: "int io_result \<Rightarrow> (int \<Rightarrow> nat io_result) \<Rightarrow> (int \<Rightarrow> nat \<Rightarrow> unit io_result) \<Rightarrow>
    (int \<Rightarrow> unit io_result) \<Rightarrow> (int \<Rightarrow> string io_result) \<Rightarrow> backend_tun io_result \<times> int list" where
  "macos_open opened ctl_info connect_ctl make_nonblocking name_option =
     (case opened of
        Inl e \<Rightarrow> (Inl e, [])
      | Inr fd \<Rightarrow>
          (case ctl_info fd of
             Inl e \<Rightarrow> (Inl e, [fd])
           | Inr ctl_id \<Rightarrow>
               (case connect_ctl fd ctl_id of
                  Inl e \<Rightarrow> (Inl e, [fd])
                | Inr _ \<Rightarrow>
                    (case make_nonblocking fd of
                       Inl e \<Rightarrow> (Inl e, [fd])
                     | Inr _ \<Rightarrow>
                         (case name_option fd of
                            Inl e \<Rightarrow> (Inl e, [fd])
                          | Inr field \<Rightarrow> (Inr \<lparr>backend_fd = fd, backend_name = utun_name field\<rparr>, []))))))"

definition macos_configure_mtu :: "'os commands \<Rightarrow> backend_tun \<Rightarrow> nat \<Rightarrow> 'os \<Rightarrow> unit io_result \<times> 'os" where
  "macos_configure_mtu exec tun m os =
     then_run (validate_mtu m, os) (\<lambda>_. run_command exec ''ifconfig'' [backend_name tun, ''mtu'', show_nat m])"

definition macos_configure_ipv4 :: "validate_tun_ipv4 \<Rightarrow> 'os commands \<Rightarrow> backend_tun \<Rightarrow> string \<Rightarrow> string \<Rightarrow> string \<Rightarrow>
    'os \<Rightarrow> unit io_result \<times> 'os" where
  "macos_configure_ipv4 validate exec tun a peer network os =
     then_run (validate a peer network, os) (\<lambda>(network_address, prefix) os.
       let mask = netmask prefix in
       then_run (run_command exec ''ifconfig''
         [backend_name tun, a, peer, ''netmask'', show_ipv4 mask, ''up''] os) (\<lambda>_.
       run_command exec ''route''
         [''-n'', ''add'', ''-net'', network_address, ''-netmask'', show_ipv4 mask, ''-interface'', backend_name tun]))"

text \<open>\<open>readv\<close> fills the buffers of the given sizes one after the other.\<close>

definition macos_read_packet :: "(nat list \<Rightarrow> byte list io_result) \<Rightarrow> nat \<Rightarrow> byte list io_result" where
  "macos_read_packet os_readv buffer_len =
     and_then (os_readv [4, buffer_len]) (\<lambda>bytes.
       if length bytes \<le> 4 \<or> buffer_len < length bytes - 4
       then Inl (error_other ''TUN packet too large'')
       else Inr (drop 4 bytes))"

definition macos_write_packet :: "(byte list list \<Rightarrow> nat io_result) \<Rightarrow> byte list \<Rightarrow> nat io_result" where
  "macos_write_packet os_writev packet =
     (if 2044 < length packet then Inl (error_new InvalidData ''TUN packet exceeds internal buffer'')
      else and_then
        (os_writev [[0, 0, 0, if packet \<noteq> [] \<and> drop_bit 4 (hd packet) = 6 then 30 else 2], packet])
        (\<lambda>n. Inr (n - 4)))"

section \<open>The back end of Windows\<close>

text \<open>A turn of the loop: what \<open>peek\<close> answered and the clock after it. The sleeps are collected.\<close>

fun windows_wait_udp :: "instant \<Rightarrow> (nat io_result \<times> instant) list \<Rightarrow> (bool io_result \<times> duration list) option" where
  "windows_wait_udp deadline [] = None"
| "windows_wait_udp deadline ((peeked, now) # script) =
     (case peeked of
        Inr _ \<Rightarrow> Some (Inr True, [])
      | Inl e \<Rightarrow>
          if kind e = WouldBlock
          then (let remaining = deadline - now in
                if remaining = 0 then Some (Inr False, [])
                else map_option (\<lambda>(r, sleeps). (r, min remaining (millis 10) # sleeps))
                       (windows_wait_udp deadline script))
          else Some (Inl e, []))"

definition windows_wait_io :: "duration \<Rightarrow> bool \<Rightarrow> duration \<times> io_ready io_result" where
  "windows_wait_io timeout want_udp_write =
     (max (millis 1) (min timeout (millis 10)),
      Inr \<lparr>ready_udp = True, ready_udp_writable = want_udp_write, ready_tun = True\<rparr>)"

definition windows_open :: "('a, 's) wintun \<Rightarrow> string option \<Rightarrow> string \<Rightarrow> (string \<times> 's) io_result" where
  "windows_open T wintun_dll requested_name =
     and_then (map_err ''loading Wintun: '' (load_from_path T (case wintun_dll of None \<Rightarrow> ''wintun.dll'' | Some p \<Rightarrow> p)))
       (\<lambda>_.
     and_then (map_err ''opening Wintun adapter: ''
         (case adapter_open T requested_name of
            Inl _ \<Rightarrow> adapter_create T requested_name ''autobricks-vpn''
          | Inr a \<Rightarrow> Inr a)) (\<lambda>a.
     and_then (map_err ''starting Wintun session: '' (start_session T a)) (\<lambda>s. Inr (requested_name, s))))"

definition windows_configure_mtu :: "'os commands \<Rightarrow> string \<Rightarrow> nat \<Rightarrow> 'os \<Rightarrow> unit io_result \<times> 'os" where
  "windows_configure_mtu exec name m os =
     then_run (validate_mtu m, os) (\<lambda>_. run_command exec ''netsh''
       [''interface'', ''ipv4'', ''set'', ''subinterface'', name, ''mtu='' @ show_nat m, ''store=active''])"

definition windows_configure_ipv4 :: "validate_tun_ipv4 \<Rightarrow> 'os commands \<Rightarrow> string \<Rightarrow> string \<Rightarrow> string \<Rightarrow> string \<Rightarrow>
    'os \<Rightarrow> unit io_result \<times> 'os" where
  "windows_configure_ipv4 validate exec name a peer network os =
     then_run (validate a peer network, os) (\<lambda>(network_address, prefix) os.
       let mask = netmask prefix in
       then_run (run_command exec ''netsh''
         [''interface'', ''ip'', ''set'', ''address'', ''name='' @ name, ''static'', a, show_ipv4 mask, peer] os)
         (\<lambda>_. run_command exec ''route'' [''ADD'', network_address, ''MASK'', show_ipv4 mask, peer]))"

definition windows_read_packet :: "string + byte list option \<Rightarrow> nat \<Rightarrow> byte list io_result" where
  "windows_read_packet received buffer_len =
     and_then (map_err '''' received) (\<lambda>p. case p of
         Some packet \<Rightarrow>
           if length packet \<le> buffer_len then Inr packet else Inl (error_other ''TUN packet too large'')
       | None \<Rightarrow> Inl (error_from_kind WouldBlock))"

definition windows_write_packet :: "(nat \<Rightarrow> string + unit) \<Rightarrow> string \<Rightarrow> byte list \<Rightarrow> nat outcome \<times> byte list list" where
  "windows_write_packet allocate panic_text packet =
     (let n = unat (of_nat (length packet) :: 16 word) in
      case map_err '''' (allocate n) of
        Inl e \<Rightarrow> (Returned (Inl e), [])
      | Inr _ \<Rightarrow>
          if n \<noteq> length packet then (Panicked (Some panic_text), [])
          else (Returned (Inr (length packet)), [packet]))"

section \<open>The TUN writer of the server\<close>

text \<open>
  A turn: how the loop goes on, the error that is sent, the queue. A packet that was written in part
  is dropped.
\<close>

definition tun_writer_turn :: "int \<Rightarrow> bool \<Rightarrow> nat io_result \<Rightarrow> byte list queue \<Rightarrow>
    (turn \<times> io_error option \<times> byte list queue) option" where
  "tun_writer_turn enobufs still wrote q =
     (case peek q of
        None \<Rightarrow> None
      | Some (None, _) \<Rightarrow> Some (EndThread, None, q)
      | Some (Some front, rest) \<Rightarrow>
          if \<not> still then Some (EndThread, None, front_drop front rest)
          else case wrote of
              Inr n \<Rightarrow> Some (GoOn, None, rest)
            | Inl e \<Rightarrow>
                (case classify_tun_error enobufs e of
                   tun_error_action.Retry \<Rightarrow> Some (WaitFirst, None, front_drop front rest)
                 | tun_error_action.DropPacket \<Rightarrow> Some (GoOn, None, rest)
                 | tun_error_action.Fatal \<Rightarrow> Some (EndThread, Some e, front_drop front rest)))"

section \<open>Waiting\<close>

lemma macos_waits_like_linux:
  "macos_poll = linux_poll" "macos_wait_udp = linux_wait_udp" "macos_wait_io = linux_wait_io"
  "macos_set_nonblocking = linux_set_nonblocking"
  by (simp_all add: fun_eq_iff macos_poll_def linux_poll_def macos_wait_udp_def linux_wait_udp_def
      macos_wait_io_def linux_wait_io_def macos_set_nonblocking_def linux_set_nonblocking_def cong: if_cong)

text \<open>The wait of the client's reader is the one of the back ends.\<close>

lemma linux_wait_udp_is_wait_for_udp:
  "linux_wait_udp os_poll socket timeout =
     (let r = os_poll [\<lparr>poll_handle = socket, poll_events = POLLIN, poll_revents = 0\<rparr>] (poll_timeout_ms timeout)
      in wait_for_udp (map_sum id (int \<circ> length) r)
           (case r of Inl _ \<Rightarrow> False | Inr fds \<Rightarrow> flag_set (poll_revents (hd fds)) POLLIN))"
  by (simp add: linux_wait_udp_def linux_poll_def wait_for_udp_def Let_def split: sum.splits)

text \<open>The wait of Windows ends at its deadline, and a turn never sleeps beyond it or longer than 10 ms.\<close>

lemma windows_wait_udp_sleeps:
  "windows_wait_udp deadline script = Some (r, sleeps) \<Longrightarrow> \<forall>d \<in> set sleeps. 0 < d \<and> d \<le> millis 10"
proof (induction script arbitrary: r sleeps)
  case (Cons entry script)
  obtain peeked now where "entry = (peeked, now)" by (cases entry)
  then show ?case using Cons by (auto simp: Let_def millis_def split: sum.splits if_splits)
qed simp

lemma windows_wait_udp_ends:
  "(peeked, now) \<in> set script \<Longrightarrow> deadline \<le> now \<Longrightarrow> windows_wait_udp deadline script \<noteq> None"
proof (induction script)
  case (Cons entry script)
  obtain p n where "entry = (p, n)" by (cases entry)
  then show ?case using Cons by (auto simp: Let_def split: sum.splits if_splits)
qed simp

lemma wait_for_udp_windows_ends:
  "(running, t1, os_poll, t2) \<in> set script \<Longrightarrow> \<not> running \<or> deadline \<le> t2 \<Longrightarrow>
   wait_for_udp_windows deadline fd script \<noteq> None"
proof (induction script arbitrary: fd)
  case (Cons entry script)
  obtain rn b pl a where "entry = (rn, b, pl, a)" by (metis prod_cases4)
  then show ?case using Cons by (auto simp: Let_def split: sum.splits if_splits)
qed simp

section \<open>The devices\<close>

text \<open>A frame waits in the device: the rest of a frame that does not fit is lost.\<close>

definition frame_read :: "byte list \<Rightarrow> nat \<Rightarrow> byte list io_result" where
  "frame_read frame room = Inr (take room frame)"

definition frame_readv :: "byte list \<Rightarrow> nat list \<Rightarrow> byte list io_result" where
  "frame_readv frame rooms = Inr (take (sum_list rooms) frame)"

lemma macos_read_packet_equivalent:
  "macos_read_packet (frame_readv frame) room = read_packet True (frame_read frame) room \<longleftrightarrow>
     room = 0 \<or> room = 2044 \<or> length frame \<le> 4 \<or> length frame \<le> min (4 + room) 2048"
proof -
  have inj: "take m xs = take n xs \<longleftrightarrow> min m (length xs) = min n (length xs)" for m n and xs :: "byte list"
    by (metis length_take min.commute take_take take_all_iff nle_le min_def)
  show ?thesis
    by (auto simp: macos_read_packet_def read_packet_def frame_read_def frame_readv_def TUN_BUFFER_def drop_take inj min_def
        split: if_splits)
qed

definition backend_of :: "tun_device \<Rightarrow> backend_tun" where
  "backend_of d = \<lparr>backend_fd = tun_fd d, backend_name = tun_name d\<rparr>"

lemma back_end_open:
  "linux_open opened tunsetiff (\<lambda>_. Inr ()) name = map_prod (map_sum id backend_of) id (open_linux opened tunsetiff name)"
  "macos_open opened ctl_info connect_ctl (\<lambda>_. Inr ()) name_option
     = map_prod (map_sum id backend_of) id (open_utun opened ctl_info connect_ctl name_option)"
  "windows_open T dll name = map_sum id (\<lambda>(d, s). (tun_name d, s)) (open_windows T dll name)"
  by (simp_all add: linux_open_def open_linux_def macos_open_def open_utun_def windows_open_def open_windows_def
      backend_of_def and_then_def split: sum.splits)

text \<open>Unlike \<open>lib.rs\<close>, the back ends leave no descriptor behind that is not in non-blocking mode.\<close>

lemma back_end_open_closes:
  "linux_open (Inr fd) tunsetiff make_nonblocking name = (r, shut) \<Longrightarrow>
   shut = (case r of Inl _ \<Rightarrow> [fd] | Inr d \<Rightarrow> []) \<and> (\<forall>d. r = Inr d \<longrightarrow> backend_fd d = fd \<and> make_nonblocking fd = Inr ())"
  "macos_open (Inr fd) ctl_info connect_ctl make_nonblocking name_option = (r, shut) \<Longrightarrow>
   shut = (case r of Inl _ \<Rightarrow> [fd] | Inr d \<Rightarrow> []) \<and> (\<forall>d. r = Inr d \<longrightarrow> backend_fd d = fd \<and> make_nonblocking fd = Inr ())"
  by (auto simp: linux_open_def macos_open_def split: sum.splits)

lemma back_end_configure:
  "linux_configure_mtu exec tun m os = configure_mtu Linux exec (backend_name tun) m os"
  "macos_configure_mtu exec tun m os = configure_mtu MacOS exec (backend_name tun) m os"
  "windows_configure_mtu exec name m os = configure_mtu Windows exec name m os"
  "linux_configure_ipv4 check_ipv4_configuration exec tun a p n os = configure_ipv4 Linux exec (backend_name tun) a p n os"
  "macos_configure_ipv4 check_ipv4_configuration exec tun a p n os = configure_ipv4 MacOS exec (backend_name tun) a p n os"
  by (simp_all add: linux_configure_mtu_def macos_configure_mtu_def windows_configure_mtu_def configure_mtu_def
      linux_configure_ipv4_def macos_configure_ipv4_def configure_ipv4_def Let_def)

text \<open>
  The back end of Windows sets the peer as the gateway and adds a route, which \<open>lib.rs\<close> avoids: after
  a successful first command it runs a second one.
\<close>

lemma windows_back_end_adds_route:
  assumes "check_ipv4_configuration a p n = Inr (base, bits)"
    and "\<And>program arguments os. exec program arguments os = (Inr \<lparr>exit_success = True, exit_status = s, command_stdout = []\<rparr>, os @ [program # arguments])"
  shows "length (snd (windows_configure_ipv4 check_ipv4_configuration exec name a p n [])) = 2
    \<and> length (snd (configure_ipv4 Windows exec name a p n [])) = 1"
  using assms by (simp add: windows_configure_ipv4_def configure_ipv4_def run_command_def Let_def)

lemma macos_write_packet_equivalent:
  "macos_write_packet os_writev packet = write_packet True (\<lambda>bytes. os_writev [take 4 bytes, drop 4 bytes]) packet"
  by (simp add: macos_write_packet_def write_packet_def family_header_def TUN_BUFFER_def)

text \<open>A packet of a device is smaller than 64 KiB, so the cast of its length loses nothing.\<close>

lemma windows_device_writes_whole_packets:
  assumes "length packet < 2 ^ 16" "allocate (length packet) = Inr ()"
  shows "write_packet_windows allocate text packet = (Returned (Inr (length packet)), [packet])"
proof -
  have "unat (of_nat (length packet) :: 16 word) = length packet"
    using assms(1) by (simp add: unat_of_nat take_bit_nat_eq_self)
  then show ?thesis using assms(2) by (simp add: write_packet_windows_def Let_def map_err_def)
qed

section \<open>The TUN writer\<close>

lemma tun_writer_keeps_or_drops_front:
  assumes "queue_inv q" "tun_writer_turn enobufs still wrote q = Some (t, e, q')"
  shows "queue_inv q' \<and> (items q' = items q \<or> t = GoOn \<and> items q' = tl (items q))"
proof (cases "items q")
  case Nil
  then show ?thesis using assms by (auto simp: tun_writer_turn_def peek_def split: if_splits)
next
  case (Cons x xs)
  show ?thesis
  proof (cases "closed q")
    case True
    then show ?thesis using assms by (auto simp: tun_writer_turn_def peek_def)
  next
    case False
    then have p: "peek q = Some (Some x, q\<lparr>items := xs\<rparr>)" using Cons by (simp add: peek_def)
    have inv: "queue_inv (q\<lparr>items := xs\<rparr>)" using assms(1) Cons by (auto simp: queue_inv_def)
    have "q' = q\<lparr>items := xs\<rparr> \<and> t = GoOn \<or> q' = front_drop x (q\<lparr>items := xs\<rparr>)"
      using assms(2) p by (auto simp: tun_writer_turn_def split: if_splits sum.splits tun_error_action.splits)
    then show ?thesis
      using inv front_drop_inv [OF inv] restore_peeked [OF assms(1) Cons] Cons by auto
  qed
qed

text \<open>This writer survives a full device buffer; the decrypting worker, which took its place, does not.\<close>

lemma tun_writer_survives_enobufs:
  assumes "kind e = OtherKind" "raw_os_error e = Some enobufs" "items q = packet # rest" "\<not> closed q"
  shows "tun_writer_turn enobufs True (Inl e) q = Some (GoOn, None, q\<lparr>items := rest\<rparr>)"
  using assms by (simp add: tun_writer_turn_def peek_def classify_tun_error_def)

section \<open>Agreement with the code in use\<close>

text \<open>
  Where the unused back ends of Linux and macOS agree with \<open>lib.rs\<close>. If the missing validation function were the check of
  \<open>lib.rs\<close>, they would run the same commands to configure MTU and addresses; their waits for the socket are
  one function; a frame written by \<open>writev\<close> on macOS is the one that \<open>write\<close> gets from the internal
  buffer; and \<open>readv\<close> gives the same packet or error as the buffered read exactly when there is no
  room, there are 2044 bytes of room, or the frame is empty or fits both the internal buffer of 2048
  bytes and the caller's (a longer frame is an error in \<open>lib.rs\<close> and cut off by the back end).
\<close>

lemma unused_back_ends_agree:
  "linux_configure_mtu exec tun m os = configure_mtu Linux exec (backend_name tun) m os
   \<and> linux_configure_ipv4 check_ipv4_configuration exec tun a p n os = configure_ipv4 Linux exec (backend_name tun) a p n os
   \<and> macos_configure_mtu exec tun m os = configure_mtu MacOS exec (backend_name tun) m os
   \<and> macos_configure_ipv4 check_ipv4_configuration exec tun a p n os = configure_ipv4 MacOS exec (backend_name tun) a p n os
   \<and> macos_wait_udp os_poll socket timeout = linux_wait_udp os_poll socket timeout
   \<and> macos_write_packet os_writev packet = write_packet True (\<lambda>bytes. os_writev [take 4 bytes, drop 4 bytes]) packet
   \<and> (macos_read_packet (frame_readv frame) room = read_packet True (frame_read frame) room
      \<longleftrightarrow> room = 0 \<or> room = 2044 \<or> length frame \<le> 4 \<or> length frame \<le> min (4 + room) 2048)"
  by (intro conjI back_end_configure macos_write_packet_equivalent macos_read_packet_equivalent)
    (simp add: macos_waits_like_linux)

end
