(* ===== verification/Vpn_Server_Start.thy ===== *)
theory Vpn_Server_Start
  imports Vpn_Server_Life Vpn_Control_Socket Vpn_Backends
begin

text \<open>
  The start of the server's threads (\<open>run\<close> of \<open>src/src/server.rs\<close> up to its receiving loop), the signals that
  end it, the wake-up socket of the control worker and what it waits for (\<open>server/control.rs\<close>), and the
  two socket calls of \<open>server/socket.rs\<close>. Cloning a socket and starting a thread may fail; the answers
  are arguments. The start is connected to \<open>Vpn_Server_Life\<close>, whose first state it produces.
\<close>

section \<open>Signals\<close>

text \<open>Both signals have the handler that clears the flag; the others keep what they had.\<close>

datatype disposition = DefaultAction | StopHandler

definition SIGINT :: nat where "SIGINT = 2"

definition SIGTERM :: nat where "SIGTERM = 15"

definition install_signal_handlers :: "(nat \<Rightarrow> disposition) \<Rightarrow> nat \<Rightarrow> disposition" where
  "install_signal_handlers d = d(SIGINT := StopHandler, SIGTERM := StopHandler)"

definition stop_signal :: "life \<Rightarrow> life" where
  "stop_signal s = s\<lparr>life_running := False\<rparr>"

text \<open>\<open>None\<close> when the default action ends the process.\<close>

definition deliver_signal :: "(nat \<Rightarrow> disposition) \<Rightarrow> nat \<Rightarrow> life \<Rightarrow> life option" where
  "deliver_signal d signal s = (case d signal of DefaultAction \<Rightarrow> None | StopHandler \<Rightarrow> Some (stop_signal s))"

section \<open>Starting the threads\<close>

definition server_start_order :: "server_thread list" where
  "server_start_order = [TunReadThread, EncryptThread, UdpWriteThread, ControlThread, DecryptThread]"

definition server_start_thread :: "unit io_result \<Rightarrow> (server_thread \<Rightarrow> unit io_result) \<Rightarrow> server_thread \<Rightarrow> unit io_result" where
  "server_start_thread cloned spawned th =
     (if th = UdpWriteThread then and_then cloned (\<lambda>_. spawned th) else spawned th)"

text \<open>
  The start gives the state in which the main thread receives, or the error with the threads that
  go on, detached. The control socket belongs to the control worker once that is started; before,
  an early return drops it.
\<close>

definition start_workers :: "unit io_result \<Rightarrow> (server_thread \<Rightarrow> unit io_result) \<Rightarrow>
    life io_result \<times> server_thread list \<times> file_action list" where
  "start_workers cloned spawned =
     (case start_threads (server_start_thread cloned spawned) server_start_order of
        (None, started) \<Rightarrow> (Inr life_start, started, [])
      | (Some e, started) \<Rightarrow> (Inl e, started, if ControlThread \<in> set started then [] else [RemoveFile]))"

text \<open>The end of the control socket removes its file; that the removal may fail is ignored.\<close>

definition control_socket_drop :: "file_action list" where
  "control_socket_drop = [RemoveFile]"

section \<open>The wake-up socket\<close>

text \<open>
  A datagram socket with room for a number of datagrams: a full one drops the next, which is no loss
  since one datagram wakes as well as many. The control worker empties it after waking.
\<close>

definition wake_notify :: "nat \<Rightarrow> nat \<Rightarrow> nat" where
  "wake_notify room n = (if n < room then n + 1 else n)"

fun wake_drain :: "nat \<Rightarrow> nat" where
  "wake_drain 0 = 0"
| "wake_drain (Suc n) = wake_drain n"

section \<open>What the control worker waits for\<close>

datatype polled = Listener | WakeReader | PendingStream nat | WatcherStream nat

definition control_descriptors :: "control_socket \<Rightarrow> (polled \<times> 16 word) list" where
  "control_descriptors s =
     [(Listener, POLLIN), (WakeReader, POLLIN)]
     @ map (\<lambda>(i, p). (PendingStream i, POLLIN)) (sock_pending s)
     @ map (\<lambda>(i, w). (WatcherStream i, if out_pending w = [] then 0 else POLLOUT)) (sock_watchers s)"

definition stream_failed :: "16 word \<Rightarrow> bool" where
  "stream_failed revents \<longleftrightarrow> revents AND (POLLERR OR POLLHUP OR POLLNVAL) \<noteq> 0"

text \<open>The watchers are kept by a running index into the list of events.\<close>

fun retain_watchers :: "16 word list \<Rightarrow> nat \<Rightarrow> (nat \<times> watcher) list \<Rightarrow> (nat \<times> watcher) list" where
  "retain_watchers revents k [] = []"
| "retain_watchers revents k (w # ws) =
     (if stream_failed (revents ! k) then retain_watchers revents (k + 1) ws
      else w # retain_watchers revents (k + 1) ws)"

definition control_wait :: "((polled \<times> 16 word) list \<Rightarrow> duration \<Rightarrow> 16 word list io_result) \<Rightarrow> instant \<Rightarrow> instant \<Rightarrow> nat \<Rightarrow>
    control_socket \<Rightarrow> unit io_result \<times> nat \<times> control_socket" where
  "control_wait os_poll wake_at now wakes s =
     (case os_poll (control_descriptors s) (wake_at - now) of
        Inl e \<Rightarrow> (Inl e, wakes, s)
      | Inr revents \<Rightarrow>
          (Inr (), if revents ! 1 AND POLLIN \<noteq> 0 then wake_drain wakes else wakes,
           s\<lparr>sock_watchers := retain_watchers revents (2 + length (sock_pending s)) (sock_watchers s)\<rparr>))"

section \<open>Socket calls\<close>

definition RECEIVE_BUFFER :: nat where "RECEIVE_BUFFER = 2048"

text \<open>\<open>recvfrom\<close> answers with the sender and the bytes it stored, at most as many as there is room for.\<close>

definition receive_peer :: "(nat \<Rightarrow> (sockaddr \<times> byte list) io_result) \<Rightarrow> (sockaddr \<times> byte list) io_result" where
  "receive_peer recvfrom =
     (case recvfrom RECEIVE_BUFFER of Inl e \<Rightarrow> Inl e | Inr (peer, bytes) \<Rightarrow> Inr (peer, take RECEIVE_BUFFER bytes))"

text \<open>\<open>sendto\<close> answers with the number of bytes, or a negative number and the last error.\<close>

definition send_encrypted_datagram :: "(sockaddr \<Rightarrow> byte list \<Rightarrow> int) \<Rightarrow> io_error \<Rightarrow> sockaddr \<Rightarrow> byte list \<Rightarrow> nat io_result" where
  "send_encrypted_datagram sendto last_error peer packet =
     (let written = sendto peer packet in if written < 0 then Inl last_error else Inr (nat written))"

section \<open>Lemmas\<close>

text \<open>
  A signal is one of the effects that \<open>Vpn_Server_Life\<close> allows at any time; the receiving loop returns
  at its next turn, and no worker begins another one. From there \<open>server_shutdown_completes\<close> applies.
\<close>

lemma signals_delivered:
  "deliver_signal (install_signal_handlers d) SIGINT s = Some (stop_signal s)"
  "deliver_signal (install_signal_handlers d) SIGTERM s = Some (stop_signal s)"
  "n \<noteq> SIGINT \<Longrightarrow> n \<noteq> SIGTERM \<Longrightarrow> install_signal_handlers d n = d n"
  by (simp_all add: deliver_signal_def install_signal_handlers_def)

lemma stop_signal_effects: "effects s (stop_signal s)"
  by (simp add: effects_def stop_signal_def)

lemma signal_while_receiving:
  assumes "life_run\<^sup>*\<^sup>* life_start s" "main_at s = Receiving"
  shows "life_run\<^sup>*\<^sup>* life_start (stop_signal s) \<and> \<not> go_on (stop_signal s)
    \<and> udp_read_run ((life_running (stop_signal s), os_poll, received) # turns) r = Some (Inr (), r)"
proof -
  have "life_run s (stop_signal s)"
    using life_step.receives [OF assms(2) stop_signal_effects] by (simp add: life_run_def)
  then show ?thesis using assms(1) by (auto simp: go_on_def stop_signal_def)
qed

lemma stopped_stays_stopped: "life_run s t \<Longrightarrow> \<not> life_running s \<Longrightarrow> \<not> life_running t"
  by (auto simp: life_run_def timer_step_def poll_ends_def wake_up_def thread_end_def set_pc_def effects_def split: if_splits elim!: life_step.cases)

text \<open>The start succeeds exactly if every thread starts, and then \<open>Vpn_Server_Life\<close> applies.\<close>

lemma start_workers_result:
  "start_workers cloned spawned =
     (case find (\<lambda>th. \<not> is_ok (server_start_thread cloned spawned th)) server_start_order of
        None \<Rightarrow> (Inr life_start, server_start_order, [])
      | Some th \<Rightarrow>
          (let started = takeWhile (\<lambda>u. is_ok (server_start_thread cloned spawned u)) server_start_order
           in (Inl (projl (server_start_thread cloned spawned th)), started,
               if ControlThread \<in> set started then [] else [RemoveFile])))"
  by (simp add: start_workers_def start_threads_result split: option.splits)

lemma all_server_threads:
  "(\<forall>th. P th) \<longleftrightarrow> P TunReadThread \<and> P EncryptThread \<and> P UdpWriteThread \<and> P ControlThread \<and> P DecryptThread"
  by (metis server_thread.exhaust)

lemma start_workers_succeeds:
  "fst (start_workers cloned spawned) = Inr t \<longleftrightarrow> t = life_start \<and> is_ok cloned \<and> (\<forall>th. is_ok (spawned th))"
proof -
  have "find (\<lambda>th. \<not> is_ok (server_start_thread cloned spawned th)) server_start_order = None
      \<longleftrightarrow> is_ok cloned \<and> (\<forall>th. is_ok (spawned th))"
    unfolding all_server_threads by (auto simp: server_start_order_def server_start_thread_def is_ok_iff and_then_eq_Inr)
  then show ?thesis
    by (cases "find (\<lambda>th. \<not> is_ok (server_start_thread cloned spawned th)) server_start_order")
      (auto simp: start_workers_result Let_def)
qed

text \<open>
  The file of the control socket survives a failed start only when the last thread, which decrypts,
  cannot be started: the control worker then has the socket.
\<close>

lemma control_file_after_failure:
  assumes "start_workers cloned spawned = (Inl e, started, [])"
  shows "started = [TunReadThread, EncryptThread, UdpWriteThread, ControlThread] \<and> spawned DecryptThread = Inl e"
  using assms by (auto simp: start_workers_def server_start_order_def server_start_thread_def split: sum.splits if_splits)

lemma wake_drain_0 [simp]: "wake_drain n = 0"
  by (induction n) simp_all

text \<open>The socket is an implementation of the flag \<open>wake_pending\<close>.\<close>

lemma wake_notify_pending: "0 < room \<Longrightarrow> 0 < wake_notify room n"
  by (simp add: wake_notify_def)

lemma wake_notify_bounded: "n \<le> room \<Longrightarrow> wake_notify room n \<le> room"
  by (simp add: wake_notify_def)

text \<open>The running index finds the events of each watcher.\<close>

lemma retain_watchers_indexed:
  assumes "revents = before_them @ map f ws" "k = length before_them"
  shows "retain_watchers revents k ws = filter (\<lambda>w. \<not> stream_failed (f w)) ws"
  using assms
proof (induction ws arbitrary: before_them k)
  case (Cons w ws)
  have "retain_watchers revents (k + 1) ws = filter (\<lambda>w. \<not> stream_failed (f w)) ws"
    by (rule Cons.IH [of "before_them @ [f w]"]) (simp_all add: Cons.prems)
  moreover have "revents ! k = f w" by (simp add: Cons.prems nth_append)
  ultimately show ?case by simp
qed simp

lemma control_wait_drops_failed:
  assumes "os_poll (control_descriptors s) (wake_at - now) = Inr (map (events \<circ> fst) (control_descriptors s))"
  shows "control_wait os_poll wake_at now wakes s =
    (Inr (), if events WakeReader AND POLLIN \<noteq> 0 then 0 else wakes,
     drop_failed_watchers (\<lambda>i. stream_failed (events (WatcherStream i))) s)"
proof -
  let ?front = "map (events \<circ> fst) ([(Listener, POLLIN), (WakeReader, POLLIN)] @ map (\<lambda>(i, p). (PendingStream i, POLLIN)) (sock_pending s))"
  have "map (events \<circ> fst) (control_descriptors s) = ?front @ map (\<lambda>(i, w). events (WatcherStream i)) (sock_watchers s)"
    by (simp add: control_descriptors_def comp_def case_prod_beta)
  from retain_watchers_indexed [OF this refl] show ?thesis
    using assms
    by (simp add: control_wait_def drop_failed_watchers_def control_descriptors_def case_prod_unfold comp_def)
qed

lemma receive_peer_bounded:
  "receive_peer recvfrom = Inr (peer, bytes) \<Longrightarrow> length bytes \<le> RECEIVE_BUFFER"
  "recvfrom RECEIVE_BUFFER = Inr (peer, packet) \<Longrightarrow> length packet \<le> RECEIVE_BUFFER \<Longrightarrow>
   receive_peer recvfrom = Inr (peer, packet)"
  by (auto simp: receive_peer_def split: sum.splits)

end
