(* ===== verification/Vpn_Dtls_Memory.thy ===== *)
theory Vpn_Dtls_Memory
  imports Vpn_Dtls
begin

text \<open>
  Ownership of wolfSSL's objects by \<open>Dtls\<close> (\<open>src/src/lib.rs\<close>), whose raw pointers the compiler does
  not check: the context, the connection, the boxed callback context that the connection points to,
  and certificates taken for a check. Every method is the list of native calls that it makes with its
  pointers; a ledger of the live objects judges the calls. Which address an allocation returns, and
  whether it succeeds, are arguments. A null pointer refers to no object: wolfSSL answers a call on it
  with an error, so it is not in the lists.
\<close>

type_synonym address = nat

section \<open>The ledger\<close>

text \<open>A connection knows the callback context it was given.\<close>

datatype native_object = ContextObject | ConnectionObject "address option" | BoxObject | CertificateObject

type_synonym ledger = "address \<rightharpoonup> native_object"

text \<open>\<open>RunConnection\<close> is a call that may run the callbacks, which read and write the callback context.\<close>

datatype native_call =
    NewContext address | UseContext address | FreeContext address
  | NewConnection address address | UseConnection address | RunConnection address
  | SetCallbacks address address | FreeConnection address
  | NewBox address | FreeBox address
  | GetCertificate address address | AskCertificate address | FreeCertificate address

datatype verdict = Misused | NotFresh | Fine ledger

definition allocate :: "address \<Rightarrow> native_object \<Rightarrow> ledger \<Rightarrow> verdict" where
  "allocate a x h = (if h a = None then Fine (h(a \<mapsto> x)) else NotFresh)"

fun is_connection :: "native_object option \<Rightarrow> bool" where
  "is_connection (Some (ConnectionObject _)) = True"
| "is_connection _ = False"

text \<open>What the callbacks of a connection refer to: nothing, or a live box.\<close>

fun callbacks_live :: "ledger \<Rightarrow> native_object option \<Rightarrow> bool" where
  "callbacks_live h (Some (ConnectionObject None)) = True"
| "callbacks_live h (Some (ConnectionObject (Some b))) = (h b = Some BoxObject)"
| "callbacks_live h _ = False"

fun native_step :: "native_call \<Rightarrow> ledger \<Rightarrow> verdict" where
  "native_step (NewContext a) h = allocate a ContextObject h"
| "native_step (UseContext a) h = (if h a = Some ContextObject then Fine h else Misused)"
| "native_step (FreeContext a) h = (if h a = Some ContextObject then Fine (h(a := None)) else Misused)"
| "native_step (NewConnection c s) h = (if h c = Some ContextObject then allocate s (ConnectionObject None) h else Misused)"
| "native_step (UseConnection s) h = (if is_connection (h s) then Fine h else Misused)"
| "native_step (RunConnection s) h = (if callbacks_live h (h s) then Fine h else Misused)"
| "native_step (SetCallbacks s b) h =
     (if is_connection (h s) \<and> h b = Some BoxObject then Fine (h(s \<mapsto> ConnectionObject (Some b))) else Misused)"
| "native_step (FreeConnection s) h = (if is_connection (h s) then Fine (h(s := None)) else Misused)"
| "native_step (NewBox b) h = allocate b BoxObject h"
| "native_step (FreeBox b) h = (if h b = Some BoxObject then Fine (h(b := None)) else Misused)"
| "native_step (GetCertificate s x) h = (if is_connection (h s) then allocate x CertificateObject h else Misused)"
| "native_step (AskCertificate x) h = (if h x = Some CertificateObject then Fine h else Misused)"
| "native_step (FreeCertificate x) h = (if h x = Some CertificateObject then Fine (h(x := None)) else Misused)"

fun native_run :: "native_call list \<Rightarrow> ledger \<Rightarrow> verdict" where
  "native_run [] h = Fine h"
| "native_run (c # cs) h = (case native_step c h of Fine h' \<Rightarrow> native_run cs h' | v \<Rightarrow> v)"

section \<open>The pointers of a connection\<close>

record dtls_pointers =
  ctx_ptr :: address
  ssl_ptr :: "address option"
  io_ptr :: "address option"

text \<open>\<open>Dtls::new\<close>: the calls of \<open>build_context\<close> on the context at address \<open>a\<close>.\<close>

fun native_of :: "(ctx_call \<Rightarrow> bool) \<Rightarrow> address \<Rightarrow> ctx_call \<Rightarrow> native_call list" where
  "native_of ok a Init = []"
| "native_of ok a (CtxNew b) = (if ok (CtxNew b) then [NewContext a] else [])"
| "native_of ok a CtxFree = [FreeContext a]"
| "native_of ok a _ = [UseContext a]"

definition create_calls :: "(string \<Rightarrow> file_metadata io_result) \<Rightarrow> (ctx_call \<Rightarrow> bool) \<Rightarrow> tls_config \<Rightarrow> address \<Rightarrow>
    native_call list \<times> dtls_pointers option" where
  "create_calls metadata ok cfg a =
     (case dtls_new metadata ok cfg of
        (r, calls) \<Rightarrow>
          (concat (map (native_of ok a) calls),
           if is_ok r then Some \<lparr>ctx_ptr = a, ssl_ptr = None, io_ptr = None\<rparr> else None))"

definition free_connection :: "address option \<Rightarrow> native_call list" where
  "free_connection s = (case s of None \<Rightarrow> [] | Some a \<Rightarrow> [FreeConnection a])"

definition free_box :: "address option \<Rightarrow> native_call list" where
  "free_box b = (case b of None \<Rightarrow> [] | Some a \<Rightarrow> [FreeBox a])"

text \<open>\<open>set_socket\<close>, with what \<open>wolfSSL_new\<close> returns and whether the socket is accepted.\<close>

definition set_socket_calls :: "address option \<Rightarrow> bool \<Rightarrow> dtls_pointers \<Rightarrow> native_call list \<times> dtls_pointers" where
  "set_socket_calls created taken p =
     (case created of
        None \<Rightarrow> ([UseContext (ctx_ptr p)], p)
      | Some s \<Rightarrow>
          if \<not> taken then ([NewConnection (ctx_ptr p) s, UseConnection s, FreeConnection s], p)
          else ([NewConnection (ctx_ptr p) s, UseConnection s] @ free_connection (ssl_ptr p) @ free_box (io_ptr p),
                p\<lparr>ssl_ptr := Some s, io_ptr := None\<rparr>))"

text \<open>\<open>set_io\<close>: the new box is made known to the connection before the old one is dropped.\<close>

definition set_io_calls :: "address \<Rightarrow> dtls_pointers \<Rightarrow> native_call list \<times> dtls_pointers" where
  "set_io_calls b p =
     (case ssl_ptr p of
        None \<Rightarrow> ([], p)
      | Some s \<Rightarrow> ([NewBox b, SetCallbacks s b] @ free_box (io_ptr p), p\<lparr>io_ptr := Some b\<rparr>))"

text \<open>
  The methods that configure or ask the connection (\<open>set_nonblocking\<close>, \<open>set_peer\<close>, \<open>set_cookie_secret\<close>,
  \<open>current_timeout\<close>, \<open>disable_callback_receive\<close>, \<open>fd\<close>), and those that run it (\<open>handshake\<close>, \<open>accept\<close>,
  \<open>accept_stateless\<close>, \<open>read\<close>, \<open>write\<close>, their status variants, \<open>handle_timeout\<close>, \<open>inject\<close>) and ask for the
  error of a failure.
\<close>

definition configure_calls :: "dtls_pointers \<Rightarrow> native_call list" where
  "configure_calls p = (case ssl_ptr p of None \<Rightarrow> [] | Some s \<Rightarrow> [UseConnection s])"

definition run_calls :: "bool \<Rightarrow> dtls_pointers \<Rightarrow> native_call list" where
  "run_calls succeeded p =
     (case ssl_ptr p of
        None \<Rightarrow> []
      | Some s \<Rightarrow> RunConnection s # (if succeeded then [] else [UseConnection s]))"

text \<open>
  \<open>fingerprint\<close>, \<open>peer_certificate_has_san_ip\<close>, \<open>peer_certificate_allows_source_ip\<close>: the certificate, if
  there is one, is asked \<open>n\<close> times and freed on every way out.
\<close>

definition certificate_calls :: "address option \<Rightarrow> nat \<Rightarrow> dtls_pointers \<Rightarrow> native_call list" where
  "certificate_calls certificate n p =
     (case ssl_ptr p of
        None \<Rightarrow> []
      | Some s \<Rightarrow>
          (case certificate of
             None \<Rightarrow> [UseConnection s]
           | Some x \<Rightarrow> GetCertificate s x # replicate n (AskCertificate x) @ [FreeCertificate x]))"

text \<open>\<open>Drop\<close>: connection and context, then the fields, of which only the box owns memory.\<close>

definition drop_calls :: "dtls_pointers \<Rightarrow> native_call list" where
  "drop_calls p = free_connection (ssl_ptr p) @ [FreeContext (ctx_ptr p)] @ free_box (io_ptr p)"

section \<open>Lives\<close>

datatype dtls_event =
    Create "string \<Rightarrow> file_metadata io_result" "ctx_call \<Rightarrow> bool" tls_config address
  | SetSocket "address option" bool
  | SetIo address
  | Configure
  | RunIo bool
  | ReadCertificate "address option" nat
  | DropDtls

text \<open>Safe Rust calls methods on existing values only.\<close>

fun event_calls :: "dtls_event \<Rightarrow> dtls_pointers option \<Rightarrow> native_call list \<times> dtls_pointers option" where
  "event_calls (Create metadata ok cfg a) None = create_calls metadata ok cfg a"
| "event_calls (SetSocket created taken) (Some p) = (case set_socket_calls created taken p of (cs, p') \<Rightarrow> (cs, Some p'))"
| "event_calls (SetIo b) (Some p) = (case set_io_calls b p of (cs, p') \<Rightarrow> (cs, Some p'))"
| "event_calls Configure (Some p) = (configure_calls p, Some p)"
| "event_calls (RunIo succeeded) (Some p) = (run_calls succeeded p, Some p)"
| "event_calls (ReadCertificate x n) (Some p) = (certificate_calls x n p, Some p)"
| "event_calls DropDtls (Some p) = (drop_calls p, None)"
| "event_calls _ v = ([], v)"

text \<open>Many values, by name; their methods interleave in any order.\<close>

fun dtls_lives :: "(nat \<times> dtls_event) list \<Rightarrow> (nat \<Rightarrow> dtls_pointers option) \<Rightarrow>
    native_call list \<times> (nat \<Rightarrow> dtls_pointers option)" where
  "dtls_lives [] vs = ([], vs)"
| "dtls_lives ((i, e) # es) vs =
     (case event_calls e (vs i) of
        (cs, v) \<Rightarrow> (case dtls_lives es (vs(i := v)) of (cs', vs') \<Rightarrow> (cs @ cs', vs')))"

section \<open>Ownership\<close>

text \<open>What a value owns, and that the ledger says so.\<close>

definition footprint :: "dtls_pointers option \<Rightarrow> address set" where
  "footprint v =
     (case v of None \<Rightarrow> {} | Some p \<Rightarrow> insert (ctx_ptr p) (set_option (ssl_ptr p) \<union> set_option (io_ptr p)))"

definition owns :: "dtls_pointers option \<Rightarrow> ledger \<Rightarrow> bool" where
  "owns v h \<longleftrightarrow>
     (case v of None \<Rightarrow> True | Some p \<Rightarrow>
        h (ctx_ptr p) = Some ContextObject
        \<and> (case ssl_ptr p of None \<Rightarrow> io_ptr p = None | Some s \<Rightarrow> h s = Some (ConnectionObject (io_ptr p)))
        \<and> (case io_ptr p of None \<Rightarrow> True | Some b \<Rightarrow> h b = Some BoxObject))"

text \<open>A method is local: outside what the value owned before and owns now, nothing changes.\<close>

definition transfers :: "dtls_pointers option \<Rightarrow> ledger \<Rightarrow> dtls_pointers option \<Rightarrow> ledger \<Rightarrow> bool" where
  "transfers v h v' h' \<longleftrightarrow> owns v' h' \<and> h' |` (- footprint v') = h |` (- footprint v)"

lemmas ownership_defs = owns_def footprint_def transfers_def allocate_def

lemma native_run_append:
  "native_run (cs @ ds) h = (case native_run cs h of Fine h' \<Rightarrow> native_run ds h' | v \<Rightarrow> v)"
  by (induction cs arbitrary: h) (auto split: verdict.splits)

lemma owns_in_ledger: "owns v h \<Longrightarrow> footprint v \<subseteq> dom h"
  by (auto simp: owns_def footprint_def split: option.splits)


lemma transfers_same [simp]: "transfers v h v h \<longleftrightarrow> owns v h"
  by (simp add: transfers_def)

text \<open>A list of calls that takes a value from \<open>v\<close> to \<open>v'\<close> locally, or fails to get fresh memory.\<close>

definition local_calls :: "native_call list \<Rightarrow> dtls_pointers option \<Rightarrow> dtls_pointers option \<Rightarrow> ledger \<Rightarrow> bool" where
  "local_calls cs v v' h \<longleftrightarrow>
     (case native_run cs h of Misused \<Rightarrow> False | NotFresh \<Rightarrow> True | Fine h' \<Rightarrow> transfers v h v' h')"

lemma local_calls_nil: "owns v h \<Longrightarrow> local_calls [] v v h"
  by (simp add: local_calls_def)

lemma run_uses: "h a = Some ContextObject \<Longrightarrow> set cs \<subseteq> {UseContext a} \<Longrightarrow> native_run cs h = Fine h"
  by (induction cs) auto

lemma run_certificate_uses:
  "h x = Some CertificateObject \<Longrightarrow> native_run (replicate n (AskCertificate x)) h = Fine h"
  by (induction n) auto

text \<open>The shape of the calls that build a context.\<close>

lemma context_steps_append:
  "snd (load_identity ok cfg calls) = calls @ snd (load_identity ok cfg [])"
  "snd (load_ca ok cfg calls) = calls @ snd (load_ca ok cfg [])"
  "snd (load_crl ok cfg calls) = calls @ snd (load_crl ok cfg [])"
  "snd (snd (set_ocsp_url ok cfg calls)) = calls @ snd (snd (set_ocsp_url ok cfg []))"
  by (auto simp: context_defs split: option.splits)

lemma context_steps_use:
  "\<forall>u \<in> set (snd (load_identity ok cfg [])). native_of ok a u = [UseContext a]"
  "\<forall>u \<in> set (snd (load_ca ok cfg [])). native_of ok a u = [UseContext a]"
  "\<forall>u \<in> set (snd (load_crl ok cfg [])). native_of ok a u = [UseContext a]"
  "\<forall>u \<in> set (snd (snd (set_ocsp_url ok cfg []))). native_of ok a u = [UseContext a]"
  by (auto simp: context_defs split: option.splits)

definition uses_after :: "(ctx_call \<Rightarrow> bool) \<Rightarrow> address \<Rightarrow> ctx_call list \<Rightarrow> ctx_call list \<Rightarrow> bool" where
  "uses_after ok a calls calls' \<longleftrightarrow> (\<exists>us. calls' = calls @ us \<and> (\<forall>u \<in> set us. native_of ok a u = [UseContext a]))"

lemma uses_after_refl: "uses_after ok a calls calls"
  by (auto simp: uses_after_def)

lemma uses_after_snoc: "uses_after ok a calls calls' \<Longrightarrow> native_of ok a u = [UseContext a] \<Longrightarrow> uses_after ok a calls (calls' @ [u])"
  by (auto simp: uses_after_def)

lemma uses_after_steps:
  assumes "uses_after ok a calls calls'"
  shows "load_identity ok cfg calls' = (b, c1) \<Longrightarrow> uses_after ok a calls c1"
    and "load_ca ok cfg calls' = (b, c2) \<Longrightarrow> uses_after ok a calls c2"
    and "load_crl ok cfg calls' = (b, c3) \<Longrightarrow> uses_after ok a calls c3"
    and "set_ocsp_url ok cfg calls' = (b, n, c4) \<Longrightarrow> uses_after ok a calls c4"
  using assms context_steps_append [of ok cfg calls'] context_steps_use [of ok cfg a]
  unfolding uses_after_def by (metis UnE append_assoc set_append snd_conv)+

lemma build_context_shape:
  assumes "build_context ok cfg = (r, calls)" "ok Init" "ok (CtxNew (as_server cfg))"
  shows "\<exists>calls'. uses_after ok a [Init, CtxNew (as_server cfg)] calls'
    \<and> calls = calls' @ (if is_ok r then [] else [CtxFree])"
proof -
  let ?u = "uses_after ok a [Init, CtxNew (as_server cfg)]"
  obtain b1 c1 where 1: "load_identity ok cfg [Init, CtxNew (as_server cfg)] = (b1, c1)" by (metis surj_pair)
  obtain b2 c2 where 2: "load_ca ok cfg c1 = (b2, c2)" by (metis surj_pair)
  obtain b3 c3 where 3: "load_crl ok cfg c2 = (b3, c3)" by (metis surj_pair)
  obtain b4 n c4 where 4: "set_ocsp_url ok cfg c3 = (b4, n, c4)" by (metis surj_pair)
  note u = uses_after_refl uses_after_steps(1) [OF _ 1] uses_after_steps(2) [OF _ 2] uses_after_steps(3) [OF _ 3]
    uses_after_steps(4) [OF _ 4]
  have u1: "?u c1" by (rule u(2), rule u(1))
  have u2: "?u c2" by (rule u(3), rule u1)
  have u3: "?u c3" by (rule u(4), rule u2)
  have u4: "?u c4" by (rule u(5), rule u3)
  have u5: "?u (c4 @ [EnableOcsp n])" using u4 by (rule uses_after_snoc) simp
  show ?thesis
    using assms(1) u1 u2 u3 u4 u5
    by (cases b1; cases b2; cases b3; cases b4)
      (auto simp: build_context_def assms(2,3) 1 2 3 4 fail_free_def split: if_splits)
qed

lemma build_context_not_created:
  assumes "build_context ok cfg = (r, calls)" "\<not> (ok Init \<and> ok (CtxNew (as_server cfg)))"
  shows "\<not> is_ok r \<and> concat (map (native_of ok a) calls) = []"
  using assms by (auto simp: build_context_def split: if_splits)

lemma create_local: "create_calls metadata ok cfg a = (cs, v') \<Longrightarrow> local_calls cs None v' h"
proof -
  assume c: "create_calls metadata ok cfg a = (cs, v')"
  obtain r calls where n: "dtls_new metadata ok cfg = (r, calls)" by (metis surj_pair)
  have cs: "cs = concat (map (native_of ok a) calls)"
    and v': "v' = (if is_ok r then Some \<lparr>ctx_ptr = a, ssl_ptr = None, io_ptr = None\<rparr> else None)"
    using c n by (simp_all add: create_calls_def)
  show ?thesis
  proof (cases "dtls_checks metadata cfg")
    case (Inl e)
    then have "r = Inl e \<and> calls = []" using n by (simp add: dtls_new_def)
    then show ?thesis unfolding cs v' by (simp add: local_calls_def owns_def)
  next
    case (Inr u)
    then have b: "build_context ok cfg = (r, calls)" using n by (simp add: dtls_new_def)
    show ?thesis
    proof (cases "ok Init \<and> ok (CtxNew (as_server cfg))")
      case False
      then have "\<not> is_ok r" "cs = []" using build_context_not_created [OF b False, of a] unfolding cs by blast+
      then show ?thesis unfolding v' by (simp add: local_calls_nil owns_def)
    next
      case True
      then obtain us where us: "\<forall>u \<in> set us. native_of ok a u = [UseContext a]"
        and calls: "calls = [Init, CtxNew (as_server cfg)] @ us @ (if is_ok r then [] else [CtxFree])"
        using build_context_shape [OF b, of a] by (auto simp: uses_after_def)
      have uses: "native_run (concat (map (native_of ok a) us) @ ds) (h(a \<mapsto> ContextObject)) = native_run ds (h(a \<mapsto> ContextObject))" for ds
        using us run_uses [of "h(a \<mapsto> ContextObject)" a "concat (map (native_of ok a) us)"] by (auto simp: native_run_append)
      show ?thesis
        using uses [of "[]"] uses [of "[FreeContext a]"] True unfolding cs v' calls local_calls_def
        by (auto simp: ownership_defs restrict_map_def fun_eq_iff)
    qed
  qed
qed

lemma set_socket_local:
  assumes "owns (Some p) h" "set_socket_calls created taken p = (cs, p')"
  shows "local_calls cs (Some p) (Some p') h"
  using assms
  by (auto simp: set_socket_calls_def local_calls_def free_connection_def free_box_def ownership_defs restrict_map_def
      fun_eq_iff split: option.splits if_splits)

lemma set_io_local:
  assumes "owns (Some p) h" "set_io_calls b p = (cs, p')"
  shows "local_calls cs (Some p) (Some p') h"
  using assms
  by (auto simp: set_io_calls_def local_calls_def free_box_def ownership_defs restrict_map_def
      fun_eq_iff split: option.splits if_splits)

lemma configure_local: "owns (Some p) h \<Longrightarrow> local_calls (configure_calls p) (Some p) (Some p) h"
  by (auto simp: configure_calls_def local_calls_def ownership_defs split: option.splits)

lemma run_local: "owns (Some p) h \<Longrightarrow> local_calls (run_calls succeeded p) (Some p) (Some p) h"
  by (auto simp: run_calls_def local_calls_def ownership_defs split: option.splits)

lemma certificate_local: "owns (Some p) h \<Longrightarrow> local_calls (certificate_calls x n p) (Some p) (Some p) h"
  by (auto simp: certificate_calls_def local_calls_def ownership_defs native_run_append run_certificate_uses
      restrict_map_def fun_eq_iff split: option.splits)

lemma drop_local: "owns (Some p) h \<Longrightarrow> local_calls (drop_calls p) (Some p) None h"
  by (auto simp: drop_calls_def local_calls_def free_connection_def free_box_def ownership_defs restrict_map_def
      fun_eq_iff split: option.splits)

lemmas method_local = create_local set_socket_local set_io_local configure_local run_local certificate_local drop_local

lemma event_local:
  assumes "owns v h" "event_calls e v = (cs, v')"
  shows "local_calls cs v v' h"
  using assms
  by (cases "(e, v)" rule: event_calls.cases)
    (auto intro: method_local local_calls_nil split: prod.splits)

section \<open>Many values\<close>

definition all_owned :: "(nat \<Rightarrow> dtls_pointers option) \<Rightarrow> ledger \<Rightarrow> ledger \<Rightarrow> bool" where
  "all_owned vs rest h \<longleftrightarrow>
     (\<forall>i. owns (vs i) h) \<and> (\<forall>i j. i \<noteq> j \<longrightarrow> footprint (vs i) \<inter> footprint (vs j) = {})
     \<and> h |` (- (\<Union>i. footprint (vs i))) = rest"

lemma owns_cong: "(\<And>x. x \<in> footprint v \<Longrightarrow> h' x = h x) \<Longrightarrow> owns v h \<Longrightarrow> owns v h'"
  by (auto simp: owns_def footprint_def split: option.splits)

lemma transfers_elsewhere:
  assumes "transfers v h v' h'" "x \<notin> footprint v" "h x \<noteq> None"
  shows "x \<notin> footprint v' \<and> h' x = h x"
proof -
  have "(h' |` (- footprint v')) x = h x" using assms by (simp add: transfers_def)
  then show ?thesis using assms(3) by (auto simp: restrict_map_def split: if_splits)
qed

lemma transfers_all_owned:
  assumes t: "transfers (vs i) h v' h'" and all: "all_owned vs rest h"
  shows "all_owned (vs(i := v')) rest h'"
proof -
  have other: "x \<notin> footprint v' \<and> h' x = h x" if "j \<noteq> i" "x \<in> footprint (vs j)" for j x
  proof (rule transfers_elsewhere [OF t])
    show "x \<notin> footprint (vs i)" using that all by (auto simp: all_owned_def)
    show "h x \<noteq> None" using that all owns_in_ledger [of "vs j" h] by (auto simp: all_owned_def)
  qed
  have "owns (vs j) h'" if "j \<noteq> i" for j
    by (rule owns_cong [of _ h' h]) (use other [OF that] all in \<open>auto simp: all_owned_def\<close>)
  then have owned: "owns ((vs(i := v')) j) h'" for j using t by (simp add: transfers_def)
  have apart: "footprint ((vs(i := v')) j) \<inter> footprint ((vs(i := v')) k) = {}" if "j \<noteq> k" for j k
  proof -
    have "footprint (vs j) \<inter> footprint (vs k) = {}" using that all by (simp add: all_owned_def)
    moreover have "footprint v' \<inter> footprint (vs l) = {}" if "l \<noteq> i" for l using other [OF that] by blast
    ultimately show ?thesis using that by (simp add: Int_commute)
  qed
  let ?others = "\<Union>j \<in> - {i}. footprint (vs j)"
  have un: "(\<Union>j. footprint ((vs(i := w)) j)) = footprint w \<union> ?others" for w
    by (auto split: if_splits)
  have "h' |` (- (footprint v' \<union> ?others)) = (h' |` (- footprint v')) |` (- ?others)"
    by (simp add: restrict_restrict Int_commute)
  also have "\<dots> = h |` (- (footprint (vs i) \<union> ?others))"
    using t by (simp add: transfers_def restrict_restrict Int_commute)
  also have "\<dots> = rest" using all un [of "vs i"] by (simp add: all_owned_def del: Compl_Un Compl_UN)
  finally show ?thesis using owned apart un [of v'] by (simp add: all_owned_def)
qed

lemma dtls_lives_owned:
  "dtls_lives es vs = (calls, vs') \<Longrightarrow> all_owned vs rest h \<Longrightarrow>
   case native_run calls h of Misused \<Rightarrow> False | NotFresh \<Rightarrow> True | Fine h' \<Rightarrow> all_owned vs' rest h'"
proof (induction es vs arbitrary: calls vs' h rule: dtls_lives.induct)
  case (1 vs)
  then show ?case by simp
next
  case (2 i e es vs)
  obtain cs v where e: "event_calls e (vs i) = (cs, v)" by (metis surj_pair)
  obtain cs' where es: "dtls_lives es (vs(i := v)) = (cs', vs')" and calls: "calls = cs @ cs'"
    using "2.prems"(1) e by (auto split: prod.splits)
  have "local_calls cs (vs i) v h"
    using event_local [OF _ e] "2.prems"(2) by (simp add: all_owned_def)
  moreover have "case native_run cs' h1 of Misused \<Rightarrow> False | NotFresh \<Rightarrow> True | Fine h' \<Rightarrow> all_owned vs' rest h'"
    if "transfers (vs i) h v h1" for h1
    by (rule "2.IH" [OF e [symmetric] es transfers_all_owned [OF that "2.prems"(2)]])
  ultimately show ?case
    by (cases "native_run cs h") (simp_all add: calls native_run_append local_calls_def)
qed

section \<open>Properties\<close>

text \<open>
  C3: However many connections are created, used and dropped, in whatever order their methods
  interleave and whichever of wolfSSL's calls fail, no call is made with a pointer to an object that
  was freed, nothing is freed twice, and the callbacks never run on a dropped context, as long as
  fresh memory is fresh. The objects of different connections stay apart, and what is live besides
  the objects of the live connections is exactly what was live at the start: nothing leaks, in
  particular not on the error paths of a construction or a change of socket.
\<close>

theorem dtls_memory_is_safe:
  assumes "dtls_lives es (\<lambda>_. None) = (calls, vs)" "native_run calls h \<noteq> NotFresh"
  shows "\<exists>h'. native_run calls h = Fine h' \<and> (\<forall>i. owns (vs i) h')
    \<and> (\<forall>i j. i \<noteq> j \<longrightarrow> footprint (vs i) \<inter> footprint (vs j) = {}) \<and> h' |` (- (\<Union>i. footprint (vs i))) = h"
proof -
  have "all_owned (\<lambda>_. None) h h" by (simp add: all_owned_def owns_def footprint_def restrict_map_def)
  from dtls_lives_owned [OF assms(1) this] assms(2) show ?thesis
    by (cases "native_run calls h") (auto simp: all_owned_def)
qed

text \<open>Two connections, one of which changes its socket and its callback context and is dropped.\<close>

definition example_life :: "(nat \<times> dtls_event) list" where
  "example_life =
     [(0, Create example_metadata (\<lambda>_. True) example_tls 10), (0, SetSocket (Some 11) True), (0, SetIo 12),
      (1, Create example_metadata (\<lambda>c. c \<noteq> EnableCrl) example_tls 20), (0, RunIo False),
      (1, Create example_metadata (\<lambda>_. True) example_tls 20), (1, SetSocket (Some 21) False),
      (0, SetSocket (Some 13) True), (0, SetIo 14), (0, SetIo 15), (0, ReadCertificate (Some 16) 2), (0, DropDtls),
      (1, SetSocket (Some 11) True), (1, Configure)]"

lemma example_creations:
  "create_calls example_metadata (\<lambda>_. True) example_tls a =
     (NewContext a # replicate 7 (UseContext a), Some \<lparr>ctx_ptr = a, ssl_ptr = None, io_ptr = None\<rparr>)"
  "create_calls example_metadata (\<lambda>c. c \<noteq> EnableCrl) example_tls a =
     (NewContext a # replicate 5 (UseContext a) @ [FreeContext a], None)"
proof -
  show "create_calls example_metadata (\<lambda>_. True) example_tls a =
     (NewContext a # replicate 7 (UseContext a), Some \<lparr>ctx_ptr = a, ssl_ptr = None, io_ptr = None\<rparr>)"
    by (simp add: create_calls_def example_context eval_nat_numeral)
  have "dtls_checks example_metadata example_tls = Inr ()"
    using example_context by (auto simp: dtls_new_def split: sum.splits)
  then show "create_calls example_metadata (\<lambda>c. c \<noteq> EnableCrl) example_tls a =
     (NewContext a # replicate 5 (UseContext a) @ [FreeContext a], None)"
    by (simp add: create_calls_def dtls_new_def context_defs example_tls_def eval_nat_numeral)
qed

lemma example_life_calls:
  "dtls_lives example_life (\<lambda>_. None) =
     ([NewContext 10] @ replicate 7 (UseContext 10) @ [NewConnection 10 11, UseConnection 11, NewBox 12, SetCallbacks 11 12,
       NewContext 20] @ replicate 5 (UseContext 20) @ [FreeContext 20, RunConnection 11, UseConnection 11, NewContext 20]
       @ replicate 7 (UseContext 20) @ [NewConnection 20 21, UseConnection 21, FreeConnection 21, NewConnection 10 13,
       UseConnection 13, FreeConnection 11, FreeBox 12, NewBox 14, SetCallbacks 13 14, NewBox 15, SetCallbacks 13 15,
       FreeBox 14, GetCertificate 13 16, AskCertificate 16, AskCertificate 16, FreeCertificate 16, FreeConnection 13, FreeContext 10,
       FreeBox 15, NewConnection 20 11, UseConnection 11, UseConnection 11],
      (\<lambda>_. None)(1 := Some \<lparr>ctx_ptr = 20, ssl_ptr = Some 11, io_ptr = None\<rparr>))"
  by (simp add: example_life_def example_creations set_socket_calls_def set_io_calls_def run_calls_def certificate_calls_def
      drop_calls_def configure_calls_def free_connection_def free_box_def eval_nat_numeral fun_eq_iff)

theorem dtls_memory_is_safe_witness:
  "\<exists>h. native_run (fst (dtls_lives example_life (\<lambda>_. None))) [30 \<mapsto> BoxObject] = Fine h
    \<and> owns (snd (dtls_lives example_life (\<lambda>_. None)) 1) h \<and> h |` (- {20, 11}) = [30 \<mapsto> BoxObject]"
proof -
  obtain calls vs where l: "dtls_lives example_life (\<lambda>_. None) = (calls, vs)" by (metis surj_pair)
  have vs: "vs = (\<lambda>_. None)(1 := Some \<lparr>ctx_ptr = 20, ssl_ptr = Some 11, io_ptr = None\<rparr>)"
    using l by (simp add: example_life_calls)
  have "native_run calls [30 \<mapsto> BoxObject] \<noteq> NotFresh"
    using l by (auto simp: example_life_calls allocate_def eval_nat_numeral)
  from dtls_memory_is_safe [OF l this] obtain h where h: "native_run calls [30 \<mapsto> BoxObject] = Fine h"
    "\<forall>i. owns (vs i) h" "h |` (- (\<Union>i. footprint (vs i))) = [30 \<mapsto> BoxObject]" by blast
  have "(\<Union>i. footprint (vs i)) = {20, 11}" by (auto simp: vs footprint_def split: if_splits)
  then show ?thesis using h l by auto
qed

end
