(* ===== verification/Spec2Isabelle.thy ===== *)
theory Spec2Isabelle
  imports Vpn_Control_Socket Vpn_Server_Run Vpn_Loader Vpn_Client_Life Vpn_Server_Life
    Vpn_Session_Queues Vpn_Client_Shutdown Vpn_Client_Counters Vpn_Client_Result Vpn_Synchronized Vpn_Credentials Vpn_Server_Threads
    Vpn_Duplex Vpn_Backends Vpn_Server_Start Vpn_Dtls_Memory
begin

text \<open>
  Autobricks VPN: a verification development of the Rust program under \<open>src/src/\<close>.

  \<^bold>\<open>The program.\<close> One dynamic library holds a DTLS VPN server and client; two small launchers load it.
  The server (\<open>server.rs\<close> and \<open>server/\<close>) runs six threads that share one list of sessions behind a
  mutex: the UDP reader and the TUN reader fill bounded queues, the decrypting worker admits peers,
  performs handshakes, authorises certificates, checks logins and writes client packets to the TUN
  device, the encrypting worker routes packets from the device to sessions, the UDP writer sends what
  wolfSSL produced, and the control worker expires sessions, reloads the configuration and serves the
  control socket. The client (\<open>client/\<close>) runs the mirror image of these threads around one DTLS
  connection, watches the server's liveness and reconnects.

  \<^bold>\<open>Theories\<close>, in the order of their imports, with the code they model:
  \<^item> \<open>Vpn_Prelude\<close>: I/O errors and results, time, \<open>Vec::swap_remove\<close> and \<open>retain\<close>, the locales
    \<open>step_invariant\<close> of invariants over step relations and \<open>ending_phase\<close> of phases that end;
  \<^item> \<open>Vpn_Text\<close>: the string operations of the standard library that the program calls;
  \<^item> \<open>Vpn_Ipv4\<close> (\<open>lib.rs\<close>): packet headers, CIDR arithmetic on 32-bit words, broadcast addresses, MTU;
  \<^item> \<open>Vpn_Queue\<close> (\<open>base/queue.rs\<close>): the bounded queue with reservations, a step relation of its users,
    the locale of a removable front;
  \<^item> \<open>Vpn_Worker\<close> (\<open>base/worker.rs\<close>): the three worker loops as step functions, the locales that state
    refinement to the queue's steps and that a stopped worker ends;
  \<^item> \<open>Vpn_Rate_Limit\<close> (\<open>lib.rs\<close>): handshake attempts and bans per source address;
  \<^item> \<open>Vpn_Config\<close> (\<open>lib.rs\<close>, \<open>server.rs\<close>, \<open>client/mod.rs\<close>): INI files, bindings of fingerprints to
    addresses, logins, ranges, embedded credentials, the source policy of certificates;
  \<^item> \<open>Vpn_Dtls\<close> (\<open>lib.rs\<close>): construction of the wolfSSL context, the methods of \<open>Dtls\<close>, both I/O
    callbacks, fingerprints and alternative names;
  \<^item> \<open>Vpn_Dtls_Memory\<close> (\<open>lib.rs\<close>): the native objects behind the raw pointers of \<open>Dtls\<close>, with a ledger that
    judges every native call;
  \<^item> \<open>Vpn_Synchronized\<close> (\<open>lib.rs\<close>): the mutex around a connection, access by access, as the reason why
    the other theories take an operation on a connection as one step;
  \<^item> \<open>Vpn_Callbacks\<close>: the contract that wolfSSL touches the callback context only through its
    callbacks, and what it means for the queue of encrypted datagrams;
  \<^item> \<open>Vpn_Credentials\<close> (\<open>client/mod.rs\<close>): the private files of embedded credentials and their removal;
  \<^item> \<open>Vpn_Auth\<close> (\<open>lib.rs\<close>, \<open>client/mod.rs\<close>, \<open>server/decrypt.rs\<close>): the login protocol;
  \<^item> \<open>Vpn_Session\<close>, \<open>Vpn_Sessions\<close> (\<open>server/session.rs\<close>, \<open>server/encrypt.rs\<close>, \<open>server/udp_write.rs\<close>): one
    session with its queues; the list, its invariant and the locale \<open>shrinking\<close> of operations that
    only work inside sessions or remove some;
  \<^item> \<open>Vpn_Server_Encrypt\<close>, \<open>Vpn_Server_Udp_Write\<close>, \<open>Vpn_Server_Decrypt\<close> with \<open>Vpn_Decrypt_Facts\<close>,
    \<open>Vpn_Server_Control\<close>: the four workers that use the list, each interpreted as \<open>shrinking\<close> where
    it is;
  \<^item> \<open>Vpn_Server\<close> (\<open>server.rs\<close>): every interleaving of the workers' critical sections;
  \<^item> \<open>Vpn_Session_Bounds\<close>: what a session may hold in any of them, with the locale \<open>typed_operation\<close>;
    \<open>Vpn_Session_Queues\<close> adds the encrypted queue, with the locale \<open>session_connection\<close>;
  \<^item> \<open>Vpn_Control_Socket\<close> (\<open>server/control.rs\<close>): the control socket with its pending commands, watchers and
    waiting reloads, and one turn of the control worker's loop as a refinement of \<open>Vpn_Server\<close>;
  \<^item> \<open>Vpn_System\<close> (\<open>lib.rs\<close>): the commands that configure the device, the forwarding rule and DNS, and
    what their guards undo;
  \<^item> \<open>Vpn_Server_Run\<close> (\<open>server.rs\<close>, \<open>server/socket.rs\<close>, \<open>server/udp_read.rs\<close>): the life of the server
    process around its workers;
  \<^item> \<open>Vpn_Server_Life\<close> (\<open>server.rs\<close>): how the main thread stops and joins the workers, as a step relation
    over what each of them waits for, the bounded waits and the mutex of the sessions included;
  \<^item> \<open>Vpn_Server_Threads\<close>: the reading threads of \<open>Vpn_Tun\<close> as threads of that relation, turn by turn;
  \<^item> \<open>Vpn_Server_Start\<close> (\<open>server.rs\<close>, \<open>server/control.rs\<close>, \<open>server/socket.rs\<close>): signals, the start of the
    threads, the wait of the control worker;
  \<^item> \<open>Vpn_Tun\<close> (\<open>lib.rs\<close>, \<open>server/tun_read.rs\<close>, \<open>server/udp_read.rs\<close>, \<open>server/queues.rs\<close>): device errors,
    frames, echo replies and the reading threads;
  \<^item> \<open>Vpn_Launcher\<close> (\<open>bin/common/mod.rs\<close>, \<open>lib.rs\<close>): command line, C interface, exit codes;
  \<^item> \<open>Vpn_Loader\<close> (\<open>bin/common/mod.rs\<close>): the dynamic library on Unix and Windows, what a launcher prints;
  \<^item> \<open>Vpn_Client_Workers\<close>, \<open>Vpn_Client\<close> (\<open>client/\<close>): the client's threads, its connection, its
    monitoring and reconnection;
  \<^item> \<open>Vpn_Client_Life\<close> (\<open>client/mod.rs\<close>): signals, the prompt, one connection from the start of its
    threads to their end;
  \<^item> \<open>Vpn_Client_Diagnostics\<close>, \<open>Vpn_Client_Run\<close>, \<open>Vpn_Client_Shutdown\<close>, \<open>Vpn_Client_Counters\<close>,
    \<open>Vpn_Client_Result\<close> (\<open>client/\<close>): the counters; all interleavings of the threads of one connection, built from the
    turns of \<open>Vpn_Client_Workers\<close>; that they end; what the counters say; what the
    connection ends with;
  \<^item> \<open>Vpn_Tunnel\<close>: a client and a server's session composed over a network that loses, delays, repeats
    and forges datagrams, from the client to the server's device;
  \<^item> \<open>Vpn_Duplex\<close>: the same connection in both directions at once, from the server's device to the
    client's as well, with the answers of the login on the way;
  \<^item> \<open>Vpn_Backends\<close> (\<open>linux\<close>, \<open>macos\<close>, \<open>windows\<close>, \<open>server/tun_write.rs\<close>): the platform back ends, of
    which only \<open>windows/socket.rs\<close> is part of the crate, compared with the code of \<open>lib.rs\<close>.

  \<^bold>\<open>State and operations.\<close> A struct is a record and an enum a datatype with the source's constructors;
  each method is one function that returns its result and the new state; errors are the left side
  of a sum. Peers are \<open>sockaddr\<close> records, sessions are \<open>session\<close> records in a list whose order is that
  of the \<open>Vec\<close>, \<open>HashMap\<close>s are maps or, where the code only reads them whole, association lists.
  Counters of 64 bits that saturate are natural numbers with \<open>saturating_add\<close>; generations that wrap
  are words; addresses and octets are words.

  \<^bold>\<open>Parameters.\<close> wolfSSL is the record \<open>wolfssl\<close> of the functions that are called, on an abstract state.
  The file system, the clock, sockets, the TUN device, streams, the commands of the operating system,
  the terminal, the dynamic loader, Wintun, the addresses that allocations return and the system's error
  numbers are arguments, and so is \<open>validate_tun_ipv4\<close>, which the back ends call and no file defines. No property assumes more of them than it states, and each
  property with hypotheses has a witness on concrete values.

  \<^bold>\<open>Loops.\<close> Loops over data are structural or have a measure. A loop that waits for the environment
  takes a script, one entry per turn, of what the environment answers, and returns \<open>None\<close> when the
  script is exhausted: the loop is then still running, and no bound is put on its length. The loop
  that removes the forwarding rule is a partial function, shown to end for a lawful \<open>iptables\<close>. A blocking
  call that would wait is \<open>None\<close> as well. Workers are step functions over a program counter, so other
  threads may act between any two accesses to shared state. The bounds of steps at the end, 39 for the
  server and 28 for a connection of the client, are the largest values of ranks that every step lowers.
  The server's four bounded waits (100 ms for the device's reader and for a device that takes no packet, 2 s
  for a full socket and for the acknowledgement of a reload) are steps of their own, 4.2 s in all.

  \<^bold>\<open>What is shown.\<close> The queue is first in, first out and accounts for every item in every execution;
  the worker loops refine it and end once stopped. The limiter admits fewer attempts than its limit in
  any window and a ban lasts its time. Configurations that load satisfy their ranges and bind
  addresses and fingerprints one to one. A server context demands client certificates and a failed
  construction frees the context. A session becomes established only by a handshake on its own connection with an authorised certificate, is
  logged in only by its first packet and otherwise never, and each packet that reaches the device was read from a
  logged-in session and carries that session's address; packets from the device reach only the clients they are for. In every
  interleaving of the server's workers the list of sessions stays consistent and bounded; the loop of
  the control worker only makes steps of that system, and every client of the control socket is
  answered at most once and truthfully. A session's queues and counters stay within their bounds in all
  of them, the encrypted queue if wolfSSL reaches the callback context only through its callbacks. Whatever ends the server, no forwarding rule is left, and the client's DNS settings are
  restored; once told to stop, the server stops in a bounded number of steps and, beyond computing, within its own
  timeouts of 4.2 s in all; the threads of a client's connection stop in a bounded number of steps as well,
  and their counters always agree with its queues. Operations on a connection never interleave. No embedded private key is left
  behind on the disk. No native object is used after it was freed, freed twice or leaked. The
  client's loops deliver in order, keep the connection alive, verify the server and give up exactly after an
  error of the kind permission denied (a refused login, but also a private key file that others may read or a
  system call), a stop, or a connection that ends without an error, which one race between a failing thread and
  the main thread makes happen. End to end and in both directions at once, each device receives only packets that the other
  side put in for it, each at most as often, the server's only with the client's address. Where the unused back ends agree with the code in \<open>lib.rs\<close> and where
  not is stated in lemmas of \<open>Vpn_Backends\<close>. Seven properties and three lemmas show behaviour that contradicts the intent of the code or
  its documentation; the manifest lists them as findings.

  \<^bold>\<open>Not modelled.\<close> The names of threads; log output other than the diagnostic lines; poisoning of the other mutexes,
  which the code ignores as it does that of a connection (\<open>Vpn_Synchronized\<close>); declarations of foreign functions; the texts of operating system errors; the web
  interface and the packaging scripts, which are not Rust. Closures under \<open>panic_gate\<close> return in the
  model except where a panic is the point (\<open>Vpn_Client\<close>, \<open>Vpn_Launcher\<close>). Several readings of the clock
  in one critical section or turn are one instant. \<open>Vpn_Server_Life\<close> reduces a worker to where its loop
  is and counts generations without the wrap at 64 bits. An answer on the control socket counts as given when
  it was handed to its stream: the code ignores the errors of these writes.

  \<^bold>\<open>Plan.\<close> What is left: several clients at once in \<open>Vpn_Duplex\<close>, and for the other threads of the
  server what \<open>Vpn_Server_Threads\<close> has for the readers and \<open>Vpn_Client_Run\<close> for the client.
\<close>

section \<open>Across components\<close>

text \<open>
  The README says that a full buffer of the TUN device only costs the packet, and the classification
  of device errors agrees; the decrypting worker passes the error on, which ends it.
\<close>

lemma enobufs_ends_the_server:
  assumes "kind e \<noteq> WouldBlock" "kind e \<noteq> Interrupted" "raw_os_error e = Some enobufs"
  shows "classify_tun_error enobufs e = tun_error_action.DropPacket
    \<and> write_tun_packet packet ((True, Inl e, polled) # script) = Some (Inl e)"
  using assms by (simp add: classify_tun_error_def)

end
